(* ===== verification/Kprelude.thy ===== *)
theory Kprelude
  imports Main "HOL-Library.Word"
begin

text \<open>
  Shared vocabulary of the development: the integer types of \<open>lib/defs.h\<close>, the outcome type of
  a kernel computation, the rounding helpers of \<open>lib/defs.h\<close>, the error numbers of
  \<open>lib/errno.h\<close>, and the generic lemmas on outcomes, words and lists that the component
  theories rely on.
\<close>

unbundle bit_operations_syntax

section \<open>Integer types\<close>

type_synonym u8 = "8 word"
type_synonym u16 = "16 word"
type_synonym u32 = "32 word"
type_synonym u64 = "64 word"

named_theorems exec_simps \<open>rewriting of kernel computations\<close>
named_theorems const_defs \<open>the numeric constants of the headers\<close>

section \<open>Outcomes of a kernel computation\<close>

text \<open>
  \<open>ASSERT\<close> and \<open>PANIC\<close> stop the machine (\<open>kernel/lib/assert.c\<close>), and so does an access
  through \<open>NULL\<close>; \<open>Overflow\<close> stands for a write past the end of an array, which C leaves undefined.
  A computation that never returns is \<open>None\<close>; one that stops the machine is
  \<open>Some (Inl c)\<close>; one that returns is \<open>Some (Inr x)\<close>.
\<close>

datatype crash = Panic | NullDeref | Overflow

type_synonym 'a exec = "(crash + 'a) option"

abbreviation ret :: "'a \<Rightarrow> 'a exec" where
  "ret x \<equiv> Some (Inr x)"

abbreviation panic :: "'a exec" where
  "panic \<equiv> Some (Inl Panic)"

abbreviation null_deref :: "'a exec" where
  "null_deref \<equiv> Some (Inl NullDeref)"

abbreviation overflow :: "'a exec" where
  "overflow \<equiv> Some (Inl Overflow)"

definition bind_exec :: "'a exec \<Rightarrow> ('a \<Rightarrow> 'b exec) \<Rightarrow> 'b exec" where
  "bind_exec m f =
     (case m of None \<Rightarrow> None
      | Some r \<Rightarrow> (case r of Inl c \<Rightarrow> Some (Inl c) | Inr x \<Rightarrow> f x))"

text \<open>\<open>ASSERT(b); k\<close>\<close>

definition assert_then :: "bool \<Rightarrow> 'a exec \<Rightarrow> 'a exec" where
  "assert_then b k = (if b then k else panic)"

definition returns :: "'a exec \<Rightarrow> bool" where
  "returns m \<longleftrightarrow> (\<exists>x. m = ret x)"

lemma bind_exec_ret [simp, exec_simps]: "bind_exec (ret x) f = f x"
  by (simp add: bind_exec_def)

lemma bind_exec_crash [simp, exec_simps]: "bind_exec (Some (Inl c)) f = Some (Inl c)"
  by (simp add: bind_exec_def)

lemma bind_exec_none [simp, exec_simps]: "bind_exec None f = None"
  by (simp add: bind_exec_def)

lemma assert_then_simps [simp, exec_simps]:
  "assert_then True k = k"
  "assert_then False k = panic"
  by (simp_all add: assert_then_def)

lemma bind_exec_cong: "(\<And>x. f x = g x) \<Longrightarrow> bind_exec m f = bind_exec m g"
  by presburger

lemma bind_exec_eq_ret:
  "bind_exec m f = ret y \<longleftrightarrow> (\<exists>x. m = ret x \<and> f x = ret y)"
  by (auto simp: bind_exec_def split: option.splits sum.splits)

lemma assert_then_eq_ret:
  "assert_then b k = ret y \<longleftrightarrow> b \<and> k = ret y"
  by (simp add: assert_then_def)

lemmas exec_elims = bind_exec_eq_ret assert_then_eq_ret

lemma bind_exec_assoc:
  "bind_exec (bind_exec m f) g = bind_exec m (\<lambda>x. bind_exec (f x) g)"
  by (auto simp: bind_exec_def split: option.splits sum.splits)

lemma returnsI [intro]: "m = ret x \<Longrightarrow> returns m"
  by (auto simp: returns_def)

text \<open>The outcome monad is monotone, so that loops may be defined through it.\<close>

lemma bind_exec_mono [partial_function_mono]:
  assumes m: "mono_option m" and f: "\<And>y. mono_option (\<lambda>g. f y g)"
  shows "mono_option (\<lambda>g. bind_exec (m g) (\<lambda>y. f y g))"
proof -
  have eq: "bind_exec (m g) (\<lambda>y. f y g) =
      Option.bind (m g) (\<lambda>r. case r of Inl c \<Rightarrow> Some (Inl c) | Inr x \<Rightarrow> f x g)" for g
    by (simp add: bind_exec_def split: option.splits)
  have "mono_option (\<lambda>g. case r of Inl c \<Rightarrow> Some (Inl c) | Inr x \<Rightarrow> f x g)" for r
    using f by (cases r) (auto intro: monotoneI simp: option.leq_refl)
  then show ?thesis
    unfolding eq by (intro bind_mono m)
qed

lemma assert_then_mono [partial_function_mono]:
  "mono_option f \<Longrightarrow> mono_option (\<lambda>g. assert_then b (f g))"
  by (cases b) (auto intro: monotoneI simp: option.leq_refl)

section \<open>Rounding (lib/defs.h)\<close>

definition rounddown :: "u64 \<Rightarrow> u64 \<Rightarrow> u64" where
  "rounddown a n = (a div n) * n"

definition roundup :: "u64 \<Rightarrow> u64 \<Rightarrow> u64" where
  "roundup a n = ((a + n - 1) div n) * n"

lemma unat_u64_bound: "unat (a :: u64) < 2 ^ 64"
  using unsigned_less [of a, where ?'a = nat] by simp

lemma unat_u32_bound: "unat (a :: u32) < 2 ^ 32"
  using unsigned_less [of a, where ?'a = nat] by simp

lemma unat_of_nat_u64: "n < 2 ^ 64 \<Longrightarrow> unat (of_nat n :: u64) = n"
  by (simp add: unsigned_of_nat take_bit_nat_eq_self)

lemma unat_of_nat_u32: "n < 2 ^ 32 \<Longrightarrow> unat (of_nat n :: u32) = n"
  by (simp add: unsigned_of_nat take_bit_nat_eq_self)

lemma unat_ucast_u32_u64 [simp]: "unat (ucast (x :: u32) :: u64) = unat x"
  by (simp add: unsigned_ucast_eq take_bit_nat_eq_self unat_u32_bound [THEN less_trans])

lemma unat_ucast_u64_u32: "unat x < 2 ^ 32 \<Longrightarrow> unat (ucast (x :: u64) :: u32) = unat x"
  by (simp add: unsigned_ucast_eq take_bit_nat_eq_self)

lemma unat_rounddown: "unat (rounddown a n) = unat a div unat n * unat n"
proof -
  have "unat a div unat n * unat n < 2 ^ 64"
    by (rule le_less_trans [OF div_times_less_eq_dividend unat_u64_bound])
  then show ?thesis
    by (simp add: rounddown_def unat_word_ariths mod_simps)
qed

lemma unat_roundup:
  assumes "0 < n" and "unat a + unat n \<le> 2 ^ 64"
  shows "unat (roundup a n) = (unat a + unat n - 1) div unat n * unat n"
proof -
  have n: "0 < unat n"
    using assms(1) by (simp add: word_greater_zero_iff unat_gt_0)
  have eq: "a + n - 1 = of_nat (unat a + unat n - 1)"
    using n by (simp add: of_nat_diff)
  have "unat (a + n - 1) = unat a + unat n - 1"
    unfolding eq using assms(2) n by (subst unat_of_nat_u64) auto
  moreover have "(unat a + unat n - 1) div unat n * unat n < 2 ^ 64"
    using assms(2) n by (intro le_less_trans [OF div_times_less_eq_dividend]) linarith
  ultimately show ?thesis
    by (simp add: roundup_def unat_mult_lem [THEN iffD1] unat_div)
qed

section \<open>Error numbers (lib/errno.h)\<close>

definition E_UNSPECIFIED :: int where [const_defs]: "E_UNSPECIFIED = 1"
definition E_BAD_PROC :: int where [const_defs]: "E_BAD_PROC = 2"
definition E_INVAL :: int where [const_defs]: "E_INVAL = 3"
definition E_NO_MEM :: int where [const_defs]: "E_NO_MEM = 4"
definition E_NO_FREE_PROC :: int where [const_defs]: "E_NO_FREE_PROC = 5"
definition E_INVAL_ELF :: int where [const_defs]: "E_INVAL_ELF = 8"
definition E_KILLED :: int where [const_defs]: "E_KILLED = 9"
definition E_NO_DEV :: int where [const_defs]: "E_NO_DEV = 13"

end
