(* ===== verification/Klist.thy ===== *)
theory Klist
  imports Kprelude
begin

text \<open>
  The intrusive circular doubly linked list of \<open>kernel/lib/list.h\<close>. The \<open>prev\<close> and \<open>next\<close>
  fields of all \<open>struct list\<close> objects of one kind are two functions on node addresses; the
  operations update them in the order of the C assignments. \<open>dlist L h xs\<close> says that the nodes
  \<open>xs\<close>, in this order, are linked into the ring whose header is \<open>h\<close>. The lemmas show what
  insertion and deletion do to the sequence, and that rings on other nodes are not touched.
\<close>

section \<open>The operations\<close>

record 'a links =
  prv :: "'a \<Rightarrow> 'a"
  nxt :: "'a \<Rightarrow> 'a"

text \<open>
  A node is the header of a list or the link field embedded in an object. Headers are static
  variables below \<open>end\<close> and objects lie above it, which is the order of addresses.
\<close>

datatype ('h, 'n) lnode = LHead 'h | LNode 'n

instantiation lnode :: (linorder, linorder) linorder
begin

fun less_eq_lnode :: "('a, 'b) lnode \<Rightarrow> ('a, 'b) lnode \<Rightarrow> bool" where
  "less_eq_lnode (LHead a) (LHead b) = (a \<le> b)"
| "less_eq_lnode (LHead a) (LNode y) = True"
| "less_eq_lnode (LNode x) (LHead b) = False"
| "less_eq_lnode (LNode x) (LNode y) = (x \<le> y)"

definition less_lnode :: "('a, 'b) lnode \<Rightarrow> ('a, 'b) lnode \<Rightarrow> bool" where
  "less_lnode x y \<longleftrightarrow> x \<le> y \<and> \<not> y \<le> x"

instance
proof
  fix x y z :: "('a, 'b) lnode"
  show "(x < y) = (x \<le> y \<and> \<not> y \<le> x)" by (rule less_lnode_def)
  show "x \<le> x" by (cases x) auto
  show "x \<le> y \<Longrightarrow> y \<le> z \<Longrightarrow> x \<le> z" by (cases x; cases y; cases z) auto
  show "x \<le> y \<Longrightarrow> y \<le> x \<Longrightarrow> x = y" by (cases x; cases y) auto
  show "x \<le> y \<or> y \<le> x" by (cases x; cases y) auto
qed

end

definition init_list :: "'a \<Rightarrow> 'a links \<Rightarrow> 'a links" where
  "init_list x L = L\<lparr>prv := (prv L)(x := x), nxt := (nxt L)(x := x)\<rparr>"

definition list_empty :: "'a links \<Rightarrow> 'a \<Rightarrow> bool" where
  "list_empty L x \<longleftrightarrow> x = prv L x \<and> x = nxt L x"

definition add_list :: "'a \<Rightarrow> 'a \<Rightarrow> 'a \<Rightarrow> 'a links \<Rightarrow> 'a links" where
  "add_list prev next entry L =
     (let L1 = L\<lparr>prv := (prv L)(next := entry)\<rparr>;
          L2 = L1\<lparr>nxt := (nxt L1)(prev := entry)\<rparr>;
          L3 = L2\<lparr>prv := (prv L2)(entry := prev)\<rparr>
      in L3\<lparr>nxt := (nxt L3)(entry := next)\<rparr>)"

definition del_list :: "'a \<Rightarrow> 'a links \<Rightarrow> 'a links" where
  "del_list x L =
     (let L1 = L\<lparr>nxt := (nxt L)(prv L x := nxt L x)\<rparr>
      in L1\<lparr>prv := (prv L1)(nxt L1 x := prv L1 x)\<rparr>)"

lemma less_lnode_simps [simp]:
  "LHead a < LHead b \<longleftrightarrow> a < b"
  "LHead a < LNode y"
  "\<not> LNode x < LHead b"
  "LNode x < LNode y \<longleftrightarrow> x < y"
  by (auto simp: less_lnode_def)

section \<open>Rings as sequences\<close>

fun lseg :: "'a links \<Rightarrow> 'a \<Rightarrow> 'a list \<Rightarrow> 'a \<Rightarrow> bool" where
  "lseg L a [] b \<longleftrightarrow> nxt L a = b \<and> prv L b = a"
| "lseg L a (x # xs) b \<longleftrightarrow> nxt L a = x \<and> prv L x = a \<and> lseg L x xs b"

definition dlist :: "'a links \<Rightarrow> 'a \<Rightarrow> 'a list \<Rightarrow> bool" where
  "dlist L h xs \<longleftrightarrow> distinct (h # xs) \<and> lseg L h xs h"

text \<open>The nodes met by \<open>while ((list = list->next) != h)\<close> started at \<open>x\<close>.\<close>

partial_function (option) list_walk :: "'a links \<Rightarrow> 'a \<Rightarrow> 'a \<Rightarrow> 'a list option" where
  "list_walk L h x =
     (if nxt L x = h then Some []
      else Option.bind (list_walk L h (nxt L x)) (\<lambda>xs. Some (nxt L x # xs)))"

lemma lseg_append: "lseg L a (xs @ y # ys) b \<longleftrightarrow> lseg L a xs y \<and> lseg L y ys b"
  by (induction xs arbitrary: a) auto

lemma lseg_nxt: "lseg L a xs b \<Longrightarrow> nxt L a = hd (xs @ [b])"
  by (cases xs) auto

lemma lseg_prv: "lseg L a xs b \<Longrightarrow> prv L b = last (a # xs)"
  by (induction xs arbitrary: a) auto

lemma lseg_cong:
  "(\<And>x. x \<in> set (a # xs) \<Longrightarrow> nxt L x = nxt L' x) \<Longrightarrow>
   (\<And>x. x \<in> set (xs @ [b]) \<Longrightarrow> prv L x = prv L' x) \<Longrightarrow>
   lseg L a xs b = lseg L' a xs b"
  by (induction xs arbitrary: a) auto

lemma lseg_nxt_upd [simp]:
  "p \<notin> set (a # xs) \<Longrightarrow> lseg (L\<lparr>nxt := (nxt L)(p := v)\<rparr>) a xs b = lseg L a xs b"
  by (rule lseg_cong) auto

lemma lseg_prv_upd [simp]:
  "p \<notin> set (xs @ [b]) \<Longrightarrow> lseg (L\<lparr>prv := (prv L)(p := v)\<rparr>) a xs b = lseg L a xs b"
  by (rule lseg_cong) auto

lemma dlist_distinct: "dlist L h xs \<Longrightarrow> distinct xs \<and> h \<notin> set xs"
  by (simp add: dlist_def)

lemma dlist_nxt_head: "dlist L h xs \<Longrightarrow> nxt L h = hd (xs @ [h])"
  by (auto simp: dlist_def dest: lseg_nxt)

lemma dlist_prv_head: "dlist L h xs \<Longrightarrow> prv L h = last (h # xs)"
  unfolding dlist_def by (blast dest: lseg_prv)

lemma dlist_nxt: "dlist L h (xs @ x # ys) \<Longrightarrow> nxt L x = hd (ys @ [h])"
  by (auto simp: dlist_def lseg_append dest: lseg_nxt)

lemma dlist_nxt_last: "dlist L h (us @ ws) \<Longrightarrow> nxt L (last (h # us)) = hd (ws @ [h])"
  using dlist_nxt_head [of L h ws] dlist_nxt [of L h "butlast us" "last us" ws]
  by (cases us rule: rev_cases) auto

lemma dlist_prv: "dlist L h (xs @ x # ys) \<Longrightarrow> prv L x = last (h # xs)"
  unfolding dlist_def lseg_append by (blast dest: lseg_prv)

lemma dlist_list_empty: "dlist L h xs \<Longrightarrow> list_empty L h \<longleftrightarrow> xs = []"
  by (cases xs) (auto simp: dlist_def list_empty_def)

lemma dlist_init: "dlist (init_list h L) h []"
  by (simp add: dlist_def init_list_def)

lemma lseg_unique: "lseg L a xs b \<Longrightarrow> lseg L a ys b \<Longrightarrow> b \<notin> set xs \<Longrightarrow> b \<notin> set ys \<Longrightarrow> xs = ys"
proof (induction xs arbitrary: a ys)
  case Nil
  then show ?case by (cases ys) auto
next
  case (Cons x xs)
  then show ?case by (cases ys) auto
qed

lemma dlist_unique: "dlist L h xs \<Longrightarrow> dlist L h ys \<Longrightarrow> xs = ys"
  by (auto simp: dlist_def intro: lseg_unique)

lemma dlist_cong:
  "(\<And>x. x \<in> set (h # xs) \<Longrightarrow> nxt L x = nxt L' x) \<Longrightarrow>
   (\<And>x. x \<in> set (h # xs) \<Longrightarrow> prv L x = prv L' x) \<Longrightarrow>
   dlist L h xs = dlist L' h xs"
  unfolding dlist_def by (intro conj_cong refl lseg_cong) auto

section \<open>Insertion and deletion\<close>

lemma add_list_sel:
  assumes "entry \<noteq> prev" "entry \<noteq> next"
  shows "nxt (add_list prev next entry L) = (nxt L)(prev := entry, entry := next)"
    and "prv (add_list prev next entry L) = (prv L)(next := entry, entry := prev)"
  using assms by (auto simp: add_list_def Let_def fun_eq_iff)

lemma dlist_add:
  assumes d: "dlist L h (xs @ ys)" and e: "e \<notin> set (h # xs @ ys)"
  shows "dlist (add_list (last (h # xs)) (hd (ys @ [h])) e L) h (xs @ e # ys)"
proof -
  define p where "p = last (h # xs)"
  define n where "n = hd (ys @ [h])"
  define L' where "L' = add_list p n e L"
  have p: "p \<in> set (h # xs)" "p \<noteq> e"
    using e last_in_set [of "h # xs"] by (auto simp: p_def simp del: last.simps)
  have n: "n \<in> set (ys @ [h])" "n \<noteq> e"
    using e by (cases ys; auto simp: n_def)+
  have sel: "nxt L' = (nxt L)(p := e, e := n)" "prv L' = (prv L)(n := e, e := p)"
    using p n by (auto simp: L'_def add_list_sel)
  have dist: "distinct (h # xs @ e # ys)"
    using d e by (auto simp: dlist_def)
  have left: "lseg L' h xs e"
  proof (cases xs rule: rev_cases)
    case Nil
    then show ?thesis using sel p n by (simp add: p_def)
  next
    case (snoc us u)
    have "lseg L h us u"
      using d snoc by (simp add: dlist_def lseg_append)
    moreover have "lseg L' h us u = lseg L h us u"
      using dist snoc n by (intro lseg_cong) (auto simp: sel p_def n_def hd_append split: if_splits)
    ultimately show ?thesis
      using snoc sel p n by (simp add: lseg_append p_def)
  qed
  have right: "lseg L' e ys h"
  proof (cases ys)
    case Nil
    then show ?thesis using sel p n by (simp add: n_def)
  next
    case (Cons v vs)
    have "lseg L v vs h"
      using d Cons by (simp add: dlist_def lseg_append)
    moreover have "lseg L' v vs h = lseg L v vs h"
      using dist Cons p by (intro lseg_cong) (auto simp: sel n_def)
    ultimately show ?thesis
      using Cons sel p n by (simp add: n_def)
  qed
  show ?thesis
    using left right dist unfolding L'_def p_def n_def by (simp add: dlist_def lseg_append)
qed

lemma dlist_add_front:
  "dlist L h xs \<Longrightarrow> e \<notin> set (h # xs) \<Longrightarrow> dlist (add_list h (nxt L h) e L) h (e # xs)"
  using dlist_add [of L h "[]" xs e] by (simp add: dlist_nxt_head)

lemma dlist_del:
  assumes d: "dlist L h (xs @ x # ys)"
  shows "dlist (del_list x L) h (xs @ ys)"
proof -
  define p where "p = last (h # xs)"
  define n where "n = hd (ys @ [h])"
  have pn: "prv L x = p" "nxt L x = n"
    using dlist_prv [OF d] dlist_nxt [OF d] by (auto simp: p_def n_def)
  have dist: "distinct (h # xs @ x # ys)"
    using d by (simp add: dlist_def)
  have p: "p \<in> set (h # xs)" "p \<noteq> x"
    using dist last_in_set [of "h # xs"] by (auto simp: p_def simp del: last.simps)
  have n: "n \<in> set (ys @ [h])"
    by (cases ys) (auto simp: n_def)
  have sel: "nxt (del_list x L) = (nxt L)(p := n)" "prv (del_list x L) = (prv L)(n := p)"
    using p pn by (auto simp: del_list_def Let_def)
  define L' where "L' = del_list x L"
  have lr: "lseg L h xs x" "lseg L x ys h"
    using d by (auto simp: dlist_def lseg_append)
  have "lseg L' h (xs @ ys) h"
  proof (cases ys)
    case Nil
    show ?thesis
    proof (cases xs rule: rev_cases)
      case Nil
      with \<open>ys = []\<close> show ?thesis by (simp add: L'_def sel p_def n_def)
    next
      case (snoc us u)
      then have "lseg L h us u" using lr by (simp add: lseg_append)
      moreover have "lseg L' h us u = lseg L h us u"
        using dist snoc Nil by (intro lseg_cong) (auto simp: L'_def sel p_def n_def)
      ultimately show ?thesis
        using Nil snoc by (simp add: lseg_append L'_def sel p_def n_def)
    qed
  next
    case (Cons v vs)
    then have "lseg L v vs h" using lr by simp
    moreover have "lseg L' v vs h = lseg L v vs h"
      using dist Cons p by (intro lseg_cong) (auto simp: L'_def sel n_def)
    moreover have "lseg L' h xs v"
    proof (cases xs rule: rev_cases)
      case Nil
      with Cons show ?thesis by (simp add: L'_def sel p_def n_def)
    next
      case (snoc us u)
      then have "lseg L h us u" using lr by (simp add: lseg_append)
      moreover have "lseg L' h us u = lseg L h us u"
        using dist snoc Cons by (intro lseg_cong) (auto simp: L'_def sel p_def n_def)
      ultimately show ?thesis
        using Cons snoc by (simp add: lseg_append L'_def sel p_def n_def)
    qed
    ultimately show ?thesis
      using Cons by (simp add: lseg_append)
  qed
  then show ?thesis
    using dist by (auto simp: dlist_def L'_def)
qed

text \<open>Rings that do not contain the nodes involved are left alone.\<close>

lemma dlist_add_other:
  assumes "dlist L h xs" "{p, n, e} \<inter> set (h # xs) = {}"
  shows "dlist (add_list p n e L) h xs"
proof -
  have "dlist (add_list p n e L) h xs = dlist L h xs"
    using assms(2) by (intro dlist_cong) (auto simp: add_list_def Let_def)
  with assms(1) show ?thesis by simp
qed

lemma dlist_del_other:
  assumes "dlist L h xs" "{prv L x, nxt L x} \<inter> set (h # xs) = {}"
  shows "dlist (del_list x L) h xs"
proof -
  have "dlist (del_list x L) h xs = dlist L h xs"
    using assms(2) by (intro dlist_cong) (auto simp: del_list_def Let_def)
  with assms(1) show ?thesis by simp
qed

lemma dlist_init_other:
  assumes "dlist L h xs" "x \<notin> set (h # xs)"
  shows "dlist (init_list x L) h xs"
proof -
  have "dlist (init_list x L) h xs = dlist L h xs"
    using assms(2) by (intro dlist_cong) (auto simp: init_list_def)
  with assms(1) show ?thesis by simp
qed

text \<open>After a deletion the links of the removed node itself are as before.\<close>

lemma del_list_self:
  assumes "dlist L h (xs @ x # ys)"
  shows "prv (del_list x L) x = last (h # xs)" and "nxt (del_list x L) x = hd (ys @ [h])"
proof -
  have "last (h # xs) \<noteq> x"
    using assms last_in_set [of "h # xs"] by (auto simp: dlist_def simp del: last.simps)
  moreover have "hd (ys @ [h]) \<noteq> x"
    using assms by (cases ys) (auto simp: dlist_def)
  ultimately show "prv (del_list x L) x = last (h # xs)" "nxt (del_list x L) x = hd (ys @ [h])"
    using dlist_prv [OF assms] dlist_nxt [OF assms] by (auto simp: del_list_def Let_def)
qed

lemma dlist_member_not_empty: "dlist L h (xs @ x # ys) \<Longrightarrow> \<not> list_empty L x"
  using dlist_nxt [of L h xs x ys] by (cases ys) (auto simp: list_empty_def dlist_def)

text \<open>\<open>del_list\<close> followed by \<open>init_list\<close>: the node becomes a ring of its own.\<close>

lemma dlist_del_init:
  assumes "dlist L h (xs @ x # ys)"
  shows "dlist (init_list x (del_list x L)) h (xs @ ys)"
  using assms dlist_distinct [OF assms] by (intro dlist_init_other dlist_del) auto

lemma list_empty_init: "list_empty (init_list x L) x"
  by (simp add: list_empty_def init_list_def)

lemma list_walk_lseg:
  "lseg L a xs h \<Longrightarrow> h \<notin> set xs \<Longrightarrow> list_walk L h a = Some xs"
  by (induction xs arbitrary: a) (subst list_walk.simps, auto)+

lemma list_walk_dlist: "dlist L h xs \<Longrightarrow> list_walk L h h = Some xs"
  by (auto simp: dlist_def intro: list_walk_lseg)

end
