(* ===== verification/Page_Layout.thy ===== *)
theory Page_Layout
  imports Klist
begin

text \<open>
  The memory layout of \<open>kernel/mm/memlayout.h\<close>, the Sv39 address fields, the page table entry
  bits and \<open>struct page\<close> of \<open>kernel/mm/page.h\<close>, and the conversions between page descriptors,
  page numbers, physical and kernel virtual addresses of \<open>kernel/mm/pmm.h\<close>. A
  \<open>struct page *\<close> is its index in the array \<open>g_pages\<close>.
\<close>

unbundle bit_operations_syntax

section \<open>Memory layout (memlayout.h)\<close>

definition PAGE_SHIFT :: nat where [const_defs]: "PAGE_SHIFT = 12"
definition PAGE_SIZE :: u64 where [const_defs]: "PAGE_SIZE = 0x1000"
definition KERNEL_STACK_PAGE :: u64 where [const_defs]: "KERNEL_STACK_PAGE = 2"
definition KERNEL_STACK_SIZE :: u64 where [const_defs]: "KERNEL_STACK_SIZE = 0x2000"
definition VA_PA_OFFSET :: u64 where [const_defs]: "VA_PA_OFFSET = 0xFFFFFFFF00000000"
definition DRAM_BEGIN_PA :: u64 where [const_defs]: "DRAM_BEGIN_PA = 0x80000000"
definition DRAM_BEGIN_VA :: u64 where [const_defs]: "DRAM_BEGIN_VA = DRAM_BEGIN_PA + VA_PA_OFFSET"
definition DRAM_END_PA :: u64 where [const_defs]: "DRAM_END_PA = 0x88000000"
definition DRAM_END_VA :: u64 where [const_defs]: "DRAM_END_VA = DRAM_END_PA + VA_PA_OFFSET"
definition KERNEL_BEGIN_PA :: u64 where [const_defs]: "KERNEL_BEGIN_PA = 0x80200000"
definition KERNEL_BEGIN_VA :: u64 where
  [const_defs]: "KERNEL_BEGIN_VA = KERNEL_BEGIN_PA + VA_PA_OFFSET"
definition KERNEL_END_PA :: u64 where [const_defs]: "KERNEL_END_PA = 0x82000000"
definition KERNEL_END_VA :: u64 where [const_defs]: "KERNEL_END_VA = KERNEL_END_PA + VA_PA_OFFSET"
definition USER_BEGIN :: u64 where [const_defs]: "USER_BEGIN = 0x00200000"
definition USER_END :: u64 where [const_defs]: "USER_END = 0x80000000"
definition USER_STACK_SIZE :: u64 where [const_defs]: "USER_STACK_SIZE = 256 * PAGE_SIZE"
definition USER_STACK_END :: u64 where [const_defs]: "USER_STACK_END = USER_END"
definition USER_STACK_BEGIN :: u64 where
  [const_defs]: "USER_STACK_BEGIN = USER_STACK_END - USER_STACK_SIZE"

definition kernel_access :: "u64 \<Rightarrow> u64 \<Rightarrow> bool" where
  "kernel_access b e \<longleftrightarrow> KERNEL_BEGIN_VA \<le> b \<and> b < e \<and> e \<le> KERNEL_END_VA"

definition user_access :: "u64 \<Rightarrow> u64 \<Rightarrow> bool" where
  "user_access b e \<longleftrightarrow> USER_BEGIN \<le> b \<and> b < e \<and> e \<le> USER_END"

definition pa2va :: "u64 \<Rightarrow> u64 exec" where
  "pa2va pa = assert_then (DRAM_BEGIN_PA < pa \<and> pa < DRAM_END_PA) (ret (pa + VA_PA_OFFSET))"

definition va2pa :: "u64 \<Rightarrow> u64 exec" where
  "va2pa va = assert_then (DRAM_BEGIN_VA < va \<and> va < DRAM_END_VA) (ret (va - VA_PA_OFFSET))"

section \<open>Sv39 addresses and page table entries (page.h)\<close>

definition PT_SHIFT :: nat where [const_defs]: "PT_SHIFT = 9"
definition PT_SIZE :: u64 where [const_defs]: "PT_SIZE = 512"
definition PTX_SHIFT :: nat where [const_defs]: "PTX_SHIFT = 12"
definition MPTX_SHIFT :: nat where [const_defs]: "MPTX_SHIFT = PTX_SHIFT + PT_SHIFT"
definition GPTX_SHIFT :: nat where [const_defs]: "GPTX_SHIFT = MPTX_SHIFT + PT_SHIFT"

definition get_ptx :: "u64 \<Rightarrow> u64" where
  "get_ptx addr = drop_bit PTX_SHIFT addr AND 0x1FF"

definition get_mptx :: "u64 \<Rightarrow> u64" where
  "get_mptx addr = drop_bit MPTX_SHIFT addr AND 0x1FF"

definition get_gptx :: "u64 \<Rightarrow> u64" where
  "get_gptx addr = drop_bit GPTX_SHIFT addr AND 0x1FF"

definition get_offset :: "u64 \<Rightarrow> u64" where
  "get_offset addr = addr AND 0xFFF"

definition ptx2addr :: "u64 \<Rightarrow> u64 \<Rightarrow> u64 \<Rightarrow> u64 \<Rightarrow> u64" where
  "ptx2addr gptx mptx ptx off =
     push_bit GPTX_SHIFT gptx OR push_bit MPTX_SHIFT mptx OR push_bit PTX_SHIFT ptx OR off"

definition PTE_V :: u64 where [const_defs]: "PTE_V = 0x001"
definition PTE_R :: u64 where [const_defs]: "PTE_R = 0x002"
definition PTE_W :: u64 where [const_defs]: "PTE_W = 0x004"
definition PTE_X :: u64 where [const_defs]: "PTE_X = 0x008"
definition PTE_U :: u64 where [const_defs]: "PTE_U = 0x010"
definition PTE_USER :: u64 where
  [const_defs]: "PTE_USER = PTE_V OR PTE_R OR PTE_W OR PTE_X OR PTE_U"
definition PTE_SHIFT :: nat where [const_defs]: "PTE_SHIFT = 10"

text \<open>
  \<open>struct page\<close>; the link fields \<open>free_link\<close> and \<open>pra_link\<close> live in the link heaps of
  the lists they belong to.
\<close>

record page =
  page_ref :: u32
  page_flags :: u32
  page_property :: u32
  page_pra_addr :: u64

definition PAGE_RESERVED :: u32 where [const_defs]: "PAGE_RESERVED = 0x00000001"
definition PAGE_PROPERTY :: u32 where [const_defs]: "PAGE_PROPERTY = 0x00000002"

section \<open>Page counts and conversions (pmm.c, pmm.h)\<close>

definition g_num_qemu_pages :: u64 where "g_num_qemu_pages = DRAM_BEGIN_PA div PAGE_SIZE"

definition g_num_kernel_pages :: u64 where
  "g_num_kernel_pages = (KERNEL_END_VA - DRAM_BEGIN_VA) div PAGE_SIZE"

definition g_num_free_pages :: u64 where
  "g_num_free_pages = (USER_END - USER_BEGIN) div PAGE_SIZE"

definition ppn_managed :: "u64 \<Rightarrow> bool" where
  "ppn_managed ppn \<longleftrightarrow> g_num_qemu_pages + g_num_kernel_pages \<le> ppn \<and>
     ppn < g_num_qemu_pages + g_num_kernel_pages + g_num_free_pages"

definition page2ppn :: "nat \<Rightarrow> u64 exec" where
  "page2ppn page = (let ppn = of_nat page in assert_then (ppn_managed ppn) (ret ppn))"

definition page2pa :: "nat \<Rightarrow> u64 exec" where
  "page2pa page = bind_exec (page2ppn page) (\<lambda>ppn. ret (push_bit PAGE_SHIFT ppn))"

definition page2va :: "nat \<Rightarrow> u64 exec" where
  "page2va page = bind_exec (page2pa page) pa2va"

definition pa2page :: "u64 \<Rightarrow> nat exec" where
  "pa2page pa = (let ppn = drop_bit PAGE_SHIFT pa in assert_then (ppn_managed ppn) (ret (unat ppn)))"

definition va2page :: "u64 \<Rightarrow> nat exec" where
  "va2page va = bind_exec (va2pa va) pa2page"

definition ppn2pte :: "u64 \<Rightarrow> u32 \<Rightarrow> u64" where
  "ppn2pte ppn flags = push_bit PTE_SHIFT ppn OR ucast flags"

definition pte2ppn :: "u64 \<Rightarrow> u64" where
  "pte2ppn pte = drop_bit PTE_SHIFT pte"

definition pte2page :: "u64 \<Rightarrow> nat exec" where
  "pte2page pte = assert_then (pte AND PTE_V \<noteq> 0) (ret (unat (pte2ppn pte)))"

definition pte2va :: "u64 \<Rightarrow> u64 exec" where
  "pte2va pte = bind_exec (pte2page pte) page2va"

lemma page_counts [simp]:
  "g_num_qemu_pages = 0x80000"
  "g_num_kernel_pages = 0x2000"
  "g_num_free_pages = 0x7FE00"
  by (simp_all add: g_num_qemu_pages_def g_num_kernel_pages_def g_num_free_pages_def const_defs)

end
