(* ===== verification/Pm_Manager.thy ===== *)
theory Pm_Manager
  imports Page_Layout
begin

text \<open>
  The interface \<open>struct pm_manager\<close> of \<open>kernel/mm/pmm.h\<close>: the operations a physical page
  manager implements and what \<open>kernel/mm/pmm.c\<close> relies on. \<open>frees s\<close> is the set of free page
  indices, \<open>usable s i\<close> says that page \<open>i\<close> is managed and not reserved, and \<open>invar\<close> is the
  manager's own invariant.
\<close>

section \<open>The contract\<close>

locale pm_manager =
  fixes init :: "'s \<Rightarrow> 's"
    and init_memmap :: "nat \<Rightarrow> u64 \<Rightarrow> 's \<Rightarrow> 's exec"
    and alloc :: "u64 \<Rightarrow> 's \<Rightarrow> (nat option \<times> 's) exec"
    and dealloc :: "nat \<Rightarrow> u64 \<Rightarrow> 's \<Rightarrow> 's exec"
    and count_free :: "'s \<Rightarrow> u64"
    and invar :: "'s \<Rightarrow> bool"
    and frees :: "'s \<Rightarrow> nat set"
    and usable :: "'s \<Rightarrow> nat \<Rightarrow> bool"
    and first_page :: nat
    and page_count :: u64
  assumes boot: "(\<And>i. first_page \<le> i \<Longrightarrow> i < first_page + unat page_count \<Longrightarrow> usable s i) \<Longrightarrow>
      \<exists>s'. init_memmap first_page page_count (init s) = ret s' \<and> invar s' \<and>
        frees s' = {first_page..<first_page + unat page_count}"
    and alloc_returns: "invar s \<Longrightarrow> 0 < n \<Longrightarrow> \<exists>r s'. alloc n s = ret (r, s')"
    and alloc_none: "invar s \<Longrightarrow> alloc n s = ret (None, s') \<Longrightarrow> s' = s"
    and alloc_some: "invar s \<Longrightarrow> 0 < n \<Longrightarrow> alloc n s = ret (Some p, s') \<Longrightarrow>
      invar s' \<and> {p..<p + unat n} \<subseteq> frees s \<and> frees s' = frees s - {p..<p + unat n} \<and>
      usable s' = usable s"
    and dealloc_ok: "invar s \<Longrightarrow> 0 < n \<Longrightarrow>
      (\<And>i. i \<in> {p..<p + unat n} \<Longrightarrow> usable s i \<and> i \<notin> frees s) \<Longrightarrow>
      \<exists>s'. dealloc p n s = ret s' \<and> invar s' \<and> frees s' = frees s \<union> {p..<p + unat n} \<and>
        usable s' = usable s"
    and frees_usable: "invar s \<Longrightarrow> i \<in> frees s \<Longrightarrow> usable s i"
    and frees_finite: "invar s \<Longrightarrow> finite (frees s)"
    and count_ok: "invar s \<Longrightarrow> unat (count_free s) = card (frees s)"
begin

lemma alloc_dealloc:
  assumes "invar s" "0 < n" "alloc n s = ret (Some p, s1)"
  shows "\<exists>s2. dealloc p n s1 = ret s2 \<and> invar s2 \<and> frees s2 = frees s"
proof -
  have a: "invar s1" "{p..<p + unat n} \<subseteq> frees s" "frees s1 = frees s - {p..<p + unat n}"
    "usable s1 = usable s"
    using alloc_some [OF assms] by auto
  then have "usable s1 i \<and> i \<notin> frees s1" if "i \<in> {p..<p + unat n}" for i
    using that frees_usable [OF assms(1)] by auto
  from dealloc_ok [OF a(1) assms(2) this, of p] a show ?thesis by blast
qed

lemma alloc_alloc_disjoint:
  assumes "invar s" "0 < m" "0 < n"
    and "alloc m s = ret (Some p, s1)" "alloc n s1 = ret (Some q, s2)"
  shows "{p..<p + unat m} \<inter> {q..<q + unat n} = {}"
  using alloc_some [OF assms(1,2,4)] alloc_some [of s1 n q s2] assms(3,5) by blast

lemma alloc_count:
  assumes "invar s" "0 < n" "alloc n s = ret (Some p, s')"
  shows "unat (count_free s') + unat n = unat (count_free s)"
proof -
  note a = alloc_some [OF assms]
  have "card (frees s') = card (frees s) - unat n"
    using a frees_finite [OF assms(1)] by (simp add: card_Diff_subset)
  moreover have "unat n \<le> card (frees s)"
    using a card_mono [OF frees_finite [OF assms(1)], of "{p..<p + unat n}"] by simp
  ultimately show ?thesis using a assms(1) by (simp add: count_ok)
qed

end

end
