(* ===== verification/Best_Fit.thy ===== *)
theory Best_Fit
  imports Pm_Manager
begin

text \<open>
  The best-fit physical page allocator of \<open>kernel/mm/best_fit_pmm.c\<close>. The state is the array of
  page descriptors, the links of the free list threaded through them, and the free page counter
  of \<open>g_best_fit_free_area\<close>. The operations are related to an abstract specification that keeps
  the free memory as a list of blocks (first page, number of pages): \<open>bf_abs s bs\<close> says that the
  state \<open>s\<close> represents \<open>bs\<close>, which is sorted by address, free of overlaps and fully
  coalesced.
\<close>

unbundle bit_operations_syntax

section \<open>State and operations\<close>

record pmm =
  pages :: "nat \<Rightarrow> page"
  flinks :: "(unit, nat) lnode links"
  num_free :: u64

abbreviation free_head :: "(unit, nat) lnode" where
  "free_head \<equiv> LHead ()"

definition upd_page :: "nat \<Rightarrow> (page \<Rightarrow> page) \<Rightarrow> 'z pmm_scheme \<Rightarrow> 'z pmm_scheme" where
  "upd_page i f s = s\<lparr>pages := (pages s)(i := f (pages s i))\<rparr>"

definition best_fit_init :: "'z pmm_scheme \<Rightarrow> 'z pmm_scheme" where
  "best_fit_init s = s\<lparr>flinks := init_list free_head (flinks s), num_free := 0\<rparr>"

text \<open>\<open>for (p = base; p < base + n; p++)\<close>, with the number of iterations left as argument.\<close>

fun init_memmap_loop :: "nat \<Rightarrow> nat \<Rightarrow> 'z pmm_scheme \<Rightarrow> 'z pmm_scheme exec" where
  "init_memmap_loop p 0 s = ret s"
| "init_memmap_loop p (Suc k) s =
     assert_then (page_flags (pages s p) AND PAGE_RESERVED = 0)
       (init_memmap_loop (Suc p) k
         (upd_page p (\<lambda>q. q\<lparr>page_property := 0, page_ref := 0, page_flags := 0\<rparr>) s))"

definition best_fit_init_memmap :: "nat \<Rightarrow> u64 \<Rightarrow> 'z pmm_scheme \<Rightarrow> 'z pmm_scheme exec" where
  "best_fit_init_memmap base n s =
     assert_then (0 < n)
       (bind_exec (init_memmap_loop base (unat n) s) (\<lambda>s1.
          let s2 = upd_page base (\<lambda>q. q\<lparr>page_flags := page_flags q OR PAGE_PROPERTY\<rparr>) s1;
              s3 = upd_page base (\<lambda>q. q\<lparr>page_property := ucast n\<rparr>) s2;
              L = flinks s3
          in ret (s3\<lparr>flinks := add_list free_head (nxt L free_head) (LNode base) L,
                     num_free := num_free s3 + n\<rparr>)))"

text \<open>The search loop of \<open>best_fit_alloc_pages\<close>: the best page so far and its size.\<close>

partial_function (option) best_fit_scan ::
  "'z pmm_scheme \<Rightarrow> u64 \<Rightarrow> (unit, nat) lnode \<Rightarrow> nat option \<Rightarrow> u32 \<Rightarrow> nat option option" where
  "best_fit_scan s n list page min_property =
     (case nxt (flinks s) list of
        LHead _ \<Rightarrow> Some page
      | LNode p \<Rightarrow>
          if n \<le> ucast (page_property (pages s p)) \<and> page_property (pages s p) < min_property
          then best_fit_scan s n (LNode p) (Some p) (page_property (pages s p))
          else best_fit_scan s n (LNode p) page min_property)"

definition best_fit_take :: "nat \<Rightarrow> u64 \<Rightarrow> 'z pmm_scheme \<Rightarrow> 'z pmm_scheme" where
  "best_fit_take page n s =
     (let s1 = s\<lparr>flinks := del_list (LNode page) (flinks s)\<rparr>;
          s2 = (if n < ucast (page_property (pages s1 page)) then
                  let p = page + unat n;
                      t = upd_page p (\<lambda>q. q\<lparr>page_property :=
                            ucast (ucast (page_property (pages s1 page)) - n)\<rparr>) s1;
                      t' = upd_page p (\<lambda>q. q\<lparr>page_flags := page_flags q OR PAGE_PROPERTY\<rparr>) t;
                      L = flinks t'
                  in t'\<lparr>flinks := add_list (prv L (LNode page)) (nxt L (LNode page)) (LNode p) L\<rparr>
                else s1);
          s3 = s2\<lparr>num_free := num_free s2 - n\<rparr>;
          s4 = upd_page page (\<lambda>q. q\<lparr>page_flags := page_flags q AND NOT PAGE_PROPERTY\<rparr>) s3
      in upd_page page (\<lambda>q. q\<lparr>page_property := 0\<rparr>) s4)"

definition best_fit_alloc_pages :: "u64 \<Rightarrow> 'z pmm_scheme \<Rightarrow> (nat option \<times> 'z pmm_scheme) exec" where
  "best_fit_alloc_pages n s =
     assert_then (0 < n)
       (if num_free s < n then ret (None, s)
        else case best_fit_scan s n free_head None 0xFFFFFFFF of
               None \<Rightarrow> None
             | Some None \<Rightarrow> ret (None, s)
             | Some (Some page) \<Rightarrow> ret (Some page, best_fit_take page n s))"

fun free_pages_loop :: "nat \<Rightarrow> nat \<Rightarrow> 'z pmm_scheme \<Rightarrow> 'z pmm_scheme exec" where
  "free_pages_loop p 0 s = ret s"
| "free_pages_loop p (Suc k) s =
     assert_then (page_flags (pages s p) AND (PAGE_RESERVED OR PAGE_PROPERTY) = 0)
       (free_pages_loop (Suc p) k (upd_page p (\<lambda>q. q\<lparr>page_ref := 0, page_flags := 0\<rparr>) s))"

text \<open>\<open>while (list->next < &base->free_link && list->next != &free_list) list = list->next;\<close>\<close>

partial_function (option) free_walk ::
  "(unit, nat) lnode links \<Rightarrow> nat \<Rightarrow> (unit, nat) lnode \<Rightarrow> (unit, nat) lnode option" where
  "free_walk L base list =
     (if nxt L list < LNode base \<and> nxt L list \<noteq> free_head
      then free_walk L base (nxt L list) else Some list)"

text \<open>The two coalescing steps; the first returns the block that \<open>base\<close> now belongs to.\<close>

definition merge_prev :: "nat \<Rightarrow> 'z pmm_scheme \<Rightarrow> nat \<times> 'z pmm_scheme" where
  "merge_prev base s =
     (case prv (flinks s) (LNode base) of
        LHead _ \<Rightarrow> (base, s)
      | LNode p \<Rightarrow>
          if p + unat (page_property (pages s p)) = base then
            let s1 = upd_page p (\<lambda>q. q\<lparr>page_property :=
                       page_property q + page_property (pages s base)\<rparr>) s;
                s2 = upd_page base (\<lambda>q. q\<lparr>page_flags := page_flags q AND NOT PAGE_PROPERTY\<rparr>) s1;
                s3 = upd_page base (\<lambda>q. q\<lparr>page_property := 0\<rparr>) s2
            in (p, s3\<lparr>flinks := del_list (LNode base) (flinks s3)\<rparr>)
          else (base, s))"

definition merge_next :: "nat \<Rightarrow> 'z pmm_scheme \<Rightarrow> 'z pmm_scheme" where
  "merge_next base s =
     (case nxt (flinks s) (LNode base) of
        LHead _ \<Rightarrow> s
      | LNode p \<Rightarrow>
          if base + unat (page_property (pages s base)) = p then
            let s1 = upd_page base (\<lambda>q. q\<lparr>page_property :=
                       page_property q + page_property (pages s p)\<rparr>) s;
                s2 = upd_page p (\<lambda>q. q\<lparr>page_flags := page_flags q AND NOT PAGE_PROPERTY\<rparr>) s1;
                s3 = upd_page p (\<lambda>q. q\<lparr>page_property := 0\<rparr>) s2
            in s3\<lparr>flinks := del_list (LNode p) (flinks s3)\<rparr>
          else s)"

definition best_fit_free_pages :: "nat \<Rightarrow> u64 \<Rightarrow> 'z pmm_scheme \<Rightarrow> 'z pmm_scheme exec" where
  "best_fit_free_pages base n s =
     assert_then (0 < n)
       (bind_exec (free_pages_loop base (unat n) s) (\<lambda>s1.
          let s2 = upd_page base (\<lambda>q. q\<lparr>page_property := ucast n\<rparr>) s1;
              s3 = upd_page base (\<lambda>q. q\<lparr>page_flags := page_flags q OR PAGE_PROPERTY\<rparr>) s2;
              s4 = s3\<lparr>num_free := num_free s3 + n\<rparr>
          in case free_walk (flinks s4) base free_head of
               None \<Rightarrow> None
             | Some list \<Rightarrow>
                 let L = flinks s4;
                     s5 = s4\<lparr>flinks := add_list list (nxt L list) (LNode base) L\<rparr>;
                     (b, s6) = merge_prev base s5
                 in ret (merge_next b s6)))"

definition best_fit_count_free_pages :: "'z pmm_scheme \<Rightarrow> u64" where
  "best_fit_count_free_pages s = num_free s"

section \<open>Abstract specification: sorted lists of blocks\<close>

type_synonym block = "nat \<times> nat"

definition min_page :: nat where
  "min_page = unat (g_num_qemu_pages + g_num_kernel_pages)"

definition max_page :: nat where
  "max_page = unat (g_num_qemu_pages + g_num_kernel_pages + g_num_free_pages)"

definition free_set :: "block list \<Rightarrow> nat set" where
  "free_set bs = (\<Union>(b, l)\<in>set bs. {b..<b + l})"

definition blocks_in_range :: "block list \<Rightarrow> bool" where
  "blocks_in_range bs \<longleftrightarrow> (\<forall>(b, l)\<in>set bs. 0 < l \<and> min_page \<le> b \<and> b + l \<le> max_page)"

text \<open>\<open>apart\<close>: no overlap; \<open>coalesced\<close>: not even adjacent.\<close>

definition apart :: "block list \<Rightarrow> bool" where
  "apart = sorted_wrt (\<lambda>x y. fst x + snd x \<le> fst y)"

definition coalesced :: "block list \<Rightarrow> bool" where
  "coalesced = sorted_wrt (\<lambda>x y. fst x + snd x < fst y)"

fun pick :: "nat \<Rightarrow> block list \<Rightarrow> block option \<Rightarrow> block option" where
  "pick n [] acc = acc"
| "pick n (x # bs) acc =
     pick n bs (if n \<le> snd x \<and> (case acc of None \<Rightarrow> True | Some y \<Rightarrow> snd x < snd y)
                then Some x else acc)"

fun take_block :: "nat \<Rightarrow> nat \<Rightarrow> block list \<Rightarrow> block list" where
  "take_block b n [] = []"
| "take_block b n (x # bs) =
     (if fst x = b then (if n < snd x then (b + n, snd x - n) # bs else bs)
      else x # take_block b n bs)"

definition spec_alloc :: "nat \<Rightarrow> block list \<Rightarrow> nat option \<times> block list" where
  "spec_alloc n bs =
     (case pick n bs None of None \<Rightarrow> (None, bs) | Some x \<Rightarrow> (Some (fst x), take_block (fst x) n bs))"

fun join_next :: "block \<Rightarrow> block list \<Rightarrow> block list" where
  "join_next x [] = [x]"
| "join_next x (y # vs) =
     (if fst x + snd x = fst y then (fst x, snd x + snd y) # vs else x # y # vs)"

definition spec_free :: "nat \<Rightarrow> nat \<Rightarrow> block list \<Rightarrow> block list" where
  "spec_free b n bs =
     (let us = takeWhile (\<lambda>x. fst x < b) bs; vs = dropWhile (\<lambda>x. fst x < b) bs in
      if us \<noteq> [] \<and> fst (last us) + snd (last us) = b
      then butlast us @ join_next (fst (last us), snd (last us) + n) vs
      else us @ join_next (b, n) vs)"

abbreviation head_links :: "block list \<Rightarrow> (unit, nat) lnode list" where
  "head_links bs \<equiv> map (\<lambda>x. LNode (fst x)) bs"

text \<open>Representation of a block list by a state, and the allocator's invariant.\<close>

definition bf_rep :: "'z pmm_scheme \<Rightarrow> block list \<Rightarrow> bool" where
  "bf_rep s bs \<longleftrightarrow>
     blocks_in_range bs \<and> apart bs \<and>
     dlist (flinks s) free_head (head_links bs) \<and>
     (\<forall>x\<in>set bs. unat (page_property (pages s (fst x))) = snd x) \<and>
     (\<forall>i\<in>{min_page..<max_page}. page_flags (pages s i) AND PAGE_PROPERTY \<noteq> 0 \<longleftrightarrow> i \<in> fst ` set bs) \<and>
     (\<forall>i\<in>free_set bs. page_flags (pages s i) AND PAGE_RESERVED = 0) \<and>
     unat (num_free s) = sum_list (map snd bs)"

definition bf_abs :: "'z pmm_scheme \<Rightarrow> block list \<Rightarrow> bool" where
  "bf_abs s bs \<longleftrightarrow> bf_rep s bs \<and> coalesced bs"

section \<open>Facts about block lists\<close>

lemma page_bounds [simp]: "min_page = 0x82000" "max_page = 0x101E00"
  by (simp_all add: min_page_def max_page_def)

lemma free_set_simps [simp]:
  "free_set [] = {}"
  "free_set (x # bs) = {fst x..<fst x + snd x} \<union> free_set bs"
  "free_set (bs @ cs) = free_set bs \<union> free_set cs"
  by (auto simp: free_set_def)

lemma apart_append:
  "apart (us @ vs) \<longleftrightarrow> apart us \<and> apart vs \<and> (\<forall>x\<in>set us. \<forall>y\<in>set vs. fst x + snd x \<le> fst y)"
  by (simp add: apart_def sorted_wrt_append)

lemma apart_simps [simp]:
  "apart []"
  "apart (x # bs) \<longleftrightarrow> (\<forall>y\<in>set bs. fst x + snd x \<le> fst y) \<and> apart bs"
  by (simp_all add: apart_def)

lemma coalesced_append:
  "coalesced (us @ vs) \<longleftrightarrow>
     coalesced us \<and> coalesced vs \<and> (\<forall>x\<in>set us. \<forall>y\<in>set vs. fst x + snd x < fst y)"
  by (simp add: coalesced_def sorted_wrt_append)

lemma coalesced_simps [simp]:
  "coalesced []"
  "coalesced (x # bs) \<longleftrightarrow> (\<forall>y\<in>set bs. fst x + snd x < fst y) \<and> coalesced bs"
  by (simp_all add: coalesced_def)

lemma blocks_in_range_simps [simp]:
  "blocks_in_range []"
  "blocks_in_range (x # bs) \<longleftrightarrow>
     0 < snd x \<and> min_page \<le> fst x \<and> fst x + snd x \<le> max_page \<and> blocks_in_range bs"
  "blocks_in_range (us @ vs) \<longleftrightarrow> blocks_in_range us \<and> blocks_in_range vs"
  by (auto simp: blocks_in_range_def split: prod.splits)

lemma blocks_in_rangeD:
  "blocks_in_range bs \<Longrightarrow> x \<in> set bs \<Longrightarrow> 0 < snd x \<and> min_page \<le> fst x \<and> fst x + snd x \<le> max_page"
  by (auto simp: blocks_in_range_def)

lemma finite_free_set [simp]: "finite (free_set bs)"
  by (induction bs) auto

lemma free_set_member:
  "blocks_in_range bs \<Longrightarrow> x \<in> set bs \<Longrightarrow> {fst x..<fst x + snd x} \<subseteq> free_set bs"
  by (auto simp: free_set_def)

lemma head_in_free_set: "blocks_in_range bs \<Longrightarrow> i \<in> fst ` set bs \<Longrightarrow> i \<in> free_set bs"
  by (induction bs) auto

lemma free_set_in_range: "blocks_in_range bs \<Longrightarrow> free_set bs \<subseteq> {min_page..<max_page}"
  by (induction bs) (auto simp del: page_bounds)

lemma free_set_above: "(\<forall>y\<in>set bs. k \<le> fst y) \<Longrightarrow> i \<in> free_set bs \<Longrightarrow> k \<le> i"
  by (induction bs) auto

lemma free_set_below: "(\<forall>y\<in>set bs. fst y + snd y \<le> k) \<Longrightarrow> i \<in> free_set bs \<Longrightarrow> i < k"
  by (induction bs) auto

lemma card_free_set: "apart bs \<Longrightarrow> card (free_set bs) = sum_list (map snd bs)"
proof (induction bs)
  case (Cons x bs)
  have "{fst x..<fst x + snd x} \<inter> free_set bs = {}"
    using Cons.prems by (fastforce dest: free_set_above)
  with Cons show ?case by (simp add: card_Un_disjoint)
qed simp

lemma sum_blocks_bound: "apart bs \<Longrightarrow> blocks_in_range bs \<Longrightarrow> sum_list (map snd bs) \<le> max_page"
proof -
  assume "apart bs" "blocks_in_range bs"
  then have "sum_list (map snd bs) = card (free_set bs)" "free_set bs \<subseteq> {min_page..<max_page}"
    by (simp_all add: card_free_set free_set_in_range del: page_bounds)
  then show ?thesis
    using card_mono [of "{min_page..<max_page}" "free_set bs"] by simp
qed

lemma apart_heads_distinct: "apart bs \<Longrightarrow> blocks_in_range bs \<Longrightarrow> distinct (map fst bs)"
proof (induction bs)
  case (Cons x bs)
  then show ?case by (fastforce dest: blocks_in_rangeD)
qed simp

lemma coalesced_apart: "coalesced bs \<Longrightarrow> apart bs"
  unfolding coalesced_def apart_def by (rule sorted_wrt_mono_rel) auto

lemma pick_sound:
  assumes "pick n bs acc = Some x"
  shows "acc = Some x \<or> x \<in> set bs \<and> n \<le> snd x"
  using assms by (induction bs arbitrary: acc) (fastforce split: if_splits)+

lemma pick_least:
  assumes "pick n bs acc = Some x" and "y \<in> set bs" and "n \<le> snd y"
  shows "snd x \<le> snd y"
proof -
  have acc: "snd x \<le> snd y" if "pick n bs (Some y) = Some x" for bs y
    using that by (induction bs arbitrary: y) (fastforce split: if_splits)+
  show ?thesis
    using assms
  proof (induction bs arbitrary: acc)
    case (Cons z bs)
    show ?case
    proof (cases "y = z")
      case True
      with Cons.prems obtain w where "pick n bs (Some w) = Some x" "snd w \<le> snd y"
        by (cases acc) (auto split: if_splits)
      with acc show ?thesis by (blast intro: order_trans)
    qed (use Cons in \<open>auto\<close>)
  qed simp
qed

lemma pick_none: "pick n bs acc = None \<longleftrightarrow> acc = None \<and> (\<forall>y\<in>set bs. snd y < n)"
  by (induction bs arbitrary: acc) auto

lemma take_block_split:
  "b \<notin> fst ` set us \<Longrightarrow>
   take_block b n (us @ (b, l) # vs) = us @ (if n < l then [(b + n, l - n)] else []) @ vs"
  by (induction us) auto

section \<open>The page flags\<close>

lemma page_flag_bits:
  "x AND PAGE_PROPERTY = 0 \<longleftrightarrow> \<not> bit x 1"
  "x AND PAGE_RESERVED = 0 \<longleftrightarrow> \<not> bit x 0"
  "x AND (PAGE_RESERVED OR PAGE_PROPERTY) = 0 \<longleftrightarrow> \<not> bit x 0 \<and> \<not> bit x 1"
proof -
  have P: "PAGE_PROPERTY = 2 ^ 1" and R: "PAGE_RESERVED = 2 ^ 0"
    by (simp_all add: const_defs)
  show p: "x AND PAGE_PROPERTY = 0 \<longleftrightarrow> \<not> bit x 1"
    unfolding P by (rule and_exp_eq_0_iff_not_bit)
  show r: "x AND PAGE_RESERVED = 0 \<longleftrightarrow> \<not> bit x 0"
    unfolding R by (rule and_exp_eq_0_iff_not_bit)
  have "x AND (PAGE_RESERVED OR PAGE_PROPERTY) = 0 \<longleftrightarrow>
      x AND PAGE_RESERVED = 0 \<and> x AND PAGE_PROPERTY = 0"
    by (simp add: bit.conj_disj_distrib or_eq_0_iff)
  with p r show "x AND (PAGE_RESERVED OR PAGE_PROPERTY) = 0 \<longleftrightarrow> \<not> bit x 0 \<and> \<not> bit x 1"
    by simp
qed

lemma page_flag_updates [simp]:
  "bit (x OR PAGE_PROPERTY) (Suc 0)"
  "bit (x OR PAGE_PROPERTY) 0 = bit x 0"
  "bit PAGE_PROPERTY (Suc 0)"
  "\<not> bit PAGE_PROPERTY 0"
  "\<not> bit (x AND NOT PAGE_PROPERTY) (Suc 0)"
  "bit (x AND NOT PAGE_PROPERTY) 0 = bit x 0"
  by (simp_all add: const_defs bit_simps)

lemma upd_page_sel [simp]:
  "pages (upd_page i f s) = (pages s)(i := f (pages s i))"
  "flinks (upd_page i f s) = flinks s"
  "num_free (upd_page i f s) = num_free s"
  by (simp_all add: upd_page_def)

section \<open>Refinement of allocation\<close>

lemma scan_lseg:
  assumes "lseg (flinks s) a (head_links bs) free_head"
    and "\<forall>x\<in>set bs. unat (page_property (pages s (fst x))) = snd x \<and> snd x < 2 ^ 32 - 1"
    and "m = (case acc of None \<Rightarrow> 0xFFFFFFFF | Some y \<Rightarrow> of_nat (snd y))"
    and "case acc of None \<Rightarrow> True | Some y \<Rightarrow> snd y < 2 ^ 32 - 1"
  shows "best_fit_scan s n a (map_option fst acc) m = Some (map_option fst (pick (unat n) bs acc))"
  using assms
proof (induction bs arbitrary: a acc m)
  case Nil
  then show ?case by (simp add: best_fit_scan.simps)
next
  case (Cons x bs)
  let ?q = "page_property (pages s (fst x))"
  have x: "unat ?q = snd x" "snd x < 2 ^ 32 - 1" "nxt (flinks s) a = LNode (fst x)"
    using Cons.prems by auto
  have q: "?q = of_nat (snd x)"
    by (simp flip: x(1))
  have fits: "n \<le> ucast ?q \<longleftrightarrow> unat n \<le> snd x"
    using x(1) by (simp add: word_le_nat_alt)
  have less: "?q < m \<longleftrightarrow> (case acc of None \<Rightarrow> True | Some y \<Rightarrow> snd x < snd y)"
    using Cons.prems(3,4) x by (cases acc) (auto simp: word_less_nat_alt unat_of_nat_u32)
  show ?case
  proof (cases "unat n \<le> snd x \<and> (case acc of None \<Rightarrow> True | Some y \<Rightarrow> snd x < snd y)")
    case True
    then have "best_fit_scan s n a (map_option fst acc) m =
        best_fit_scan s n (LNode (fst x)) (map_option fst (Some x)) ?q"
      using x fits less by (subst best_fit_scan.simps) auto
    moreover have "\<dots> = Some (map_option fst (pick (unat n) bs (Some x)))"
      using Cons.prems x q by (intro Cons.IH) auto
    ultimately show ?thesis using True by simp
  next
    case False
    then have "best_fit_scan s n a (map_option fst acc) m =
        best_fit_scan s n (LNode (fst x)) (map_option fst acc) m"
      using x fits less by (subst best_fit_scan.simps) auto
    moreover have "\<dots> = Some (map_option fst (pick (unat n) bs acc))"
      using Cons.prems by (intro Cons.IH) auto
    ultimately show ?thesis using False by auto
  qed
qed

lemma bf_scan:
  assumes "bf_rep s bs"
  shows "best_fit_scan s n free_head None 0xFFFFFFFF =
     Some (map_option fst (pick (unat n) bs None))"
proof -
  have "\<forall>x\<in>set bs. unat (page_property (pages s (fst x))) = snd x \<and> snd x < 2 ^ 32 - 1"
    using assms by (fastforce simp: bf_rep_def dest: blocks_in_rangeD)
  then show ?thesis
    using scan_lseg [of s free_head bs "0xFFFFFFFF" None n] assms
    by (simp add: bf_rep_def dlist_def)
qed

lemma bf_take:
  assumes rep: "bf_rep s (us @ (b, l) # vs)" and n: "0 < n" "unat n \<le> l"
  shows "bf_rep (best_fit_take b n s)
           (us @ (if unat n < l then [(b + unat n, l - unat n)] else []) @ vs)"
proof -
  let ?bs = "us @ (b, l) # vs"
  let ?rem = "if unat n < l then [(b + unat n, l - unat n)] else []"
  let ?s' = "best_fit_take b n s"
  have n0: "0 < unat n"
    using n(1) by (simp add: word_less_nat_alt)
  have range: "blocks_in_range ?bs" and ap: "apart ?bs"
    and dl: "dlist (flinks s) free_head (head_links ?bs)"
    and psize: "\<forall>x\<in>set ?bs. unat (page_property (pages s (fst x))) = snd x"
    and flag: "\<forall>i\<in>{min_page..<max_page}.
        page_flags (pages s i) AND PAGE_PROPERTY \<noteq> 0 \<longleftrightarrow> i \<in> fst ` set ?bs"
    and unres: "\<forall>i\<in>free_set ?bs. page_flags (pages s i) AND PAGE_RESERVED = 0"
    and num: "unat (num_free s) = sum_list (map snd ?bs)"
    using rep by (auto simp: bf_rep_def)
  have pb: "unat (page_property (pages s b)) = l" using psize by simp
  have lb: "l \<le> max_page" using range by simp
  have more: "n < ucast (page_property (pages s b)) \<longleftrightarrow> unat n < l"
    using pb by (simp add: word_less_nat_alt)
  have rest: "unat (ucast (ucast (page_property (pages s b)) - n :: u64) :: u32) = l - unat n"
  proof -
    have "unat (ucast (page_property (pages s b)) - n :: u64) = l - unat n"
      using n pb by (subst unat_sub) (simp_all add: word_le_nat_alt)
    with lb show ?thesis by (subst unat_ucast_u64_u32) simp_all
  qed
  have heads: "distinct (map fst ?bs)"
    by (rule apart_heads_distinct [OF ap range])
  have other: "fst x \<noteq> b + unat n" if "unat n < l" "x \<in> set us \<union> set vs" for x
    using that ap range by (fastforce simp: apart_append dest: blocks_in_rangeD)
  have links: "dlist (flinks ?s') free_head (head_links (us @ ?rem @ vs))"
  proof (cases "unat n < l")
    case True
    have "dlist (del_list (LNode b) (flinks s)) free_head (head_links (us @ vs))"
      using dlist_del [of "flinks s" free_head "head_links us" "LNode b"] dl by simp
    moreover have "LNode (b + unat n) \<notin> set (free_head # head_links us @ head_links vs)"
      using other [OF True] by fastforce
    ultimately have "dlist (add_list (last (free_head # head_links us))
        (hd (head_links vs @ [free_head])) (LNode (b + unat n)) (del_list (LNode b) (flinks s)))
        free_head (head_links us @ LNode (b + unat n) # head_links vs)"
      by (intro dlist_add) simp_all
    then show ?thesis
      using del_list_self [of "flinks s" free_head "head_links us" "LNode b" "head_links vs"]
        dl True more
      by (simp add: best_fit_take_def Let_def)
  next
    case False
    then show ?thesis
      using dlist_del [of "flinks s" free_head "head_links us" "LNode b"] dl more
      by (simp add: best_fit_take_def Let_def)
  qed
  have pages': "pages ?s' i =
      (if i = b then (pages s b)\<lparr>page_flags := page_flags (pages s b) AND NOT PAGE_PROPERTY,
                                 page_property := 0\<rparr>
       else if unat n < l \<and> i = b + unat n
       then (pages s i)\<lparr>page_property := ucast (ucast (page_property (pages s b)) - n :: u64),
                        page_flags := page_flags (pages s i) OR PAGE_PROPERTY\<rparr>
       else pages s i)" for i
    using more n0 by (simp add: best_fit_take_def Let_def)
  have num': "unat (num_free ?s') = sum_list (map snd (us @ ?rem @ vs))"
  proof -
    have "unat (num_free s - n) = unat (num_free s) - unat n"
      using num n by (subst unat_sub) (simp_all add: word_le_nat_alt)
    then show ?thesis
      using num n by (simp add: best_fit_take_def Let_def)
  qed
  have fs: "free_set (us @ ?rem @ vs) \<subseteq> free_set ?bs"
    using n by auto
  have range': "blocks_in_range (us @ ?rem @ vs)" and ap': "apart (us @ ?rem @ vs)"
    using range ap n n0 by (auto simp: apart_append)
  have psize': "\<forall>x\<in>set (us @ ?rem @ vs). unat (page_property (pages ?s' (fst x))) = snd x"
    using psize heads other rest n0 by (auto simp: pages' image_iff)
  have flag': "\<forall>i\<in>{min_page..<max_page}.
      page_flags (pages ?s' i) AND PAGE_PROPERTY \<noteq> 0 \<longleftrightarrow> i \<in> fst ` set (us @ ?rem @ vs)"
    using flag heads other n0 by (auto simp: pages' page_flag_bits image_iff)
  have "b \<in> free_set ?bs" "unat n < l \<Longrightarrow> b + unat n \<in> free_set ?bs"
    using n n0 by auto
  with unres fs have unres': "\<forall>i\<in>free_set (us @ ?rem @ vs).
      page_flags (pages ?s' i) AND PAGE_RESERVED = 0"
    by (auto simp: pages' page_flag_bits)
  show ?thesis
    unfolding bf_rep_def using range' ap' links psize' flag' unres' num' by blast
qed

section \<open>Refinement of deallocation\<close>

lemma free_pages_loop_ok:
  "\<forall>i\<in>{p..<p + k}. page_flags (pages s i) AND (PAGE_RESERVED OR PAGE_PROPERTY) = 0 \<Longrightarrow>
   free_pages_loop p k s =
     ret (s\<lparr>pages := \<lambda>i. if i \<in> {p..<p + k} then (pages s i)\<lparr>page_ref := 0, page_flags := 0\<rparr>
                         else pages s i\<rparr>)"
proof (induction k arbitrary: p s)
  case (Suc k)
  have "free_pages_loop p (Suc k) s =
      free_pages_loop (Suc p) k (upd_page p (\<lambda>q. q\<lparr>page_ref := 0, page_flags := 0\<rparr>) s)"
    using Suc.prems by simp
  also have "\<dots> = ret (s\<lparr>pages := \<lambda>i. if i \<in> {p..<p + Suc k}
      then (pages s i)\<lparr>page_ref := 0, page_flags := 0\<rparr> else pages s i\<rparr>)"
    using Suc.prems by (subst Suc.IH) (auto simp: upd_page_def fun_eq_iff)
  finally show ?case .
qed simp

lemma free_pages_loop_panic:
  "i \<in> {p..<p + k} \<Longrightarrow> page_flags (pages s i) AND (PAGE_RESERVED OR PAGE_PROPERTY) \<noteq> 0 \<Longrightarrow>
   free_pages_loop p k s = panic"
proof (induction k arbitrary: p s)
  case (Suc k)
  then show ?case by (cases "i = p") (auto simp: assert_then_def)
qed simp

lemma free_walk_lseg:
  assumes "lseg L a (head_links (us @ vs)) free_head"
    and "\<forall>x\<in>set us. fst x < b" and "\<forall>x\<in>set vs. b \<le> fst x"
  shows "free_walk L b a = Some (last (a # head_links us))"
  using assms
proof (induction us arbitrary: a)
  case Nil
  have "nxt L a = free_head \<or> \<not> nxt L a < LNode b"
    using Nil.prems by (cases vs) (auto simp: not_less)
  then show ?case by (subst free_walk.simps) auto
next
  case (Cons x us)
  then have "free_walk L b a = free_walk L b (LNode (fst x))"
    by (subst free_walk.simps) auto
  with Cons show ?case by simp
qed

text \<open>Absorbing a block into its left neighbour, as both coalescing steps do.\<close>

definition absorb :: "nat \<Rightarrow> nat \<Rightarrow> 'z pmm_scheme \<Rightarrow> 'z pmm_scheme" where
  "absorb c d s =
     (let s1 = upd_page c (\<lambda>q. q\<lparr>page_property := page_property q + page_property (pages s d)\<rparr>) s;
          s2 = upd_page d (\<lambda>q. q\<lparr>page_flags := page_flags q AND NOT PAGE_PROPERTY\<rparr>) s1;
          s3 = upd_page d (\<lambda>q. q\<lparr>page_property := 0\<rparr>) s2
      in s3\<lparr>flinks := del_list (LNode d) (flinks s3)\<rparr>)"

lemma bf_absorb:
  assumes rep: "bf_rep s (us @ (c, m) # (d, k) # vs)" and adj: "c + m = d"
  shows "bf_rep (absorb c d s) (us @ (c, m + k) # vs)"
proof -
  let ?bs = "us @ (c, m) # (d, k) # vs"
  let ?bs' = "us @ (c, m + k) # vs"
  let ?s' = "absorb c d s"
  have range: "blocks_in_range ?bs" and ap: "apart ?bs"
    and dl: "dlist (flinks s) free_head (head_links ?bs)"
    and psize: "\<forall>x\<in>set ?bs. unat (page_property (pages s (fst x))) = snd x"
    and flag: "\<forall>i\<in>{min_page..<max_page}.
        page_flags (pages s i) AND PAGE_PROPERTY \<noteq> 0 \<longleftrightarrow> i \<in> fst ` set ?bs"
    and unres: "\<forall>i\<in>free_set ?bs. page_flags (pages s i) AND PAGE_RESERVED = 0"
    and num: "unat (num_free s) = sum_list (map snd ?bs)"
    using rep by (auto simp: bf_rep_def)
  have heads: "distinct (map fst ?bs)"
    by (rule apart_heads_distinct [OF ap range])
  have pages': "pages ?s' i =
      (if i = d then (pages s d)\<lparr>page_flags := page_flags (pages s d) AND NOT PAGE_PROPERTY,
                                 page_property := 0\<rparr>
       else if i = c then (pages s c)\<lparr>page_property :=
                page_property (pages s c) + page_property (pages s d)\<rparr>
       else pages s i)" for i
    using heads by (auto simp: absorb_def Let_def)
  have "unat (page_property (pages s c) + page_property (pages s d)) = m + k"
    using psize range by (subst unat_add_lem [THEN iffD1]) auto
  then have psize': "\<forall>x\<in>set ?bs'. unat (page_property (pages ?s' (fst x))) = snd x"
    using psize heads by (auto simp: pages')
  have links: "dlist (flinks ?s') free_head (head_links ?bs')"
    using dlist_del [of "flinks s" free_head "head_links (us @ [(c, m)])" "LNode d" "head_links vs"] dl
    by (simp add: absorb_def Let_def)
  have fs: "free_set ?bs' = free_set ?bs"
    using adj by auto
  have range': "blocks_in_range ?bs'" and ap': "apart ?bs'"
    using range ap adj by (auto simp: apart_append)
  have flag': "\<forall>i\<in>{min_page..<max_page}.
      page_flags (pages ?s' i) AND PAGE_PROPERTY \<noteq> 0 \<longleftrightarrow> i \<in> fst ` set ?bs'"
    using flag heads by (auto simp: pages' page_flag_bits)
  have unres': "\<forall>i\<in>free_set ?bs'. page_flags (pages ?s' i) AND PAGE_RESERVED = 0"
    using unres fs by (auto simp: pages' page_flag_bits)
  have num': "unat (num_free ?s') = sum_list (map snd ?bs')"
    using num by (simp add: absorb_def Let_def)
  show ?thesis
    unfolding bf_rep_def using range' ap' links psize' flag' unres' num' by blast
qed

lemma bf_merge_prev:
  assumes rep: "bf_rep s (us @ (b, n) # vs)"
  shows "merge_prev b s =
     (if us \<noteq> [] \<and> fst (last us) + snd (last us) = b then (fst (last us), absorb (fst (last us)) b s)
      else (b, s))"
proof -
  have prv: "prv (flinks s) (LNode b) = last (free_head # head_links us)"
    using rep dlist_prv [of "flinks s" free_head "head_links us" "LNode b" "head_links vs"]
    by (simp add: bf_rep_def)
  show ?thesis
  proof (cases us rule: rev_cases)
    case Nil
    with prv show ?thesis by (simp add: merge_prev_def)
  next
    case (snoc us' x)
    then have "unat (page_property (pages s (fst x))) = snd x"
      using rep by (simp add: bf_rep_def)
    with prv snoc show ?thesis
      by (simp add: merge_prev_def absorb_def)
  qed
qed

lemma bf_merge_next:
  assumes rep: "bf_rep s (us @ (b, n) # vs)"
  shows "bf_rep (merge_next b s) (us @ join_next (b, n) vs)"
proof -
  have nxt: "nxt (flinks s) (LNode b) = hd (head_links vs @ [free_head])"
    using rep dlist_nxt [of "flinks s" free_head "head_links us" "LNode b" "head_links vs"]
    by (simp add: bf_rep_def)
  have size: "unat (page_property (pages s b)) = n"
    using rep by (simp add: bf_rep_def)
  show ?thesis
  proof (cases vs)
    case Nil
    with nxt rep show ?thesis by (simp add: merge_next_def)
  next
    case (Cons y ys)
    then have "merge_next b s = (if b + n = fst y then absorb b (fst y) s else s)"
      using nxt size by (simp add: merge_next_def absorb_def)
    then show ?thesis
      using rep Cons bf_absorb [of s us b n "fst y" "snd y" ys] by auto
  qed
qed

text \<open>The state after the block is inserted and before it is coalesced.\<close>

lemma bf_insert:
  assumes rep: "bf_rep s (us @ vs)"
    and us: "\<forall>x\<in>set us. fst x + snd x \<le> b" and vs: "\<forall>y\<in>set vs. b + unat n \<le> fst y"
    and n: "0 < n" and range: "min_page \<le> b" "b + unat n \<le> max_page"
    and unres: "\<forall>i\<in>{b..<b + unat n}. page_flags (pages s i) AND PAGE_RESERVED = 0"
    and s5: "s5 = s\<lparr>pages := (\<lambda>i. if i \<in> {b..<b + unat n}
                 then (pages s i)\<lparr>page_ref := 0, page_flags := 0\<rparr> else pages s i)
               (b := (pages s b)\<lparr>page_ref := 0, page_property := ucast n,
                                 page_flags := 0 OR PAGE_PROPERTY\<rparr>),
             num_free := num_free s + n,
             flinks := add_list (last (free_head # head_links us)) (hd (head_links vs @ [free_head]))
                         (LNode b) (flinks s)\<rparr>"
  shows "bf_rep s5 (us @ (b, unat n) # vs)"
proof -
  let ?bs = "us @ (b, unat n) # vs"
  have n0: "0 < unat n"
    using n by (simp add: word_less_nat_alt)
  have r: "blocks_in_range (us @ vs)" "apart (us @ vs)"
    "dlist (flinks s) free_head (head_links us @ head_links vs)"
    "\<forall>x\<in>set (us @ vs). unat (page_property (pages s (fst x))) = snd x"
    "\<forall>i\<in>{min_page..<max_page}.
       page_flags (pages s i) AND PAGE_PROPERTY \<noteq> 0 \<longleftrightarrow> i \<in> fst ` set (us @ vs)"
    "\<forall>i\<in>free_set (us @ vs). page_flags (pages s i) AND PAGE_RESERVED = 0"
    "unat (num_free s) = sum_list (map snd (us @ vs))"
    using rep by (auto simp: bf_rep_def)
  have us': "x \<in> set us \<Longrightarrow> fst x < b" and vs': "x \<in> set vs \<Longrightarrow> b < fst x" for x
    using us vs r(1) n0 by (fastforce dest: blocks_in_rangeD)+
  have out: "i \<in> fst ` set (us @ vs) \<Longrightarrow> i \<notin> {b..<b + unat n}" for i
    using us' vs by fastforce
  have "blocks_in_range ?bs" "apart ?bs"
    using r(1,2) us vs n0 range by (auto simp: apart_append intro: order_trans)
  moreover have "dlist (flinks s5) free_head (head_links ?bs)"
    using dlist_add [OF r(3), of "LNode b"] us' vs' by (force simp: s5)
  moreover have "\<forall>x\<in>set ?bs. unat (page_property (pages s5 (fst x))) = snd x"
  proof
    fix x assume "x \<in> set ?bs"
    then consider "x = (b, unat n)" | "x \<in> set (us @ vs)" by auto
    then show "unat (page_property (pages s5 (fst x))) = snd x"
    proof cases
      case 1
      then show ?thesis using range by (simp add: s5 unat_ucast_u64_u32)
    next
      case 2
      then have "fst x \<noteq> b" using out [of "fst x"] n0 by auto
      with 2 r(4) show ?thesis by (simp add: s5)
    qed
  qed
  moreover have "\<forall>i\<in>{min_page..<max_page}.
      page_flags (pages s5 i) AND PAGE_PROPERTY \<noteq> 0 \<longleftrightarrow> i \<in> fst ` set ?bs"
    using r(5) out by (auto simp: s5 page_flag_bits)
  moreover have "\<forall>i\<in>free_set ?bs. page_flags (pages s5 i) AND PAGE_RESERVED = 0"
    using r(6) unres by (auto simp: s5 page_flag_bits)
  moreover have "unat (num_free s5) = sum_list (map snd ?bs)"
  proof -
    have "unat (num_free s) + unat n < 2 ^ 64"
      using sum_blocks_bound [OF r(2,1)] r(7) range by simp
    then show ?thesis using r(7) by (simp add: s5 unat_word_ariths)
  qed
  ultimately show ?thesis
    unfolding bf_rep_def by blast
qed

text \<open>Where a block disjoint from the free ones falls in the list.\<close>

lemma free_split:
  assumes "apart bs" "blocks_in_range bs" "{b..<b + n} \<inter> free_set bs = {}" "0 < n"
  defines "us \<equiv> takeWhile (\<lambda>x. fst x < b) bs" and "vs \<equiv> dropWhile (\<lambda>x. fst x < b) bs"
  shows "bs = us @ vs" "\<forall>x\<in>set us. fst x < b \<and> fst x + snd x \<le> b" "\<forall>y\<in>set vs. b + n \<le> fst y"
proof -
  show bs: "bs = us @ vs" by (simp add: us_def vs_def)
  show "\<forall>x\<in>set us. fst x < b \<and> fst x + snd x \<le> b"
  proof
    fix x assume x: "x \<in> set us"
    then have "fst x < b" "x \<in> set bs"
      by (auto simp: us_def dest: set_takeWhileD)
    moreover have "{fst x..<fst x + snd x} \<subseteq> free_set bs"
      using assms(2) \<open>x \<in> set bs\<close> by (rule free_set_member)
    ultimately show "fst x < b \<and> fst x + snd x \<le> b"
      using assms(3,4) by (metis atLeastLessThan_iff disjoint_iff less_add_same_cancel1
          linorder_not_le nle_le subset_iff)
  qed
  have "b \<le> fst y" if y: "y \<in> set vs" for y
  proof -
    obtain z zs where vs: "vs = z # zs" using y by (cases vs) auto
    then have "b \<le> fst z" using hd_dropWhile [of "\<lambda>x. fst x < b" bs] by (auto simp: vs_def)
    moreover have "apart vs" using assms(1) bs by (simp add: apart_append)
    ultimately show ?thesis using y vs by fastforce
  qed
  moreover have "{fst y..<fst y + snd y} \<subseteq> free_set bs \<and> 0 < snd y" if "y \<in> set vs" for y
    using assms(2) bs that by (auto dest: blocks_in_rangeD free_set_member)
  ultimately show "\<forall>y\<in>set vs. b + n \<le> fst y"
    using assms(3) by (metis (no_types, lifting) atLeastLessThan_iff disjoint_iff
        less_add_same_cancel1 linorder_not_le order_refl subset_iff)
qed

lemma join_next_coalesced:
  assumes "coalesced vs" "\<forall>y\<in>set vs. fst x + snd x \<le> fst y"
  shows "coalesced (join_next x vs)"
    and "y \<in> set (join_next x vs) \<Longrightarrow> fst x \<le> fst y"
proof -
  show "coalesced (join_next x vs)"
    using assms by (cases vs) (fastforce simp: order.strict_iff_order)+
  show "y \<in> set (join_next x vs) \<Longrightarrow> fst x \<le> fst y"
    using assms(2) by (cases vs) (auto split: if_splits)
qed

lemma free_set_join_next: "free_set (join_next x vs) = {fst x..<fst x + snd x} \<union> free_set vs"
  by (cases vs) auto

lemma spec_free_coalesced:
  assumes "coalesced bs" "blocks_in_range bs" "{b..<b + n} \<inter> free_set bs = {}" "0 < n"
  shows "coalesced (spec_free b n bs)"
proof -
  define us where "us = takeWhile (\<lambda>x. fst x < b) bs"
  define vs where "vs = dropWhile (\<lambda>x. fst x < b) bs"
  note split = free_split [OF coalesced_apart [OF assms(1)] assms(2-4), folded us_def vs_def]
  have c: "coalesced us" "coalesced vs" "\<forall>x\<in>set us. \<forall>y\<in>set vs. fst x + snd x < fst y"
    using assms(1) split(1) by (auto simp: coalesced_append)
  show ?thesis
  proof (cases "us \<noteq> [] \<and> fst (last us) + snd (last us) = b")
    case True
    then obtain ws w where us: "us = ws @ [w]" "fst w + snd w = b"
      by (cases us rule: rev_cases) auto
    have "coalesced (join_next (fst w, snd w + n) vs)"
      using c(2) split(3) us(2) by (intro join_next_coalesced) auto
    moreover have "fst w \<le> fst y" if "y \<in> set (join_next (fst w, snd w + n) vs)" for y
      using join_next_coalesced(2) [OF c(2) _ that] split(3) us(2) by (simp flip: add.assoc)
    ultimately have "coalesced (ws @ join_next (fst w, snd w + n) vs)"
      using c(1) us(1) by (simp add: coalesced_append) (meson less_le_trans)
    then show ?thesis using True us by (simp add: spec_free_def flip: us_def vs_def)
  next
    case False
    have less: "fst x + snd x < b" if "x \<in> set us" for x
    proof (cases us rule: rev_cases)
      case (snoc ws w)
      then have w: "fst w + snd w < b" "fst w < b"
        using False split(2) by auto
      show ?thesis
      proof (cases "x = w")
        case False
        then have "fst x + snd x < fst w"
          using that c(1) snoc by (auto simp: coalesced_append)
        with w show ?thesis by simp
      qed (use w in simp)
    qed (use that in simp)
    have "coalesced (join_next (b, n) vs)"
      using c(2) split(3) by (intro join_next_coalesced) auto
    moreover have "b \<le> fst y" if "y \<in> set (join_next (b, n) vs)" for y
      using join_next_coalesced(2) [OF c(2) _ that] split(3) by simp
    ultimately have "coalesced (us @ join_next (b, n) vs)"
      using c(1) less by (simp add: coalesced_append) (meson less_le_trans)
    then show ?thesis using False by (auto simp: spec_free_def simp flip: us_def vs_def)
  qed
qed

lemma free_set_spec_free:
  assumes "apart bs" "blocks_in_range bs" "{b..<b + n} \<inter> free_set bs = {}" "0 < n"
  shows "free_set (spec_free b n bs) = free_set bs \<union> {b..<b + n}"
proof -
  define us where "us = takeWhile (\<lambda>x. fst x < b) bs"
  define vs where "vs = dropWhile (\<lambda>x. fst x < b) bs"
  have bs: "free_set bs = free_set us \<union> free_set vs"
    using free_set_simps(3) [of us vs] by (simp add: us_def vs_def)
  show ?thesis
  proof (cases "us \<noteq> [] \<and> fst (last us) + snd (last us) = b")
    case True
    then obtain ws w where us: "us = ws @ [w]" "fst w + snd w = b"
      by (cases us rule: rev_cases) auto
    then have "free_set (spec_free b n bs) = free_set (ws @ join_next (fst w, snd w + n) vs)"
      by (simp add: spec_free_def flip: us_def vs_def)
    then show ?thesis using us(1) us(2) [symmetric] bs by (auto simp: free_set_join_next)
  next
    case False
    then have "free_set (spec_free b n bs) = free_set (us @ join_next (b, n) vs)"
      by (auto simp: spec_free_def simp flip: us_def vs_def)
    then show ?thesis using bs by (auto simp: free_set_join_next)
  qed
qed

lemma bf_free:
  assumes abs: "bf_abs s bs" and n: "0 < n"
    and range: "min_page \<le> b" "b + unat n \<le> max_page"
    and alloc: "{b..<b + unat n} \<inter> free_set bs = {}"
    and unres: "\<forall>i\<in>{b..<b + unat n}. page_flags (pages s i) AND PAGE_RESERVED = 0"
  obtains s' where "best_fit_free_pages b n s = ret s'" "bf_abs s' (spec_free b (unat n) bs)"
proof -
  have rep: "bf_rep s bs" and co: "coalesced bs" and ir: "blocks_in_range bs" and ap: "apart bs"
    using abs by (auto simp: bf_abs_def bf_rep_def)
  have n0: "0 < unat n" using n by (simp add: word_less_nat_alt)
  define us where "us = takeWhile (\<lambda>x. fst x < b) bs"
  define vs where "vs = dropWhile (\<lambda>x. fst x < b) bs"
  note split = free_split [OF ap ir alloc n0, folded us_def vs_def]
  have "page_flags (pages s i) AND (PAGE_RESERVED OR PAGE_PROPERTY) = 0"
    if "i \<in> {b..<b + unat n}" for i
  proof -
    have "i \<notin> fst ` set bs" using that alloc head_in_free_set [OF ir] by blast
    with rep unres that range show ?thesis
      by (auto simp: bf_rep_def page_flag_bits)
  qed
  then have loop: "free_pages_loop b (unat n) s = ret (s\<lparr>pages := \<lambda>i. if i \<in> {b..<b + unat n}
      then (pages s i)\<lparr>page_ref := 0, page_flags := 0\<rparr> else pages s i\<rparr>)"
    by (intro free_pages_loop_ok) blast
  have dl: "dlist (flinks s) free_head (head_links us @ head_links vs)"
    using rep split(1) by (auto simp: bf_rep_def)
  have walk: "free_walk (flinks s) b free_head = Some (last (free_head # head_links us))"
    using dl split(2,3) by (intro free_walk_lseg [of _ _ us vs]) (auto simp: dlist_def)
  have nx: "nxt (flinks s) (last (free_head # head_links us)) = hd (head_links vs @ [free_head])"
  proof (cases us rule: rev_cases)
    case Nil
    then show ?thesis using dlist_nxt_head [OF dl] by simp
  next
    case (snoc ws w)
    then show ?thesis
      using dlist_nxt [of "flinks s" free_head "head_links ws" "LNode (fst w)" "head_links vs"] dl
      by simp
  qed
  define s5 where "s5 = s\<lparr>pages := (\<lambda>i. if i \<in> {b..<b + unat n}
                 then (pages s i)\<lparr>page_ref := 0, page_flags := 0\<rparr> else pages s i)
               (b := (pages s b)\<lparr>page_ref := 0, page_property := ucast n,
                                 page_flags := 0 OR PAGE_PROPERTY\<rparr>),
             num_free := num_free s + n,
             flinks := add_list (last (free_head # head_links us)) (hd (head_links vs @ [free_head]))
                         (LNode b) (flinks s)\<rparr>"
  have rep5: "bf_rep s5 (us @ (b, unat n) # vs)"
    using rep split n range unres by (intro bf_insert [OF _ _ _ _ _ _ _ s5_def]) auto
  have "best_fit_free_pages b n s = (let (c, s6) = merge_prev b s5 in ret (merge_next c s6))"
    using n n0 walk nx by (simp add: best_fit_free_pages_def loop upd_page_def Let_def s5_def)
  moreover have "case merge_prev b s5 of (c, s6) \<Rightarrow> bf_rep (merge_next c s6) (spec_free b (unat n) bs)"
  proof (cases "us \<noteq> [] \<and> fst (last us) + snd (last us) = b")
    case True
    then obtain ws w where us: "us = ws @ [w]" "fst w + snd w = b"
      by (cases us rule: rev_cases) auto
    have "bf_rep (absorb (fst w) b s5) (ws @ (fst w, snd w + unat n) # vs)"
      using rep5 us by (intro bf_absorb) auto
    then have "bf_rep (merge_next (fst w) (absorb (fst w) b s5))
        (ws @ join_next (fst w, snd w + unat n) vs)"
      by (rule bf_merge_next)
    then show ?thesis
      using us True bf_merge_prev [OF rep5] by (simp add: spec_free_def flip: us_def vs_def)
  next
    case False
    then show ?thesis
      using bf_merge_prev [OF rep5] bf_merge_next [OF rep5]
      by (auto simp: spec_free_def simp flip: us_def vs_def)
  qed
  ultimately show thesis
    using that spec_free_coalesced [OF co ir alloc n0] by (auto simp: bf_abs_def split: prod.splits)
qed

section \<open>Allocation as a whole\<close>

lemma bf_alloc:
  assumes abs: "bf_abs s bs" and n: "0 < n"
  obtains s' where
    "best_fit_alloc_pages n s = ret (fst (spec_alloc (unat n) bs), s')"
    "bf_abs s' (snd (spec_alloc (unat n) bs))"
    "fst (spec_alloc (unat n) bs) = None \<Longrightarrow> s' = s"
    "\<And>b. fst (spec_alloc (unat n) bs) = Some b \<Longrightarrow> s' = best_fit_take b n s"
proof -
  have rep: "bf_rep s bs" and co: "coalesced bs" and ir: "blocks_in_range bs" and ap: "apart bs"
    and num: "unat (num_free s) = sum_list (map snd bs)"
    using abs by (auto simp: bf_abs_def bf_rep_def)
  have n0: "0 < unat n" using n by (simp add: word_less_nat_alt)
  show thesis
  proof (cases "pick (unat n) bs None")
    case None
    then have "best_fit_alloc_pages n s = ret (None, s)"
      using n bf_scan [OF rep] by (simp add: best_fit_alloc_pages_def)
    with None abs show thesis by (intro that) (auto simp: spec_alloc_def)
  next
    case (Some x)
    then have x: "x \<in> set bs" "unat n \<le> snd x"
      using pick_sound [of "unat n" bs None x] by auto
    then obtain us vs where bs: "bs = us @ (fst x, snd x) # vs"
      by (metis prod.collapse split_list)
    have fresh: "fst x \<notin> fst ` set us"
      using apart_heads_distinct [OF ap ir] bs by auto
    have "snd x \<le> unat (num_free s)"
      using x(1) num by (simp add: member_le_sum_list)
    with x(2) have "\<not> num_free s < n" by (simp add: word_less_nat_alt)
    then have "best_fit_alloc_pages n s = ret (Some (fst x), best_fit_take (fst x) n s)"
      using n bf_scan [OF rep] Some by (simp add: best_fit_alloc_pages_def)
    moreover have "bf_rep (best_fit_take (fst x) n s) (take_block (fst x) (unat n) bs)"
      unfolding bs take_block_split [OF fresh] using rep bs n x by (intro bf_take) auto
    moreover have "coalesced (take_block (fst x) (unat n) bs)"
      unfolding bs take_block_split [OF fresh] using co bs x n0 by (auto simp: coalesced_append)
    ultimately show thesis
      using Some by (intro that) (auto simp: spec_alloc_def bf_abs_def)
  qed
qed

lemma free_set_take_block:
  assumes "apart bs" "blocks_in_range bs" "(b, l) \<in> set bs" "0 < n" "n \<le> l"
  shows "free_set (take_block b n bs) = free_set bs - {b..<b + n}"
    and "{b..<b + n} \<subseteq> free_set bs"
proof -
  obtain us vs where bs: "bs = us @ (b, l) # vs"
    using assms(3) by (meson split_list)
  have fresh: "b \<notin> fst ` set us"
    using apart_heads_distinct [OF assms(1,2)] bs by auto
  have "free_set us \<inter> {b..<b + n} = {}"
    using assms(1) bs by (auto simp: apart_append dest: free_set_below [where k = b, rotated])
  moreover have "free_set vs \<inter> {b..<b + n} = {}"
  proof -
    have "\<forall>y\<in>set vs. b + l \<le> fst y" using assms(1) bs by (simp add: apart_append)
    then have "b + l \<le> i" if "i \<in> free_set vs" for i using that by (rule free_set_above)
    then show ?thesis using assms(5) by fastforce
  qed
  ultimately show "free_set (take_block b n bs) = free_set bs - {b..<b + n}"
    unfolding bs take_block_split [OF fresh] using assms(5) by auto
  show "{b..<b + n} \<subseteq> free_set bs"
    using bs assms(5) by auto
qed

text \<open>The block list a state represents, computed by walking the free list.\<close>

definition blocks_of :: "'z pmm_scheme \<Rightarrow> block list" where
  "blocks_of s =
     (case list_walk (flinks s) free_head free_head of
        None \<Rightarrow> []
      | Some ns \<Rightarrow> map (\<lambda>x. case x of LHead _ \<Rightarrow> (0, 0)
                                     | LNode b \<Rightarrow> (b, unat (page_property (pages s b)))) ns)"

lemma blocks_of_abs: "bf_abs s bs \<Longrightarrow> blocks_of s = bs"
  by (force simp: bf_abs_def bf_rep_def blocks_of_def list_walk_dlist o_def intro!: map_idI)

definition bf_inv :: "'z pmm_scheme \<Rightarrow> bool" where
  "bf_inv s \<longleftrightarrow> bf_abs s (blocks_of s)"

definition free_pages_of :: "'z pmm_scheme \<Rightarrow> nat set" where
  "free_pages_of s = free_set (blocks_of s)"

definition page_usable :: "'z pmm_scheme \<Rightarrow> nat \<Rightarrow> bool" where
  "page_usable s i \<longleftrightarrow> min_page \<le> i \<and> i < max_page \<and> page_flags (pages s i) AND PAGE_RESERVED = 0"

lemma bf_invI: "bf_abs s bs \<Longrightarrow> bf_inv s"
  by (simp add: bf_inv_def blocks_of_abs)

lemma bf_inv_free_usable: "bf_inv s \<Longrightarrow> i \<in> free_pages_of s \<Longrightarrow> page_usable s i"
  using free_set_in_range [of "blocks_of s"]
  by (auto simp: bf_inv_def bf_abs_def bf_rep_def free_pages_of_def page_usable_def)

lemma page_usable_take [simp]:
  "bf_inv s \<Longrightarrow> page_usable (best_fit_take b n s) i = page_usable s i"
  by (auto simp: page_usable_def best_fit_take_def Let_def page_flag_bits)

section \<open>Boot\<close>

lemma init_memmap_loop_ok:
  "\<forall>i\<in>{p..<p + k}. page_flags (pages s i) AND PAGE_RESERVED = 0 \<Longrightarrow>
   init_memmap_loop p k s =
     ret (s\<lparr>pages := \<lambda>i. if i \<in> {p..<p + k}
                  then (pages s i)\<lparr>page_property := 0, page_ref := 0, page_flags := 0\<rparr>
                  else pages s i\<rparr>)"
proof (induction k arbitrary: p s)
  case (Suc k)
  have "init_memmap_loop p (Suc k) s = init_memmap_loop (Suc p) k
      (upd_page p (\<lambda>q. q\<lparr>page_property := 0, page_ref := 0, page_flags := 0\<rparr>) s)"
    using Suc.prems by simp
  also have "\<dots> = ret (s\<lparr>pages := \<lambda>i. if i \<in> {p..<p + Suc k}
      then (pages s i)\<lparr>page_property := 0, page_ref := 0, page_flags := 0\<rparr> else pages s i\<rparr>)"
    using Suc.prems by (subst Suc.IH) (auto simp: upd_page_def fun_eq_iff)
  finally show ?case .
qed simp

lemma bf_boot:
  assumes "\<And>i. min_page \<le> i \<Longrightarrow> i < max_page \<Longrightarrow> page_usable s i"
  obtains s' where "best_fit_init_memmap min_page g_num_free_pages (best_fit_init s) = ret s'"
    and "bf_abs s' [(min_page, unat g_num_free_pages)]"
proof -
  let ?s0 = "best_fit_init s"
  have flags: "\<forall>i\<in>{min_page..<min_page + unat g_num_free_pages}.
      page_flags (pages ?s0 i) AND PAGE_RESERVED = 0"
    using assms by (simp add: page_usable_def best_fit_init_def)
  have dl: "dlist (flinks ?s0) free_head []"
    by (simp add: best_fit_init_def dlist_init)
  then have dl': "dlist (add_list free_head (nxt (flinks ?s0) free_head) (LNode min_page) (flinks ?s0))
      free_head [LNode min_page]"
    by (intro dlist_add_front) auto
  show thesis
  proof (rule that)
    show "best_fit_init_memmap min_page g_num_free_pages ?s0 =
        ret (?s0\<lparr>pages := (\<lambda>i. if i \<in> {min_page..<min_page + unat g_num_free_pages}
            then (pages ?s0 i)\<lparr>page_property := 0, page_ref := 0, page_flags := 0\<rparr>
            else pages ?s0 i)
          (min_page := (pages ?s0 min_page)\<lparr>page_ref := 0, page_flags := 0 OR PAGE_PROPERTY,
            page_property := 0x7FE00\<rparr>),
          flinks := add_list free_head (nxt (flinks ?s0) free_head) (LNode min_page) (flinks ?s0),
          num_free := g_num_free_pages\<rparr>)" (is "_ = ret ?s'")
      using init_memmap_loop_ok [OF flags]
      by (simp add: best_fit_init_memmap_def upd_page_def Let_def del: page_bounds)
        (simp add: best_fit_init_def)
    show "bf_abs ?s' [(min_page, unat g_num_free_pages)]"
      using dl' by (auto simp: bf_abs_def bf_rep_def page_flag_bits)
  qed
qed

section \<open>The best-fit manager implements the interface\<close>

lemma free_pages_loop_reserved:
  "free_pages_loop p k s = ret s' \<Longrightarrow>
   bit (page_flags (pages s' i)) 0 = bit (page_flags (pages s i)) 0"
proof (induction k arbitrary: p s)
  case (Suc k)
  then have "\<not> bit (page_flags (pages s p)) 0"
    and "free_pages_loop (Suc p) k (upd_page p (\<lambda>q. q\<lparr>page_ref := 0, page_flags := 0\<rparr>) s) = ret s'"
    by (auto simp: assert_then_eq_ret page_flag_bits)
  with Suc.IH [of "Suc p" "upd_page p (\<lambda>q. q\<lparr>page_ref := 0, page_flags := 0\<rparr>) s"]
  show ?case by (auto split: if_splits)
qed simp

lemma page_usable_free:
  fixes s :: "'z pmm_scheme"
  assumes "best_fit_free_pages b n s = ret s'"
  shows "page_usable s' = page_usable s"
proof -
  have "bit (page_flags (pages (merge_next c t) i)) 0 = bit (page_flags (pages t i)) 0"
    for c i and t :: "'z pmm_scheme"
    by (simp add: merge_next_def Let_def split: lnode.splits)
  moreover have "bit (page_flags (pages (snd (merge_prev c t)) i)) 0 = bit (page_flags (pages t i)) 0"
    for c i and t :: "'z pmm_scheme"
    by (simp add: merge_prev_def Let_def split: lnode.splits)
  ultimately have "bit (page_flags (pages s' i)) 0 = bit (page_flags (pages s i)) 0" for i
    using assms
    by (auto simp: best_fit_free_pages_def exec_elims Let_def case_prod_unfold
        split: option.splits if_splits dest!: free_pages_loop_reserved [where i = i])
  then show ?thesis
    by (simp add: page_usable_def page_flag_bits fun_eq_iff)
qed

interpretation bf: pm_manager best_fit_init best_fit_init_memmap best_fit_alloc_pages
  best_fit_free_pages best_fit_count_free_pages bf_inv free_pages_of page_usable
  min_page g_num_free_pages
proof
  fix s :: "'z pmm_scheme"
  assume "\<And>i. min_page \<le> i \<Longrightarrow> i < min_page + unat g_num_free_pages \<Longrightarrow> page_usable s i"
  then obtain s' where
    "best_fit_init_memmap min_page g_num_free_pages (best_fit_init s) = ret s'"
    "bf_abs s' [(min_page, unat g_num_free_pages)]"
    by (rule bf_boot) auto
  then show "\<exists>s'. best_fit_init_memmap min_page g_num_free_pages (best_fit_init s) = ret s' \<and>
      bf_inv s' \<and> free_pages_of s' = {min_page..<min_page + unat g_num_free_pages}"
    by (auto simp: bf_invI free_pages_of_def blocks_of_abs)
next
  fix s :: "'z pmm_scheme" and n :: u64
  assume "bf_inv s" "0 < n"
  then show "\<exists>r s'. best_fit_alloc_pages n s = ret (r, s')"
    unfolding bf_inv_def by (meson bf_alloc)
next
  fix s s' :: "'z pmm_scheme" and n :: u64
  assume "bf_inv s" "best_fit_alloc_pages n s = ret (None, s')"
  then show "s' = s"
    by (auto simp: best_fit_alloc_pages_def exec_elims split: if_splits option.splits)
next
  fix s s' :: "'z pmm_scheme" and n :: u64 and p
  assume inv: "bf_inv s" and n: "0 < n" and al: "best_fit_alloc_pages n s = ret (Some p, s')"
  let ?bs = "blocks_of s"
  have abs: "bf_abs s ?bs" and ap: "apart ?bs" and ir: "blocks_in_range ?bs"
    using inv by (auto simp: bf_inv_def bf_abs_def bf_rep_def)
  obtain t where t: "best_fit_alloc_pages n s = ret (fst (spec_alloc (unat n) ?bs), t)"
    "bf_abs t (snd (spec_alloc (unat n) ?bs))"
    "fst (spec_alloc (unat n) ?bs) = Some p \<Longrightarrow> t = best_fit_take p n s"
    by (rule bf_alloc [OF abs n]) blast
  then have eq: "s' = t" "fst (spec_alloc (unat n) ?bs) = Some p" using al by auto
  then obtain x where x: "pick (unat n) ?bs None = Some x" "fst x = p"
    "snd (spec_alloc (unat n) ?bs) = take_block p (unat n) ?bs"
    by (auto simp: spec_alloc_def split: option.splits)
  then have mem: "(p, snd x) \<in> set ?bs" "unat n \<le> snd x"
    using pick_sound [OF x(1)] by auto
  have n0: "0 < unat n" using n by (simp add: word_less_nat_alt)
  have "free_pages_of s' = free_set (take_block p (unat n) ?bs)"
    using t(2) x(3) eq by (simp add: free_pages_of_def blocks_of_abs)
  then show "bf_inv s' \<and> {p..<p + unat n} \<subseteq> free_pages_of s \<and>
      free_pages_of s' = free_pages_of s - {p..<p + unat n} \<and> page_usable s' = page_usable s"
    using free_set_take_block [OF ap ir mem(1) n0 mem(2)] t eq inv
    by (auto simp: free_pages_of_def bf_invI)
next
  fix s :: "'z pmm_scheme" and n :: u64 and p
  assume inv: "bf_inv s" and n: "0 < n"
    and own: "\<And>i. i \<in> {p..<p + unat n} \<Longrightarrow> page_usable s i \<and> i \<notin> free_pages_of s"
  let ?bs = "blocks_of s"
  have abs: "bf_abs s ?bs" and ap: "apart ?bs" and ir: "blocks_in_range ?bs"
    using inv by (auto simp: bf_inv_def bf_abs_def bf_rep_def)
  have n0: "0 < unat n" using n by (simp add: word_less_nat_alt)
  have "p \<in> {p..<p + unat n}" "p + unat n - 1 \<in> {p..<p + unat n}"
    using n0 by auto
  then have range: "min_page \<le> p" "p + unat n \<le> max_page"
    using own [of p] own [of "p + unat n - 1"] n0 by (auto simp: page_usable_def)
  have dis: "{p..<p + unat n} \<inter> free_set ?bs = {}"
    using own by (auto simp: free_pages_of_def)
  have unres: "\<forall>i\<in>{p..<p + unat n}. page_flags (pages s i) AND PAGE_RESERVED = 0"
    using own by (simp add: page_usable_def)
  obtain s' where s': "best_fit_free_pages p n s = ret s'" "bf_abs s' (spec_free p (unat n) ?bs)"
    by (rule bf_free [OF abs n range dis unres])
  then show "\<exists>s'. best_fit_free_pages p n s = ret s' \<and> bf_inv s' \<and>
      free_pages_of s' = free_pages_of s \<union> {p..<p + unat n} \<and> page_usable s' = page_usable s"
    using free_set_spec_free [OF ap ir dis n0] page_usable_free [OF s'(1)]
    by (auto simp: bf_invI free_pages_of_def blocks_of_abs)
next
  fix s :: "'z pmm_scheme" and i
  assume "bf_inv s" "i \<in> free_pages_of s"
  then show "page_usable s i" by (rule bf_inv_free_usable)
next
  fix s :: "'z pmm_scheme"
  assume "bf_inv s"
  then show "finite (free_pages_of s)" by (simp add: free_pages_of_def)
next
  fix s :: "'z pmm_scheme"
  assume "bf_inv s"
  then show "unat (best_fit_count_free_pages s) = card (free_pages_of s)"
    by (simp add: bf_inv_def bf_abs_def bf_rep_def best_fit_count_free_pages_def free_pages_of_def
        card_free_set)
qed

section \<open>Properties\<close>

text \<open>A state with two free blocks, of five pages at \<open>0x82000\<close> and of three at \<open>0x82010\<close>.\<close>

definition sample_pmm :: pmm where
  "sample_pmm =
     \<lparr>pages = (\<lambda>i. \<lparr>page_ref = 0,
                    page_flags = (if i = 0x82000 \<or> i = 0x82010 then 2 else 0),
                    page_property = (if i = 0x82000 then 5 else if i = 0x82010 then 3 else 0),
                    page_pra_addr = 0\<rparr>),
      flinks = \<lparr>prv = (\<lambda>x. if x = LNode 0x82010 then LNode 0x82000
                           else if x = free_head then LNode 0x82010 else free_head),
                nxt = (\<lambda>x. if x = LNode 0x82000 then LNode 0x82010
                           else if x = free_head then LNode 0x82000 else free_head)\<rparr>,
      num_free = 8\<rparr>"

lemma sample_pmm_abs: "bf_abs sample_pmm [(0x82000, 5), (0x82010, 3)]"
  by (simp add: bf_abs_def bf_rep_def sample_pmm_def dlist_def page_flag_bits)

text \<open>C4: allocation refines the block-list specification. In a state that represents the sorted,
  coalesced block list \<open>bs\<close>, \<open>best_fit_alloc_pages\<close> returns, its result is the one the
  specification picks, and the new state represents the block list with the pages taken out,
  the unused tail of the chosen block staying in its place.\<close>

theorem best_fit_alloc_refines:
  assumes "bf_abs s bs" and "0 < n"
  shows "\<exists>s'. best_fit_alloc_pages n s = ret (fst (spec_alloc (unat n) bs), s') \<and>
     bf_abs s' (snd (spec_alloc (unat n) bs))"
  by (rule bf_alloc [OF assms]) blast

theorem best_fit_alloc_refines_witness:
  "\<exists>s'. best_fit_alloc_pages 2 sample_pmm = ret (Some 0x82010, s') \<and>
     bf_abs s' [(0x82000, 5), (0x82012, 1)]"
  using best_fit_alloc_refines [OF sample_pmm_abs, of 2] by (simp add: spec_alloc_def)

text \<open>C10: deallocation refines the specification. Freeing pages that are managed, not reserved and
  not free returns, and the new state represents the block list in which the pages are inserted
  in address order and merged with both neighbours.\<close>

theorem best_fit_free_refines:
  assumes "bf_abs s bs" and "0 < n" and "min_page \<le> b" and "b + unat n \<le> max_page"
    and "{b..<b + unat n} \<inter> free_set bs = {}"
    and "\<forall>i\<in>{b..<b + unat n}. page_flags (pages s i) AND PAGE_RESERVED = 0"
  shows "\<exists>s'. best_fit_free_pages b n s = ret s' \<and> bf_abs s' (spec_free b (unat n) bs)"
  by (rule bf_free [OF assms]) blast

theorem best_fit_free_refines_witness:
  "\<exists>s'. best_fit_free_pages 0x82005 11 sample_pmm = ret s' \<and> bf_abs s' [(0x82000, 19)]"
proof -
  have "\<forall>i\<in>{0x82005..<0x82005 + unat (11 :: u64)}. page_flags (pages sample_pmm i) AND PAGE_RESERVED = 0"
    by (auto simp: sample_pmm_def page_flag_bits bit_simps)
  from best_fit_free_refines [OF sample_pmm_abs, of 11, OF _ _ _ _ this]
  show ?thesis by (simp add: spec_free_def Int_Un_distrib)
qed

text \<open>The choice is a best fit. A request is refused exactly when no free block is large enough,
  and then nothing changes; otherwise the result is the start of a free block of minimal size
  among those large enough.\<close>

theorem best_fit_alloc_best:
  assumes "bf_abs s bs" and "0 < n"
  shows "if \<forall>x\<in>set bs. snd x < unat n then best_fit_alloc_pages n s = ret (None, s)
         else \<exists>p l s'. best_fit_alloc_pages n s = ret (Some p, s') \<and> (p, l) \<in> set bs \<and> unat n \<le> l \<and>
                (\<forall>x\<in>set bs. unat n \<le> snd x \<longrightarrow> l \<le> snd x)"
proof -
  obtain t where t: "best_fit_alloc_pages n s = ret (fst (spec_alloc (unat n) bs), t)"
    "fst (spec_alloc (unat n) bs) = None \<Longrightarrow> t = s"
    by (rule bf_alloc [OF assms]) (rule that)
  show ?thesis
  proof (cases "pick (unat n) bs None")
    case None
    then have "\<forall>y\<in>set bs. snd y < unat n" using pick_none [of "unat n" bs None] by blast
    with None show ?thesis using t by (simp add: spec_alloc_def)
  next
    case (Some x)
    then have "best_fit_alloc_pages n s = ret (Some (fst x), t)"
      using t by (simp add: spec_alloc_def)
    moreover have x: "(fst x, snd x) \<in> set bs" "unat n \<le> snd x"
      using pick_sound [OF Some] by auto
    moreover have "\<forall>y\<in>set bs. unat n \<le> snd y \<longrightarrow> snd x \<le> snd y"
      using pick_least [OF Some] by blast
    moreover have "\<not> (\<forall>y\<in>set bs. snd y < unat n)"
    proof
      assume "\<forall>y\<in>set bs. snd y < unat n"
      then have "snd (fst x, snd x) < unat n" using x(1) by (rule bspec)
      then show False using x(2) by simp
    qed
    ultimately show ?thesis by (subst if_not_P) blast+
  qed
qed

theorem best_fit_alloc_best_witness:
  "best_fit_alloc_pages 6 sample_pmm = ret (None, sample_pmm)"
  using best_fit_alloc_best [OF sample_pmm_abs, of 6] by simp

text \<open>C25: allocating and freeing again loses nothing. Whatever \<open>best_fit_alloc_pages\<close> returns was
  free before, can be freed, and freeing it restores the set of free pages and its count, within
  the allocator's invariant.\<close>

theorem best_fit_alloc_free_roundtrip:
  assumes "bf_inv s" and "0 < n" and "best_fit_alloc_pages n s = ret (Some p, s1)"
  shows "{p..<p + unat n} \<subseteq> free_pages_of s \<and> {p..<p + unat n} \<inter> free_pages_of s1 = {} \<and>
    (\<exists>s2. best_fit_free_pages p n s1 = ret s2 \<and> bf_inv s2 \<and> free_pages_of s2 = free_pages_of s \<and>
       best_fit_count_free_pages s2 = best_fit_count_free_pages s)"
proof -
  obtain s2 where s2: "best_fit_free_pages p n s1 = ret s2" "bf_inv s2"
    "free_pages_of s2 = free_pages_of s"
    using bf.alloc_dealloc [OF assms] by blast
  then have "unat (best_fit_count_free_pages s2) = unat (best_fit_count_free_pages s)"
    using assms(1) by (simp add: bf.count_ok)
  then show ?thesis
    using s2 bf.alloc_some [OF assms] by (auto simp: word_unat_eq_iff)
qed

theorem best_fit_alloc_free_roundtrip_witness:
  "\<exists>s1 s2. best_fit_alloc_pages 2 sample_pmm = ret (Some 0x82010, s1) \<and>
     best_fit_free_pages 0x82010 2 s1 = ret s2 \<and> free_pages_of s2 = free_pages_of sample_pmm"
proof -
  obtain s1 where s1: "best_fit_alloc_pages 2 sample_pmm = ret (Some 0x82010, s1)"
    by (rule bf_alloc [OF sample_pmm_abs, of 2]) (auto simp: spec_alloc_def)
  from best_fit_alloc_free_roundtrip [OF bf_invI [OF sample_pmm_abs] _ s1] s1
  show ?thesis by auto
qed

end
