(* ===== verification/Philosophers.thy ===== *)
theory Philosophers
  imports Kprelude
begin

text \<open>
  The dining philosophers of \<open>kernel/sync/test_phi.c\<close> in the version with semaphores. Kernel
  threads switch only where they block, so one step of the relation \<open>phi_step\<close> runs a
  philosopher from one blocking point (\<open>do_sleep\<close> or \<open>down\<close>) to the next. The semaphore of a
  philosopher has no waiter but the philosopher; as in \<open>kernel/sync/sem.c\<close> an \<open>up\<close> hands its
  unit to the waiter if there is one and counts it otherwise.
\<close>

section \<open>State and operations\<close>

definition NUM_PHI :: nat where [const_defs]: "NUM_PHI = 5"
definition THINKING :: nat where [const_defs]: "THINKING = 0"
definition HUNGRY :: nat where [const_defs]: "HUNGRY = 1"
definition EATING :: nat where [const_defs]: "EATING = 2"
definition TIMES :: nat where [const_defs]: "TIMES = 4"

definition phi_left :: "nat \<Rightarrow> nat" where
  "phi_left phi = (phi + NUM_PHI - 1) mod NUM_PHI"

definition phi_right :: "nat \<Rightarrow> nat" where
  "phi_right phi = (phi + 1) mod NUM_PHI"

text \<open>Where a philosopher is blocked, with the number of the iteration.\<close>

datatype phi_pc = Thinking nat | AtFork nat | Dining nat | Quit

record phi_sys =
  phi_state :: "nat \<Rightarrow> nat"
  phi_mutex :: int
  phi_sem :: "nat \<Rightarrow> int"
  phi_waiting :: "nat \<Rightarrow> bool"
  phi_pc :: "nat \<Rightarrow> phi_pc"

definition up_phi_sem :: "nat \<Rightarrow> phi_sys \<Rightarrow> phi_sys" where
  "up_phi_sem i s =
     (if phi_waiting s i then s\<lparr>phi_waiting := (phi_waiting s)(i := False)\<rparr>
      else s\<lparr>phi_sem := (phi_sem s)(i := phi_sem s i + 1)\<rparr>)"

text \<open>\<open>down(&g_phi_sem[phi])\<close>, the last call of \<open>phi_take_forks_sem\<close>: the philosopher goes on to
  eat or blocks.\<close>

definition down_phi_sem :: "nat \<Rightarrow> nat \<Rightarrow> phi_sys \<Rightarrow> phi_sys" where
  "down_phi_sem i k s =
     (if phi_sem s i > 0
      then s\<lparr>phi_sem := (phi_sem s)(i := phi_sem s i - 1), phi_pc := (phi_pc s)(i := Dining k)\<rparr>
      else s\<lparr>phi_waiting := (phi_waiting s)(i := True), phi_pc := (phi_pc s)(i := AtFork k)\<rparr>)"

definition set_phi_state :: "nat \<Rightarrow> nat \<Rightarrow> phi_sys \<Rightarrow> phi_sys" where
  "set_phi_state i v s = s\<lparr>phi_state := (phi_state s)(i := v)\<rparr>"

definition phi_test_sem :: "nat \<Rightarrow> phi_sys \<Rightarrow> phi_sys" where
  "phi_test_sem i s =
     (if phi_state s i = HUNGRY \<and> phi_state s (phi_left i) \<noteq> EATING \<and> phi_state s (phi_right i) \<noteq> EATING
      then up_phi_sem i (set_phi_state i EATING s) else s)"

definition phi_take_forks_sem :: "nat \<Rightarrow> nat \<Rightarrow> phi_sys \<Rightarrow> phi_sys" where
  "phi_take_forks_sem i k s =
     (let s1 = s\<lparr>phi_mutex := phi_mutex s - 1\<rparr>;
          s2 = phi_test_sem i (set_phi_state i HUNGRY s1);
          s3 = s2\<lparr>phi_mutex := phi_mutex s2 + 1\<rparr>
      in down_phi_sem i k s3)"

definition phi_put_forks_sem :: "nat \<Rightarrow> phi_sys \<Rightarrow> phi_sys" where
  "phi_put_forks_sem i s =
     (let s1 = s\<lparr>phi_mutex := phi_mutex s - 1\<rparr>;
          s2 = phi_test_sem (phi_right i) (phi_test_sem (phi_left i) (set_phi_state i THINKING s1))
      in s2\<lparr>phi_mutex := phi_mutex s2 + 1\<rparr>)"

definition next_round :: "nat \<Rightarrow> phi_pc" where
  "next_round k = (if Suc k < TIMES then Thinking (Suc k) else Quit)"

text \<open>The loop of \<open>phi_func_sem\<close>, cut at its blocking points.\<close>

inductive phi_step :: "phi_sys \<Rightarrow> phi_sys \<Rightarrow> bool" where
  think: "i < NUM_PHI \<Longrightarrow> phi_pc s i = Thinking k \<Longrightarrow> phi_mutex s > 0 \<Longrightarrow>
    phi_step s (phi_take_forks_sem i k s)"
| resume: "i < NUM_PHI \<Longrightarrow> phi_pc s i = AtFork k \<Longrightarrow> \<not> phi_waiting s i \<Longrightarrow>
    phi_step s (s\<lparr>phi_pc := (phi_pc s)(i := Dining k)\<rparr>)"
| eat: "i < NUM_PHI \<Longrightarrow> phi_pc s i = Dining k \<Longrightarrow> phi_mutex s > 0 \<Longrightarrow>
    phi_step s ((phi_put_forks_sem i s)\<lparr>phi_pc := (phi_pc s)(i := next_round k)\<rparr>)"

inductive_cases phi_stepE: "phi_step s s'"

text \<open>\<open>test_phi_sem\<close>: all philosophers think, the mutex is free.\<close>

definition phi_init :: "phi_sys" where
  "phi_init = \<lparr>phi_state = (\<lambda>_. THINKING), phi_mutex = 1, phi_sem = (\<lambda>_. 0),
     phi_waiting = (\<lambda>_. False), phi_pc = (\<lambda>_. Thinking 0)\<rparr>"

abbreviation phi_reachable :: "phi_sys \<Rightarrow> bool" where
  "phi_reachable s \<equiv> phi_step\<^sup>*\<^sup>* phi_init s"

section \<open>Neighbours\<close>

lemma phi_cases: "i < NUM_PHI \<Longrightarrow> i = 0 \<or> i = 1 \<or> i = 2 \<or> i = 3 \<or> i = 4"
  unfolding NUM_PHI_def by presburger

lemma phi_neighbours:
  assumes "i < NUM_PHI"
  shows "phi_left i < NUM_PHI" "phi_right i < NUM_PHI" "phi_left (phi_right i) = i" "phi_right (phi_left i) = i"
    "phi_left i \<noteq> i" "phi_right i \<noteq> i" "phi_left i \<noteq> phi_right i"
    "phi_right (phi_right i) \<noteq> i" "phi_left (phi_left i) \<noteq> i"
  using phi_cases [OF assms] by (auto simp: phi_left_def phi_right_def NUM_PHI_def dest: dvd_imp_le)

section \<open>The invariant\<close>

definition blocked_by :: "phi_sys \<Rightarrow> nat \<Rightarrow> bool" where
  "blocked_by s i \<longleftrightarrow> phi_state s (phi_left i) = EATING \<or> phi_state s (phi_right i) = EATING"

definition phi_ok :: "phi_sys \<Rightarrow> nat \<Rightarrow> bool" where
  "phi_ok s i \<longleftrightarrow> phi_sem s i = 0 \<and>
     (case phi_pc s i of
        Thinking k \<Rightarrow> k < TIMES \<and> phi_state s i = THINKING \<and> \<not> phi_waiting s i
      | AtFork k \<Rightarrow> k < TIMES \<and> (if phi_waiting s i then phi_state s i = HUNGRY \<and> blocked_by s i
                                 else phi_state s i = EATING)
      | Dining k \<Rightarrow> k < TIMES \<and> phi_state s i = EATING \<and> \<not> phi_waiting s i
      | Quit \<Rightarrow> phi_state s i = THINKING \<and> \<not> phi_waiting s i)"

definition phi_inv :: "phi_sys \<Rightarrow> bool" where
  "phi_inv s \<longleftrightarrow> phi_mutex s = 1 \<and> (\<forall>i < NUM_PHI. phi_ok s i) \<and>
     (\<forall>i < NUM_PHI. \<not> (phi_state s i = EATING \<and> phi_state s (phi_right i) = EATING))"

lemma phi_states [simp]:
  "HUNGRY \<noteq> EATING" "EATING \<noteq> HUNGRY" "THINKING \<noteq> EATING" "EATING \<noteq> THINKING"
  "HUNGRY \<noteq> THINKING" "THINKING \<noteq> HUNGRY"
  by (simp_all add: const_defs)

lemma phi_invD:
  assumes "phi_inv s"
  shows "i < NUM_PHI \<Longrightarrow> phi_ok s i" "phi_mutex s = 1"
    "i < NUM_PHI \<Longrightarrow> phi_state s i = EATING \<Longrightarrow> phi_state s (phi_right i) \<noteq> EATING"
  using assms by (auto simp: phi_inv_def)

lemma phi_ok_pc:
  "phi_pc s i = Thinking k \<Longrightarrow> phi_ok s i \<longleftrightarrow> phi_sem s i = 0 \<and> k < TIMES \<and> phi_state s i = THINKING \<and> \<not> phi_waiting s i"
  "phi_pc s i = AtFork k \<Longrightarrow> phi_ok s i \<longleftrightarrow> phi_sem s i = 0 \<and> k < TIMES \<and>
     (if phi_waiting s i then phi_state s i = HUNGRY \<and> blocked_by s i else phi_state s i = EATING)"
  "phi_pc s i = Dining k \<Longrightarrow> phi_ok s i \<longleftrightarrow> phi_sem s i = 0 \<and> k < TIMES \<and> phi_state s i = EATING \<and> \<not> phi_waiting s i"
  "phi_pc s i = Quit \<Longrightarrow> phi_ok s i \<longleftrightarrow> phi_sem s i = 0 \<and> phi_state s i = THINKING \<and> \<not> phi_waiting s i"
  by (simp_all add: phi_ok_def)

lemma phi_ok_eating:
  assumes "phi_ok s i" "phi_state s i = EATING"
  shows "(\<exists>k. phi_pc s i = Dining k) \<or> (\<exists>k. phi_pc s i = AtFork k \<and> \<not> phi_waiting s i)"
  using assms by (auto simp: phi_ok_def split: phi_pc.splits if_splits)

lemma phi_inv_init: "phi_inv phi_init"
  by (simp add: phi_inv_def phi_init_def phi_ok_def const_defs)

text \<open>
  Inside a critical section the hungry philosophers in \<open>H\<close> may not be blocked by a neighbour:
  they still have to be tested.
\<close>

definition phi_mid :: "nat set \<Rightarrow> phi_sys \<Rightarrow> bool" where
  "phi_mid H s \<longleftrightarrow>
     (\<forall>i < NUM_PHI. \<not> (phi_state s i = EATING \<and> phi_state s (phi_right i) = EATING)) \<and>
     (\<forall>i < NUM_PHI. i \<notin> H \<longrightarrow> phi_ok s i) \<and>
     (\<forall>i\<in>H. phi_ok s i \<or> (\<exists>k < TIMES. phi_pc s i = AtFork k \<and> phi_waiting s i \<and> phi_sem s i = 0 \<and>
        phi_state s i = HUNGRY))"

text \<open>A philosopher is fine as long as its own data stay and no neighbour stops eating.\<close>

lemma phi_ok_mono:
  assumes "phi_ok s i" "phi_sem s' i = phi_sem s i" "phi_pc s' i = phi_pc s i" "phi_waiting s' i = phi_waiting s i"
    "phi_state s' i = phi_state s i" "\<And>j. phi_state s j = EATING \<Longrightarrow> phi_state s' j = EATING"
  shows "phi_ok s' i"
  using assms by (auto simp: phi_ok_def blocked_by_def split: phi_pc.splits)

lemma phi_ok_other:
  assumes "phi_ok s i" "i \<noteq> j"
  shows "phi_ok (up_phi_sem j (set_phi_state j EATING s)) i"
  using assms(2) by (intro phi_ok_mono [OF assms(1)]) (auto simp: up_phi_sem_def set_phi_state_def)

lemma phi_mid_test:
  assumes mid: "phi_mid H s" and j: "j \<in> H" "j < NUM_PHI"
  shows "phi_mid (H - {j}) (phi_test_sem j s) \<and> phi_mutex (phi_test_sem j s) = phi_mutex s \<and>
    phi_pc (phi_test_sem j s) = phi_pc s"
proof (cases "phi_state s j = HUNGRY \<and> \<not> blocked_by s j")
  case True
  let ?s = "up_phi_sem j (set_phi_state j EATING s)"
  have t: "phi_test_sem j s = ?s"
    using True by (simp add: phi_test_sem_def blocked_by_def)
  have "\<not> phi_ok s j"
    using True by (auto simp: phi_ok_def const_defs split: phi_pc.splits if_splits)
  then obtain k where k: "k < TIMES" "phi_pc s j = AtFork k" "phi_waiting s j" "phi_sem s j = 0"
    using mid j by (auto simp: phi_mid_def)
  have ok: "phi_ok ?s j"
    using k by (simp add: phi_ok_def up_phi_sem_def set_phi_state_def)
  have st: "phi_state ?s = (phi_state s)(j := EATING)"
    by (simp add: up_phi_sem_def set_phi_state_def)
  have ne: "phi_state s j \<noteq> EATING"
    using True by (simp add: const_defs)
  have "phi_ok ?s i" if "i < NUM_PHI" "i \<notin> H - {j}" for i
    using mid that ok phi_ok_other [of s i j] ne by (cases "i = j") (auto simp: phi_mid_def)
  moreover have "phi_ok ?s i \<or> (\<exists>k < TIMES. phi_pc ?s i = AtFork k \<and> phi_waiting ?s i \<and> phi_sem ?s i = 0 \<and>
      phi_state ?s i = HUNGRY)" if "i \<in> H - {j}" for i
    using mid that phi_ok_other [of s i j] ne
    by (auto simp: phi_mid_def up_phi_sem_def set_phi_state_def)
  moreover have "\<not> (phi_state ?s i = EATING \<and> phi_state ?s (phi_right i) = EATING)" if i: "i < NUM_PHI" for i
    using mid i True phi_neighbours [OF i] phi_neighbours [OF j(2)]
    by (auto simp: phi_mid_def st blocked_by_def)
  ultimately show ?thesis
    unfolding t by (auto simp: phi_mid_def up_phi_sem_def set_phi_state_def)
next
  case False
  have "phi_test_sem j s = s"
    using False by (auto simp: phi_test_sem_def blocked_by_def)
  moreover have "phi_ok s j"
  proof (rule ccontr)
    assume no: "\<not> phi_ok s j"
    then obtain k where "k < TIMES" "phi_pc s j = AtFork k" "phi_waiting s j" "phi_sem s j = 0" "phi_state s j = HUNGRY"
      using mid j by (auto simp: phi_mid_def)
    then have "phi_ok s j"
      using False by (simp add: phi_ok_def)
    with no show False ..
  qed
  ultimately show ?thesis
    using mid by (auto simp: phi_mid_def)
qed

lemma phi_inv_take:
  assumes inv: "phi_inv s" and i: "i < NUM_PHI" and pc: "phi_pc s i = Thinking k"
  shows "phi_inv (phi_take_forks_sem i k s)"
proof -
  have own: "k < TIMES" "phi_state s i = THINKING" "\<not> phi_waiting s i" "phi_sem s i = 0"
    using phi_invD(1) [OF inv i] by (auto simp: phi_ok_pc(1) [OF pc])
  note N = phi_neighbours [OF i]
  let ?s' = "phi_take_forks_sem i k s"
  have eff: "phi_state ?s' = (phi_state s)(i := if blocked_by s i then HUNGRY else EATING)"
      "phi_sem ?s' = phi_sem s" "phi_pc ?s' = (phi_pc s)(i := if blocked_by s i then AtFork k else Dining k)"
      "phi_waiting ?s' = (phi_waiting s)(i := blocked_by s i)" "phi_mutex ?s' = phi_mutex s"
    using own N(5,6) by (auto simp: phi_take_forks_sem_def phi_test_sem_def set_phi_state_def up_phi_sem_def
        down_phi_sem_def blocked_by_def Let_def fun_eq_iff)
  have blk: "blocked_by ?s' i = blocked_by s i"
    using N(5,6) by (simp add: blocked_by_def eff)
  have "phi_ok ?s' j" if "j < NUM_PHI" for j
  proof (cases "j = i")
    case True
    then show ?thesis
      using own blk by (simp add: phi_ok_def eff)
  next
    case False
    then show ?thesis
      using own(2) by (intro phi_ok_mono [OF phi_invD(1) [OF inv that]]) (auto simp: eff)
  qed
  moreover have "\<not> (phi_state ?s' j = EATING \<and> phi_state ?s' (phi_right j) = EATING)" if j: "j < NUM_PHI" for j
  proof -
    note S = fun_cong [OF eff(1)]
    have jr: "phi_right j < NUM_PHI"
      by (rule phi_neighbours(2) [OF j])
    consider (self) "j = i" | (prev) "phi_right j = i" "j \<noteq> i" | (other) "j \<noteq> i" "phi_right j \<noteq> i"
      by blast
    then show ?thesis
    proof cases
      case self
      then show ?thesis
        using N(6) by (simp add: S blocked_by_def)
    next
      case prev
      then have "phi_left i = j"
        using phi_neighbours(3) [OF j] by simp
      then show ?thesis
        using prev by (simp add: S blocked_by_def)
    next
      case other
      then show ?thesis
        using phi_invD(3) [OF inv j] by (simp add: S)
    qed
  qed
  ultimately show ?thesis
    using phi_invD(2) [OF inv] by (simp add: phi_inv_def eff)
qed

text \<open>Testing a philosopher ignores the program counters and the mutex.\<close>

lemma phi_test_pc: "phi_test_sem j (s\<lparr>phi_pc := pc\<rparr>) = (phi_test_sem j s)\<lparr>phi_pc := pc\<rparr>"
  by (cases s) (simp add: phi_test_sem_def up_phi_sem_def set_phi_state_def)

lemma phi_test_mutex: "phi_mutex (phi_test_sem j s) = phi_mutex s"
  by (simp add: phi_test_sem_def up_phi_sem_def set_phi_state_def)

lemma phi_ok_mutex: "phi_ok (s\<lparr>phi_mutex := m\<rparr>) j = phi_ok s j"
  by (cases "phi_pc s j") (simp_all add: phi_ok_def blocked_by_def)

lemma phi_inv_put:
  assumes inv: "phi_inv s" and i: "i < NUM_PHI" and pc: "phi_pc s i = Dining k"
  shows "phi_inv ((phi_put_forks_sem i s)\<lparr>phi_pc := (phi_pc s)(i := next_round k)\<rparr>)"
proof -
  note N = phi_neighbours [OF i]
  have own: "k < TIMES" "phi_state s i = EATING" "\<not> phi_waiting s i" "phi_sem s i = 0"
    using phi_invD(1) [OF inv i] by (auto simp: phi_ok_pc(3) [OF pc])
  define t where "t = set_phi_state i THINKING (s\<lparr>phi_mutex := phi_mutex s - 1\<rparr>)\<lparr>phi_pc := (phi_pc s)(i := next_round k)\<rparr>"
  have st: "phi_state t = (phi_state s)(i := THINKING)" "phi_sem t = phi_sem s" "phi_waiting t = phi_waiting s"
      "phi_pc t = (phi_pc s)(i := next_round k)" "phi_mutex t = 0"
    using inv by (simp_all add: t_def set_phi_state_def phi_inv_def)
  have oki: "phi_ok t i"
    using own by (simp add: phi_ok_def st next_round_def)
  have far: "phi_ok t j" if j: "j < NUM_PHI" "j \<notin> {phi_left i, phi_right i}" for j
  proof (cases "j = i")
    case False
    have "blocked_by t j = blocked_by s j"
    proof -
      have "phi_left j \<noteq> i" "phi_right j \<noteq> i"
        using j phi_neighbours(3,4) [OF j(1)] by auto
      then show ?thesis
        by (simp add: blocked_by_def st)
    qed
    moreover have "phi_ok s j"
      using phi_invD(1) [OF inv j(1)] .
    ultimately show ?thesis
      using False by (simp add: phi_ok_def st split: phi_pc.splits)
  qed (simp add: oki)
  have near: "phi_ok t j \<or> (\<exists>k < TIMES. phi_pc t j = AtFork k \<and> phi_waiting t j \<and> phi_sem t j = 0 \<and> phi_state t j = HUNGRY)"
    if j: "j \<in> {phi_left i, phi_right i}" for j
  proof -
    have "phi_ok s j" "j \<noteq> i"
      using phi_invD(1) [OF inv] j N by auto
    then show ?thesis
      by (cases "phi_pc s j") (auto simp: phi_ok_def st split: if_splits)
  qed
  have "\<not> (phi_state t j = EATING \<and> phi_state t (phi_right j) = EATING)" if "j < NUM_PHI" for j
    using phi_invD(3) [OF inv that] by (simp add: st)
  then have mid: "phi_mid {phi_left i, phi_right i} t"
    using far near unfolding phi_mid_def by blast
  let ?u = "phi_test_sem (phi_left i) t"
  have u: "phi_mid ({phi_left i, phi_right i} - {phi_left i}) ?u" "phi_mutex ?u = 0" "phi_pc ?u = phi_pc t"
    using phi_mid_test [OF mid, of "phi_left i"] N st(5) by auto
  let ?v = "phi_test_sem (phi_right i) ?u"
  have v: "phi_mid ({phi_left i, phi_right i} - {phi_left i} - {phi_right i}) ?v" "phi_mutex ?v = 0" "phi_pc ?v = phi_pc t"
    using phi_mid_test [OF u(1), of "phi_right i"] N u(2,3) by auto
  have "(phi_put_forks_sem i s)\<lparr>phi_pc := (phi_pc s)(i := next_round k)\<rparr> = ?v\<lparr>phi_mutex := phi_mutex ?v + 1\<rparr>"
    unfolding phi_put_forks_sem_def t_def Let_def
    by (simp add: phi_test_pc phi_test_mutex)
  moreover have "{phi_left i, phi_right i} - {phi_left i} - {phi_right i} = {}"
    by auto
  ultimately show ?thesis
    using v by (simp add: phi_mid_def phi_inv_def phi_ok_mutex)
qed

lemma phi_inv_step:
  assumes inv: "phi_inv s" and step: "phi_step s s'"
  shows "phi_inv s'"
  using step
proof cases
  case (resume i k)
  note s' = resume(1) and i = resume(2) and pc = resume(3,4)
  have "phi_ok s' j" if "j < NUM_PHI" for j
  proof (cases "j = i")
    case True
    then show ?thesis
      using phi_invD(1) [OF inv i] pc by (simp add: phi_ok_def s')
  next
    case False
    then show ?thesis
      by (intro phi_ok_mono [OF phi_invD(1) [OF inv that]]) (auto simp: s')
  qed
  then show ?thesis
    using inv by (simp add: phi_inv_def s')
next
  case (think i k)
  then show ?thesis
    using phi_inv_take [OF inv] by simp
next
  case (eat i k)
  then show ?thesis
    using phi_inv_put [OF inv] by simp
qed

lemma phi_inv_reachable: "phi_reachable s \<Longrightarrow> phi_inv s"
  by (induction rule: rtranclp_induct) (auto intro: phi_inv_init phi_inv_step)

section \<open>Termination\<close>

text \<open>Steps a philosopher has left.\<close>

fun steps_left :: "phi_pc \<Rightarrow> nat" where
  "steps_left (Thinking k) = 3 * (TIMES - k)"
| "steps_left (AtFork k) = 3 * (TIMES - k) - 1"
| "steps_left (Dining k) = 3 * (TIMES - k) - 2"
| "steps_left Quit = 0"

definition work_left :: "phi_sys \<Rightarrow> nat" where
  "work_left s = (\<Sum>i < NUM_PHI. steps_left (phi_pc s i))"

lemma work_left_upd:
  assumes "i < NUM_PHI" "steps_left pc < steps_left (phi_pc s i)" "phi_pc s' = (phi_pc s)(i := pc)"
  shows "work_left s' < work_left s"
  unfolding work_left_def using assms by (intro sum_strict_mono_ex1) auto

lemma phi_step_work:
  assumes "phi_inv s" "phi_step s s'"
  shows "work_left s' < work_left s"
  using assms(2)
proof cases
  case (think i k)
  have k: "k < TIMES"
    using phi_invD(1) [OF assms(1) think(2)] by (simp add: phi_ok_pc(1) [OF think(3)])
  have "\<exists>pc. (pc = AtFork k \<or> pc = Dining k) \<and> phi_pc s' = (phi_pc s)(i := pc)"
    by (auto simp: think phi_take_forks_sem_def phi_test_sem_def set_phi_state_def up_phi_sem_def down_phi_sem_def Let_def)
  then obtain pc where pc: "pc = AtFork k \<or> pc = Dining k" "phi_pc s' = (phi_pc s)(i := pc)"
    by blast
  show ?thesis
    by (rule work_left_upd [OF think(2) _ pc(2)]) (use think(3) k pc(1) in auto)
next
  case (resume i k)
  have "k < TIMES"
    using phi_invD(1) [OF assms(1) resume(2)] by (simp add: phi_ok_pc(2) [OF resume(3)])
  then show ?thesis
    using resume by (intro work_left_upd [OF resume(2), of "Dining k"]) auto
next
  case (eat i k)
  have "k < TIMES"
    using phi_invD(1) [OF assms(1) eat(2)] by (simp add: phi_ok_pc(3) [OF eat(3)])
  then show ?thesis
    using eat by (intro work_left_upd [OF eat(2), of "next_round k"]) (auto simp: next_round_def)
qed

lemma phi_not_stuck:
  assumes "phi_inv s" "i < NUM_PHI" "phi_pc s i \<noteq> Quit"
  shows "\<exists>s'. phi_step s s'"
proof (cases "phi_pc s i")
  case (AtFork k)
  show ?thesis
  proof (cases "phi_waiting s i")
    case True
    then obtain j where j: "j < NUM_PHI" "phi_state s j = EATING"
      using phi_invD(1) [OF assms(1,2)] phi_neighbours(1,2) [OF assms(2)]
      by (auto simp: phi_ok_pc(2) [OF AtFork] blocked_by_def)
    have "phi_mutex s > 0"
      using phi_invD(2) [OF assms(1)] by simp
    then show ?thesis
      using phi_ok_eating [OF phi_invD(1) [OF assms(1) j(1)] j(2)] j(1)
      by (blast intro: phi_step.resume phi_step.eat)
  next
    case False
    then show ?thesis
      using assms AtFork by (blast intro: phi_step.resume)
  qed
next
  case (Thinking k)
  have "phi_mutex s > 0"
    using assms(1) by (simp add: phi_inv_def)
  with Thinking assms(2) show ?thesis
    by (blast intro: phi_step.think)
next
  case (Dining k)
  have "phi_mutex s > 0"
    using assms(1) by (simp add: phi_inv_def)
  with Dining assms(2) show ?thesis
    by (blast intro: phi_step.eat)
qed (use assms in simp)

lemma phi_run_bound:
  assumes "(phi_step ^^ n) phi_init s"
  shows "phi_reachable s \<and> n + work_left s \<le> 60"
  using assms
proof (induction n arbitrary: s)
  case 0
  have "work_left phi_init = 60"
    by (simp add: work_left_def phi_init_def const_defs)
  with 0 show ?case
    by auto
next
  case (Suc n)
  from Suc.prems obtain t where t: "(phi_step ^^ n) phi_init t" "phi_step t s"
    by auto
  with Suc.IH [OF t(1)] phi_step_work [OF phi_inv_reachable t(2)] show ?case
    by (auto intro: rtranclp.rtrancl_into_rtrancl)
qed

section \<open>What the test shows\<close>

text \<open>C16: In every reachable state of the semaphore version no two neighbours eat at the same time,
  and a philosopher past \<open>phi_take_forks_sem\<close> holds both forks.\<close>

theorem phi_neighbours_exclusive:
  assumes "phi_reachable s" and "i < NUM_PHI"
  shows "\<not> (phi_state s i = EATING \<and> phi_state s (phi_right i) = EATING) \<and>
    (phi_pc s i = Dining k \<longrightarrow> phi_state s i = EATING \<and> \<not> blocked_by s i)"
proof (intro conjI impI)
  note inv = phi_inv_reachable [OF assms(1)]
  show no: "\<not> (phi_state s i = EATING \<and> phi_state s (phi_right i) = EATING)"
    using phi_invD(3) [OF inv assms(2)] by blast
  assume pc: "phi_pc s i = Dining k"
  show e: "phi_state s i = EATING"
    using phi_invD(1) [OF inv assms(2)] by (simp add: phi_ok_pc(3) [OF pc])
  have "phi_state s (phi_left i) \<noteq> EATING"
    using phi_invD(3) [OF inv, of "phi_left i"] phi_neighbours(1,4) [OF assms(2)] e by auto
  with no e show "\<not> blocked_by s i"
    by (simp add: blocked_by_def)
qed

lemma phi_first_step: "phi_step phi_init (phi_take_forks_sem 0 0 phi_init)"
  by (rule phi_step.think) (simp_all add: phi_init_def const_defs)

theorem phi_neighbours_exclusive_witness:
  "phi_state (phi_take_forks_sem 0 0 phi_init) 0 = EATING \<and>
   phi_state (phi_take_forks_sem 0 0 phi_init) (phi_right 0) \<noteq> EATING"
proof -
  let ?s = "phi_take_forks_sem 0 0 phi_init"
  have "phi_pc ?s 0 = Dining 0"
    by (simp add: phi_take_forks_sem_def phi_test_sem_def set_phi_state_def up_phi_sem_def down_phi_sem_def
        phi_init_def phi_left_def phi_right_def NUM_PHI_def)
  moreover have "phi_reachable ?s"
    using phi_first_step by blast
  ultimately show ?thesis
    using phi_neighbours_exclusive [of ?s 0 0] by (simp add: NUM_PHI_def)
qed

text \<open>C30: The philosophers neither deadlock nor run for ever: a run has at most \<open>60\<close> steps, three for
  each of the \<open>TIMES\<close> rounds of the five, and one that cannot be continued has ended with every
  philosopher at the end of \<open>phi_func_sem\<close>.\<close>

theorem phi_all_finish:
  assumes "(phi_step ^^ n) phi_init s"
  shows "n \<le> 60 \<and> ((\<nexists>s'. phi_step s s') \<longleftrightarrow> (\<forall>i < NUM_PHI. phi_pc s i = Quit))"
proof -
  have r: "phi_reachable s" "n + work_left s \<le> 60"
    using phi_run_bound [OF assms] by auto
  have "\<not> phi_step s s'" if "\<forall>i < NUM_PHI. phi_pc s i = Quit" for s'
    using that by (auto elim!: phi_stepE)
  then have "(\<nexists>s'. phi_step s s') \<longleftrightarrow> (\<forall>i < NUM_PHI. phi_pc s i = Quit)"
    using phi_not_stuck [OF phi_inv_reachable [OF r(1)]] by blast
  with r(2) show ?thesis
    by simp
qed

theorem phi_all_finish_witness: "\<exists>s. phi_step (phi_take_forks_sem 0 0 phi_init) s"
proof -
  let ?s = "phi_take_forks_sem 0 0 phi_init"
  have "(phi_step ^^ 1) phi_init ?s"
    using phi_first_step by (simp only: relpowp_1)
  moreover have "phi_pc ?s 1 = Thinking 0"
    by (simp add: phi_take_forks_sem_def phi_test_sem_def set_phi_state_def up_phi_sem_def down_phi_sem_def
        phi_init_def phi_left_def phi_right_def NUM_PHI_def)
  ultimately show ?thesis
    using phi_all_finish [of 1 ?s] by (force simp: NUM_PHI_def)
qed

end
