(* ===== verification/Philosophers_Cond.thy ===== *)
theory Philosophers_Cond
  imports Philosophers
begin

text \<open>
  The dining philosophers of \<open>kernel/sync/test_phi.c\<close> in the version with a monitor, on the
  monitors of \<open>kernel/sync/monitor.c\<close>. A step runs a philosopher from one blocking point to the
  next; \<open>do_sleep\<close> may end at any time, so the model has every run of the program and more: what
  is proved of all its reachable states holds of the program. A semaphore is its value and the queue of its waiters; an
  \<open>up\<close> takes the first waiter out of the queue, and a new waiter enters it in the way
  \<open>add_wait_queue\<close> links it: in front, with only the last of the other waiters kept.
\<close>

section \<open>State\<close>

datatype sem_id = Mutex | Next | Cond nat

record csem =
  cs_value :: int
  cs_queue :: "nat list"

text \<open>Where a philosopher is: asleep before the meal, in \<open>down\<close> of the mutex before the meal, in
  \<open>signal_cond\<close> to itself, in \<open>wait_cond\<close>, asleep at the table, in \<open>down\<close> of the mutex after it,
  in \<open>signal_cond\<close> to the left and to the right neighbour, at the end.\<close>

datatype cond_pc =
  CThinking nat | CEnterTake nat | CSelf nat | CFork nat | CDining nat | CEnterPut nat | CLeft nat | CRight nat | CQuit

record cond_sys =
  cp_state :: "nat \<Rightarrow> nat"
  cp_sems :: "sem_id \<Rightarrow> csem"
  cp_next_count :: int
  cp_count :: "nat \<Rightarrow> int"
  cp_woken :: "nat \<Rightarrow> bool"
  cp_pc :: "nat \<Rightarrow> cond_pc"

section \<open>Semaphores and monitor\<close>

definition enq :: "nat \<Rightarrow> nat list \<Rightarrow> nat list" where
  "enq i ws = i # (if ws = [] then [] else [last ws])"

definition upd_sem :: "sem_id \<Rightarrow> (csem \<Rightarrow> csem) \<Rightarrow> cond_sys \<Rightarrow> cond_sys" where
  "upd_sem q f s = s\<lparr>cp_sems := (cp_sems s)(q := f (cp_sems s q))\<rparr>"

definition set_pc :: "nat \<Rightarrow> cond_pc \<Rightarrow> cond_sys \<Rightarrow> cond_sys" where
  "set_pc i p s = s\<lparr>cp_pc := (cp_pc s)(i := p)\<rparr>"

definition set_cstate :: "nat \<Rightarrow> nat \<Rightarrow> cond_sys \<Rightarrow> cond_sys" where
  "set_cstate i v s = s\<lparr>cp_state := (cp_state s)(i := v)\<rparr>"

definition add_count :: "nat \<Rightarrow> int \<Rightarrow> cond_sys \<Rightarrow> cond_sys" where
  "add_count i d s = s\<lparr>cp_count := (cp_count s)(i := cp_count s i + d)\<rparr>"

definition add_next :: "int \<Rightarrow> cond_sys \<Rightarrow> cond_sys" where
  "add_next d s = s\<lparr>cp_next_count := cp_next_count s + d\<rparr>"

definition set_woken :: "nat \<Rightarrow> bool \<Rightarrow> cond_sys \<Rightarrow> cond_sys" where
  "set_woken i b s = s\<lparr>cp_woken := (cp_woken s)(i := b)\<rparr>"

definition up_csem :: "sem_id \<Rightarrow> cond_sys \<Rightarrow> cond_sys" where
  "up_csem q s =
     (case cs_queue (cp_sems s q) of
        [] \<Rightarrow> upd_sem q (\<lambda>x. x\<lparr>cs_value := cs_value x + 1\<rparr>) s
      | p # ps \<Rightarrow> set_woken p True (upd_sem q (\<lambda>x. x\<lparr>cs_queue := ps\<rparr>) s))"

text \<open>The flag tells whether philosopher \<open>i\<close> goes on; otherwise it waits at \<open>p\<close>.\<close>

definition down_csem :: "sem_id \<Rightarrow> nat \<Rightarrow> cond_pc \<Rightarrow> cond_sys \<Rightarrow> bool \<times> cond_sys" where
  "down_csem q i p s =
     (if cs_value (cp_sems s q) > 0 then (True, upd_sem q (\<lambda>x. x\<lparr>cs_value := cs_value x - 1\<rparr>) s)
      else (False, set_pc i p (set_woken i False (upd_sem q (\<lambda>x. x\<lparr>cs_queue := enq i (cs_queue x)\<rparr>) s))))"

definition signal_c :: "nat \<Rightarrow> nat \<Rightarrow> cond_pc \<Rightarrow> cond_sys \<Rightarrow> bool \<times> cond_sys" where
  "signal_c j i p s =
     (if cp_count s j > 0 then
        let (got, s1) = down_csem Next i p (up_csem (Cond j) (add_next 1 s))
        in (got, if got then add_next (- 1) s1 else s1)
      else (True, s))"

definition leave_c :: "cond_sys \<Rightarrow> cond_sys" where
  "leave_c s = up_csem (if cp_next_count s > 0 then Next else Mutex) s"

definition wait_c :: "nat \<Rightarrow> cond_pc \<Rightarrow> cond_sys \<Rightarrow> bool \<times> cond_sys" where
  "wait_c i p s =
     (let (got, s1) = down_csem (Cond i) i p (leave_c (add_count i 1 s))
      in (got, if got then add_count i (- 1) s1 else s1))"

section \<open>The philosophers\<close>

definition phi_test_cond :: "nat \<Rightarrow> nat \<Rightarrow> cond_pc \<Rightarrow> cond_sys \<Rightarrow> bool \<times> cond_sys" where
  "phi_test_cond j i p s =
     (if cp_state s j = HUNGRY \<and> cp_state s (phi_left j) \<noteq> EATING \<and> cp_state s (phi_right j) \<noteq> EATING
      then signal_c j i p (set_cstate j EATING s) else (True, s))"

definition take_leave :: "nat \<Rightarrow> nat \<Rightarrow> cond_sys \<Rightarrow> cond_sys" where
  "take_leave i k s = set_pc i (CDining k) (leave_c s)"

definition take_wait :: "nat \<Rightarrow> nat \<Rightarrow> cond_sys \<Rightarrow> cond_sys" where
  "take_wait i k s =
     (if cp_state s i = HUNGRY then
        let (got, s1) = wait_c i (CFork k) s in if got then take_leave i k s1 else s1
      else take_leave i k s)"

definition take_body :: "nat \<Rightarrow> nat \<Rightarrow> cond_sys \<Rightarrow> cond_sys" where
  "take_body i k s =
     (let (got, s1) = phi_test_cond i i (CSelf k) (set_cstate i HUNGRY s) in if got then take_wait i k s1 else s1)"

definition phi_take_forks_cond :: "nat \<Rightarrow> nat \<Rightarrow> cond_sys \<Rightarrow> cond_sys" where
  "phi_take_forks_cond i k s =
     (let (got, s1) = down_csem Mutex i (CEnterTake k) s in if got then take_body i k s1 else s1)"

definition next_meal :: "nat \<Rightarrow> cond_pc" where
  "next_meal k = (if Suc k < TIMES then CThinking (Suc k) else CQuit)"

definition put_leave :: "nat \<Rightarrow> nat \<Rightarrow> cond_sys \<Rightarrow> cond_sys" where
  "put_leave i k s = set_pc i (next_meal k) (leave_c s)"

definition put_right :: "nat \<Rightarrow> nat \<Rightarrow> cond_sys \<Rightarrow> cond_sys" where
  "put_right i k s =
     (let (got, s1) = phi_test_cond (phi_right i) i (CRight k) s in if got then put_leave i k s1 else s1)"

definition put_body :: "nat \<Rightarrow> nat \<Rightarrow> cond_sys \<Rightarrow> cond_sys" where
  "put_body i k s =
     (let (got, s1) = phi_test_cond (phi_left i) i (CLeft k) (set_cstate i THINKING s) in if got then put_right i k s1 else s1)"

definition phi_put_forks_cond :: "nat \<Rightarrow> nat \<Rightarrow> cond_sys \<Rightarrow> cond_sys" where
  "phi_put_forks_cond i k s =
     (let (got, s1) = down_csem Mutex i (CEnterPut k) s in if got then put_body i k s1 else s1)"

text \<open>The loop of \<open>phi_func_cond\<close>, cut at its blocking points. A woken philosopher runs the rest of
  its \<open>down\<close>, of the monitor operation and of the routine around it.\<close>

inductive cond_step :: "cond_sys \<Rightarrow> cond_sys \<Rightarrow> bool" where
  think: "i < NUM_PHI \<Longrightarrow> cp_pc s i = CThinking k \<Longrightarrow> cond_step s (phi_take_forks_cond i k s)"
| enter_take: "i < NUM_PHI \<Longrightarrow> cp_pc s i = CEnterTake k \<Longrightarrow> cp_woken s i \<Longrightarrow>
    cond_step s (take_body i k (set_woken i False s))"
| self: "i < NUM_PHI \<Longrightarrow> cp_pc s i = CSelf k \<Longrightarrow> cp_woken s i \<Longrightarrow>
    cond_step s (take_wait i k (add_next (- 1) (set_woken i False s)))"
| fork: "i < NUM_PHI \<Longrightarrow> cp_pc s i = CFork k \<Longrightarrow> cp_woken s i \<Longrightarrow>
    cond_step s (take_leave i k (add_count i (- 1) (set_woken i False s)))"
| eat: "i < NUM_PHI \<Longrightarrow> cp_pc s i = CDining k \<Longrightarrow> cond_step s (phi_put_forks_cond i k s)"
| enter_put: "i < NUM_PHI \<Longrightarrow> cp_pc s i = CEnterPut k \<Longrightarrow> cp_woken s i \<Longrightarrow>
    cond_step s (put_body i k (set_woken i False s))"
| signal_left: "i < NUM_PHI \<Longrightarrow> cp_pc s i = CLeft k \<Longrightarrow> cp_woken s i \<Longrightarrow>
    cond_step s (put_right i k (add_next (- 1) (set_woken i False s)))"
| signal_right: "i < NUM_PHI \<Longrightarrow> cp_pc s i = CRight k \<Longrightarrow> cp_woken s i \<Longrightarrow>
    cond_step s (put_leave i k (add_next (- 1) (set_woken i False s)))"

inductive_cases cond_stepE: "cond_step s s'"

text \<open>\<open>test_phi_cond\<close>\<close>

definition cond_init :: cond_sys where
  "cond_init = \<lparr>cp_state = (\<lambda>_. THINKING),
     cp_sems = (\<lambda>q. if q = Mutex then \<lparr>cs_value = 1, cs_queue = []\<rparr> else \<lparr>cs_value = 0, cs_queue = []\<rparr>),
     cp_next_count = 0, cp_count = (\<lambda>_. 0), cp_woken = (\<lambda>_. False), cp_pc = (\<lambda>_. CThinking 0)\<rparr>"

abbreviation cond_reachable :: "cond_sys \<Rightarrow> bool" where
  "cond_reachable s \<equiv> cond_step\<^sup>*\<^sup>* cond_init s"

lemma enq_set: "set (enq i ws) \<subseteq> insert i (set ws)"
  by (simp add: enq_def)

section \<open>A run in which philosophers wait\<close>

text \<open>Philosopher 1 is woken at the table when 0 leaves; before it runs, 2, 3 and 4 come back.\<close>

definition busy :: cond_sys where
  "busy = fold (\<lambda>i. phi_take_forks_cond i 0) [2, 3, 4] (phi_put_forks_cond 0 0 (fold (\<lambda>i. phi_take_forks_cond i 0) [0, 1] cond_init))"

lemmas cond_defs = phi_take_forks_cond_def take_body_def take_wait_def take_leave_def phi_put_forks_cond_def put_body_def
  put_right_def put_leave_def phi_test_cond_def signal_c_def wait_c_def leave_c_def up_csem_def down_csem_def upd_sem_def
  set_pc_def set_cstate_def add_count_def add_next_def set_woken_def enq_def

lemmas cond_run = cond_defs cond_init_def const_defs phi_left_def phi_right_def

lemma busy_reachable: "cond_reachable busy"
proof -
  define s1 where "s1 = phi_take_forks_cond 0 0 cond_init"
  define s2 where "s2 = phi_take_forks_cond 1 0 s1"
  define s3 where "s3 = phi_put_forks_cond 0 0 s2"
  define s4 where "s4 = phi_take_forks_cond 2 0 s3"
  define s5 where "s5 = phi_take_forks_cond 3 0 s4"
  note D = s1_def s2_def s3_def s4_def s5_def
  have pc: "cp_pc cond_init 0 = CThinking 0" "cp_pc s1 1 = CThinking 0" "cp_pc s2 0 = CDining 0" "cp_pc s3 2 = CThinking 0"
      "cp_pc s4 3 = CThinking 0" "cp_pc s5 4 = CThinking 0"
    by (simp_all add: D cond_run)
  have "cond_step cond_init s1" unfolding s1_def by (rule think [OF _ pc(1)]) (simp add: NUM_PHI_def)
  moreover have "cond_step s1 s2" unfolding s2_def by (rule think [OF _ pc(2)]) (simp add: NUM_PHI_def)
  moreover have "cond_step s2 s3" unfolding s3_def by (rule eat [OF _ pc(3)]) (simp add: NUM_PHI_def)
  moreover have "cond_step s3 s4" unfolding s4_def by (rule think [OF _ pc(4)]) (simp add: NUM_PHI_def)
  moreover have "cond_step s4 s5" unfolding s5_def by (rule think [OF _ pc(5)]) (simp add: NUM_PHI_def)
  moreover have "cond_step s5 busy" using think [OF _ pc(6)] by (simp add: NUM_PHI_def busy_def D)
  ultimately show ?thesis
    by (blast intro: converse_rtranclp_into_rtranclp)
qed
section \<open>Inside the monitor\<close>

definition c_ok :: "cond_sys \<Rightarrow> nat \<Rightarrow> bool" where
  "c_ok s i \<longleftrightarrow>
     (case cp_pc s i of
        CFork k \<Rightarrow> cp_count s i = 1 \<and>
          (if cp_woken s i then cp_state s i = EATING \<and> cs_queue (cp_sems s (Cond i)) = []
           else cp_state s i = HUNGRY \<and> cs_queue (cp_sems s (Cond i)) = [i])
      | CSelf k \<Rightarrow> False
      | p \<Rightarrow> cp_count s i = 0 \<and> cs_queue (cp_sems s (Cond i)) = [] \<and>
          cp_state s i = (case p of CDining k \<Rightarrow> EATING | CEnterPut k \<Rightarrow> EATING | _ \<Rightarrow> THINKING))"

definition entering :: "cond_pc \<Rightarrow> bool" where
  "entering p \<longleftrightarrow> (case p of CEnterTake k \<Rightarrow> True | CEnterPut k \<Rightarrow> True | _ \<Rightarrow> False)"

definition apart_c :: "cond_sys \<Rightarrow> bool" where
  "apart_c s \<longleftrightarrow> (\<forall>i < NUM_PHI. \<not> (cp_state s i = EATING \<and> cp_state s (phi_right i) = EATING))"

text \<open>What always holds; \<open>R\<close> is the set of philosophers that run in the monitor.\<close>

definition c_base :: "nat set \<Rightarrow> cond_sys \<Rightarrow> bool" where
  "c_base R s \<longleftrightarrow> apart_c s \<and> (\<forall>j. cs_value (cp_sems s (Cond j)) = 0) \<and> cs_value (cp_sems s Next) = 0 \<and>
     distinct (cs_queue (cp_sems s Mutex)) \<and>
     (\<forall>x\<in>set (cs_queue (cp_sems s Mutex)). x < NUM_PHI \<and> x \<notin> R \<and> \<not> cp_woken s x \<and> entering (cp_pc s x)) \<and>
     (\<forall>j < NUM_PHI. j \<notin> R \<longrightarrow> c_ok s j)"

text \<open>The monitor as a token: free, held by the philosopher that runs, or handed to the one that was
  woken last, at the entry, at its condition variable or after a signal.\<close>

definition c_run :: "nat \<Rightarrow> cond_sys \<Rightarrow> bool" where
  "c_run i s \<longleftrightarrow> c_base {i} s \<and> i < NUM_PHI \<and>
     (\<forall>j. \<not> cp_woken s j) \<and> cs_value (cp_sems s Mutex) = 0 \<and> cp_next_count s = 0 \<and> cs_queue (cp_sems s Next) = []"

definition c_held :: "nat \<Rightarrow> cond_sys \<Rightarrow> bool" where
  "c_held w s \<longleftrightarrow> entering (cp_pc s w) \<and> cp_next_count s = 0 \<and> cs_queue (cp_sems s Next) = [] \<or>
     (\<exists>k x. cp_pc s w = CFork k \<and> cp_next_count s = 1 \<and> cs_queue (cp_sems s Next) = [x] \<and> x < NUM_PHI \<and>
        (\<exists>k'. cp_pc s x = CLeft k' \<or> cp_pc s x = CRight k')) \<or>
     (\<exists>k. cp_pc s w = CLeft k \<or> cp_pc s w = CRight k) \<and> cp_next_count s = 1 \<and> cs_queue (cp_sems s Next) = []"

definition c_inv :: "cond_sys \<Rightarrow> bool" where
  "c_inv s \<longleftrightarrow> c_base {} s \<and>
     (if cs_value (cp_sems s Mutex) = 0 then \<exists>w < NUM_PHI. cp_woken s = (\<lambda>_. False)(w := True) \<and>
        c_held w s
      else cs_value (cp_sems s Mutex) = 1 \<and> cp_woken s = (\<lambda>_. False) \<and> cp_next_count s = 0 \<and> cs_queue (cp_sems s Next) = [])"

lemma c_inv_init: "c_inv cond_init"
  by (simp add: c_inv_def c_base_def cond_init_def apart_c_def c_ok_def const_defs)

lemma c_ok_cong:
  assumes "cp_pc s' j = cp_pc s j" "cp_count s' j = cp_count s j" "cp_woken s' j = cp_woken s j" "cp_state s' j = cp_state s j"
    "cs_queue (cp_sems s' (Cond j)) = cs_queue (cp_sems s (Cond j))"
  shows "c_ok s' j = c_ok s j"
  using assms by (simp add: c_ok_def cong: cond_pc.case_cong)

lemma c_ok_woken: "entering (cp_pc s j) \<Longrightarrow> c_ok (set_woken j b s) j = c_ok s j"
  by (auto simp: c_ok_def entering_def set_woken_def split: cond_pc.splits)

text \<open>Leaving the monitor passes it to the first philosopher at the entry or sets it free.\<close>

lemma leave_ok:
  assumes r: "c_run i s" and ok: "c_ok (set_pc i p s) i"
  shows "c_inv (set_pc i p (leave_c s))"
proof -
  have b: "c_base {i} s" and i: "i < NUM_PHI" and nw: "\<And>j. \<not> cp_woken s j" and z: "cs_value (cp_sems s Mutex) = 0"
      "cp_next_count s = 0" "cs_queue (cp_sems s Next) = []"
    using r by (auto simp: c_run_def)
  show ?thesis
  proof (cases "cs_queue (cp_sems s Mutex)")
    case Nil
    let ?t = "set_pc i p (leave_c s)"
    have t: "?t = s\<lparr>cp_sems := (cp_sems s)(Mutex := \<lparr>cs_value = 1, cs_queue = []\<rparr>), cp_pc := (cp_pc s)(i := p)\<rparr>"
      using Nil z by (cases "cp_sems s Mutex") (simp add: leave_c_def up_csem_def upd_sem_def set_pc_def)
    have "c_ok ?t j" if "j < NUM_PHI" for j
    proof (cases "j = i")
      case True
      have "c_ok ?t i = c_ok (set_pc i p s) i"
        unfolding t by (rule c_ok_cong) (simp_all add: set_pc_def)
      with ok True show ?thesis by simp
    next
      case False
      have "c_ok ?t j = c_ok s j"
        using False by (intro c_ok_cong) (simp_all add: t)
      with b that False show ?thesis by (simp add: c_base_def)
    qed
    then have "c_base {} ?t"
      using b by (simp add: c_base_def t apart_c_def)
    moreover have "cp_woken ?t = (\<lambda>_. False)"
      using nw by (simp add: t fun_eq_iff)
    ultimately show ?thesis
      using z by (simp add: c_inv_def t)
  next
    case (Cons w ws)
    let ?t = "set_pc i p (leave_c s)"
    have t: "?t = s\<lparr>cp_sems := (cp_sems s)(Mutex := \<lparr>cs_value = 0, cs_queue = ws\<rparr>), cp_woken := (cp_woken s)(w := True),
        cp_pc := (cp_pc s)(i := p)\<rparr>"
      using Cons z by (cases "cp_sems s Mutex") (simp add: leave_c_def up_csem_def upd_sem_def set_pc_def set_woken_def)
    have w: "w < NUM_PHI" "w \<noteq> i" "entering (cp_pc s w)" "w \<notin> set ws"
      using b Cons by (auto simp: c_base_def)
    have "c_ok ?t j" if "j < NUM_PHI" for j
    proof -
      consider "j = i" | "j = w" | "j \<noteq> i" "j \<noteq> w"
        by blast
      then show ?thesis
      proof cases
        case 1
        have "c_ok ?t i = c_ok (set_pc i p s) i"
          unfolding t using w by (intro c_ok_cong) (simp_all add: set_pc_def)
        with ok 1 show ?thesis by simp
      next
        case 2
        have "c_ok ?t w = c_ok (set_woken w True s) w"
          unfolding t using w by (intro c_ok_cong) (simp_all add: set_woken_def)
        with b w 2 show ?thesis by (simp add: c_base_def c_ok_woken)
      next
        case 3
        then have "c_ok ?t j = c_ok s j"
          by (intro c_ok_cong) (simp_all add: t)
        with b that 3 show ?thesis by (simp add: c_base_def)
      qed
    qed
    then have "c_base {} ?t"
      using b Cons w(4) by (auto simp: c_base_def t apart_c_def)
    moreover have "cp_woken ?t = (\<lambda>_. False)(w := True)"
      using nw by (simp add: t fun_eq_iff)
    moreover have "entering (cp_pc ?t w)"
      using w by (simp add: t)
    ultimately show ?thesis
      using z w(1) by (auto simp: c_inv_def c_held_def t)
  qed
qed

definition c_idle :: "nat \<Rightarrow> cond_sys \<Rightarrow> bool" where
  "c_idle i s \<longleftrightarrow> cp_count s i = 0 \<and> cs_queue (cp_sems s (Cond i)) = []"

lemma take_leave_ok: "c_run i s \<Longrightarrow> c_idle i s \<Longrightarrow> cp_state s i = EATING \<Longrightarrow> c_inv (take_leave i k s)"
  unfolding take_leave_def by (rule leave_ok) (auto simp: c_idle_def c_ok_def set_pc_def)

lemma put_leave_ok: "c_run i s \<Longrightarrow> c_idle i s \<Longrightarrow> cp_state s i = THINKING \<Longrightarrow> c_inv (put_leave i k s)"
  unfolding put_leave_def by (rule leave_ok) (auto simp: c_idle_def c_ok_def set_pc_def next_meal_def)

lemma wait_ok:
  assumes r: "c_run i s" and id: "c_idle i s" and h: "cp_state s i = HUNGRY"
  shows "\<exists>t. wait_c i (CFork k) s = (False, t) \<and> c_inv t"
proof -
  define s' where "s' = upd_sem (Cond i) (\<lambda>x. x\<lparr>cs_queue := [i]\<rparr>) (add_count i 1 s)"
  have R: "c_base {i} s" "\<And>j. \<not> cp_woken s j" "cp_next_count s = 0" "cs_value (cp_sems s (Cond i)) = 0"
    using r by (auto simp: c_run_def c_base_def)
  have sel: "cp_state s' = cp_state s" "cp_woken s' = cp_woken s" "cp_pc s' = cp_pc s" "cp_next_count s' = cp_next_count s"
      "cp_count s' j = (if j = i then cp_count s i + 1 else cp_count s j)" "q \<noteq> Cond i \<Longrightarrow> cp_sems s' q = cp_sems s q"
      "cs_value (cp_sems s' q) = cs_value (cp_sems s q)" "cs_queue (cp_sems s' (Cond i)) = [i]" for j q
    by (simp_all add: s'_def upd_sem_def add_count_def)
  have "c_ok s' j = c_ok s j" if "j \<noteq> i" for j
    using that by (intro c_ok_cong) (simp_all add: sel)
  then have "c_base {i} s'"
    using R(1) by (auto simp: c_base_def sel apart_c_def)
  then have "c_run i s'"
    using r by (simp add: c_run_def sel)
  moreover have "c_ok (set_pc i (CFork k) s') i"
    using id h R(2) by (simp add: c_ok_def set_pc_def sel c_idle_def)
  ultimately have "c_inv (set_pc i (CFork k) (leave_c s'))"
    by (rule leave_ok)
  moreover have "wait_c i (CFork k) s = (False, set_pc i (CFork k) (leave_c s'))"
  proof (cases "cs_queue (cp_sems s Mutex)")
    case Nil
    then show ?thesis
      using R(2-4) id by (cases s) (auto simp: wait_c_def leave_c_def down_csem_def up_csem_def s'_def upd_sem_def add_count_def set_pc_def
          set_woken_def c_idle_def enq_def fun_eq_iff)
  next
    case (Cons w ws)
    then have "w \<noteq> i"
      using R(1) by (auto simp: c_base_def)
    then show ?thesis
      using Cons R(2-4) id by (cases s) (auto simp: wait_c_def leave_c_def down_csem_def up_csem_def s'_def upd_sem_def add_count_def
          set_pc_def set_woken_def c_idle_def enq_def fun_eq_iff)
  qed
  ultimately show ?thesis
    by blast
qed

text \<open>A signal hands the monitor to the waiting neighbour.\<close>

lemma signal_ok:
  assumes r: "c_run i s" and id: "c_idle i s" and th: "cp_state s i = THINKING" and j: "j < NUM_PHI" "j \<noteq> i"
    and h: "cp_state s j = HUNGRY" "cp_state s (phi_left j) \<noteq> EATING" "cp_state s (phi_right j) \<noteq> EATING"
    and p: "p = CLeft k \<or> p = CRight k"
  shows "\<exists>t. signal_c j i p (set_cstate j EATING s) = (False, t) \<and> c_inv t"
proof -
  have R: "c_base {i} s" "i < NUM_PHI" "\<And>l. \<not> cp_woken s l" "cs_value (cp_sems s Mutex) = 0" "cp_next_count s = 0"
      "cs_queue (cp_sems s Next) = []" "cs_value (cp_sems s Next) = 0"
    using r by (auto simp: c_run_def c_base_def)
  have "c_ok s j"
    using R(1) j by (simp add: c_base_def)
  then obtain n where jf: "cp_pc s j = CFork n" "cp_count s j = 1" "cs_queue (cp_sems s (Cond j)) = [j]"
    using h(1) R(3) [of j] by (auto simp: c_ok_def split: cond_pc.splits)
  define t where "t = s\<lparr>cp_state := (cp_state s)(j := EATING), cp_next_count := 1,
    cp_sems := (cp_sems s)(Cond j := (cp_sems s (Cond j))\<lparr>cs_queue := []\<rparr>, Next := (cp_sems s Next)\<lparr>cs_queue := [i]\<rparr>),
    cp_woken := (cp_woken s)(j := True, i := False), cp_pc := (cp_pc s)(i := p)\<rparr>"
  have run: "signal_c j i p (set_cstate j EATING s) = (False, t)"
    using jf R(5-7) j(2) by (simp add: signal_c_def up_csem_def down_csem_def upd_sem_def set_woken_def set_pc_def set_cstate_def
        add_next_def enq_def t_def fun_upd_twist)
  have "c_ok t l" if l: "l < NUM_PHI" for l
  proof -
    consider "l = i" | "l = j" | "l \<noteq> i" "l \<noteq> j"
      by blast
    then show ?thesis
    proof cases
      case 1
      then show ?thesis
        using p id th j(2) by (auto simp: c_ok_def t_def c_idle_def)
    next
      case 2
      then show ?thesis
        using jf j(2) by (simp add: c_ok_def t_def)
    next
      case 3
      then have "c_ok t l = c_ok s l"
        by (intro c_ok_cong) (simp_all add: t_def)
      with R(1) l 3 show ?thesis by (simp add: c_base_def)
    qed
  qed
  moreover have "apart_c t"
  proof -
    have a: "\<not> (cp_state s l = EATING \<and> cp_state s (phi_right l) = EATING)" if "l < NUM_PHI" for l
      using R(1) that by (simp add: c_base_def apart_c_def)
    have "\<not> (cp_state t l = EATING \<and> cp_state t (phi_right l) = EATING)" if l: "l < NUM_PHI" for l
      using a [OF l] h(2,3) phi_neighbours(3,4,6) [OF l] by (auto simp: t_def)
    then show ?thesis
      by (simp add: apart_c_def)
  qed
  moreover have "\<forall>x\<in>set (cs_queue (cp_sems t Mutex)). x < NUM_PHI \<and> \<not> cp_woken t x \<and> entering (cp_pc t x)"
  proof -
    have "x \<noteq> j" if "x \<in> set (cs_queue (cp_sems s Mutex))" for x
      using that R(1) jf(1) by (auto simp: c_base_def entering_def)
    then show ?thesis
      using R(1,3) by (auto simp: c_base_def t_def)
  qed
  ultimately have "c_base {} t"
    using R(1,7) by (simp add: c_base_def t_def)
  moreover have "cp_woken t = (\<lambda>_. False)(j := True)"
    using R(3) j(2) by (simp add: t_def fun_eq_iff)
  moreover have "cp_pc t j = CFork n" "cp_next_count t = 1" "cs_queue (cp_sems t Next) = [i]" "cp_pc t i = p"
      "cs_value (cp_sems t Mutex) = 0"
    using jf j(2) R(4) by (simp_all add: t_def)
  ultimately have "c_inv t"
    using j(1) R(2) p by (auto simp: c_inv_def c_held_def)
  with run show ?thesis
    by blast
qed

section \<open>The routines of the monitor\<close>

lemma run_state:
  assumes r: "c_run i s" and v: "v \<noteq> EATING \<or> (cp_state s (phi_left i) \<noteq> EATING \<and> cp_state s (phi_right i) \<noteq> EATING)"
  shows "c_run i (set_cstate i v s)" "c_idle i (set_cstate i v s) = c_idle i s" "cp_state (set_cstate i v s) i = v"
proof -
  let ?t = "set_cstate i v s"
  have b: "c_base {i} s" and i: "i < NUM_PHI"
    using r by (auto simp: c_run_def)
  have "c_ok ?t j = c_ok s j" if "j \<noteq> i" for j
    using that by (intro c_ok_cong) (simp_all add: set_cstate_def)
  moreover have "apart_c ?t"
  proof -
    have a: "\<not> (cp_state s l = EATING \<and> cp_state s (phi_right l) = EATING)" if "l < NUM_PHI" for l
      using b that by (simp add: c_base_def apart_c_def)
    have "\<not> (cp_state ?t l = EATING \<and> cp_state ?t (phi_right l) = EATING)" if l: "l < NUM_PHI" for l
      using a [OF l] v phi_neighbours(3,6) [OF l] by (auto simp: set_cstate_def)
    then show ?thesis
      by (simp add: apart_c_def)
  qed
  ultimately have "c_base {i} ?t"
    using b by (simp add: c_base_def) (simp add: set_cstate_def)
  then show "c_run i ?t"
    using r by (simp add: c_run_def) (simp add: set_cstate_def)
  show "c_idle i ?t = c_idle i s" "cp_state ?t i = v"
    by (simp_all add: c_idle_def set_cstate_def)
qed

lemma take_body_ok:
  assumes r: "c_run i s" and id: "c_idle i s"
  shows "c_inv (take_body i k s)"
proof -
  let ?h = "set_cstate i HUNGRY s"
  note H = run_state [OF r, of HUNGRY, simplified]
  show ?thesis
  proof (cases "cp_state ?h (phi_left i) \<noteq> EATING \<and> cp_state ?h (phi_right i) \<noteq> EATING")
    case True
    let ?e = "set_cstate i EATING ?h"
    note E = run_state [OF H(1), of EATING, OF disjI2 [OF True]]
    have "cp_count ?e i = 0"
      using E(2) H(2) id by (simp add: c_idle_def)
    then have "phi_test_cond i i (CSelf k) ?h = (True, ?e)"
      using True H(3) by (simp add: phi_test_cond_def signal_c_def)
    then have "take_body i k s = take_leave i k ?e"
      using E(3) by (simp add: take_body_def take_wait_def)
    then show ?thesis
      using take_leave_ok [OF E(1) _ E(3)] E(2) H(2) id by simp
  next
    case False
    then have "phi_test_cond i i (CSelf k) ?h = (True, ?h)"
      by (auto simp: phi_test_cond_def)
    then have "take_body i k s = take_wait i k ?h"
      by (simp add: take_body_def)
    then show ?thesis
      using wait_ok [OF H(1) _ H(3), of k] H(2,3) id by (auto simp: take_wait_def)
  qed
qed

lemma test_ok:
  assumes "c_run i s" "c_idle i s" "cp_state s i = THINKING" "j < NUM_PHI" "j \<noteq> i" "p = CLeft k \<or> p = CRight k"
  shows "phi_test_cond j i p s = (True, s) \<or> (\<exists>t. phi_test_cond j i p s = (False, t) \<and> c_inv t)"
  using signal_ok [OF assms(1-5) _ _ _ assms(6)] by (auto simp: phi_test_cond_def)

lemma put_right_ok:
  assumes "c_run i s" "c_idle i s" "cp_state s i = THINKING"
  shows "c_inv (put_right i k s)"
proof -
  have i: "i < NUM_PHI"
    using assms(1) by (simp add: c_run_def)
  show ?thesis
    using test_ok [OF assms phi_neighbours(2,6) [OF i], of "CRight k" k] put_leave_ok [OF assms, of k]
    by (auto simp: put_right_def)
qed

lemma put_body_ok:
  assumes "c_run i s" "c_idle i s"
  shows "c_inv (put_body i k s)"
proof -
  have i: "i < NUM_PHI"
    using assms(1) by (simp add: c_run_def)
  note T = run_state [OF assms(1), of THINKING, simplified]
  have id: "c_idle i (set_cstate i THINKING s)"
    using T(2) assms(2) by simp
  show ?thesis
    using test_ok [OF T(1) id T(3) phi_neighbours(1,5) [OF i], of "CLeft k" k] put_right_ok [OF T(1) id T(3), of k]
    by (auto simp: put_body_def)
qed

section \<open>The steps\<close>

text \<open>Entering the monitor: the philosopher gets the mutex or waits for it.\<close>

lemma enter_ok:
  assumes inv: "c_inv s" and i: "i < NUM_PHI" and pc: "cp_pc s i = CThinking k \<and> p = CEnterTake k \<or> cp_pc s i = CDining k \<and> p = CEnterPut k"
  shows "\<exists>t. down_csem Mutex i p s = (True, t) \<and> c_run i t \<and> c_idle i t \<or> down_csem Mutex i p s = (False, t) \<and> c_inv t"
proof -
  have b: "c_base {} s"
    using inv by (simp add: c_inv_def)
  then have oki: "c_ok s i"
    using i by (simp add: c_base_def)
  then have id: "c_idle i s"
    using pc by (auto simp: c_ok_def c_idle_def)
  show ?thesis
  proof (cases "cs_value (cp_sems s Mutex) = 0")
    case False
    define t where "t = upd_sem Mutex (\<lambda>x. x\<lparr>cs_value := cs_value x - 1\<rparr>) s"
    have v: "cs_value (cp_sems s Mutex) = 1" "cp_woken s = (\<lambda>_. False)" "cp_next_count s = 0" "cs_queue (cp_sems s Next) = []"
      using inv False by (simp_all add: c_inv_def)
    have ok: "c_ok t j = c_ok s j" for j
      by (rule c_ok_cong) (simp_all add: t_def upd_sem_def)
    have "i \<notin> set (cs_queue (cp_sems s Mutex))"
      using b pc by (auto simp: c_base_def entering_def)
    then have "c_base {i} t"
      using b by (auto simp: c_base_def ok) (auto simp: t_def upd_sem_def apart_c_def)
    then have "c_run i t"
      using v i by (simp add: c_run_def) (simp add: t_def upd_sem_def)
    moreover have "c_idle i t"
      using id by (simp add: c_idle_def t_def upd_sem_def)
    moreover have "down_csem Mutex i p s = (True, t)"
      using v by (simp add: down_csem_def t_def)
    ultimately show ?thesis
      by blast
  next
    case True
    define t where "t = s\<lparr>cp_sems := (cp_sems s)(Mutex := (cp_sems s Mutex)\<lparr>cs_queue := enq i (cs_queue (cp_sems s Mutex))\<rparr>),
      cp_woken := (cp_woken s)(i := False), cp_pc := (cp_pc s)(i := p)\<rparr>"
    obtain w where w: "w < NUM_PHI" "cp_woken s = (\<lambda>_. False)(w := True)" "c_held w s"
      using inv True by (auto simp: c_inv_def)
    have wi: "w \<noteq> i"
      using w(3) pc by (auto simp: entering_def c_held_def)
    have d: "down_csem Mutex i p s = (False, t)"
      using True by (simp add: down_csem_def t_def set_pc_def set_woken_def upd_sem_def)
    have "c_ok t j" if j: "j < NUM_PHI" for j
    proof (cases "j = i")
      case True
      then show ?thesis
        using oki pc by (auto simp: c_ok_def t_def)
    next
      case False
      then have "c_ok t j = c_ok s j"
        by (intro c_ok_cong) (simp_all add: t_def)
      with b j show ?thesis by (simp add: c_base_def)
    qed
    moreover have ni: "i \<notin> set (cs_queue (cp_sems s Mutex))"
      using b pc by (auto simp: c_base_def entering_def)
    moreover have "distinct (enq i (cs_queue (cp_sems s Mutex)))"
      using ni last_in_set [of "cs_queue (cp_sems s Mutex)"] by (auto simp: enq_def)
    moreover have "entering p"
      using pc by (auto simp: entering_def)
    ultimately have "c_base {} t"
      using b i enq_set [of i "cs_queue (cp_sems s Mutex)"] by (auto simp: c_base_def t_def apart_c_def)
    moreover have "cp_woken t = (\<lambda>_. False)(w := True)"
      using w(2) wi by (auto simp: t_def fun_eq_iff)
    moreover have "x \<noteq> i" if "cp_pc s x = CLeft k' \<or> cp_pc s x = CRight k'" for x k'
      using that pc by auto
    then have "c_held w t"
      using w(3) wi by (auto simp: c_held_def t_def)
    ultimately have "c_inv t"
      using w(1) True by (auto simp: c_inv_def t_def)
    with d show ?thesis
      by blast
  qed
qed

text \<open>A woken philosopher holds the monitor.\<close>

lemma woken_run:
  assumes inv: "c_inv s" and i: "i < NUM_PHI" "cp_woken s i" "entering (cp_pc s i) \<or> (\<exists>k. cp_pc s i = CLeft k \<or> cp_pc s i = CRight k)"
  shows "c_run i (add_next (- cp_next_count s) (set_woken i False s))" "cp_next_count s = (if entering (cp_pc s i) then 0 else 1)"
    "c_idle i s" "\<not> entering (cp_pc s i) \<Longrightarrow> cp_state s i = THINKING"
proof -
  have b: "c_base {} s"
    using inv by (simp add: c_inv_def)
  have z: "cs_value (cp_sems s Mutex) = 0"
    using inv i(2) by (auto simp: c_inv_def split: if_splits)
  obtain w where w: "w < NUM_PHI" "cp_woken s = (\<lambda>_. False)(w := True)" "c_held w s"
    using inv z by (auto simp: c_inv_def)
  have wi: "w = i"
    using w(2) i(2) by (auto split: if_splits)
  show "cp_next_count s = (if entering (cp_pc s i) then 0 else 1)"
    using w(3) i(3) by (auto simp: wi entering_def c_held_def)
  have q: "cs_queue (cp_sems s Next) = []"
    using w(3) i(3) by (auto simp: wi entering_def c_held_def)
  have "c_ok s i"
    using b i(1) by (simp add: c_base_def)
  then show "c_idle i s" "\<not> entering (cp_pc s i) \<Longrightarrow> cp_state s i = THINKING"
    using i(3) by (auto simp: c_ok_def c_idle_def entering_def split: cond_pc.splits)
  let ?t = "add_next (- cp_next_count s) (set_woken i False s)"
  have "c_ok ?t j = c_ok s j" if "j \<noteq> i" for j
    using that by (intro c_ok_cong) (simp_all add: add_next_def set_woken_def)
  moreover have "i \<notin> set (cs_queue (cp_sems s Mutex))"
    using b i(2) by (auto simp: c_base_def)
  ultimately have "c_base {i} ?t"
    using b by (simp add: c_base_def) (auto simp: add_next_def set_woken_def apart_c_def)
  then show "c_run i ?t"
    using z q w(2) i(1) by (simp add: c_run_def) (simp add: add_next_def set_woken_def wi)
qed

lemma woken_fork:
  assumes inv: "c_inv s" and i: "i < NUM_PHI" "cp_woken s i" "cp_pc s i = CFork k"
  shows "c_inv (take_leave i k (add_count i (- 1) (set_woken i False s)))"
proof -
  have b: "c_base {} s"
    using inv by (simp add: c_inv_def)
  have z: "cs_value (cp_sems s Mutex) = 0"
    using inv i(2) by (auto simp: c_inv_def split: if_splits)
  obtain w where w: "cp_woken s = (\<lambda>_. False)(w := True)" "c_held w s"
    using inv z by (auto simp: c_inv_def)
  have wi: "w = i"
    using w(1) i(2) by (auto split: if_splits)
  obtain x k' where x: "cp_next_count s = 1" "cs_queue (cp_sems s Next) = [x]" "x < NUM_PHI" "cp_pc s x = CLeft k' \<or> cp_pc s x = CRight k'"
    using w(2) i(3) by (auto simp: wi c_held_def entering_def)
  have xi: "x \<noteq> i"
    using x(4) i(3) by auto
  have oki: "cp_state s i = EATING" "cp_count s i = 1" "cs_queue (cp_sems s (Cond i)) = []"
    using b i by (auto simp: c_base_def c_ok_def)
  define t where "t = s\<lparr>cp_sems := (cp_sems s)(Next := (cp_sems s Next)\<lparr>cs_queue := []\<rparr>), cp_count := (cp_count s)(i := 0),
    cp_woken := (cp_woken s)(i := False, x := True), cp_pc := (cp_pc s)(i := CDining k)\<rparr>"
  have run: "take_leave i k (add_count i (- 1) (set_woken i False s)) = t"
    using x(1,2) oki(2) by (simp add: take_leave_def leave_c_def up_csem_def upd_sem_def set_pc_def set_woken_def add_count_def t_def)
  have "c_ok t j" if j: "j < NUM_PHI" for j
  proof -
    have okj: "c_ok s j"
      using b j by (simp add: c_base_def)
    consider "j = i" | "j = x" | "j \<noteq> i" "j \<noteq> x"
      by blast
    then show ?thesis
    proof cases
      case 1
      then show ?thesis
        using oki by (simp add: c_ok_def t_def)
    next
      case 2
      then show ?thesis
        using okj x(4) xi by (auto simp: c_ok_def t_def)
    next
      case 3
      then have "c_ok t j = c_ok s j"
        by (intro c_ok_cong) (simp_all add: t_def)
      with okj show ?thesis by simp
    qed
  qed
  moreover have "y \<noteq> i \<and> y \<noteq> x" if "y \<in> set (cs_queue (cp_sems s Mutex))" for y
    using that b i(3) x(4) by (auto simp: c_base_def entering_def)
  ultimately have "c_base {} t"
    using b by (auto simp: c_base_def t_def apart_c_def)
  moreover have "cp_woken t = (\<lambda>_. False)(x := True)"
    using w(1) by (auto simp: t_def wi fun_eq_iff)
  moreover have "c_held x t"
    using x xi by (auto simp: c_held_def t_def)
  ultimately show ?thesis
    unfolding run using z x(3) by (auto simp: c_inv_def t_def)
qed

lemma c_inv_step:
  assumes inv: "c_inv s" and step: "cond_step s s'"
  shows "c_inv s'"
proof -
  have zero: "add_next 0 u = u" for u
    by (simp add: add_next_def)
  have idle: "c_idle i (add_next d (set_woken i b s)) = c_idle i s" "cp_state (add_next d (set_woken i b s)) i = cp_state s i" for d i b
    by (simp_all add: c_idle_def add_next_def set_woken_def)
  from step show ?thesis
  proof cases
    case (think i k)
    then show ?thesis
      using enter_ok [OF inv, of i k "CEnterTake k"] take_body_ok by (auto simp: phi_take_forks_cond_def)
  next
    case (enter_take i k)
    have e: "entering (cp_pc s i)"
      using enter_take by (simp add: entering_def)
    note W = woken_run [OF inv enter_take(2,4) disjI1 [OF e]]
    then show ?thesis
      using take_body_ok [of i "add_next 0 (set_woken i False s)" k] e enter_take(1) idle(1) [of i 0 False] by (simp add: zero)
  next
    case (self i k)
    have "c_ok s i"
      using inv self(2) by (simp add: c_inv_def c_base_def)
    then show ?thesis
      using self by (simp add: c_ok_def)
  next
    case (fork i k)
    then show ?thesis
      using woken_fork [OF inv] by simp
  next
    case (eat i k)
    then show ?thesis
      using enter_ok [OF inv, of i k "CEnterPut k"] put_body_ok by (auto simp: phi_put_forks_cond_def)
  next
    case (enter_put i k)
    have e: "entering (cp_pc s i)"
      using enter_put by (simp add: entering_def)
    note W = woken_run [OF inv enter_put(2,4) disjI1 [OF e]]
    then show ?thesis
      using put_body_ok [of i "add_next 0 (set_woken i False s)" k] e enter_put(1) idle(1) [of i 0 False] by (simp add: zero)
  next
    case (signal_left i k)
    have e: "\<not> entering (cp_pc s i)" "entering (cp_pc s i) \<or> (\<exists>k. cp_pc s i = CLeft k \<or> cp_pc s i = CRight k)"
      using signal_left by (auto simp: entering_def)
    note W = woken_run [OF inv signal_left(2,4) e(2)]
    then show ?thesis
      using put_right_ok [of i "add_next (- 1) (set_woken i False s)" k] e(1) signal_left(1) idle(1) [of i "- 1" False] idle(2) [of "- 1" i False] by simp
  next
    case (signal_right i k)
    have e: "\<not> entering (cp_pc s i)" "entering (cp_pc s i) \<or> (\<exists>k. cp_pc s i = CLeft k \<or> cp_pc s i = CRight k)"
      using signal_right by (auto simp: entering_def)
    note W = woken_run [OF inv signal_right(2,4) e(2)]
    then show ?thesis
      using put_leave_ok [of i "add_next (- 1) (set_woken i False s)" k] e(1) signal_right(1) idle(1) [of i "- 1" False] idle(2) [of "- 1" i False] by simp
  qed
qed

lemma c_inv_reachable: "cond_reachable s \<Longrightarrow> c_inv s"
  by (induction rule: rtranclp_induct) (auto intro: c_inv_init c_inv_step)

section \<open>What the test shows\<close>

text \<open>C17: in every reachable state of the monitor version no two neighbours eat at the same time, a
  philosopher past \<open>phi_take_forks_cond\<close> eats, and exactly one process can be active in the monitor:
  either the mutex is free, or exactly one process has been handed the monitor.\<close>

theorem cond_monitor_exclusive:
  assumes "cond_reachable s" and "i < NUM_PHI"
  shows "\<not> (cp_state s i = EATING \<and> cp_state s (phi_right i) = EATING) \<and>
    (cp_pc s i = CDining k \<longrightarrow> cp_state s i = EATING) \<and>
    cs_value (cp_sems s Mutex) + int (card {j. cp_woken s j}) = 1"
proof -
  note inv = c_inv_reachable [OF assms(1)]
  have b: "c_base {} s"
    using inv by (simp add: c_inv_def)
  have "\<not> (cp_state s i = EATING \<and> cp_state s (phi_right i) = EATING)" "c_ok s i"
    using b assms(2) by (simp_all add: c_base_def apart_c_def)
  moreover have "cs_value (cp_sems s Mutex) + int (card {j. cp_woken s j}) = 1"
  proof (cases "cs_value (cp_sems s Mutex) = 0")
    case True
    then obtain w where "cp_woken s = (\<lambda>_. False)(w := True)"
      using inv by (auto simp: c_inv_def)
    then have "{j. cp_woken s j} = {w}"
      by auto
    then show ?thesis
      using True by simp
  next
    case False
    then show ?thesis
      using inv by (simp add: c_inv_def)
  qed
  ultimately show ?thesis
    by (auto simp: c_ok_def)
qed

theorem cond_monitor_exclusive_witness:
  "\<not> (cp_state busy 1 = EATING \<and> cp_state busy 2 = EATING) \<and> card {j. cp_woken busy j} = 1"
proof -
  have "cs_value (cp_sems busy Mutex) = 0"
    by (simp add: busy_def cond_run)
  then show ?thesis
    using cond_monitor_exclusive [OF busy_reachable, of 1] by (simp add: NUM_PHI_def phi_right_def numeral_2_eq_2)
qed

end
