(* ===== verification/Skew_Heap_Ptr.thy ===== *)
theory Skew_Heap_Ptr
  imports Kprelude "HOL-Library.Tree_Multiset"
begin

text \<open>
  The intrusive skew heap of \<open>lib/skew_heap.h\<close>, the priority queue of the scheduler. The
  \<open>parent\<close>, \<open>left\<close> and \<open>right\<close> fields of all nodes are three functions on node addresses
  and \<open>NULL\<close> is \<open>None\<close>. \<open>sh_tree H p t\<close> says that the node \<open>p\<close> is the root of the tree
  \<open>t\<close>; merging, insertion and deletion on the pointers are shown to compute the tree
  operations. The comparison function is an interface: the order lemmas are proved once for every
  comparison that is a strict order on the nodes in the heap.
\<close>

section \<open>The operations\<close>

record 'a sheap =
  sh_parent :: "'a \<Rightarrow> 'a option"
  sh_left :: "'a \<Rightarrow> 'a option"
  sh_right :: "'a \<Rightarrow> 'a option"

type_synonym 'a comp_fn = "'a \<Rightarrow> 'a \<Rightarrow> int"

definition init_skew_heap :: "'a \<Rightarrow> 'a sheap \<Rightarrow> 'a sheap" where
  "init_skew_heap x H =
     H\<lparr>sh_right := (sh_right H)(x := None), sh_left := (sh_left H)(x := None),
       sh_parent := (sh_parent H)(x := None)\<rparr>"

text \<open>The assignments after the recursive call: \<open>node\<close> gets new children.\<close>

definition set_children :: "'a \<Rightarrow> 'a option \<Rightarrow> 'a option \<Rightarrow> 'a sheap \<Rightarrow> 'a sheap" where
  "set_children node left_child right_child H =
     (let H1 = H\<lparr>sh_left := (sh_left H)(node := left_child)\<rparr>;
          H2 = H1\<lparr>sh_right := (sh_right H1)(node := right_child)\<rparr>
      in case left_child of None \<Rightarrow> H2
         | Some c \<Rightarrow> H2\<lparr>sh_parent := (sh_parent H2)(c := Some node)\<rparr>)"

partial_function (option) merge_skew_heap ::
  "'a comp_fn \<Rightarrow> 'a option \<Rightarrow> 'a option \<Rightarrow> 'a sheap \<Rightarrow> ('a option \<times> 'a sheap) option" where
  "merge_skew_heap cmp l r H =
     (case l of None \<Rightarrow> Some (r, H)
      | Some a \<Rightarrow>
        (case r of None \<Rightarrow> Some (l, H)
         | Some b \<Rightarrow>
           if cmp a b = -1 then
             Option.bind (merge_skew_heap cmp (sh_right H a) r H) (\<lambda>(left_child, H1).
               Some (l, set_children a left_child (sh_left H a) H1))
           else
             Option.bind (merge_skew_heap cmp l (sh_right H b) H) (\<lambda>(left_child, H1).
               Some (r, set_children b left_child (sh_left H b) H1))))"

definition add_skew_heap :: "'a comp_fn \<Rightarrow> 'a option \<Rightarrow> 'a \<Rightarrow> 'a sheap \<Rightarrow> ('a option \<times> 'a sheap) option" where
  "add_skew_heap cmp l x H = merge_skew_heap cmp l (Some x) (init_skew_heap x H)"

definition del_skew_heap :: "'a comp_fn \<Rightarrow> 'a option \<Rightarrow> 'a \<Rightarrow> 'a sheap \<Rightarrow> ('a option \<times> 'a sheap) option" where
  "del_skew_heap cmp l x H =
     Option.bind (merge_skew_heap cmp (sh_left H x) (sh_right H x) H) (\<lambda>(replacement, H1).
       let parent = sh_parent H x;
           H2 = (case replacement of None \<Rightarrow> H1
                 | Some c \<Rightarrow> H1\<lparr>sh_parent := (sh_parent H1)(c := parent)\<rparr>)
       in case parent of
            None \<Rightarrow> Some (replacement, H2)
          | Some p \<Rightarrow>
              if sh_left H2 p = Some x
              then Some (l, H2\<lparr>sh_left := (sh_left H2)(p := replacement)\<rparr>)
              else Some (l, H2\<lparr>sh_right := (sh_right H2)(p := replacement)\<rparr>))"

section \<open>Trees\<close>

fun root_of :: "'a tree \<Rightarrow> 'a option" where
  "root_of Leaf = None"
| "root_of (Node l a r) = Some a"

function merge_tree :: "'a comp_fn \<Rightarrow> 'a tree \<Rightarrow> 'a tree \<Rightarrow> 'a tree" where
  "merge_tree cmp Leaf t = t"
| "merge_tree cmp (Node l a r) Leaf = Node l a r"
| "merge_tree cmp (Node l1 a r1) (Node l2 b r2) =
     (if cmp a b = -1 then Node (merge_tree cmp r1 (Node l2 b r2)) a l1
      else Node (merge_tree cmp (Node l1 a r1) r2) b l2)"
  by pat_completeness auto
termination
  by (relation "measure (\<lambda>(cmp, s, t). size s + size t)") auto

lemma mset_merge_tree: "mset_tree (merge_tree cmp s t) = mset_tree s + mset_tree t"
  by (induction cmp s t rule: merge_tree.induct) (auto simp: ac_simps)

lemma set_merge_tree [simp]: "set_tree (merge_tree cmp s t) = set_tree s \<union> set_tree t"
  by (metis mset_merge_tree set_mset_tree set_mset_union)

lemma size_merge_tree: "size (merge_tree cmp s t) = size s + size t"
  by (induction cmp s t rule: merge_tree.induct) auto

text \<open>All nodes of a tree are different: it has as many elements as nodes.\<close>

definition tree_ok :: "'a tree \<Rightarrow> bool" where
  "tree_ok t \<longleftrightarrow> distinct (inorder t)"

lemma tree_ok_simps [simp]:
  "tree_ok Leaf"
  "tree_ok (Node l a r) \<longleftrightarrow> tree_ok l \<and> tree_ok r \<and> a \<notin> set_tree l \<and> a \<notin> set_tree r \<and>
     set_tree l \<inter> set_tree r = {}"
  by (auto simp: tree_ok_def)

lemma tree_ok_merge:
  "tree_ok s \<Longrightarrow> tree_ok t \<Longrightarrow> set_tree s \<inter> set_tree t = {} \<Longrightarrow> tree_ok (merge_tree cmp s t)"
  by (induction cmp s t rule: merge_tree.induct) auto

section \<open>Representation of trees by pointers\<close>

fun sh_tree :: "'a sheap \<Rightarrow> 'a option \<Rightarrow> 'a tree \<Rightarrow> bool" where
  "sh_tree H p Leaf \<longleftrightarrow> p = None"
| "sh_tree H p (Node l a r) \<longleftrightarrow> p = Some a \<and>
     sh_tree H (sh_left H a) l \<and> sh_tree H (sh_right H a) r \<and>
     (\<forall>c. sh_left H a = Some c \<longrightarrow> sh_parent H c = Some a) \<and>
     (\<forall>c. sh_right H a = Some c \<longrightarrow> sh_parent H c = Some a)"

lemma sh_tree_root: "sh_tree H p t \<Longrightarrow> p = root_of t"
  by (cases t) auto

lemma sh_tree_unique: "sh_tree H p s \<Longrightarrow> sh_tree H p t \<Longrightarrow> s = t"
proof (induction s arbitrary: p t)
  case Leaf
  then show ?case by (cases t) auto
next
  case (Node l a r)
  then show ?case by (cases t) auto
qed

lemma root_in_set: "root_of t = Some a \<Longrightarrow> a \<in> set_tree t"
  by (cases t) auto

text \<open>The parent of the root does not belong to the tree.\<close>

lemma sh_tree_frame:
  assumes "sh_tree H p t" and "tree_ok t"
    and "\<And>x. x \<in> set_tree t \<Longrightarrow> sh_left H' x = sh_left H x \<and> sh_right H' x = sh_right H x"
    and "\<And>x. x \<in> set_tree t \<Longrightarrow> root_of t \<noteq> Some x \<Longrightarrow> sh_parent H' x = sh_parent H x"
  shows "sh_tree H' p t"
  using assms
proof (induction t arbitrary: p)
  case (Node l a r)
  have "sh_tree H' (sh_left H a) l"
    using Node.prems by (intro Node.IH(1)) auto
  moreover have "sh_tree H' (sh_right H a) r"
    using Node.prems by (intro Node.IH(2)) auto
  moreover have "c \<noteq> a \<and> c \<in> set_tree l" if "sh_left H a = Some c" for c
    using Node.prems(1,2) that by (auto dest!: sh_tree_root root_in_set [OF sym])
  moreover have "c \<noteq> a \<and> c \<in> set_tree r" if "sh_right H a = Some c" for c
    using Node.prems(1,2) that by (auto dest!: sh_tree_root root_in_set [OF sym])
  ultimately show ?case
    using Node.prems by auto
qed simp

text \<open>What changes outside the given nodes (nothing), and the parent of a root (not at all).\<close>

definition same_outside :: "'a set \<Rightarrow> 'a sheap \<Rightarrow> 'a sheap \<Rightarrow> bool" where
  "same_outside A H H' \<longleftrightarrow> (\<forall>x. x \<notin> A \<longrightarrow> sh_left H' x = sh_left H x \<and>
     sh_right H' x = sh_right H x \<and> sh_parent H' x = sh_parent H x)"

lemma same_outsideD:
  assumes "same_outside A H H'" and "x \<notin> A"
  shows "sh_left H' x = sh_left H x" "sh_right H' x = sh_right H x" "sh_parent H' x = sh_parent H x"
  using assms by (simp_all add: same_outside_def)

lemma same_outside_mono: "same_outside A H H' \<Longrightarrow> A \<subseteq> B \<Longrightarrow> same_outside B H H'"
  unfolding same_outside_def by blast

lemma sh_tree_same_outside:
  assumes "sh_tree H p t" "tree_ok t" "same_outside A H H'" "set_tree t \<inter> A = {}"
  shows "sh_tree H' p t"
  by (rule sh_tree_frame [OF assms(1,2)])
    (use assms(3,4) same_outsideD [OF assms(3)] in \<open>blast+\<close>)

lemma set_children_sel:
  "sh_left (set_children a c d H) = (sh_left H)(a := c)"
  "sh_right (set_children a c d H) = (sh_right H)(a := d)"
  "sh_parent (set_children a c d H) =
     (case c of None \<Rightarrow> sh_parent H | Some x \<Rightarrow> (sh_parent H)(x := Some a))"
  by (cases c; simp add: set_children_def Let_def)+

lemma set_children_tree:
  assumes "sh_tree H c s" "tree_ok s" "sh_tree H d t" "tree_ok t"
    and "a \<notin> set_tree s" "a \<notin> set_tree t" "set_tree s \<inter> set_tree t = {}"
    and par: "\<And>x. d = Some x \<Longrightarrow> sh_parent H x = Some a"
  shows "sh_tree (set_children a c d H) (Some a) (Node s a t)"
proof -
  let ?H = "set_children a c d H"
  note sel = set_children_sel
  have c: "c = root_of s" and d: "d = root_of t"
    using assms by (simp_all add: sh_tree_root)
  have out: "sh_parent ?H x = sh_parent H x" if "c \<noteq> Some x" for x
    using that by (auto simp: sel split: option.splits)
  have cs: "x \<in> set_tree s" if "c = Some x" for x
    using that c by (simp add: root_in_set)
  have ct: "c \<noteq> Some x" if "x \<in> set_tree t" for x
    using that cs assms(7) by blast
  have "sh_tree ?H c s"
    by (rule sh_tree_frame [OF assms(1,2)]) (use assms(5) c out in \<open>auto simp: sel(1,2)\<close>)
  moreover have "sh_tree ?H d t"
    by (rule sh_tree_frame [OF assms(3,4)]) (use assms(6) out ct in \<open>auto simp: sel(1,2)\<close>)
  moreover have "sh_parent ?H x = Some a" if "d = Some x" for x
    using out [OF ct [of x]] par [OF that] that d by (simp add: root_in_set)
  ultimately show ?thesis
    by (auto simp: sel)
qed

text \<open>One level of the merge: the merged subtree becomes the left child, the old left child the
  right one.\<close>

lemma merge_step:
  assumes m: "sh_tree H1 (root_of m) m" "tree_ok m" "same_outside (set_tree m) H H1"
    and l: "sh_tree H (sh_left H a) l" "tree_ok l"
    and sep: "a \<notin> set_tree m" "a \<notin> set_tree l" "set_tree l \<inter> set_tree m = {}"
    and par: "\<And>x. sh_left H a = Some x \<Longrightarrow> sh_parent H x = Some a"
  shows "sh_tree (set_children a (root_of m) (sh_left H a) H1) (Some a) (Node m a l)"
    and "same_outside (insert a (set_tree m \<union> set_tree l)) H (set_children a (root_of m) (sh_left H a) H1)"
    and "sh_parent (set_children a (root_of m) (sh_left H a) H1) a = sh_parent H a"
proof -
  let ?H = "set_children a (root_of m) (sh_left H a) H1"
  have l1: "sh_tree H1 (sh_left H a) l"
    by (rule sh_tree_same_outside [OF l m(3) sep(3)])
  have par1: "sh_parent H1 x = Some a" if "sh_left H a = Some x" for x
  proof -
    have "x \<in> set_tree l"
      using that sh_tree_root [OF l(1)] by (simp add: root_in_set)
    then show ?thesis
      using same_outsideD(3) [OF m(3), of x] sep(3) par [OF that] by auto
  qed
  show "sh_tree ?H (Some a) (Node m a l)"
    by (rule set_children_tree [OF m(1,2) l1 l(2) sep(1,2) _ par1]) (use sep(3) in blast)+
  have out: "sh_parent ?H x = sh_parent H1 x" if "x \<notin> set_tree m" for x
    using that by (auto simp: set_children_sel split: option.splits dest: root_in_set)
  show "sh_parent ?H a = sh_parent H a"
    using out sep(1) same_outsideD(3) [OF m(3) sep(1)] by simp
  show "same_outside (insert a (set_tree m \<union> set_tree l)) H ?H"
    using out same_outsideD [OF m(3)] by (auto simp: same_outside_def set_children_sel(1,2))
qed

text \<open>Merging: the pointers end up as the merged tree, and nothing else is touched.\<close>

definition merged :: "'a set \<Rightarrow> 'a sheap \<Rightarrow> 'a tree \<Rightarrow> ('a option \<times> 'a sheap) option \<Rightarrow> bool" where
  "merged A H m res \<longleftrightarrow> (\<exists>H'. res = Some (root_of m, H') \<and> sh_tree H' (root_of m) m \<and>
     same_outside A H H' \<and> (\<forall>a. root_of m = Some a \<longrightarrow> sh_parent H' a = sh_parent H a))"

lemma merged_refl: "sh_tree H p m \<Longrightarrow> merged A H m (Some (p, H))"
  using sh_tree_root [of H p m] by (auto simp: merged_def same_outside_def)

lemma merged_step:
  assumes mg: "merged (set_tree m) H m res" and m: "tree_ok m"
    and l: "sh_tree H (sh_left H a) l" "tree_ok l"
    and sep: "a \<notin> set_tree m" "a \<notin> set_tree l" "set_tree l \<inter> set_tree m = {}"
    and par: "\<And>x. sh_left H a = Some x \<Longrightarrow> sh_parent H x = Some a"
  shows "merged (insert a (set_tree m \<union> set_tree l)) H (Node m a l)
     (Option.bind res (\<lambda>(c, H1). Some (Some a, set_children a c (sh_left H a) H1)))"
proof -
  obtain H1 where H1: "res = Some (root_of m, H1)" "sh_tree H1 (root_of m) m"
      "same_outside (set_tree m) H H1"
    using mg by (auto simp: merged_def)
  show ?thesis
    using merge_step [OF H1(2) m H1(3) l sep par] by (simp add: merged_def H1(1))
qed

lemma merge_skew_heap_tree:
  assumes "sh_tree H p s" "sh_tree H q t" "tree_ok s" "tree_ok t" "set_tree s \<inter> set_tree t = {}"
  shows "merged (set_tree s \<union> set_tree t) H (merge_tree cmp s t) (merge_skew_heap cmp p q H)"
  using assms
proof (induction cmp s t arbitrary: p q rule: merge_tree.induct)
  case (1 cmp t)
  then show ?case
    by (simp add: merge_skew_heap.simps merged_refl)
next
  case (2 cmp l a r)
  then show ?case
    by (simp add: merge_skew_heap.simps merged_refl)
next
  case (3 cmp l1 a r1 l2 b r2)
  let ?s = "Node l1 a r1" and ?t = "Node l2 b r2"
  have pq: "p = Some a" "q = Some b"
    using "3.prems" by simp_all
  show ?case
  proof (cases "cmp a b = -1")
    case True
    have "merged (set_tree (merge_tree cmp r1 ?t)) H (merge_tree cmp r1 ?t)
        (merge_skew_heap cmp (sh_right H a) q H)"
      unfolding set_merge_tree by (rule "3.IH"(1) [OF True]) (use "3.prems" in auto)
    then have "merged (insert a (set_tree (merge_tree cmp r1 ?t) \<union> set_tree l1)) H
        (Node (merge_tree cmp r1 ?t) a l1)
        (Option.bind (merge_skew_heap cmp (sh_right H a) q H)
          (\<lambda>(c, H1). Some (Some a, set_children a c (sh_left H a) H1)))"
      by (rule merged_step) (use "3.prems" in \<open>auto intro!: tree_ok_merge\<close>)
    moreover have "insert a (set_tree (merge_tree cmp r1 ?t) \<union> set_tree l1) = set_tree ?s \<union> set_tree ?t"
      by auto
    ultimately show ?thesis
      using True pq by (simp add: merge_skew_heap.simps [of cmp "Some a" "Some b"])
  next
    case False
    have "merged (set_tree (merge_tree cmp ?s r2)) H (merge_tree cmp ?s r2)
        (merge_skew_heap cmp p (sh_right H b) H)"
      unfolding set_merge_tree by (rule "3.IH"(2) [OF False]) (use "3.prems" in auto)
    then have "merged (insert b (set_tree (merge_tree cmp ?s r2) \<union> set_tree l2)) H
        (Node (merge_tree cmp ?s r2) b l2)
        (Option.bind (merge_skew_heap cmp p (sh_right H b) H)
          (\<lambda>(c, H1). Some (Some b, set_children b c (sh_left H b) H1)))"
      by (rule merged_step) (use "3.prems" in \<open>auto intro!: tree_ok_merge\<close>)
    moreover have "insert b (set_tree (merge_tree cmp ?s r2) \<union> set_tree l2) = set_tree ?s \<union> set_tree ?t"
      by auto
    ultimately show ?thesis
      using False pq by (simp add: merge_skew_heap.simps [of cmp "Some a" "Some b"])
  qed
qed

section \<open>Whole heaps\<close>

text \<open>A whole heap is a tree whose root has no parent.\<close>

definition sh_heap :: "'a sheap \<Rightarrow> 'a option \<Rightarrow> 'a tree \<Rightarrow> bool" where
  "sh_heap H p t \<longleftrightarrow> sh_tree H p t \<and> tree_ok t \<and> (\<forall>a. p = Some a \<longrightarrow> sh_parent H a = None)"

lemma sh_heap_root: "sh_heap H p t \<Longrightarrow> p = root_of t"
  by (auto simp: sh_heap_def dest: sh_tree_root)

lemma sh_heap_empty [simp]: "sh_heap H None Leaf"
  by (simp add: sh_heap_def)

definition insert_tree :: "'a comp_fn \<Rightarrow> 'a \<Rightarrow> 'a tree \<Rightarrow> 'a tree" where
  "insert_tree cmp x t = merge_tree cmp t (Node Leaf x Leaf)"

fun delete_tree :: "'a comp_fn \<Rightarrow> 'a \<Rightarrow> 'a tree \<Rightarrow> 'a tree" where
  "delete_tree cmp x Leaf = Leaf"
| "delete_tree cmp x (Node l a r) =
     (if x = a then merge_tree cmp l r
      else Node (delete_tree cmp x l) a (delete_tree cmp x r))"

lemma set_insert_tree [simp]: "set_tree (insert_tree cmp x t) = insert x (set_tree t)"
  by (simp add: insert_tree_def)

lemma delete_tree_notin: "x \<notin> set_tree t \<Longrightarrow> delete_tree cmp x t = t"
  by (induction t) auto

lemma size_insert_tree [simp]: "size (insert_tree cmp x t) = Suc (size t)"
  by (simp add: insert_tree_def size_merge_tree)

lemma size_delete_tree: "tree_ok t \<Longrightarrow> x \<in> set_tree t \<Longrightarrow> Suc (size (delete_tree cmp x t)) = size t"
proof (induction t)
  case (Node l a r)
  consider "x = a" | "x \<in> set_tree l" "x \<notin> set_tree r" "x \<noteq> a"
    | "x \<in> set_tree r" "x \<notin> set_tree l" "x \<noteq> a"
    using Node.prems by auto
  then show ?case
    using Node by cases (auto simp: size_merge_tree delete_tree_notin)
qed simp

lemma set_delete_tree [simp]: "tree_ok t \<Longrightarrow> set_tree (delete_tree cmp x t) = set_tree t - {x}"
  by (induction t) auto

lemma tree_ok_delete: "tree_ok t \<Longrightarrow> tree_ok (delete_tree cmp x t)"
  by (induction t) (auto intro!: tree_ok_merge)

lemma add_skew_heap_tree:
  assumes "sh_heap H p t" and "x \<notin> set_tree t"
  shows "\<exists>H'. add_skew_heap cmp p x H = Some (root_of (insert_tree cmp x t), H') \<and>
    sh_heap H' (root_of (insert_tree cmp x t)) (insert_tree cmp x t) \<and>
    same_outside (insert x (set_tree t)) H H'"
proof -
  let ?H = "init_skew_heap x H" and ?m = "insert_tree cmp x t"
  have sel: "sh_left ?H = (sh_left H)(x := None)" "sh_right ?H = (sh_right H)(x := None)"
    "sh_parent ?H = (sh_parent H)(x := None)"
    by (simp_all add: init_skew_heap_def)
  have t: "sh_tree H p t" "tree_ok t" "p = root_of t"
    using assms(1) by (auto simp: sh_heap_def dest: sh_tree_root)
  have "sh_tree ?H p t"
    by (rule sh_tree_frame [OF t(1,2)]) (use assms(2) in \<open>auto simp: sel\<close>)
  moreover have "sh_tree ?H (Some x) (Node Leaf x Leaf)"
    by (simp add: sel)
  ultimately have "merged (set_tree t \<union> {x}) ?H ?m (merge_skew_heap cmp p (Some x) ?H)"
    using merge_skew_heap_tree [of ?H p t "Some x" "Node Leaf x Leaf" cmp] t(2) assms(2)
    by (simp add: insert_tree_def)
  then obtain H' where H': "add_skew_heap cmp p x H = Some (root_of ?m, H')"
      "sh_tree H' (root_of ?m) ?m" "same_outside (set_tree t \<union> {x}) ?H H'"
      "\<And>a. root_of ?m = Some a \<Longrightarrow> sh_parent H' a = sh_parent ?H a"
    by (auto simp: merged_def add_skew_heap_def)
  have root: "root_of ?m = p \<or> root_of ?m = Some x"
    using t(3) by (cases t) (auto simp: insert_tree_def)
  have "tree_ok ?m"
    using t(2) assms(2) by (auto simp: insert_tree_def intro!: tree_ok_merge)
  moreover have "sh_parent ?H a = None" if "root_of ?m = Some a" for a
    using that root assms(1) by (auto simp: sel sh_heap_def)
  moreover have "same_outside (insert x (set_tree t)) H H'"
    using H'(3) by (auto simp: same_outside_def sel)
  ultimately show ?thesis
    using H' by (auto simp: sh_heap_def)
qed

text \<open>Deleting the root, deleting a child of \<open>a\<close>, and deleting any other node.\<close>

lemma merge_children:
  assumes "sh_tree H (Some x) (Node l x r)" "tree_ok (Node l x r)"
  obtains H1 where "merge_skew_heap cmp (sh_left H x) (sh_right H x) H = Some (root_of (merge_tree cmp l r), H1)"
    "sh_tree H1 (root_of (merge_tree cmp l r)) (merge_tree cmp l r)"
    "same_outside (set_tree l \<union> set_tree r) H H1" "tree_ok (merge_tree cmp l r)"
proof -
  have "merged (set_tree l \<union> set_tree r) H (merge_tree cmp l r)
      (merge_skew_heap cmp (sh_left H x) (sh_right H x) H)"
    using assms by (intro merge_skew_heap_tree) auto
  moreover have "tree_ok (merge_tree cmp l r)"
    using assms(2) by (auto intro!: tree_ok_merge)
  ultimately show thesis
    using that by (auto simp: merged_def)
qed

lemma set_root_parent:
  assumes "sh_tree H (root_of m) m" "tree_ok m" "root_of m = Some c"
  shows "sh_tree (H\<lparr>sh_parent := (sh_parent H)(c := v)\<rparr>) (root_of m) m"
  by (rule sh_tree_frame [OF assms(1,2)]) (use assms(3) in auto)

lemma del_skew_heap_root:
  assumes "sh_heap H (Some x) (Node l x r)"
  shows "\<exists>H'. del_skew_heap cmp p0 x H = Some (root_of (merge_tree cmp l r), H') \<and>
    sh_heap H' (root_of (merge_tree cmp l r)) (merge_tree cmp l r) \<and>
    same_outside (set_tree l \<union> set_tree r) H H'"
proof -
  let ?m = "merge_tree cmp l r"
  have t: "sh_tree H (Some x) (Node l x r)" "tree_ok (Node l x r)" "sh_parent H x = None"
    using assms by (auto simp: sh_heap_def)
  obtain H1 where H1: "merge_skew_heap cmp (sh_left H x) (sh_right H x) H = Some (root_of ?m, H1)"
      "sh_tree H1 (root_of ?m) ?m" "same_outside (set_tree l \<union> set_tree r) H H1" "tree_ok ?m"
    by (rule merge_children [OF t(1,2)])
  show ?thesis
  proof (cases "root_of ?m")
    case None
    then show ?thesis
      using H1 t(3) by (simp add: del_skew_heap_def sh_heap_def)
  next
    case (Some c)
    let ?H = "H1\<lparr>sh_parent := (sh_parent H1)(c := None)\<rparr>"
    have "c \<in> set_tree l \<union> set_tree r"
      using root_in_set [OF Some] by simp
    then have "same_outside (set_tree l \<union> set_tree r) H ?H"
      using H1(3) by (auto simp: same_outside_def)
    then show ?thesis
      using H1 t(3) Some set_root_parent [OF H1(2,4) Some]
      by (simp add: del_skew_heap_def sh_heap_def)
  qed
qed

text \<open>\<open>del_child\<close>: what a deletion below \<open>a\<close> leaves.\<close>

lemma del_skew_heap_child:
  assumes t: "sh_tree H (Some x) (Node l x r)" "tree_ok (Node l x r)"
    and a: "sh_parent H x = Some a" "a \<notin> set_tree (Node l x r)"
  obtains H' where "del_skew_heap cmp p0 x H = Some (p0, H')"
    "sh_tree H' (root_of (merge_tree cmp l r)) (merge_tree cmp l r)"
    "same_outside (insert a (set_tree l \<union> set_tree r)) H H'"
    "sh_parent H' a = sh_parent H a"
    "sh_left H' a = (if sh_left H a = Some x then root_of (merge_tree cmp l r) else sh_left H a)"
    "sh_right H' a = (if sh_left H a = Some x then sh_right H a else root_of (merge_tree cmp l r))"
    "\<And>c. root_of (merge_tree cmp l r) = Some c \<Longrightarrow> sh_parent H' c = Some a"
proof -
  let ?m = "merge_tree cmp l r"
  obtain H1 where H1: "merge_skew_heap cmp (sh_left H x) (sh_right H x) H = Some (root_of ?m, H1)"
      "sh_tree H1 (root_of ?m) ?m" "same_outside (set_tree l \<union> set_tree r) H H1" "tree_ok ?m"
    by (rule merge_children [OF t])
  define H2 where "H2 = (case root_of ?m of None \<Rightarrow> H1
      | Some c \<Rightarrow> H1\<lparr>sh_parent := (sh_parent H1)(c := Some a)\<rparr>)"
  define H3 where "H3 = (if sh_left H a = Some x then H2\<lparr>sh_left := (sh_left H2)(a := root_of ?m)\<rparr>
      else H2\<lparr>sh_right := (sh_right H2)(a := root_of ?m)\<rparr>)"
  have am: "a \<notin> set_tree l \<union> set_tree r"
    using a(2) by simp
  have m2: "sh_tree H2 (root_of ?m) ?m"
    using H1(2,4) set_root_parent [OF H1(2,4)] by (auto simp: H2_def split: option.splits)
  have c2: "c \<in> set_tree l \<union> set_tree r" if "root_of ?m = Some c" for c
    using root_in_set [OF that] by simp
  have s2: "same_outside (set_tree l \<union> set_tree r) H H2"
    using H1(3) c2 by (auto simp: same_outside_def H2_def split: option.splits)
  note a2 = same_outsideD [OF s2 am]
  have m3: "sh_tree H3 (root_of ?m) ?m"
    by (rule sh_tree_frame [OF m2 H1(4)]) (use am in \<open>auto simp: H3_def\<close>)
  have "del_skew_heap cmp p0 x H = Some (p0, H3)"
    using H1(1) a(1) a2 by (simp add: del_skew_heap_def H3_def H2_def Let_def)
  moreover have "same_outside (insert a (set_tree l \<union> set_tree r)) H H3"
    using s2 by (auto simp: same_outside_def H3_def)
  moreover have "sh_parent H3 c = Some a" if "root_of ?m = Some c" for c
    using that by (simp add: H3_def H2_def)
  ultimately show thesis
    using that [of H3] m3 a2 by (simp add: H3_def)
qed

text \<open>A node other than the root is deleted inside the tree, whatever root the caller passes.\<close>

definition deleted_in :: "'a comp_fn \<Rightarrow> 'a \<Rightarrow> 'a sheap \<Rightarrow> 'a option \<Rightarrow> 'a option \<Rightarrow> 'a tree \<Rightarrow> 'a sheap \<Rightarrow> bool" where
  "deleted_in cmp x H p0 p t H' \<longleftrightarrow> del_skew_heap cmp p0 x H = Some (p0, H') \<and>
     sh_tree H' p (delete_tree cmp x t) \<and> same_outside (set_tree t) H H' \<and>
     (\<forall>a. p = Some a \<longrightarrow> sh_parent H' a = sh_parent H a)"

lemma deleted_in_left:
  assumes N: "sh_tree H p (Node l a r)" "tree_ok (Node l a r)" and x: "x \<in> set_tree l"
    and d: "deleted_in cmp x H p0 (sh_left H a) l H'"
  shows "deleted_in cmp x H p0 p (Node l a r) H'"
proof -
  have so: "same_outside (set_tree l) H H'"
    using d by (simp add: deleted_in_def)
  have a: "a \<notin> set_tree l" "a \<noteq> x" "x \<notin> set_tree r"
    using N(2) x by auto
  have r: "sh_tree H' (sh_right H a) r"
    by (rule sh_tree_same_outside [OF _ _ so]) (use N in auto)
  have "sh_parent H' c = Some a" if "sh_right H a = Some c" for c
  proof -
    have "c \<in> set_tree r"
      using N(1) that by (auto dest!: sh_tree_root root_in_set [OF sym])
    then show ?thesis
      using same_outsideD(3) [OF so, of c] N that by auto
  qed
  moreover have "sh_parent H' c = Some a" if "sh_left H a = Some c" for c
    using d N(1) that by (simp add: deleted_in_def)
  ultimately show ?thesis
    using d N r a same_outsideD [OF so a(1)] same_outside_mono [OF so, of "set_tree (Node l a r)"]
    by (auto simp: deleted_in_def delete_tree_notin)
qed

lemma deleted_in_right:
  assumes N: "sh_tree H p (Node l a r)" "tree_ok (Node l a r)" and x: "x \<in> set_tree r"
    and d: "deleted_in cmp x H p0 (sh_right H a) r H'"
  shows "deleted_in cmp x H p0 p (Node l a r) H'"
proof -
  have so: "same_outside (set_tree r) H H'"
    using d by (simp add: deleted_in_def)
  have a: "a \<notin> set_tree r" "a \<noteq> x" "x \<notin> set_tree l"
    using N(2) x by auto
  have l: "sh_tree H' (sh_left H a) l"
    by (rule sh_tree_same_outside [OF _ _ so]) (use N in auto)
  have "sh_parent H' c = Some a" if "sh_left H a = Some c" for c
  proof -
    have "c \<in> set_tree l"
      using N(1) that by (auto dest!: sh_tree_root root_in_set [OF sym])
    then show ?thesis
      using same_outsideD(3) [OF so, of c] N that by auto
  qed
  moreover have "sh_parent H' c = Some a" if "sh_right H a = Some c" for c
    using d N(1) that by (simp add: deleted_in_def)
  ultimately show ?thesis
    using d N l a same_outsideD [OF so a(1)] same_outside_mono [OF so, of "set_tree (Node l a r)"]
    by (auto simp: deleted_in_def delete_tree_notin)
qed

text \<open>The child of \<open>a\<close> itself: the other subtree is untouched.\<close>

lemma deleted_in_child:
  assumes N: "sh_tree H p (Node l a r)" "tree_ok (Node l a r)"
    and x: "sh_left H a = Some x \<or> sh_right H a = Some x"
  shows "\<exists>H'. deleted_in cmp x H p0 p (Node l a r) H'"
proof -
  have sub: "sh_left H a = root_of l" "sh_right H a = root_of r"
    using N(1) by (auto dest: sh_tree_root)
  have px: "sh_parent H x = Some a"
    using N(1) x by auto
  show ?thesis
  proof (cases "sh_left H a = Some x")
    case True
    then obtain l2 r2 where l: "l = Node l2 x r2"
      using sub(1) by (cases l) auto
    have X: "sh_tree H (Some x) (Node l2 x r2)" "tree_ok (Node l2 x r2)" "a \<notin> set_tree (Node l2 x r2)"
      using N True by (simp_all add: l)
    obtain H' where H': "del_skew_heap cmp p0 x H = Some (p0, H')"
        "sh_tree H' (root_of (merge_tree cmp l2 r2)) (merge_tree cmp l2 r2)"
        "same_outside (insert a (set_tree l2 \<union> set_tree r2)) H H'"
        "sh_parent H' a = sh_parent H a" "sh_left H' a = root_of (merge_tree cmp l2 r2)"
        "sh_right H' a = sh_right H a"
        "\<And>c. root_of (merge_tree cmp l2 r2) = Some c \<Longrightarrow> sh_parent H' c = Some a"
      using del_skew_heap_child [OF X(1,2) px X(3), of cmp p0] True by (metis (no_types, lifting))
    have rest: "x \<notin> set_tree r" "a \<noteq> x"
      using N(2) by (auto simp: l)
    have r: "sh_tree H' (sh_right H a) r"
      by (rule sh_tree_same_outside [OF _ _ H'(3)]) (use N in \<open>auto simp: l\<close>)
    have "sh_parent H' c = Some a" if "sh_right H a = Some c" for c
      using that same_outsideD(3) [OF H'(3), of c] sub(2) N root_in_set [of r c] by (fastforce simp: l)
    then show ?thesis
      using H' r N rest same_outside_mono [OF H'(3), of "set_tree (Node l a r)"]
      by (auto simp: deleted_in_def delete_tree_notin l)
  next
    case False
    then obtain l2 r2 where r: "r = Node l2 x r2"
      using sub(2) x by (cases r) auto
    have X: "sh_tree H (Some x) (Node l2 x r2)" "tree_ok (Node l2 x r2)" "a \<notin> set_tree (Node l2 x r2)"
      using N False x by (simp_all add: r)
    obtain H' where H': "del_skew_heap cmp p0 x H = Some (p0, H')"
        "sh_tree H' (root_of (merge_tree cmp l2 r2)) (merge_tree cmp l2 r2)"
        "same_outside (insert a (set_tree l2 \<union> set_tree r2)) H H'"
        "sh_parent H' a = sh_parent H a" "sh_right H' a = root_of (merge_tree cmp l2 r2)"
        "sh_left H' a = sh_left H a"
        "\<And>c. root_of (merge_tree cmp l2 r2) = Some c \<Longrightarrow> sh_parent H' c = Some a"
      using del_skew_heap_child [OF X(1,2) px X(3), of cmp p0] False by (metis (no_types, lifting))
    have rest: "x \<notin> set_tree l" "a \<noteq> x"
      using N(2) by (auto simp: r)
    have l: "sh_tree H' (sh_left H a) l"
      by (rule sh_tree_same_outside [OF _ _ H'(3)]) (use N in \<open>auto simp: r\<close>)
    have "sh_parent H' c = Some a" if "sh_left H a = Some c" for c
      using that same_outsideD(3) [OF H'(3), of c] sub(1) N root_in_set [of l c] by (fastforce simp: r)
    then show ?thesis
      using H' l N rest same_outside_mono [OF H'(3), of "set_tree (Node l a r)"]
      by (auto simp: deleted_in_def delete_tree_notin r)
  qed
qed

lemma del_skew_heap_inner:
  assumes "sh_tree H p t" "tree_ok t" "x \<in> set_tree t" "p \<noteq> Some x"
  shows "\<exists>H'. deleted_in cmp x H p0 p t H'"
  using assms
proof (induction t arbitrary: p)
  case (Node l a r)
  consider "sh_left H a = Some x \<or> sh_right H a = Some x"
    | "x \<in> set_tree l" "sh_left H a \<noteq> Some x" | "x \<in> set_tree r" "sh_right H a \<noteq> Some x"
    using Node.prems by auto
  then show ?case
  proof cases
    case 1
    then show ?thesis
      by (rule deleted_in_child [OF Node.prems(1,2)])
  next
    case 2
    then obtain H' where "deleted_in cmp x H p0 (sh_left H a) l H'"
      using Node.IH(1) [of "sh_left H a"] Node.prems by auto
    then show ?thesis
      using deleted_in_left [OF Node.prems(1,2) 2(1)] by blast
  next
    case 3
    then obtain H' where "deleted_in cmp x H p0 (sh_right H a) r H'"
      using Node.IH(2) [of "sh_right H a"] Node.prems by auto
    then show ?thesis
      using deleted_in_right [OF Node.prems(1,2) 3(1)] by blast
  qed
qed simp

lemma del_skew_heap_tree:
  assumes "sh_heap H p t" and "x \<in> set_tree t"
  shows "\<exists>H'. del_skew_heap cmp p x H = Some (root_of (delete_tree cmp x t), H') \<and>
    sh_heap H' (root_of (delete_tree cmp x t)) (delete_tree cmp x t) \<and>
    same_outside (set_tree t) H H'"
proof (cases "p = Some x")
  case True
  then obtain l r where t: "t = Node l x r"
    using assms(1) by (cases t) (auto simp: sh_heap_def)
  then show ?thesis
    using del_skew_heap_root [of H x l r cmp p] assms(1) True same_outside_mono [of "set_tree l \<union> set_tree r" H _ "set_tree t"]
    by auto
next
  case False
  then obtain H' where H': "deleted_in cmp x H p p t H'"
    using del_skew_heap_inner [of H p t x cmp p] assms by (auto simp: sh_heap_def)
  have "p = root_of (delete_tree cmp x t)"
    using H' by (auto simp: deleted_in_def dest: sh_tree_root)
  then show ?thesis
    using H' assms(1) tree_ok_delete [of t cmp x] by (auto simp: deleted_in_def sh_heap_def)
qed

section \<open>Heap order\<close>

text \<open>No node below \<open>a\<close> compares smaller than \<open>a\<close>.\<close>

fun heap_ordered :: "'a comp_fn \<Rightarrow> 'a tree \<Rightarrow> bool" where
  "heap_ordered cmp Leaf \<longleftrightarrow> True"
| "heap_ordered cmp (Node l a r) \<longleftrightarrow> heap_ordered cmp l \<and> heap_ordered cmp r \<and>
     (\<forall>x \<in> set_tree l \<union> set_tree r. cmp x a \<noteq> -1)"

lemma heap_ordered_cong:
  assumes "\<And>x y. x \<in> set_tree t \<Longrightarrow> y \<in> set_tree t \<Longrightarrow> cmp x y = cmp' x y"
  shows "heap_ordered cmp t = heap_ordered cmp' t"
  using assms by (induction t) auto

text \<open>
  The contract of a comparison function. It has to be a strict weak order only on the sets of
  nodes that are \<open>good\<close>: a comparison of machine words by their signed difference is one only
  on words that lie close together.
\<close>

locale skew_order =
  fixes cmp :: "'a comp_fn" and good :: "'a set \<Rightarrow> bool"
  assumes good_subset: "good A \<Longrightarrow> B \<subseteq> A \<Longrightarrow> good B"
    and cmp_irrefl: "cmp a a \<noteq> -1"
    and cmp_trans: "good {a, b, c} \<Longrightarrow> cmp a b = -1 \<Longrightarrow> cmp b c = -1 \<Longrightarrow> cmp a c = -1"
    and cmp_neg_trans: "good {a, b, c} \<Longrightarrow> cmp a b \<noteq> -1 \<Longrightarrow> cmp b c \<noteq> -1 \<Longrightarrow> cmp a c \<noteq> -1"
begin

lemma heap_ordered_merge:
  assumes "good (set_tree s \<union> set_tree t)" "heap_ordered cmp s" "heap_ordered cmp t"
  shows "heap_ordered cmp (merge_tree cmp s t)"
  using assms
proof (induction "size s + size t" arbitrary: s t rule: less_induct)
  case less
  have good3: "good {x, y, z}" if "{x, y, z} \<subseteq> set_tree s \<union> set_tree t" for x y z
    using that less.prems(1) good_subset by blast
  show ?case
  proof (cases s)
    case Leaf
    then show ?thesis
      using less.prems by simp
  next
    case s: (Node l1 a r1)
    show ?thesis
    proof (cases t)
      case Leaf
      then show ?thesis
        using less.prems s by simp
    next
      case t: (Node l2 b r2)
      show ?thesis
      proof (cases "cmp a b = -1")
        case True
        have "heap_ordered cmp (merge_tree cmp r1 t)"
          using less.prems s by (intro less.hyps) (auto intro: good_subset)
        moreover have "cmp x a \<noteq> -1" if x: "x \<in> set_tree t" for x
        proof
          assume "cmp x a = -1"
          then have "cmp x b = -1"
            using cmp_trans [OF good3 [of x a b]] True x s t by auto
          then show False
            using x less.prems(3) cmp_irrefl [of b] t by auto
        qed
        ultimately show ?thesis
          using True less.prems(2) s t by auto
      next
        case False
        have "heap_ordered cmp (merge_tree cmp s r2)"
          using less.prems t by (intro less.hyps) (auto intro: good_subset)
        moreover have "cmp x b \<noteq> -1" if x: "x \<in> set_tree s" for x
          using cmp_neg_trans [OF good3 [of x a b] _ False] False x less.prems(2) s t by auto
        ultimately show ?thesis
          using False less.prems(3) s t by auto
      qed
    qed
  qed
qed

lemma heap_ordered_insert:
  "good (insert x (set_tree t)) \<Longrightarrow> heap_ordered cmp t \<Longrightarrow> heap_ordered cmp (insert_tree cmp x t)"
  unfolding insert_tree_def by (rule heap_ordered_merge) auto

lemma heap_ordered_delete:
  "good (set_tree t) \<Longrightarrow> tree_ok t \<Longrightarrow> heap_ordered cmp t \<Longrightarrow> heap_ordered cmp (delete_tree cmp x t)"
proof (induction t)
  case (Node l a r)
  have "good (set_tree l)" "good (set_tree r)" "good (set_tree l \<union> set_tree r)"
    using Node.prems(1) by (auto intro: good_subset)
  then show ?case
    using Node by (auto intro: heap_ordered_merge)
qed simp

lemma heap_root_minimal:
  "heap_ordered cmp t \<Longrightarrow> root_of t = Some a \<Longrightarrow> x \<in> set_tree t \<Longrightarrow> cmp x a \<noteq> -1"
  using cmp_irrefl by (cases t) auto

end

section \<open>Correctness\<close>

definition sample_cmp :: "nat comp_fn" where
  "sample_cmp a b = (if a < b then -1 else if a = b then 0 else 1)"

text \<open>Node 1 is the root, 2 and 3 are its children.\<close>

definition sample_sheap :: "nat sheap" where
  "sample_sheap = \<lparr>sh_parent = (\<lambda>x. if x = 2 \<or> x = 3 then Some 1 else None),
     sh_left = (\<lambda>x. if x = 1 then Some 2 else None), sh_right = (\<lambda>x. if x = 1 then Some 3 else None)\<rparr>"

lemma sample_sheap_rep: "sh_heap sample_sheap (Some 1) (Node (Node Leaf 2 Leaf) 1 (Node Leaf 3 Leaf))"
  by (simp add: sh_heap_def sample_sheap_def)

text \<open>Inserting a node into a skew heap returns, for any comparison function, and the pointers
  represent the tree with the node merged in; no node outside the heap is touched.
\<close>

theorem skew_add_refines:
  assumes "sh_heap H p t" and "x \<notin> set_tree t"
  shows "\<exists>H'. add_skew_heap cmp p x H = Some (root_of (insert_tree cmp x t), H') \<and>
    sh_heap H' (root_of (insert_tree cmp x t)) (insert_tree cmp x t) \<and>
    same_outside (insert x (set_tree t)) H H'"
  by (rule add_skew_heap_tree [OF assms])

theorem skew_add_refines_witness:
  "\<exists>H'. add_skew_heap sample_cmp (Some 1) 0 sample_sheap = Some (Some 0, H') \<and>
    sh_heap H' (Some 0) (Node (Node (Node Leaf 2 Leaf) 1 (Node Leaf 3 Leaf)) 0 Leaf)"
  using skew_add_refines [OF sample_sheap_rep, of 0 sample_cmp]
  by (auto simp: insert_tree_def sample_cmp_def)

text \<open>C26: deleting any node of a skew heap, the root or an inner one, returns and leaves the tree in
  which the node is replaced by the merge of its two subtrees; no node outside is touched.
\<close>

theorem skew_del_refines:
  assumes "sh_heap H p t" and "x \<in> set_tree t"
  shows "\<exists>H'. del_skew_heap cmp p x H = Some (root_of (delete_tree cmp x t), H') \<and>
    sh_heap H' (root_of (delete_tree cmp x t)) (delete_tree cmp x t) \<and>
    same_outside (set_tree t) H H'"
  by (rule del_skew_heap_tree [OF assms])

theorem skew_del_refines_witness:
  "\<exists>H'. del_skew_heap sample_cmp (Some 1) 1 sample_sheap = Some (Some 2, H') \<and>
    sh_heap H' (Some 2) (Node (Node Leaf 3 Leaf) 2 Leaf)"
  using skew_del_refines [OF sample_sheap_rep, of 1 sample_cmp] by (auto simp: sample_cmp_def)

end
