(* ===== verification/Kstring.thy ===== *)
theory Kstring
  imports Kprelude
begin

text \<open>
  The string library \<open>lib/string.c\<close>. Memory is a function from addresses to bytes; \<open>char\<close> is
  unsigned on this machine. \<open>cstring m s cs\<close> says that the bytes \<open>cs\<close> followed by a zero stand at
  address \<open>s\<close>. Each routine is shown to compute the list function it stands for and to leave the
  memory outside its destination alone.
\<close>

unbundle bit_operations_syntax

section \<open>Operations\<close>

type_synonym bytes = "u64 \<Rightarrow> u8"

partial_function (option) strlen_loop :: "bytes \<Rightarrow> u64 \<Rightarrow> u64 \<Rightarrow> u64 option" where
  "strlen_loop m s cnt = (if m s \<noteq> 0 then strlen_loop m (s + 1) (cnt + 1) else Some cnt)"

definition strlen :: "bytes \<Rightarrow> u64 \<Rightarrow> u64 option" where
  "strlen m s = strlen_loop m s 0"

partial_function (option) strcmp :: "bytes \<Rightarrow> u64 \<Rightarrow> u64 \<Rightarrow> int option" where
  "strcmp m s1 s2 =
     (if m s1 \<noteq> 0 \<and> m s1 = m s2 then strcmp m (s1 + 1) (s2 + 1)
      else Some (uint (m s1) - uint (m s2)))"

partial_function (option) strcpy_loop :: "bytes \<Rightarrow> u64 \<Rightarrow> u64 \<Rightarrow> bytes option" where
  "strcpy_loop m p src =
     (let m1 = m(p := m src) in
      if m1 p \<noteq> 0 then strcpy_loop m1 (p + 1) (src + 1) else Some m1)"

definition strcpy :: "bytes \<Rightarrow> u64 \<Rightarrow> u64 \<Rightarrow> bytes option" where
  "strcpy m dst src = strcpy_loop m dst src"

definition swap_bytes :: "bytes \<Rightarrow> u64 \<Rightarrow> u64 \<Rightarrow> bytes" where
  "swap_bytes m a b = (let temp = m a; m1 = m(a := m b) in m1(b := temp))"

text \<open>The loop of \<open>strrev\<close>, with the number of iterations left as last argument.\<close>

fun strrev_loop :: "bytes \<Rightarrow> u64 \<Rightarrow> u64 \<Rightarrow> u64 \<Rightarrow> nat \<Rightarrow> bytes" where
  "strrev_loop m s len i 0 = m"
| "strrev_loop m s len i (Suc k) =
     strrev_loop (swap_bytes m (s + i) (s + (len - 1 - i))) s len (i + 1) k"

definition strrev :: "bytes \<Rightarrow> u64 \<Rightarrow> bytes option" where
  "strrev m s =
     (case strlen m s of None \<Rightarrow> None
      | Some len \<Rightarrow> Some (strrev_loop m s len 0 (unat (len div 2))))"

text \<open>\<open>while (n-- > 0)\<close>, with \<open>n\<close> as number of iterations.\<close>

fun memset_loop :: "bytes \<Rightarrow> u64 \<Rightarrow> u8 \<Rightarrow> nat \<Rightarrow> bytes" where
  "memset_loop m p c 0 = m"
| "memset_loop m p c (Suc k) = memset_loop (m(p := c)) (p + 1) c k"

definition memset :: "bytes \<Rightarrow> u64 \<Rightarrow> u8 \<Rightarrow> u64 \<Rightarrow> bytes" where
  "memset m s c n = memset_loop m s c (unat n)"

fun memcpy_loop :: "bytes \<Rightarrow> u64 \<Rightarrow> u64 \<Rightarrow> nat \<Rightarrow> bytes" where
  "memcpy_loop m p s 0 = m"
| "memcpy_loop m p s (Suc k) = memcpy_loop (m(p := m s)) (p + 1) (s + 1) k"

definition memcpy :: "bytes \<Rightarrow> u64 \<Rightarrow> u64 \<Rightarrow> u64 \<Rightarrow> bytes" where
  "memcpy m dst src n = memcpy_loop m dst src (unat n)"

section \<open>Addresses\<close>

lemma unat_diff_Suc:
  assumes "a \<noteq> (p :: u64)"
  shows "unat (a - (p + 1)) = unat (a - p) - 1" "0 < unat (a - p)"
proof -
  have nz: "a - p \<noteq> 0"
    using assms by simp
  show "0 < unat (a - p)"
    using nz unat_gt_0 by blast
  have "a - (p + 1) = a - p - 1"
    by (simp only: diff_diff_eq)
  then show "unat (a - (p + 1)) = unat (a - p) - 1"
    using nz unat_minus_one [of "a - p"] by (simp only: not_False_eq_True)
qed

text \<open>\<open>region a n\<close>: the \<open>n\<close> bytes from address \<open>a\<close>.\<close>

definition region :: "u64 \<Rightarrow> nat \<Rightarrow> u64 set" where
  "region a n = {x. unat (x - a) < n}"

lemma region_0 [simp]: "region a 0 = {}"
  by (simp add: region_def)

lemma region_Suc:
  assumes "Suc n \<le> 2 ^ 64"
  shows "region a (Suc n) = insert a (region (a + 1) n)"
proof -
  have "unat (x - a) < Suc n \<longleftrightarrow> x = a \<or> unat (x - (a + 1)) < n" for x
  proof (cases "x = a")
    case False
    with unat_diff_Suc [OF False] show ?thesis
      by auto
  qed simp
  then show ?thesis
    by (auto simp: region_def)
qed

lemma region_member: "i < n \<Longrightarrow> n \<le> 2 ^ 64 \<Longrightarrow> a + of_nat i \<in> region a n"
  by (simp add: region_def unat_of_nat_u64)

lemma region_last: "n < 2 ^ 64 \<Longrightarrow> a + of_nat n \<notin> region a n"
  by (simp add: region_def unat_of_nat_u64)

lemma start_notin_region: "n < 2 ^ 64 \<Longrightarrow> a \<notin> region (a + 1) n"
  by (simp add: region_def unsigned_minus_1_eq_mask mask_eq_exp_minus_1)

lemma region_mono: "n \<le> k \<Longrightarrow> region a n \<subseteq> region a k"
  by (auto simp: region_def)

section \<open>Strings\<close>

fun cstring :: "bytes \<Rightarrow> u64 \<Rightarrow> u8 list \<Rightarrow> bool" where
  "cstring m s [] \<longleftrightarrow> m s = 0"
| "cstring m s (c # cs) \<longleftrightarrow> m s = c \<and> c \<noteq> 0 \<and> cstring m (s + 1) cs"

lemma cstring_nth:
  "cstring m s cs \<longleftrightarrow> (\<forall>i < length cs. m (s + of_nat i) = cs ! i) \<and> 0 \<notin> set cs \<and> m (s + of_nat (length cs)) = 0"
proof (induction cs arbitrary: s)
  case (Cons c cs)
  have "(\<forall>i < Suc (length cs). m (s + of_nat i) = (c # cs) ! i) \<longleftrightarrow>
      m s = c \<and> (\<forall>i < length cs. m (s + 1 + of_nat i) = cs ! i)"
    by (subst All_less_Suc2) (simp add: add.assoc)
  then show ?case
    by (auto simp: Cons.IH add.assoc)
qed simp

lemma cstring_cong:
  assumes "\<And>a. a \<in> region s (Suc (length cs)) \<Longrightarrow> m' a = m a" "length cs < 2 ^ 64"
  shows "cstring m' s cs = cstring m s cs"
proof -
  have "m' (s + of_nat i) = m (s + of_nat i)" if "i \<le> length cs" for i
    using that assms region_member [of i "Suc (length cs)" s] by auto
  then show ?thesis
    by (simp add: cstring_nth)
qed

lemma strlen_loop_ok: "cstring m s cs \<Longrightarrow> strlen_loop m s cnt = Some (cnt + of_nat (length cs))"
proof (induction cs arbitrary: s cnt)
  case (Cons c cs)
  then show ?case
    by (subst strlen_loop.simps) (simp add: add.assoc)
qed (simp add: strlen_loop.simps)

lemma strlen_ok: "cstring m s cs \<Longrightarrow> strlen m s = Some (of_nat (length cs))"
  by (simp add: strlen_def strlen_loop_ok)

lemma strcpy_loop_ok:
  assumes "cstring m src cs" "length cs < 2 ^ 64" "region p (Suc (length cs)) \<inter> region src (Suc (length cs)) = {}"
  shows "\<exists>m'. strcpy_loop m p src = Some m' \<and> cstring m' p cs \<and>
    (\<forall>a. a \<notin> region p (Suc (length cs)) \<longrightarrow> m' a = m a)"
  using assms
proof (induction cs arbitrary: m p src)
  case Nil
  then show ?case
    by (subst strcpy_loop.simps) (auto simp: region_def)
next
  case (Cons c cs)
  let ?n = "Suc (length cs)" and ?m = "m(p := c)"
  have R: "region p (Suc ?n) = insert p (region (p + 1) ?n)" "region src (Suc ?n) = insert src (region (src + 1) ?n)"
    using Cons.prems(2) by (auto intro!: region_Suc)
  have c: "m src = c" "c \<noteq> 0" "cstring m (src + 1) cs"
    using Cons.prems(1) by auto
  have same: "cstring ?m (src + 1) cs = cstring m (src + 1) cs"
    using Cons.prems(2,3) R by (intro cstring_cong) auto
  have "\<exists>m'. strcpy_loop ?m (p + 1) (src + 1) = Some m' \<and> cstring m' (p + 1) cs \<and>
      (\<forall>a. a \<notin> region (p + 1) ?n \<longrightarrow> m' a = ?m a)"
    by (rule Cons.IH [OF same [THEN iffD2, OF c(3)]]) (use Cons.prems(2,3) R in auto)
  then obtain m' where m': "strcpy_loop ?m (p + 1) (src + 1) = Some m'" "cstring m' (p + 1) cs"
      "\<And>a. a \<notin> region (p + 1) ?n \<Longrightarrow> m' a = ?m a"
    by blast
  moreover have "m' p = c"
    using m'(3) [of p] start_notin_region [of ?n p] Cons.prems(2) by simp
  ultimately show ?case
    using c R by (subst strcpy_loop.simps) auto
qed

lemma memset_loop_ok: "k \<le> 2 ^ 64 \<Longrightarrow> memset_loop m p c k = (\<lambda>a. if a \<in> region p k then c else m a)"
proof (induction k arbitrary: m p)
  case (Suc k)
  then show ?case
    by (auto simp: region_Suc fun_eq_iff)
qed simp

lemma memset_ok: "memset m s c n = (\<lambda>a. if a \<in> region s (unat n) then c else m a)"
  unfolding memset_def by (rule memset_loop_ok) (use unat_u64_bound in \<open>simp add: less_imp_le\<close>)

lemma memcpy_loop_ok:
  assumes "k \<le> 2 ^ 64" "region p k \<inter> region s k = {}"
  shows "memcpy_loop m p s k = (\<lambda>a. if a \<in> region p k then m (s + (a - p)) else m a)"
  using assms
proof (induction k arbitrary: m p s)
  case (Suc k)
  have R: "region p (Suc k) = insert p (region (p + 1) k)" "region s (Suc k) = insert s (region (s + 1) k)"
    using Suc.prems(1) by (auto intro!: region_Suc)
  have IH: "memcpy_loop (m(p := m s)) (p + 1) (s + 1) k =
      (\<lambda>a. if a \<in> region (p + 1) k then (m(p := m s)) (s + 1 + (a - (p + 1))) else (m(p := m s)) a)"
    using Suc.prems R by (intro Suc.IH) auto
  have off: "s + 1 + (a - (p + 1)) = s + (a - p)" for a
    by simp
  have ne: "s + (a - p) \<noteq> p" if "a \<in> region (p + 1) k" for a
  proof
    assume eq: "s + (a - p) = p"
    have "a \<in> region p (Suc k)"
      using that R by simp
    then have "s + (a - p) \<in> region s (Suc k)"
      by (simp add: region_def)
    then have "p \<in> region s (Suc k)"
      unfolding eq .
    moreover have "p \<in> region p (Suc k)"
      by (simp add: region_def)
    ultimately show False
      using Suc.prems(2) by blast
  qed
  have p: "p \<notin> region (p + 1) k"
    using Suc.prems(1) by (intro start_notin_region) simp
  show ?case
    unfolding memcpy_loop.simps IH R off
  proof
    fix a
    show "(if a \<in> region (p + 1) k then (m(p := m s)) (s + (a - p)) else (m(p := m s)) a) =
        (if a \<in> insert p (region (p + 1) k) then m (s + (a - p)) else m a)"
      using ne [of a] p by (cases "a = p") simp_all
  qed
qed simp

lemma memcpy_ok:
  assumes "region dst (unat n) \<inter> region src (unat n) = {}"
  shows "memcpy m dst src n = (\<lambda>a. if a \<in> region dst (unat n) then m (src + (a - dst)) else m a)"
  unfolding memcpy_def by (rule memcpy_loop_ok [OF _ assms]) (use unat_u64_bound in \<open>simp add: less_imp_le\<close>)

lemma strcmp_step:
  "strcmp m s1 s2 = (if m s1 \<noteq> 0 \<and> m s1 = m s2 then strcmp m (s1 + 1) (s2 + 1)
     else Some (uint (m s1) - uint (m s2)))"
  by (rule strcmp.simps)

lemma strcmp_ok:
  assumes "cstring m s1 cs" "cstring m s2 ds"
  shows "\<exists>r. strcmp m s1 s2 = Some r \<and> (r = 0 \<longleftrightarrow> cs = ds) \<and> (r < 0 \<longleftrightarrow> (cs, ds) \<in> lexord {(a, b). a < b})"
  using assms
proof (induction cs arbitrary: s1 s2 ds)
  case Nil
  then show ?case
    by (cases ds; subst strcmp_step) (auto simp: word_neq_0_conv word_less_def)
next
  case (Cons c cs)
  show ?case
  proof (cases ds)
    case Nil
    with Cons.prems show ?thesis
      by (subst strcmp_step) (auto simp: word_neq_0_conv word_less_def)
  next
    case (Cons d ds')
    show ?thesis
    proof (cases "c = d")
      case True
      with Cons Cons.prems Cons.IH [of "s1 + 1" "s2 + 1" ds'] show ?thesis
        by (subst strcmp_step) auto
    next
      case False
      with Cons Cons.prems show ?thesis
        by (subst strcmp_step) (auto simp: word_less_def word_uint_eq_iff)
    qed
  qed
qed

text \<open>
  After \<open>i\<close> iterations of \<open>strrev\<close> the first and the last \<open>i\<close> bytes of the string have changed
  places.
\<close>

definition rev_upto :: "bytes \<Rightarrow> u64 \<Rightarrow> nat \<Rightarrow> nat \<Rightarrow> bytes" where
  "rev_upto m s n i =
     (\<lambda>a. let j = unat (a - s) in if j < i \<or> n - i \<le> j \<and> j < n then m (s + of_nat (n - 1 - j)) else m a)"

lemma rev_upto_step:
  assumes "2 * i + 1 < n" "n < 2 ^ 64"
  shows "swap_bytes (rev_upto m s n i) (s + of_nat i) (s + of_nat (n - 1 - i)) = rev_upto m s n (Suc i)"
proof
  fix a
  define j where "j = unat (a - s)"
  have a: "a = s + of_nat j"
    by (simp add: j_def)
  have j: "j < 2 ^ 64"
    unfolding j_def by (rule unat_u64_bound)
  have inj: "s + of_nat j = s + of_nat k \<longleftrightarrow> j = k" if "k < 2 ^ 64" for k
  proof -
    have "of_nat j = (of_nat k :: u64) \<longleftrightarrow> j = k"
      using that j by (metis unat_of_nat_u64)
    then show ?thesis
      by simp
  qed
  have u: "unat (s + of_nat k - s) = k" if "k < 2 ^ 64" for k
    using that by (simp add: unat_of_nat_u64)
  have v: "rev_upto m s n i (s + of_nat k) =
      (if k < i \<or> n - i \<le> k \<and> k < n then m (s + of_nat (n - 1 - k)) else m (s + of_nat k))" if "k < 2 ^ 64" for k i
    unfolding rev_upto_def Let_def u [OF that] ..
  have k: "i < 2 ^ 64" "n - 1 - i < 2 ^ 64" "\<not> i < i" "\<not> n - i \<le> i" "\<not> n - 1 - i < i" "\<not> n - i \<le> n - 1 - i"
      "n - 1 - (n - 1 - i) = i"
    using assms by auto
  have eq: "swap_bytes (rev_upto m s n i) (s + of_nat i) (s + of_nat (n - 1 - i)) a =
      (if j = n - 1 - i then m (s + of_nat i) else if j = i then m (s + of_nat (n - 1 - i)) else rev_upto m s n i a)"
    unfolding a swap_bytes_def Let_def fun_upd_apply inj [OF k(1)] inj [OF k(2)] v [OF k(1)] v [OF k(2)]
    using k(3-) by simp
  consider "j = n - 1 - i" | "j = i" "j \<noteq> n - 1 - i" | "j \<noteq> i" "j \<noteq> n - 1 - i"
    by blast
  then show "swap_bytes (rev_upto m s n i) (s + of_nat i) (s + of_nat (n - 1 - i)) a = rev_upto m s n (Suc i) a"
  proof cases
    case 1
    then show ?thesis
      unfolding eq unfolding a v [OF j] using assms by auto
  next
    case 2
    then show ?thesis
      unfolding eq unfolding a v [OF j] using assms by auto
  next
    case 3
    then have "(j < i \<or> n - i \<le> j \<and> j < n) = (j < Suc i \<or> n - Suc i \<le> j \<and> j < n)"
      using assms by auto
    with 3 show ?thesis
      unfolding eq unfolding a v [OF j] by simp
  qed
qed

lemma strrev_loop_ok:
  assumes "i + k = n div 2" "n < 2 ^ 64"
  shows "strrev_loop (rev_upto m s n i) s (of_nat n) (of_nat i) k = rev_upto m s n (n div 2)"
  using assms
proof (induction k arbitrary: i)
  case (Suc k)
  then have b: "2 * i + 1 < n"
    by linarith
  then have w: "(of_nat n - 1 - of_nat i :: u64) = of_nat (n - 1 - i)"
    by (simp add: of_nat_diff)
  show ?case
    unfolding strrev_loop.simps w rev_upto_step [OF b Suc.prems(2)]
    using Suc.IH [of "Suc i"] Suc.prems by (simp add: add.commute)
qed simp

lemma strrev_ok:
  assumes "cstring m s cs" "length cs < 2 ^ 64"
  shows "\<exists>m'. strrev m s = Some m' \<and> cstring m' s (rev cs) \<and> (\<forall>a. a \<notin> region s (length cs) \<longrightarrow> m' a = m a)"
proof -
  let ?n = "length cs" and ?m = "rev_upto m s (length cs) (length cs div 2)"
  have "rev_upto m s ?n 0 = m"
    by (auto simp: rev_upto_def fun_eq_iff Let_def)
  moreover have "unat (of_nat ?n div 2 :: u64) = ?n div 2"
    using assms(2) by (simp add: unat_div unat_of_nat_u64)
  ultimately have run: "strrev m s = Some ?m"
    using strrev_loop_ok [of 0 "?n div 2" ?n m s] assms(2) by (simp add: strrev_def strlen_ok [OF assms(1)])
  have s: "\<And>i. i < ?n \<Longrightarrow> m (s + of_nat i) = cs ! i" "0 \<notin> set cs" "m (s + of_nat ?n) = 0"
    using assms(1) by (auto simp: cstring_nth)
  have "?m (s + of_nat i) = rev cs ! i" if "i < ?n" for i
  proof -
    have u: "unat (s + of_nat i - s) = i"
      using that assms(2) by (simp add: unat_of_nat_u64)
    consider "i < ?n div 2" | "?n - ?n div 2 \<le> i" | "i = ?n div 2" "?n = Suc (2 * i)"
      using that by linarith
    then show ?thesis
    proof cases
      case 3
      then have "?n - 1 - i = i"
        by simp
      then show ?thesis
        unfolding rev_upto_def Let_def u using that s(1) [of i] by (simp add: rev_nth)
    next
      case 1
      then show ?thesis
        unfolding rev_upto_def Let_def u using that s(1) [of "?n - 1 - i"] by (simp add: rev_nth)
    next
      case 2
      then show ?thesis
        unfolding rev_upto_def Let_def u using that s(1) [of "?n - 1 - i"] by (simp add: rev_nth)
    qed
  qed
  moreover have "?m (s + of_nat ?n) = 0"
  proof -
    have u: "unat (s + of_nat ?n - s) = ?n"
      using assms(2) by (simp add: unat_of_nat_u64)
    have "\<not> ?n < ?n div 2"
      by linarith
    then show ?thesis
      unfolding rev_upto_def Let_def u using s(3) by simp
  qed
  ultimately have "cstring ?m s (rev cs)"
    using s(2) by (simp add: cstring_nth)
  moreover have "?m a = m a" if "a \<notin> region s ?n" for a
    using that by (auto simp: rev_upto_def region_def Let_def)
  ultimately show ?thesis
    using run by blast
qed

section \<open>What the routines guarantee\<close>

text \<open>\<open>strcpy\<close> to a destination that does not overlap the source terminates, leaves a string that
  \<open>strcmp\<close> finds equal to the source, and writes nothing beyond its final zero.\<close>

theorem strcpy_equal:
  assumes "cstring m src cs" and "length cs < 2 ^ 64"
    and "region dst (Suc (length cs)) \<inter> region src (Suc (length cs)) = {}"
  shows "\<exists>m'. strcpy m dst src = Some m' \<and> strcmp m' dst src = Some 0 \<and> cstring m' dst cs \<and>
    (\<forall>a. a \<notin> region dst (Suc (length cs)) \<longrightarrow> m' a = m a)"
proof -
  obtain m' where m': "strcpy_loop m dst src = Some m'" "cstring m' dst cs"
      "\<And>a. a \<notin> region dst (Suc (length cs)) \<Longrightarrow> m' a = m a"
    using strcpy_loop_ok [OF assms] by blast
  have "cstring m' src cs"
    using assms m'(3) by (subst cstring_cong [of src cs m' m]) auto
  with m'(2) have "strcmp m' dst src = Some 0"
    using strcmp_ok [of m' dst cs src cs] by auto
  with m' show ?thesis
    by (auto simp: strcpy_def)
qed

theorem strcpy_equal_witness:
  "\<exists>m'. strcpy (\<lambda>a. if a = 5 then 97 else if a = 6 then 98 else 0) 100 5 = Some m' \<and> cstring m' 100 [97, 98]"
proof -
  have "region 100 (Suc (length [97, 98 :: u8])) \<inter> region 5 (Suc (length [97, 98 :: u8])) = {}"
    by (simp only: list.size plus_nat.add_0 add_Suc_right) (simp del: numeral_3_eq_3 add: region_Suc)
  then show ?thesis
    using strcpy_equal [of "\<lambda>a. if a = 5 then 97 else if a = 6 then 98 else 0" 5 "[97, 98]" 100] by auto
qed

text \<open>\<open>strcmp\<close> orders strings lexicographically by their bytes.\<close>

theorem strcmp_lexicographic:
  assumes "cstring m s1 cs" and "cstring m s2 ds"
  shows "\<exists>r. strcmp m s1 s2 = Some r \<and> (r = 0 \<longleftrightarrow> cs = ds) \<and> (r < 0 \<longleftrightarrow> (cs, ds) \<in> lexord {(a, b). a < b})"
  by (rule strcmp_ok [OF assms])

theorem strcmp_lexicographic_witness:
  "\<exists>r. strcmp (\<lambda>a. if a = 5 then 97 else if a = 6 then 98 else if a = 20 then 98 else 0) 5 20 = Some r \<and> r < 0"
  using strcmp_lexicographic [of "\<lambda>a. if a = 5 then 97 else if a = 6 then 98 else if a = 20 then 98 else 0" 5 "[97, 98]" 20 "[98]"]
  by auto

end
