(* ===== verification/Kmem.thy ===== *)
theory Kmem
  imports Best_Fit Kstring
begin

text \<open>
  The memory of the kernel: the bytes of DRAM by kernel virtual address, the structures
  \<open>struct vm_area\<close> and \<open>struct vm_manager\<close> of \<open>kernel/mm/vmm.h\<close>, the swap disk of
  \<open>kernel/driver/ide.c\<close> and the list of swappable pages. A structure allocated by the kernel is an
  entry of a heap of its type, named by its address; the list links inside structures are in the
  link heaps of the lists they belong to. This theory has the access to 64-bit words in the byte
  memory, which page tables need.
\<close>

unbundle bit_operations_syntax

section \<open>State\<close>

definition VMA_READ :: u32 where [const_defs]: "VMA_READ = 0x00000001"
definition VMA_WRITE :: u32 where [const_defs]: "VMA_WRITE = 0x00000002"
definition VMA_EXEC :: u32 where [const_defs]: "VMA_EXEC = 0x00000004"
definition VMA_STACK :: u32 where [const_defs]: "VMA_STACK = 0x00000008"

record vm_area =
  vma_vmm :: "u64 option"
  vm_start :: u64
  vm_end :: u64
  vm_flags :: u32

text \<open>\<open>pra_list\<close> is \<open>NULL\<close> or the one list \<open>g_pra_list\<close>; the semaphore is in the semaphore heap.\<close>

record vm_manager =
  vma_curr :: "u64 option"
  vmm_gpt :: u64
  vma_count :: u32
  pra_list :: "unit option"
  use_count :: u32
  owner_pid :: int

record kmem = pmm +
  mem :: bytes
  ide :: bytes
  pra_links :: "(unit, nat) lnode links"
  vmas :: "u64 \<Rightarrow> vm_area"
  vmms :: "u64 \<Rightarrow> vm_manager"
  vma_links :: "(u64, u64) lnode links"
  swap_init_flag :: bool
  test_vmm :: "u64 option"
  num_page_fault :: u32

section \<open>Words in memory\<close>

text \<open>Little-endian: the byte at the lowest address has the lowest bits.\<close>

fun load_le :: "bytes \<Rightarrow> u64 \<Rightarrow> nat \<Rightarrow> u64" where
  "load_le m a 0 = 0"
| "load_le m a (Suc k) = push_bit 8 (load_le m (a + 1) k) OR ucast (m a)"

definition load64 :: "bytes \<Rightarrow> u64 \<Rightarrow> u64" where
  "load64 m a = load_le m a 8"

definition store64 :: "bytes \<Rightarrow> u64 \<Rightarrow> u64 \<Rightarrow> bytes" where
  "store64 m a v = (\<lambda>x. if x \<in> region a 8 then ucast (drop_bit (8 * unat (x - a)) v) else m x)"

text \<open>\<open>&table[i]\<close> for a table of 64-bit entries.\<close>

definition entry_at :: "u64 \<Rightarrow> u64 \<Rightarrow> u64" where
  "entry_at table i = table + 8 * i"

lemma bit_load_le:
  assumes "k \<le> 8"
  shows "bit (load_le m a k) n \<longleftrightarrow> n < 8 * k \<and> bit (m (a + of_nat (n div 8))) (n mod 8)"
  using assms
proof (induction k arbitrary: a n)
  case (Suc k)
  show ?case
  proof (cases "n < 8")
    case True
    then show ?thesis
      using Suc.prems by (auto simp: bit_or_iff bit_push_bit_iff bit_ucast_iff)
  next
    case False
    then obtain j where j: "n = j + 8"
      by (metis add.commute le_Suc_ex not_less)
    have "\<not> bit (m a) n"
      using False bit_imp_le_length [of "m a" n] by auto
    moreover have "n < 64" if "n < 8 * Suc k"
      using that Suc.prems by simp
    moreover have "n div 8 = Suc (j div 8)" "n mod 8 = j mod 8"
      by (simp_all add: j)
    moreover from this have "a + 1 + of_nat (j div 8) = a + of_nat (n div 8)"
      by (simp add: add.assoc)
    ultimately show ?thesis
      using Suc j by (auto simp: bit_or_iff bit_push_bit_iff bit_ucast_iff add.assoc)
  qed
qed simp

lemma bit_load64: "bit (load64 m a) n \<longleftrightarrow> n < 64 \<and> bit (m (a + of_nat (n div 8))) (n mod 8)"
  by (simp add: load64_def bit_load_le)

lemma load64_cong:
  assumes "\<And>x. x \<in> region a 8 \<Longrightarrow> m' x = m x"
  shows "load64 m' a = load64 m a"
proof (rule bit_eqI)
  fix n
  have "m' (a + of_nat (n div 8)) = m (a + of_nat (n div 8))" if "n < 64"
    using that by (intro assms region_member) auto
  then show "bit (load64 m' a) n = bit (load64 m a) n"
    by (auto simp: bit_load64)
qed

lemma load64_store64 [simp]: "load64 (store64 m a v) a = v"
proof (rule bit_word_eqI)
  fix n
  assume "n < LENGTH(64)"
  then have n: "n < 64" "n div 8 < 8"
    by auto
  then have u: "unat (a + of_nat (n div 8) - a) = n div 8"
    by (simp add: unat_of_nat_u64)
  then have "store64 m a v (a + of_nat (n div 8)) = ucast (drop_bit (8 * (n div 8)) v)"
    using n by (simp add: store64_def region_def)
  then show "bit (load64 (store64 m a v) a) n = bit v n"
    using n by (simp add: bit_load64 bit_ucast_iff bit_drop_bit_eq)
qed

lemma store64_other: "x \<notin> region a 8 \<Longrightarrow> store64 m a v x = m x"
  by (simp add: store64_def)

lemma load64_zero: "(\<And>x. x \<in> region a 8 \<Longrightarrow> m x = 0) \<Longrightarrow> load64 m a = 0"
  by (rule bit_eqI) (auto simp: bit_load64 region_member)

text \<open>Aligned words are equal or do not overlap.\<close>

lemma region_aligned:
  assumes "unat a mod n = 0" "unat b mod n = 0" "n dvd 2 ^ 64" "a \<noteq> b" "0 < n"
  shows "region a n \<inter> region b n = {}"
proof (rule ccontr)
  assume "region a n \<inter> region b n \<noteq> {}"
  then obtain x where x: "unat (x - a) < n" "unat (x - b) < n"
    by (auto simp: region_def)
  have *: "unat c = unat x div n * n" if c: "unat (x - c) < n" "unat c mod n = 0" for c
  proof -
    have "unat x = (unat c + unat (x - c)) mod 2 ^ 64"
      using unat_word_ariths(1) [of c "x - c"] by simp
    moreover obtain q where q: "unat c = n * q"
      using c(2) by auto
    moreover obtain r where r: "2 ^ 64 = n * r"
      using assms(3) by (elim dvdE)
    moreover have "n * q + unat (x - c) < n * r"
    proof -
      have "n * q < n * r"
        using unat_u64_bound [of c] unfolding q r .
      then have "q < r"
        by simp
      then have "n * Suc q \<le> n * r"
        by (intro mult_le_mono2) simp
      then show ?thesis
        using c(1) by simp
    qed
    ultimately have "unat x = n * q + unat (x - c)"
      by simp
    then show ?thesis
      using c(1) q by simp
  qed
  have "unat a = unat b"
    using * [OF x(1) assms(1)] * [OF x(2) assms(2)] by simp
  with assms(4) show False
    by (simp add: word_unat_eq_iff)
qed

lemma load64_store64_other:
  assumes "unat a mod 8 = 0" "unat b mod 8 = 0" "a \<noteq> b"
  shows "load64 (store64 m a v) b = load64 m b"
proof (rule load64_cong)
  fix x
  assume "x \<in> region b 8"
  moreover have "region a 8 \<inter> region b 8 = {}"
    using assms by (intro region_aligned) auto
  ultimately show "store64 m a v x = m x"
    by (intro store64_other) auto
qed

end
