(* ===== verification/Proc_State.thy ===== *)
theory Proc_State
  imports Skew_Heap_Ptr Kmem
begin

text \<open>
  The process control block of \<open>kernel/proc/proc.h\<close>, the trap frame of \<open>kernel/trap/trap.h\<close>,
  the status register bits of \<open>kernel/driver/riscv.h\<close>, the interrupt switch of
  \<open>kernel/sync/sync.h\<close> and \<open>kernel/driver/intr.h\<close>, and the part of the kernel state the
  scheduler works on: the control blocks by address, the idle and the current process and the run
  queue. The link fields of a control block live in the link heaps of the structures they belong
  to.
\<close>

unbundle bit_operations_syntax

section \<open>Constants (proc.h, schedule.h, riscv.h)\<close>

definition PROC_NAME_LEN :: nat where [const_defs]: "PROC_NAME_LEN = 16"
definition MAX_PROCESS :: int where [const_defs]: "MAX_PROCESS = 4096"
definition MAX_PID :: int where [const_defs]: "MAX_PID = 2 * MAX_PROCESS"

definition PROC_UNINIT :: u32 where [const_defs]: "PROC_UNINIT = 0"
definition PROC_SLEEPING :: u32 where [const_defs]: "PROC_SLEEPING = 1"
definition PROC_RUNNABLE :: u32 where [const_defs]: "PROC_RUNNABLE = 2"
definition PROC_ZOMBIE :: u32 where [const_defs]: "PROC_ZOMBIE = 3"

definition WAIT_NONE :: u32 where [const_defs]: "WAIT_NONE = 0"
definition WAIT_INT :: u32 where [const_defs]: "WAIT_INT = 0x80000000"
definition WAIT_SEM :: u32 where [const_defs]: "WAIT_SEM = 0x100"
definition WAIT_CHILD :: u32 where [const_defs]: "WAIT_CHILD = 0x00000001 OR WAIT_INT"
definition WAIT_TIMER :: u32 where [const_defs]: "WAIT_TIMER = 0x00000002 OR WAIT_INT"

definition PROC_FLAG_EXIT :: u32 where [const_defs]: "PROC_FLAG_EXIT = 1"
definition MAX_TIME_SLICE :: int where [const_defs]: "MAX_TIME_SLICE = 5"

definition SSTATUS_SIE :: u64 where [const_defs]: "SSTATUS_SIE = 0x00000002"
definition SSTATUS_SPIE :: u64 where [const_defs]: "SSTATUS_SPIE = 0x00000020"
definition SSTATUS_SPP :: u64 where [const_defs]: "SSTATUS_SPP = 0x00000100"
definition SSTATUS_SUM :: u64 where [const_defs]: "SSTATUS_SUM = 0x00040000"

section \<open>Trap frames and control blocks\<close>

datatype gpr =
  Zero | Ra | Sp | Gp | Tp | T0 | T1 | T2 | S0 | S1 | A0 | A1 | A2 | A3 | A4 | A5 | A6 | A7
  | S2 | S3 | S4 | S5 | S6 | S7 | S8 | S9 | S10 | S11 | T3 | T4 | T5 | T6

record trapframe =
  tf_gpr :: "gpr \<Rightarrow> u64"
  tf_sstatus :: u64
  tf_sepc :: u64
  tf_stval :: u64
  tf_scause :: u64

text \<open>The callee-saved registers \<open>s0\<close> to \<open>s11\<close> of \<open>struct context\<close> are numbered.\<close>

record kcontext =
  ctx_ra :: u64
  ctx_sp :: u64
  ctx_s :: "nat \<Rightarrow> u64"

text \<open>
  Control blocks, timers, waits and memory managers are named by the kernel address they are
  allocated at; \<open>None\<close> is \<open>NULL\<close>. There is one run queue, so \<open>p_run_queue\<close> is \<open>NULL\<close> or
  that queue.
\<close>

type_synonym pcb_ptr = u64

record pcb =
  p_state :: u32
  p_wait_state :: u32
  p_pid :: int
  p_run_times :: u32
  p_kernel_stack :: u64
  p_need_reschedule :: bool
  p_vmm :: "u64 option"
  p_context :: kcontext
  p_tf :: "u64 option"
  p_gpt :: u64
  p_flags :: u32
  p_name :: string
  p_exit_code :: int
  p_parent :: "pcb_ptr option"
  p_child :: "pcb_ptr option"
  p_younger :: "pcb_ptr option"
  p_older :: "pcb_ptr option"
  p_run_queue :: "unit option"
  p_time_slice :: int
  p_stride :: u32
  p_priority :: u32

record sched = kmem +
  procs :: "pcb_ptr \<Rightarrow> pcb"
  sstatus :: u64
  satp :: u64
  idle_proc :: pcb_ptr
  curr_proc :: pcb_ptr
  run_pools :: "pcb_ptr sheap"
  rq_num_proc :: u32
  rq_max_time_slice :: int
  rq_run_pool :: "pcb_ptr option"

definition upd_proc :: "pcb_ptr \<Rightarrow> (pcb \<Rightarrow> pcb) \<Rightarrow> 'z sched_scheme \<Rightarrow> 'z sched_scheme" where
  "upd_proc p f s = s\<lparr>procs := (procs s)(p := f (procs s p))\<rparr>"

abbreviation curr_pcb :: "'z sched_scheme \<Rightarrow> pcb" where
  "curr_pcb s \<equiv> procs s (curr_proc s)"

lemma upd_proc_sel [simp]:
  "procs (upd_proc p f s) = (procs s)(p := f (procs s p))"
  "sstatus (upd_proc p f s) = sstatus s"
  "satp (upd_proc p f s) = satp s"
  "idle_proc (upd_proc p f s) = idle_proc s"
  "curr_proc (upd_proc p f s) = curr_proc s"
  "run_pools (upd_proc p f s) = run_pools s"
  "rq_num_proc (upd_proc p f s) = rq_num_proc s"
  "rq_max_time_slice (upd_proc p f s) = rq_max_time_slice s"
  "rq_run_pool (upd_proc p f s) = rq_run_pool s"
  by (simp_all add: upd_proc_def)

section \<open>The interrupt switch (intr.h, sync.h)\<close>

definition intr_enable :: "'z sched_scheme \<Rightarrow> 'z sched_scheme" where
  "intr_enable s = s\<lparr>sstatus := sstatus s OR SSTATUS_SIE\<rparr>"

definition intr_disable :: "'z sched_scheme \<Rightarrow> 'z sched_scheme" where
  "intr_disable s = s\<lparr>sstatus := sstatus s AND NOT SSTATUS_SIE\<rparr>"

definition local_intr_save :: "'z sched_scheme \<Rightarrow> bool \<times> 'z sched_scheme" where
  "local_intr_save s =
     (if sstatus s AND SSTATUS_SIE \<noteq> 0 then (True, intr_disable s) else (False, s))"

definition local_intr_restore :: "bool \<Rightarrow> 'z sched_scheme \<Rightarrow> 'z sched_scheme" where
  "local_intr_restore flag s = (if flag then intr_enable s else s)"

definition intr_on :: "'z sched_scheme \<Rightarrow> bool" where
  "intr_on s \<longleftrightarrow> sstatus s AND SSTATUS_SIE \<noteq> 0"

lemma intr_switch [simp]: "intr_on (intr_enable s)" "\<not> intr_on (intr_disable s)"
proof -
  have "bit (sstatus (intr_enable s) AND SSTATUS_SIE) 1" "\<not> bit (sstatus (intr_disable s) AND SSTATUS_SIE) n" for n
    by (auto simp: intr_enable_def intr_disable_def SSTATUS_SIE_def bit_simps)
  then show "intr_on (intr_enable s)" "\<not> intr_on (intr_disable s)"
    unfolding intr_on_def by (force simp: bit_eq_iff)+
qed

lemma bit_SIE: "bit SSTATUS_SIE n \<longleftrightarrow> n = 1"
  by (auto simp: SSTATUS_SIE_def bit_simps)

lemma intr_on_bit: "intr_on s \<longleftrightarrow> bit (sstatus s) 1"
proof
  show "bit (sstatus s) 1 \<Longrightarrow> intr_on s"
    unfolding intr_on_def by (metis bit_SIE bit_and_iff bit_0_eq bot_apply bot_bool_def)
  assume "intr_on s"
  then obtain n where "bit (sstatus s AND SSTATUS_SIE) n"
    unfolding intr_on_def by (metis bit_eqI bit_0_eq bot_apply bot_bool_def)
  then show "bit (sstatus s) 1"
    by (auto simp: bit_and_iff bit_SIE)
qed

lemma sstatus_save_restore:
  assumes "intr_on s"
  shows "(sstatus s AND NOT SSTATUS_SIE) OR SSTATUS_SIE = sstatus s"
  using assms by (intro bit_word_eqI) (auto simp: bit_simps bit_SIE intr_on_bit)

text \<open>
  A critical section runs its body with interrupts off, and leaves the interrupt switch as it was
  when the body does not touch it.
\<close>

lemma local_intr_save_off: "local_intr_save s = (flag, s1) \<Longrightarrow> \<not> intr_on s1"
  by (auto simp: local_intr_save_def intr_on_def [symmetric] split: if_splits)

lemma local_intr_roundtrip:
  "local_intr_save s = (flag, s1) \<Longrightarrow> sstatus s2 = sstatus s1 \<Longrightarrow>
     sstatus (local_intr_restore flag s2) = sstatus s"
  by (auto simp: local_intr_save_def local_intr_restore_def intr_disable_def intr_enable_def
      intr_on_def [symmetric] sstatus_save_restore split: if_splits)

lemma local_intr_noop: "local_intr_save s = (flag, s1) \<Longrightarrow> local_intr_restore flag s1 = s"
  by (auto simp: local_intr_save_def local_intr_restore_def intr_disable_def intr_enable_def
      intr_on_def [symmetric] sstatus_save_restore split: if_splits)

lemma local_intr_sel [simp]:
  "procs (snd (local_intr_save s)) = procs s"
  "satp (snd (local_intr_save s)) = satp s"
  "idle_proc (snd (local_intr_save s)) = idle_proc s"
  "curr_proc (snd (local_intr_save s)) = curr_proc s"
  "run_pools (snd (local_intr_save s)) = run_pools s"
  "rq_num_proc (snd (local_intr_save s)) = rq_num_proc s"
  "rq_max_time_slice (snd (local_intr_save s)) = rq_max_time_slice s"
  "rq_run_pool (snd (local_intr_save s)) = rq_run_pool s"
  "procs (local_intr_restore flag s) = procs s"
  "satp (local_intr_restore flag s) = satp s"
  "idle_proc (local_intr_restore flag s) = idle_proc s"
  "curr_proc (local_intr_restore flag s) = curr_proc s"
  "run_pools (local_intr_restore flag s) = run_pools s"
  "rq_num_proc (local_intr_restore flag s) = rq_num_proc s"
  "rq_max_time_slice (local_intr_restore flag s) = rq_max_time_slice s"
  "rq_run_pool (local_intr_restore flag s) = rq_run_pool s"
  by (simp_all add: local_intr_save_def local_intr_restore_def intr_disable_def intr_enable_def)

end
