(* ===== verification/Swap.thy ===== *)
theory Swap
  imports Proc_State
begin

text \<open>
  The swap disk (\<open>kernel/driver/ide.c\<close>), swap entries (\<open>kernel/mm/swap.h\<close>), the FIFO page
  replacement (\<open>kernel/mm/fifo_swap.c\<close>), the walk of a page table and, up to the allocation of
  pages that calls it, \<open>swap_out\<close> of \<open>kernel/mm/swap.c\<close>. The walk takes the page allocator as an
  argument, since \<open>get_pte\<close> may allocate, the allocator may swap out, and swapping out walks a
  page table without allocating.
\<close>

unbundle bit_operations_syntax

section \<open>Disk and swap entries\<close>

definition SECTION_SIZE :: u64 where [const_defs]: "SECTION_SIZE = 512"
definition IDE_SECTIONS :: u64 where [const_defs]: "IDE_SECTIONS = 64"
definition IDE_SIZE :: u64 where [const_defs]: "IDE_SIZE = SECTION_SIZE * IDE_SECTIONS"
definition SWAP_SHIFT :: nat where [const_defs]: "SWAP_SHIFT = 8"
definition PAGE_SECT :: u64 where [const_defs]: "PAGE_SECT = PAGE_SIZE div SECTION_SIZE"
definition SWAP_MAX_OFFSET :: u64 where [const_defs]: "SWAP_MAX_OFFSET = IDE_SECTIONS div PAGE_SECT"

text \<open>\<open>memcpy\<close> between the memory and the array \<open>ide\<close>, which do not overlap.\<close>

definition read_ide_sects :: "u64 \<Rightarrow> u32 \<Rightarrow> u64 \<Rightarrow> 'z kmem_scheme \<Rightarrow> 'z kmem_scheme" where
  "read_ide_sects dst src_sect num_sects s =
     s\<lparr>mem := (\<lambda>a. if a \<in> region dst (unat (num_sects * SECTION_SIZE))
                    then ide s (ucast src_sect * SECTION_SIZE + (a - dst)) else mem s a)\<rparr>"

definition write_ide_sects :: "u64 \<Rightarrow> u32 \<Rightarrow> u64 \<Rightarrow> 'z kmem_scheme \<Rightarrow> 'z kmem_scheme" where
  "write_ide_sects src dst_sect num_sects s =
     s\<lparr>ide := (\<lambda>a. if a \<in> region (ucast dst_sect * SECTION_SIZE) (unat (num_sects * SECTION_SIZE))
                    then mem s (src + (a - ucast dst_sect * SECTION_SIZE)) else ide s a)\<rparr>"

definition addr2swap :: "u64 \<Rightarrow> u64" where
  "addr2swap addr = push_bit SWAP_SHIFT (drop_bit PAGE_SHIFT addr)"

definition swap_offset :: "u64 \<Rightarrow> u64 exec" where
  "swap_offset entry =
     (let offset = drop_bit SWAP_SHIFT entry
      in assert_then (0 < offset \<and> offset < SWAP_MAX_OFFSET) (ret offset))"

definition read_swap_ide :: "u64 \<Rightarrow> nat \<Rightarrow> 'z kmem_scheme \<Rightarrow> 'z kmem_scheme exec" where
  "read_swap_ide entry page s =
     bind_exec (page2va page) (\<lambda>va.
     bind_exec (swap_offset entry) (\<lambda>offset.
       ret (read_ide_sects va (ucast (offset * PAGE_SECT)) PAGE_SECT s)))"

definition write_swap_ide :: "u64 \<Rightarrow> nat \<Rightarrow> 'z kmem_scheme \<Rightarrow> 'z kmem_scheme exec" where
  "write_swap_ide entry page s =
     bind_exec (page2va page) (\<lambda>va.
     bind_exec (swap_offset entry) (\<lambda>offset.
       ret (write_ide_sects va (ucast (offset * PAGE_SECT)) PAGE_SECT s)))"

section \<open>FIFO replacement\<close>

definition upd_vmm :: "u64 \<Rightarrow> (vm_manager \<Rightarrow> vm_manager) \<Rightarrow> 'z kmem_scheme \<Rightarrow> 'z kmem_scheme" where
  "upd_vmm v f s = s\<lparr>vmms := (vmms s)(v := f (vmms s v))\<rparr>"

abbreviation pra_head :: "(unit, nat) lnode" where
  "pra_head \<equiv> LHead ()"

definition fifo_init_vmm :: "u64 \<Rightarrow> 'z kmem_scheme \<Rightarrow> 'z kmem_scheme" where
  "fifo_init_vmm vmm s =
     upd_vmm vmm (\<lambda>v. v\<lparr>pra_list := Some ()\<rparr>) (s\<lparr>pra_links := init_list pra_head (pra_links s)\<rparr>)"

definition fifo_set_unswappable :: "u64 \<Rightarrow> nat \<Rightarrow> 'z kmem_scheme \<Rightarrow> 'z kmem_scheme" where
  "fifo_set_unswappable vmm page s = s"

definition fifo_set_swappable :: "u64 \<Rightarrow> nat \<Rightarrow> 'z kmem_scheme \<Rightarrow> 'z kmem_scheme exec" where
  "fifo_set_swappable vmm page s =
     (case pra_list (vmms s vmm) of
        None \<Rightarrow> null_deref
      | Some _ \<Rightarrow> ret (s\<lparr>pra_links := add_list pra_head (nxt (pra_links s) pra_head) (LNode page) (pra_links s)\<rparr>))"

definition fifo_swap_out_page :: "u64 \<Rightarrow> 'z kmem_scheme \<Rightarrow> (nat \<times> 'z kmem_scheme) exec" where
  "fifo_swap_out_page vmm s =
     (case pra_list (vmms s vmm) of
        None \<Rightarrow> null_deref
      | Some _ \<Rightarrow>
          assert_then (\<not> list_empty (pra_links s) pra_head)
            (case prv (pra_links s) pra_head of
               LHead _ \<Rightarrow> null_deref
             | LNode page \<Rightarrow> ret (page, s\<lparr>pra_links := del_list (LNode page) (pra_links s)\<rparr>)))"

text \<open>The table of operations \<open>g_fifo_swap_manager\<close> is the only swap manager.\<close>

definition swap_init_vmm :: "u64 \<Rightarrow> 'z kmem_scheme \<Rightarrow> 'z kmem_scheme" where
  "swap_init_vmm vmm s = fifo_init_vmm vmm s"

definition swap_set_swappable :: "u64 \<Rightarrow> nat \<Rightarrow> 'z kmem_scheme \<Rightarrow> 'z kmem_scheme exec" where
  "swap_set_swappable vmm page s = fifo_set_swappable vmm page s"

definition swap_set_unswappable :: "u64 \<Rightarrow> nat \<Rightarrow> 'z kmem_scheme \<Rightarrow> 'z kmem_scheme" where
  "swap_set_unswappable vmm page s = fifo_set_unswappable vmm page s"

section \<open>Walking a page table\<close>

text \<open>
  One level of \<open>get_pte\<close>: make sure that the entry points to a table. The result is false when
  the table is missing and may not or cannot be allocated.
\<close>

definition get_table ::
  "('z sched_scheme \<Rightarrow> (nat option \<times> 'z sched_scheme) exec) \<Rightarrow> bool \<Rightarrow> u64 \<Rightarrow> 'z sched_scheme \<Rightarrow>
   (bool \<times> 'z sched_scheme) exec" where
  "get_table alloc need_create e s =
     (if load64 (mem s) e AND PTE_V \<noteq> 0 then ret (True, s)
      else if \<not> need_create then ret (False, s)
      else bind_exec (alloc s) (\<lambda>(r, s1).
        case r of
          None \<Rightarrow> ret (False, s1)
        | Some page \<Rightarrow>
            let s2 = upd_page page (\<lambda>q. q\<lparr>page_ref := 1\<rparr>) s1 in
            bind_exec (page2va page) (\<lambda>va.
            bind_exec (page2ppn page) (\<lambda>ppn.
              let s3 = s2\<lparr>mem := memset (mem s2) va 0 PAGE_SIZE\<rparr>
              in ret (True, s3\<lparr>mem := store64 (mem s3) e (ppn2pte ppn (ucast PTE_V))\<rparr>)))))"

definition get_pte_by ::
  "('z sched_scheme \<Rightarrow> (nat option \<times> 'z sched_scheme) exec) \<Rightarrow> bool \<Rightarrow> u64 \<Rightarrow> u64 \<Rightarrow> 'z sched_scheme \<Rightarrow>
   (u64 option \<times> 'z sched_scheme) exec" where
  "get_pte_by alloc need_create gpt addr s =
     (let p_gpte = entry_at gpt (get_gptx addr) in
      bind_exec (get_table alloc need_create p_gpte s) (\<lambda>(ok, s1).
        if \<not> ok then ret (None, s1)
        else bind_exec (pte2va (load64 (mem s1) p_gpte)) (\<lambda>mpt.
          let p_mpte = entry_at mpt (get_mptx addr) in
          bind_exec (get_table alloc need_create p_mpte s1) (\<lambda>(ok, s2).
            if \<not> ok then ret (None, s2)
            else bind_exec (pte2va (load64 (mem s2) p_mpte)) (\<lambda>pt.
              ret (Some (entry_at pt (get_ptx addr)), s2))))))"

text \<open>\<open>get_pte(gpt, addr, 0)\<close> allocates nothing.\<close>

definition find_pte :: "u64 \<Rightarrow> u64 \<Rightarrow> 'z sched_scheme \<Rightarrow> (u64 option \<times> 'z sched_scheme) exec" where
  "find_pte = get_pte_by (\<lambda>s. ret (None, s)) False"

section \<open>Freeing and swapping out\<close>

definition free_pages :: "nat \<Rightarrow> u64 \<Rightarrow> 'z sched_scheme \<Rightarrow> 'z sched_scheme exec" where
  "free_pages base n s =
     (let (intr_flag, s1) = local_intr_save s in
      bind_exec (best_fit_free_pages base n s1) (\<lambda>s2. ret (local_intr_restore intr_flag s2)))"

definition free_page :: "nat \<Rightarrow> 'z sched_scheme \<Rightarrow> 'z sched_scheme exec" where
  "free_page base s = free_pages base 1 s"

definition store_pte :: "u64 \<Rightarrow> u64 \<Rightarrow> 'z sched_scheme \<Rightarrow> 'z sched_scheme" where
  "store_pte a v s = s\<lparr>mem := store64 (mem s) a v\<rparr>"

fun swap_out_loop :: "u64 \<Rightarrow> nat \<Rightarrow> 'z sched_scheme \<Rightarrow> 'z sched_scheme exec" where
  "swap_out_loop vmm 0 s = ret s"
| "swap_out_loop vmm (Suc k) s =
     bind_exec (fifo_swap_out_page vmm s) (\<lambda>(page, s1).
       let addr = page_pra_addr (pages s1 page) in
       bind_exec (find_pte (vmm_gpt (vmms s1 vmm)) addr s1) (\<lambda>(p_pte, s2).
         case p_pte of
           None \<Rightarrow> null_deref
         | Some a \<Rightarrow>
             assert_then (load64 (mem s2) a AND PTE_V \<noteq> 0)
               (bind_exec (write_swap_ide (addr2swap (page_pra_addr (pages s2 page))) page s2) (\<lambda>s3.
                bind_exec (free_page page (store_pte a (addr2swap (page_pra_addr (pages s3 page))) s3)) (\<lambda>s4.
                  swap_out_loop vmm k s4)))))"

text \<open>\<open>swap_out\<close>; with \<open>vmm\<close> null the first access to \<open>vmm->pra_list\<close> fails.\<close>

definition swap_out :: "u64 option \<Rightarrow> u64 \<Rightarrow> 'z sched_scheme \<Rightarrow> 'z sched_scheme exec" where
  "swap_out vmm num_pages s =
     (case vmm of
        None \<Rightarrow> (if num_pages = 0 then ret s else null_deref)
      | Some v \<Rightarrow> swap_out_loop v (unat num_pages) s)"

end
