(* ===== verification/Phys_Mem.thy ===== *)
theory Phys_Mem
  imports Swap
begin

text \<open>
  Physical memory and page tables, \<open>kernel/mm/pmm.c\<close>: the page allocator in front of the manager,
  \<open>malloc\<close> and \<open>free\<close>, the walk \<open>get_pte\<close>, and the operations that map, unmap, copy and
  translate.
\<close>

unbundle bit_operations_syntax

section \<open>Allocation\<close>

partial_function (option) alloc_pages :: "u64 \<Rightarrow> 'z sched_scheme \<Rightarrow> (nat option \<times> 'z sched_scheme) exec" where
  "alloc_pages n s =
     (let (intr_flag, s1) = local_intr_save s in
      bind_exec (best_fit_alloc_pages n s1) (\<lambda>(page, s2).
        let s3 = local_intr_restore intr_flag s2 in
        if page \<noteq> None \<or> \<not> swap_init_flag s3 then ret (page, s3)
        else bind_exec (swap_out (test_vmm s3) n s3) (\<lambda>s4. alloc_pages n s4)))"

definition alloc_page :: "'z sched_scheme \<Rightarrow> (nat option \<times> 'z sched_scheme) exec" where
  "alloc_page s = alloc_pages 1 s"

definition count_free_pages :: "'z sched_scheme \<Rightarrow> u64 \<times> 'z sched_scheme" where
  "count_free_pages s =
     (let (intr_flag, s1) = local_intr_save s; r = best_fit_count_free_pages s1
      in (r, local_intr_restore intr_flag s1))"

definition init_memmap :: "nat \<Rightarrow> u64 \<Rightarrow> 'z sched_scheme \<Rightarrow> 'z sched_scheme exec" where
  "init_memmap base n s = best_fit_init_memmap base n s"

fun reserve_loop :: "nat \<Rightarrow> 'z sched_scheme \<Rightarrow> 'z sched_scheme" where
  "reserve_loop 0 s = s"
| "reserve_loop (Suc k) s = upd_page k (\<lambda>q. q\<lparr>page_flags := page_flags q OR PAGE_RESERVED\<rparr>) (reserve_loop k s)"

definition init_page :: "'z sched_scheme \<Rightarrow> 'z sched_scheme exec" where
  "init_page s =
     init_memmap (unat (g_num_qemu_pages + g_num_kernel_pages)) g_num_free_pages
       (reserve_loop (unat (g_num_qemu_pages + g_num_kernel_pages)) s)"

text \<open>
  \<open>page2va(NULL)\<close>: the distance of a null pointer from \<open>g_pages\<close> is no managed page number.
\<close>

definition malloc :: "u64 \<Rightarrow> 'z sched_scheme \<Rightarrow> (u64 \<times> 'z sched_scheme) exec" where
  "malloc n s =
     (let num_pages = drop_bit PAGE_SHIFT (roundup n PAGE_SIZE) in
      assert_then (0 < num_pages \<and> num_pages < g_num_free_pages)
        (bind_exec (alloc_pages num_pages s) (\<lambda>(page, s1).
           case page of None \<Rightarrow> panic | Some p \<Rightarrow> bind_exec (page2va p) (\<lambda>va. ret (va, s1)))))"

definition free :: "u64 \<Rightarrow> u64 \<Rightarrow> 'z sched_scheme \<Rightarrow> 'z sched_scheme exec" where
  "free ptr n s =
     (let num_pages = drop_bit PAGE_SHIFT (roundup n PAGE_SIZE) in
      assert_then (0 < num_pages \<and> num_pages < g_num_free_pages)
        (bind_exec (va2page ptr) (\<lambda>p. free_pages p num_pages s)))"

section \<open>Page tables\<close>

definition get_pte :: "u64 \<Rightarrow> u64 \<Rightarrow> bool \<Rightarrow> 'z sched_scheme \<Rightarrow> (u64 option \<times> 'z sched_scheme) exec" where
  "get_pte gpt addr need_create s = get_pte_by alloc_page need_create gpt addr s"

text \<open>The second result is what is stored through \<open>pp_pte\<close>.\<close>

definition get_page :: "u64 \<Rightarrow> u64 \<Rightarrow> 'z sched_scheme \<Rightarrow> (nat option \<times> u64 option) exec" where
  "get_page gpt addr s =
     bind_exec (get_pte gpt addr False s) (\<lambda>(p_pte, s1).
       case p_pte of
         None \<Rightarrow> ret (None, None)
       | Some a \<Rightarrow>
           if load64 (mem s1) a AND PTE_V \<noteq> 0
           then bind_exec (pte2page (load64 (mem s1) a)) (\<lambda>page. ret (Some page, Some a))
           else ret (None, Some a))"

definition del_page :: "u64 \<Rightarrow> u64 \<Rightarrow> 'z sched_scheme \<Rightarrow> 'z sched_scheme exec" where
  "del_page gpt addr s =
     bind_exec (get_pte gpt addr False s) (\<lambda>(p_pte, s1).
       case p_pte of
         None \<Rightarrow> ret s1
       | Some a \<Rightarrow>
           if load64 (mem s1) a AND PTE_V \<noteq> 0 then
             bind_exec (pte2page (load64 (mem s1) a)) (\<lambda>page.
               let s2 = upd_page page (\<lambda>q. q\<lparr>page_ref := page_ref q - 1\<rparr>) s1 in
               bind_exec (if page_ref (pages s2 page) = 0 then free_page page s2 else ret s2) (\<lambda>s3.
                 ret (store_pte a 0 s3)))
           else ret s1)"

definition add_page :: "u64 \<Rightarrow> nat \<Rightarrow> u64 \<Rightarrow> u32 \<Rightarrow> 'z sched_scheme \<Rightarrow> (int \<times> 'z sched_scheme) exec" where
  "add_page gpt page addr flags s =
     bind_exec (get_pte gpt addr True s) (\<lambda>(p_pte, s1).
       case p_pte of
         None \<Rightarrow> ret (- E_NO_MEM, s1)
       | Some a \<Rightarrow>
           let s2 = upd_page page (\<lambda>q. q\<lparr>page_ref := page_ref q + 1\<rparr>) s1 in
           bind_exec
             (if load64 (mem s2) a AND PTE_V \<noteq> 0 then
                bind_exec (pte2page (load64 (mem s2) a)) (\<lambda>p.
                  if p = page then ret (upd_page page (\<lambda>q. q\<lparr>page_ref := page_ref q - 1\<rparr>) s2)
                  else del_page gpt addr s2)
              else ret s2) (\<lambda>s3.
           bind_exec (page2ppn page) (\<lambda>ppn.
             ret (0, store_pte a (ppn2pte ppn (ucast PTE_V OR flags)) s3))))"

definition alloc_page_gpte :: "u64 \<Rightarrow> u64 \<Rightarrow> u32 \<Rightarrow> 'z sched_scheme \<Rightarrow> (nat option \<times> 'z sched_scheme) exec" where
  "alloc_page_gpte gpt addr flags s =
     bind_exec (alloc_page s) (\<lambda>(page, s1).
       case page of
         None \<Rightarrow> ret (None, s1)
       | Some p \<Rightarrow>
           bind_exec (add_page gpt p addr flags s1) (\<lambda>(err, s2).
             if err \<noteq> 0 then bind_exec (free_page p s2) (\<lambda>s3. ret (None, s3))
             else if swap_init_flag s2 then
               (case test_vmm s2 of
                  None \<Rightarrow> ret (Some p, s2)
                | Some vmm \<Rightarrow>
                    bind_exec (swap_set_swappable vmm p s2) (\<lambda>s3.
                      let s4 = upd_page p (\<lambda>q. q\<lparr>page_pra_addr := addr\<rparr>) s3
                      in assert_then (page_ref (pages s4 p) = 1) (ret (Some p, s4))))
             else ret (Some p, s2)))"

text \<open>\<open>swap_in\<close> of \<open>kernel/mm/swap.c\<close>: the page read from the disk; the caller maps it.\<close>

definition swap_in :: "u64 \<Rightarrow> u64 \<Rightarrow> 'z sched_scheme \<Rightarrow> (nat \<times> 'z sched_scheme) exec" where
  "swap_in vmm addr s =
     bind_exec (alloc_page s) (\<lambda>(page, s1).
       case page of
         None \<Rightarrow> panic
       | Some p \<Rightarrow>
           bind_exec (get_pte (vmm_gpt (vmms s1 vmm)) addr False s1) (\<lambda>(p_pte, s2).
             case p_pte of
               None \<Rightarrow> null_deref
             | Some a \<Rightarrow>
                 assert_then (load64 (mem s2) a AND PTE_V = 0)
                   (bind_exec (swap_offset (load64 (mem s2) a)) (\<lambda>_.
                    bind_exec (read_swap_ide (load64 (mem s2) a) p s2) (\<lambda>s3. ret (p, s3))))))"

section \<open>Ranges\<close>

text \<open>The \<open>do ... while (start && start < end)\<close> loops; \<open>continue\<close> goes on to the test.\<close>

partial_function (option) del_range_loop :: "u64 \<Rightarrow> u64 \<Rightarrow> u64 \<Rightarrow> 'z sched_scheme \<Rightarrow> 'z sched_scheme exec" where
  "del_range_loop gpt start fin s =
     bind_exec (get_pte gpt start False s) (\<lambda>(p_pte, s1).
     bind_exec
       (case p_pte of
          None \<Rightarrow> ret (rounddown (start + PT_SIZE) PT_SIZE, s1)
        | Some a \<Rightarrow>
            bind_exec (if load64 (mem s1) a \<noteq> 0 then del_page gpt start s1 else ret s1) (\<lambda>s2.
              ret (start + PAGE_SIZE, s2))) (\<lambda>(start', s2).
       if start' \<noteq> 0 \<and> start' < fin then del_range_loop gpt start' fin s2 else ret s2))"

definition del_range :: "u64 \<Rightarrow> u64 \<Rightarrow> u64 \<Rightarrow> 'z sched_scheme \<Rightarrow> 'z sched_scheme exec" where
  "del_range gpt start fin s =
     assert_then (start mod PAGE_SIZE = 0 \<and> fin mod PAGE_SIZE = 0)
       (assert_then (user_access start fin) (del_range_loop gpt start fin s))"

partial_function (option) free_range_loop :: "u64 \<Rightarrow> u64 \<Rightarrow> u64 \<Rightarrow> 'z sched_scheme \<Rightarrow> 'z sched_scheme exec" where
  "free_range_loop gpt start fin s =
     (let e = entry_at gpt (get_gptx start) in
      bind_exec
        (if load64 (mem s) e AND PTE_V \<noteq> 0 then
           bind_exec (pte2page (load64 (mem s) e)) (\<lambda>page.
           bind_exec (free_page page s) (\<lambda>s1. ret (store_pte e 0 s1)))
         else ret s) (\<lambda>s1.
        let start' = start + PT_SIZE in
        if start' \<noteq> 0 \<and> start' < fin then free_range_loop gpt start' fin s1 else ret s1))"

definition free_range :: "u64 \<Rightarrow> u64 \<Rightarrow> u64 \<Rightarrow> 'z sched_scheme \<Rightarrow> 'z sched_scheme exec" where
  "free_range gpt start fin s =
     assert_then (start mod PAGE_SIZE = 0 \<and> fin mod PAGE_SIZE = 0)
       (assert_then (user_access start fin)
         (free_range_loop gpt (rounddown start PAGE_SIZE) fin s))"

text \<open>The body of \<open>copy_range\<close> for one valid entry at address \<open>a\<close>.\<close>

definition copy_one :: "u64 \<Rightarrow> u64 \<Rightarrow> u64 \<Rightarrow> 'z sched_scheme \<Rightarrow> (int \<times> 'z sched_scheme) exec" where
  "copy_one to start a s =
     bind_exec (get_pte to start True s) (\<lambda>(p_to, s1).
       if p_to = None then ret (- E_NO_MEM, s1)
       else
         let flags = ucast (load64 (mem s1) a AND PTE_USER) in
         bind_exec (pte2page (load64 (mem s1) a)) (\<lambda>page.
         bind_exec (alloc_page s1) (\<lambda>(new_page, s2).
           case new_page of
             None \<Rightarrow> panic
           | Some np \<Rightarrow>
               bind_exec (page2va np) (\<lambda>dst.
               bind_exec (page2va page) (\<lambda>src.
                 add_page to np start flags (s2\<lparr>mem := memcpy (mem s2) dst src PAGE_SIZE\<rparr>))))))"

partial_function (option) copy_range_loop ::
  "u64 \<Rightarrow> u64 \<Rightarrow> u64 \<Rightarrow> u64 \<Rightarrow> 'z sched_scheme \<Rightarrow> (int \<times> 'z sched_scheme) exec" where
  "copy_range_loop from to start fin s =
     bind_exec (get_pte from start False s) (\<lambda>(p_pte, s1).
     bind_exec
       (case p_pte of
          None \<Rightarrow> ret (0, rounddown (start + PT_SIZE) PT_SIZE, s1)
        | Some a \<Rightarrow>
            bind_exec (if load64 (mem s1) a AND PTE_V \<noteq> 0 then copy_one to start a s1 else ret (0, s1)) (\<lambda>(err, s2).
              ret (err, start + PAGE_SIZE, s2))) (\<lambda>(err, start', s2).
       if err \<noteq> 0 then ret (err, s2)
       else if start' \<noteq> 0 \<and> start' < fin then copy_range_loop from to start' fin s2 else ret (0, s2)))"

definition copy_range :: "u64 \<Rightarrow> u64 \<Rightarrow> u64 \<Rightarrow> u64 \<Rightarrow> 'z sched_scheme \<Rightarrow> (int \<times> 'z sched_scheme) exec" where
  "copy_range from to start fin s =
     assert_then (start mod PAGE_SIZE = 0 \<and> fin mod PAGE_SIZE = 0)
       (assert_then (user_access start fin) (copy_range_loop from to start fin s))"

section \<open>The software walk of the MMU\<close>

text \<open>\<open>va2pa_mmu\<close> without its output; a null table is address 0.\<close>

definition va2pa_mmu :: "u64 \<Rightarrow> u64 \<Rightarrow> 'z sched_scheme \<Rightarrow> u64 exec" where
  "va2pa_mmu gpt va s =
     (if gpt = 0 then ret 0
      else
        let vpn2 = get_gptx va; vpn1 = get_mptx va; vpn0 = get_ptx va; offset = get_offset va in
        bind_exec (va2page gpt) (\<lambda>gpt_page.
        bind_exec (page2pa gpt_page) (\<lambda>gpt_pa.
          if vpn2 \<ge> PT_SIZE then ret 0
          else
            let gpte = load64 (mem s) (entry_at gpt vpn2) in
            if gpte AND PTE_V = 0 then ret 0
            else bind_exec (pa2va (push_bit PAGE_SHIFT (pte2ppn gpte))) (\<lambda>p_mpt.
              if vpn1 \<ge> PT_SIZE then ret 0
              else
                let mpte = load64 (mem s) (entry_at p_mpt vpn1) in
                if mpte AND PTE_V = 0 then ret 0
                else bind_exec (pa2va (push_bit PAGE_SHIFT (pte2ppn mpte))) (\<lambda>p_pt.
                  if vpn0 \<ge> PT_SIZE then ret 0
                  else
                    let pte = load64 (mem s) (entry_at p_pt vpn0) in
                    if pte AND PTE_V = 0 then ret 0
                    else ret (push_bit PAGE_SHIFT (pte2ppn pte) OR offset))))))"

end
