(* ===== verification/Page_Map.thy ===== *)
theory Page_Map
  imports Kmem
begin

text \<open>
  Three-level page tables as a structure of their own: a store of tables \<open>E\<close> gives the entry of
  each page at each index, and \<open>pmap E g\<close> is the map from user virtual pages (triples of indices) to
  entries that the table with root \<open>g\<close> stands for. The lemmas say what a new table, a changed leaf
  and an unrelated write do to that map; the last section relates the store of tables to the byte
  memory.

  The user addresses, below \<open>USER_END\<close>, are the first two gigabytes, the entries 0 and 1 of a root table. The
  other entries of every root table come from the boot table of \<open>entry.S\<close>, which holds the two gigapages of the
  kernel there; no operation on user addresses reads them, and the invariant says nothing of them.
\<close>

unbundle bit_operations_syntax

section \<open>Tables and the map they stand for\<close>

type_synonym table_store = "nat \<Rightarrow> u64 \<Rightarrow> u64"
type_synonym vpage = "u64 \<times> u64 \<times> u64"

definition pte_valid :: "u64 \<Rightarrow> bool" where
  "pte_valid e \<longleftrightarrow> e AND PTE_V \<noteq> 0"

definition pte_page :: "u64 \<Rightarrow> nat" where
  "pte_page e = unat (pte2ppn e)"

definition vpn :: "u64 \<Rightarrow> vpage" where
  "vpn va = (get_gptx va, get_mptx va, get_ptx va)"

definition vpages :: "vpage set" where
  "vpages = {i. i < 2} \<times> {i. i < 512} \<times> {i. i < 512}"

text \<open>The table of the middle level and the leaf table of a virtual page, if they exist.\<close>

definition mid_table :: "table_store \<Rightarrow> nat \<Rightarrow> u64 \<Rightarrow> nat option" where
  "mid_table E g i = (if pte_valid (E g i) then Some (pte_page (E g i)) else None)"

definition leaf_table :: "table_store \<Rightarrow> nat \<Rightarrow> u64 \<Rightarrow> u64 \<Rightarrow> nat option" where
  "leaf_table E g i j = (case mid_table E g i of None \<Rightarrow> None | Some p \<Rightarrow> mid_table E p j)"

definition pmap :: "table_store \<Rightarrow> nat \<Rightarrow> vpage \<Rightarrow> u64" where
  "pmap E g t = (case t of (i, j, k) \<Rightarrow> case leaf_table E g i j of None \<Rightarrow> 0 | Some p \<Rightarrow> E p k)"

definition mids :: "table_store \<Rightarrow> nat \<Rightarrow> nat set" where
  "mids E g = {p. \<exists>i < 2. mid_table E g i = Some p}"

definition leaves :: "table_store \<Rightarrow> nat \<Rightarrow> nat set" where
  "leaves E g = {p. \<exists>i < 2. \<exists>j < 512. leaf_table E g i j = Some p}"

definition tables :: "table_store \<Rightarrow> nat \<Rightarrow> nat set" where
  "tables E g = insert g (mids E g \<union> leaves E g)"

text \<open>The tables form a tree: no table has two entries pointing to it.\<close>

definition tree_ok :: "table_store \<Rightarrow> nat \<Rightarrow> bool" where
  "tree_ok E g \<longleftrightarrow>
     (\<forall>i < 2. \<forall>i' < 2. \<forall>p. mid_table E g i = Some p \<longrightarrow> mid_table E g i' = Some p \<longrightarrow> i = i') \<and>
     (\<forall>i < 2. \<forall>j < 512. \<forall>i' < 2. \<forall>j' < 512. \<forall>p.
        leaf_table E g i j = Some p \<longrightarrow> leaf_table E g i' j' = Some p \<longrightarrow> i = i' \<and> j = j') \<and>
     g \<notin> mids E g \<and> g \<notin> leaves E g \<and> mids E g \<inter> leaves E g = {}"

lemma tree_okD:
  assumes "tree_ok E g"
  shows "i < 2 \<Longrightarrow> i' < 2 \<Longrightarrow> mid_table E g i = Some p \<Longrightarrow> mid_table E g i' = Some p \<Longrightarrow> i = i'"
    and "i < 2 \<Longrightarrow> j < 512 \<Longrightarrow> i' < 2 \<Longrightarrow> j' < 512 \<Longrightarrow> leaf_table E g i j = Some p \<Longrightarrow>
      leaf_table E g i' j' = Some p \<Longrightarrow> i = i' \<and> j = j'"
    and "g \<notin> mids E g" "g \<notin> leaves E g" "p \<in> mids E g \<Longrightarrow> p \<notin> leaves E g"
  using assms unfolding tree_ok_def by blast+

lemma midsI: "i < 2 \<Longrightarrow> mid_table E g i = Some p \<Longrightarrow> p \<in> mids E g"
  by (auto simp: mids_def)

lemma leavesI: "i < 2 \<Longrightarrow> j < 512 \<Longrightarrow> leaf_table E g i j = Some p \<Longrightarrow> p \<in> leaves E g"
  by (auto simp: leaves_def)

text \<open>The indices of an address, and the user addresses.\<close>

lemma vpn_index: "get_gptx va < 512" "get_mptx va < 512" "get_ptx va < 512"
proof -
  have "(w AND 0x1FF) < (512 :: u64)" for w
    using word_and_le1 [of w "0x1FF"] by (simp add: word_le_nat_alt word_less_nat_alt)
  then show "get_gptx va < 512" "get_mptx va < 512" "get_ptx va < 512"
    by (simp_all add: get_gptx_def get_mptx_def get_ptx_def)
qed

lemma user_root_index:
  assumes "va < USER_END"
  shows "get_gptx va < 2"
proof -
  have "unat va < 2 * 2 ^ 30"
    using assms by (simp add: word_less_nat_alt USER_END_def)
  then have "unat va div 2 ^ 30 < 2"
    by (rule less_mult_imp_div_less)
  then have "unat (drop_bit 30 va) < 2"
    by (simp add: drop_bit_eq_div unat_div)
  then have d: "drop_bit 30 va < 2"
    by (simp add: word_less_nat_alt)
  have "(drop_bit 30 va AND 0x1FF) < 2"
    using le_less_trans [OF word_and_le2 d] .
  then show ?thesis
    by (simp add: get_gptx_def const_defs)
qed

lemma vpn_range: "va < USER_END \<Longrightarrow> vpn va \<in> vpages"
  using user_root_index [of va] vpn_index by (simp add: vpn_def vpages_def)

lemma user_index: "i < 2 \<Longrightarrow> i < (512 :: u64)"
  by (erule less_trans) simp

lemma finite_vpages [simp]: "finite vpages"
  by (simp add: vpages_def)

section \<open>Writing an entry of a leaf table\<close>

abbreviation set_entry :: "table_store \<Rightarrow> nat \<Rightarrow> u64 \<Rightarrow> u64 \<Rightarrow> table_store" where
  "set_entry E p i v \<equiv> E(p := (E p)(i := v))"

lemma set_leaf_tables:
  assumes ok: "tree_ok E g" and p: "p \<in> leaves E g" and i: "i < 2"
  shows "mid_table (set_entry E p k v) g i = mid_table E g i"
    "leaf_table (set_entry E p k v) g i j = leaf_table E g i j"
proof -
  have g: "p \<noteq> g"
    using tree_okD(4) [OF ok] p by auto
  then show m: "mid_table (set_entry E p k v) g i = mid_table E g i"
    by (simp add: mid_table_def)
  have "q \<noteq> p" if "mid_table E g i = Some q" for q
    using tree_okD(5) [OF ok midsI [OF i that]] p by auto
  then show "leaf_table (set_entry E p k v) g i j = leaf_table E g i j"
    unfolding leaf_table_def m by (auto simp: mid_table_def split: option.splits)
qed

lemma tree_ok_cong:
  assumes "\<And>i. i < 2 \<Longrightarrow> mid_table E' g i = mid_table E g i"
    and "\<And>i j. i < 2 \<Longrightarrow> j < 512 \<Longrightarrow> leaf_table E' g i j = leaf_table E g i j"
  shows "tree_ok E' g = tree_ok E g" "mids E' g = mids E g" "leaves E' g = leaves E g" "tables E' g = tables E g"
proof -
  show m: "mids E' g = mids E g" and l: "leaves E' g = leaves E g"
    using assms by (auto simp: mids_def leaves_def) (metis assms(2))+
  show "tables E' g = tables E g"
    by (simp add: tables_def m l)
  show "tree_ok E' g = tree_ok E g"
    unfolding tree_ok_def m l by (simp add: assms)
qed

lemma set_leaf:
  assumes ok: "tree_ok E g" and t: "t = (i, j, k)" "t \<in> vpages" and p: "leaf_table E g i j = Some p"
  shows "tree_ok (set_entry E p k v) g" "tables (set_entry E p k v) g = tables E g"
    "u \<in> vpages \<Longrightarrow> pmap (set_entry E p k v) g u = (if u = t then v else pmap E g u)"
proof -
  have b: "i < 2" "j < 512" "k < 512"
    using t by (auto simp: vpages_def)
  have pl: "p \<in> leaves E g"
    using leavesI [OF b(1,2) p] .
  note same = set_leaf_tables [OF ok pl]
  show "tree_ok (set_entry E p k v) g" "tables (set_entry E p k v) g = tables E g"
    using tree_ok_cong [of "set_entry E p k v" g E, OF same(1) same(2)] ok by auto
  show "pmap (set_entry E p k v) g u = (if u = t then v else pmap E g u)" if u: "u \<in> vpages"
  proof -
    obtain i' j' k' where uk: "u = (i', j', k')" "i' < 2" "j' < 512" "k' < 512"
      using u by (auto simp: vpages_def)
    have l: "leaf_table (set_entry E p k v) g i' j' = leaf_table E g i' j'"
      using same(2) uk by blast
    show ?thesis
    proof (cases "leaf_table E g i' j' = Some p")
      case True
      then have "i' = i \<and> j' = j"
        using tree_okD(2) [OF ok uk(2,3) b(1,2) True p] by simp
      then show ?thesis
        using True uk t l by (auto simp: pmap_def)
    next
      case False
      then have "u \<noteq> t"
        using p uk t by auto
      then show ?thesis
        using False uk l by (auto simp: pmap_def split: option.splits)
    qed
  qed
qed

section \<open>New tables\<close>

text \<open>A fresh page \<open>q\<close>, all of its entries zero, becomes a table.\<close>

lemma pte_valid_0 [simp]: "\<not> pte_valid 0"
  by (simp add: pte_valid_def)

lemma new_mid:
  assumes ok: "tree_ok E g" and q: "q \<notin> tables E g" and i: "i < 2" "\<not> pte_valid (E g i)"
    and z: "\<And>j. E' q j = 0" and same: "\<And>p. p \<noteq> q \<Longrightarrow> p \<noteq> g \<Longrightarrow> E' p = E p" and g: "E' g = (E g)(i := v)"
    and v: "pte_valid v" "pte_page v = q"
  shows "tree_ok E' g" "tables E' g = insert q (tables E g)" "t \<in> vpages \<Longrightarrow> pmap E' g t = pmap E g t"
proof -
  have qg: "q \<noteq> g" "q \<notin> mids E g" "q \<notin> leaves E g"
    using q by (auto simp: tables_def)
  have m: "mid_table E' g i' = (if i' = i then Some q else mid_table E g i')" for i'
    using v by (simp add: mid_table_def g)
  have pm: "p \<noteq> q" "p \<noteq> g" if "mid_table E g i' = Some p" "i' < 2" for p i'
    using midsI [OF that(2,1)] qg tree_okD(3) [OF ok] by auto
  have l: "leaf_table E' g i' j = (if i' = i then None else leaf_table E g i' j)" if "i' < 2" for i' j
  proof (cases "mid_table E g i'")
    case None
    have "mid_table E' q j = None"
      by (simp add: mid_table_def z)
    then show ?thesis
      using None by (simp add: leaf_table_def m)
  next
    case (Some p)
    then have "E' p = E p" "i' \<noteq> i"
      using pm [OF Some that] same i(2) by (auto simp: mid_table_def split: if_splits)
    then show ?thesis
      using Some by (simp add: leaf_table_def m mid_table_def [of _ p])
  qed
  have no: "leaf_table E g i j = None" for j
    using i(2) by (simp add: leaf_table_def mid_table_def)
  have l': "leaf_table E' g i' j = leaf_table E g i' j" if "i' < 2" for i' j
    using l [OF that] no by simp
  have ms: "mids E' g = insert q (mids E g)"
  proof -
    have "mid_table E g i = None"
      using i(2) by (simp add: mid_table_def)
    then show ?thesis
      unfolding mids_def m using i(1) by (auto split: if_splits) (metis option.distinct(1))+
  qed
  have ls: "leaves E' g = leaves E g"
    by (auto simp: leaves_def) (metis l')+
  show "tables E' g = insert q (tables E g)"
    by (auto simp: tables_def ms ls)
  show "tree_ok E' g"
    unfolding tree_ok_def
  proof (intro conjI)
    show "\<forall>i<2. \<forall>i'<2. \<forall>p. mid_table E' g i = Some p \<longrightarrow> mid_table E' g i' = Some p \<longrightarrow> i = i'"
      using tree_okD(1) [OF ok] pm unfolding m by (metis option.inject)
    show "\<forall>i<2. \<forall>j<512. \<forall>i'<2. \<forall>j'<512. \<forall>p. leaf_table E' g i j = Some p \<longrightarrow> leaf_table E' g i' j' = Some p \<longrightarrow> i = i' \<and> j = j'"
      using tree_okD(2) [OF ok] l' by metis
    show "g \<notin> mids E' g" "g \<notin> leaves E' g" "mids E' g \<inter> leaves E' g = {}"
      using tree_okD(3-5) [OF ok] qg by (auto simp: ms ls)
  qed
  show "pmap E' g t = pmap E g t" if t: "t \<in> vpages"
  proof -
    obtain i' j' k' where tk: "t = (i', j', k')" "i' < 2" "j' < 512"
      using t by (auto simp: vpages_def)
    have "E' p = E p" if "leaf_table E g i' j' = Some p" for p
      using leavesI [OF tk(2,3) that] qg tree_okD(4) [OF ok] by (intro same) auto
    then show ?thesis
      using tk l' [OF tk(2)] by (auto simp: pmap_def split: option.splits)
  qed
qed

lemma new_leaf:
  assumes ok: "tree_ok E g" and q: "q \<notin> tables E g" and i: "i < 2" "j < 512"
    and p: "mid_table E g i = Some p" "\<not> pte_valid (E p j)"
    and z: "\<And>k. E' q k = 0" and same: "\<And>r. r \<noteq> q \<Longrightarrow> r \<noteq> p \<Longrightarrow> E' r = E r" and up: "E' p = (E p)(j := v)"
    and v: "pte_valid v" "pte_page v = q"
  shows "tree_ok E' g" "tables E' g = insert q (tables E g)" "t \<in> vpages \<Longrightarrow> pmap E' g t = pmap E g t"
proof -
  have qg: "q \<noteq> g" "q \<notin> mids E g" "q \<notin> leaves E g"
    using q by (auto simp: tables_def)
  have pm: "p \<in> mids E g"
    using midsI [OF i(1) p(1)] .
  have pg: "p \<noteq> g" "p \<noteq> q" "p \<notin> leaves E g"
    using tree_okD(3,5) [OF ok] pm qg by auto
  have g: "E' g = E g"
    using same [of g] pg qg by auto
  have m: "mid_table E' g i' = mid_table E g i'" for i'
    by (simp add: mid_table_def g)
  have l: "leaf_table E' g i' j' = (if i' = i \<and> j' = j then Some q else leaf_table E g i' j')" if "i' < 2" for i' j'
  proof (cases "mid_table E g i'")
    case None
    then show ?thesis
      using p(1) by (auto simp: leaf_table_def m)
  next
    case (Some r)
    show ?thesis
    proof (cases "r = p")
      case True
      then have "i' = i"
        using tree_okD(1) [OF ok that i(1)] Some p(1) by simp
      then show ?thesis
        using p v by (simp add: leaf_table_def m mid_table_def [of E' p] mid_table_def [of E p] up)
    next
      case False
      moreover have "r \<noteq> q"
        using midsI [OF that Some] qg by auto
      moreover have "i' \<noteq> i"
        using False Some p(1) by auto
      ultimately show ?thesis
        using Some same [of r] by (simp add: leaf_table_def m mid_table_def [of _ r])
    qed
  qed
  have ms: "mids E' g = mids E g"
    by (simp add: mids_def m)
  have no: "leaf_table E g i j = None"
    using p by (simp add: leaf_table_def mid_table_def [of E p])
  have ls: "leaves E' g = insert q (leaves E g)"
  proof (intro set_eqI iffI)
    fix x
    assume "x \<in> leaves E' g"
    then obtain i' j' where x: "i' < 2" "j' < 512" "leaf_table E' g i' j' = Some x"
      by (auto simp: leaves_def)
    then show "x \<in> insert q (leaves E g)"
      using l [OF x(1), of j'] leavesI [OF x(1,2), of E g x] by (auto split: if_splits)
  next
    fix x
    assume "x \<in> insert q (leaves E g)"
    then consider "x = q" | i' j' where "i' < 2" "j' < 512" "leaf_table E g i' j' = Some x"
      by (auto simp: leaves_def)
    then show "x \<in> leaves E' g"
    proof cases
      case 1
      then show ?thesis
        using l [OF i(1), of j] leavesI [OF i, of E' g q] by simp
    next
      case 2
      then show ?thesis
        using l [OF 2(1), of j'] no by (intro leavesI [OF 2(1,2)]) auto
    qed
  qed
  show "tables E' g = insert q (tables E g)"
    by (auto simp: tables_def ms ls)
  have qn: "leaf_table E g i' j' \<noteq> Some q" if "i' < 2" "j' < 512" for i' j'
    using leavesI [OF that] qg(3) by blast
  show "tree_ok E' g"
    unfolding tree_ok_def
  proof (intro conjI)
    show "\<forall>i<2. \<forall>i'<2. \<forall>p. mid_table E' g i = Some p \<longrightarrow> mid_table E' g i' = Some p \<longrightarrow> i = i'"
      using tree_okD(1) [OF ok] unfolding m by metis
    show "\<forall>i<2. \<forall>j<512. \<forall>i'<2. \<forall>j'<512. \<forall>p. leaf_table E' g i j = Some p \<longrightarrow> leaf_table E' g i' j' = Some p \<longrightarrow> i = i' \<and> j = j'"
    proof (intro allI impI)
      fix a b a' b' x
      assume *: "a < 2" "b < 512" "a' < 2" "b' < 512" "leaf_table E' g a b = Some x" "leaf_table E' g a' b' = Some x"
      show "a = a' \<and> b = b'"
        using l [OF *(1), of b] l [OF *(3), of b'] *(5,6) qn [OF *(1,2)] qn [OF *(3,4)] tree_okD(2) [OF ok *(1-4), of x]
        by (auto split: if_splits)
    qed
    show "g \<notin> mids E' g" "g \<notin> leaves E' g" "mids E' g \<inter> leaves E' g = {}"
      using tree_okD(3-5) [OF ok] qg by (auto simp: ms ls)
  qed
  show "pmap E' g t = pmap E g t" if t: "t \<in> vpages"
  proof -
    obtain i' j' k' where tk: "t = (i', j', k')" "i' < 2" "j' < 512"
      using t by (auto simp: vpages_def)
    have "E' r = E r" if r: "leaf_table E g i' j' = Some r" for r
    proof -
      have "r \<in> leaves E g"
        using leavesI [OF tk(2,3) r] .
      then show ?thesis
        using qg pg by (intro same) auto
    qed
    then show ?thesis
      using tk l [OF tk(2), of j'] no z by (auto simp: pmap_def split: option.splits)
  qed
qed

text \<open>A write outside the tables changes nothing.\<close>

lemma tables_frame:
  assumes same: "\<And>p. p \<in> tables E g \<Longrightarrow> E' p = E p"
  shows "tree_ok E' g = tree_ok E g" "tables E' g = tables E g" "t \<in> vpages \<Longrightarrow> pmap E' g t = pmap E g t"
proof -
  have m: "mid_table E' g i = mid_table E g i" for i
    using same [of g] by (simp add: mid_table_def tables_def)
  have l: "leaf_table E' g i j = leaf_table E g i j" if "i < 2" for i j
  proof (cases "mid_table E g i")
    case (Some p)
    then have "E' p = E p"
      using midsI [OF that Some] by (intro same) (simp add: tables_def)
    then show ?thesis
      using Some by (simp add: leaf_table_def m mid_table_def [of _ p])
  qed (simp add: leaf_table_def m)
  show "tree_ok E' g = tree_ok E g" "tables E' g = tables E g"
    using tree_ok_cong [of E' g E, OF m l] by simp_all
  show "pmap E' g t = pmap E g t" if t: "t \<in> vpages"
  proof -
    obtain i' j' k' where tk: "t = (i', j', k')" "i' < 2" "j' < 512"
      using t by (auto simp: vpages_def)
    have "E' p = E p" if "leaf_table E g i' j' = Some p" for p
      using leavesI [OF tk(2,3) that] by (intro same) (simp add: tables_def)
    then show ?thesis
      using tk l [OF tk(2)] by (auto simp: pmap_def split: option.splits)
  qed
qed

text \<open>Nor does a write to an entry of the root that no user address has.\<close>

lemma set_root_high:
  assumes ok: "tree_ok E g" and i: "2 \<le> i"
  shows "tree_ok (set_entry E g i v) g" "tables (set_entry E g i v) g = tables E g"
    "t \<in> vpages \<Longrightarrow> pmap (set_entry E g i v) g t = pmap E g t"
proof -
  have m: "mid_table (set_entry E g i v) g k = mid_table E g k" if "k < 2" for k
    using that i by (auto simp: mid_table_def)
  have l: "leaf_table (set_entry E g i v) g k j = leaf_table E g k j" if "k < 2" for k j
  proof (cases "mid_table E g k")
    case (Some p)
    then have "p \<noteq> g"
      using midsI [OF that Some] tree_okD(3) [OF ok] by auto
    then show ?thesis
      using Some by (simp add: leaf_table_def m [OF that]) (simp add: mid_table_def)
  qed (simp add: leaf_table_def m [OF that])
  show "tree_ok (set_entry E g i v) g" "tables (set_entry E g i v) g = tables E g"
    using tree_ok_cong [of "set_entry E g i v" g E, OF m l] ok by simp_all
  show "pmap (set_entry E g i v) g t = pmap E g t" if t: "t \<in> vpages"
  proof -
    obtain i' j' k' where tk: "t = (i', j', k')" "i' < 2" "j' < 512"
      using t by (auto simp: vpages_def)
    have "p \<noteq> g" if "leaf_table E g i' j' = Some p" for p
      using leavesI [OF tk(2,3) that] tree_okD(4) [OF ok] by auto
    then show ?thesis
      using tk l [OF tk(2)] by (auto simp: pmap_def split: option.splits)
  qed
qed

section \<open>The boot table\<close>

text \<open>\<open>boot_page_table_sv39\<close> of \<open>entry.S\<close>: two entries for the gigapage at \<open>0x80000000\<close>, at its own address and at
  the start of the kernel's addresses.\<close>

definition GIGAPAGE :: u64 where
  "GIGAPAGE = push_bit 10 0x80000 OR 0xCF"

definition boot_page_table_sv39 :: "u64 \<Rightarrow> u64" where
  "boot_page_table_sv39 i = (if i = 2 \<or> i = 510 then GIGAPAGE else 0)"

text \<open>A table without user addresses, as the boot table and every new copy of it is.\<close>

lemma boot_tables:
  assumes "\<And>i. i < 2 \<Longrightarrow> \<not> pte_valid (E g i)"
  shows "tree_ok E g" "tables E g = {g}" "t \<in> vpages \<Longrightarrow> pmap E g t = 0"
proof -
  have m: "mid_table E g i = None" "leaf_table E g i j = None" if "i < 2" for i j
    using assms [OF that] by (simp_all add: mid_table_def leaf_table_def)
  show "tree_ok E g" "tables E g = {g}"
    using m by (auto simp: tree_ok_def tables_def mids_def leaves_def)
  show "t \<in> vpages \<Longrightarrow> pmap E g t = 0"
    using m by (auto simp: pmap_def vpages_def)
qed

section \<open>Tables in memory\<close>

definition dram_page :: "nat \<Rightarrow> bool" where
  "dram_page p \<longleftrightarrow> 0x80000 < p \<and> p < 0x88000"

definition page_va :: "nat \<Rightarrow> u64" where
  "page_va p = push_bit PAGE_SHIFT (of_nat p) + VA_PA_OFFSET"

definition ents :: "bytes \<Rightarrow> table_store" where
  "ents m p i = (if dram_page p \<and> i < 512 then load64 m (entry_at (page_va p) i) else 0)"

lemma push_page: "p < 2 ^ 52 \<Longrightarrow> unat (push_bit 12 (of_nat p :: u64)) = p * 4096"
proof -
  assume p: "p < 2 ^ 52"
  have "push_bit 12 (of_nat p :: u64) = of_nat (p * 4096)"
    by (simp add: push_bit_eq_mult)
  then show ?thesis
    using p unat_of_nat_u64 [of "p * 4096"] by simp
qed

lemma unat_page_va:
  assumes "dram_page p"
  shows "unat (page_va p) = p * 4096 + 0xFFFFFFFF00000000"
proof -
  have p: "p < 0x88000"
    using assms by (simp add: dram_page_def)
  then have "unat (push_bit 12 (of_nat p :: u64)) = p * 4096"
    by (intro push_page) simp
  then show ?thesis
    using p by (simp add: page_va_def PAGE_SHIFT_def VA_PA_OFFSET_def unat_word_ariths)
qed

lemma page_va_inj: "dram_page p \<Longrightarrow> dram_page q \<Longrightarrow> page_va p = page_va q \<longleftrightarrow> p = q"
  by (metis add_right_cancel mult_right_cancel unat_page_va zero_neq_numeral)

lemma page_regions:
  assumes "dram_page p" "dram_page q" "p \<noteq> q"
  shows "region (page_va p) 4096 \<inter> region (page_va q) 4096 = {}"
  using assms page_va_inj [OF assms(1,2)] by (intro region_aligned) (auto simp: unat_page_va)

lemma unat_entry:
  assumes "dram_page p" "i < 512"
  shows "unat (entry_at (page_va p) i) = unat (page_va p) + 8 * unat i"
proof -
  have i: "unat i < 512"
    using assms(2) by (simp add: word_less_nat_alt)
  moreover have "p < 0x88000"
    using assms(1) by (simp add: dram_page_def)
  ultimately show ?thesis
    by (simp add: entry_at_def unat_word_ariths unat_page_va [OF assms(1)])
qed

lemma entry_aligned: "dram_page p \<Longrightarrow> i < 512 \<Longrightarrow> unat (entry_at (page_va p) i) mod 8 = 0"
  by (simp add: unat_entry unat_page_va)

lemma entry_inj:
  assumes "dram_page p" "i < 512" "dram_page q" "j < 512"
  shows "entry_at (page_va p) i = entry_at (page_va q) j \<longleftrightarrow> p = q \<and> i = j"
proof
  assume eq: "entry_at (page_va p) i = entry_at (page_va q) j"
  have b: "unat i < 512" "unat j < 512"
    using assms by (simp_all add: word_less_nat_alt)
  have "p * 4096 + 8 * unat i = q * 4096 + 8 * unat j"
    using arg_cong [OF eq, of unat] assms by (simp add: unat_entry unat_page_va)
  then have e: "p * 512 + unat i = q * 512 + unat j"
    by linarith
  have d: "(p * 512 + unat i) div 512 = p" "(q * 512 + unat j) div 512 = q"
    using b by simp_all
  have "p = q"
    using d unfolding e by simp
  moreover from this e have "unat i = unat j"
    by simp
  ultimately show "p = q \<and> i = j"
    by (simp add: word_unat_eq_iff)
qed simp

lemma entry_region:
  assumes "dram_page p" "i < 512"
  shows "region (entry_at (page_va p) i) 8 \<subseteq> region (page_va p) 4096"
proof
  fix x
  assume x: "x \<in> region (entry_at (page_va p) i) 8"
  have i: "unat i < 512"
    using assms(2) by (simp add: word_less_nat_alt)
  define d where "d = x - entry_at (page_va p) i"
  have xd: "x - page_va p = d + 8 * i"
    by (simp add: entry_at_def d_def)
  have "unat d < 8" "unat (8 * i) = 8 * unat i"
    using x i by (simp_all add: region_def unat_word_ariths d_def)
  then have "unat (x - page_va p) < 4096"
    unfolding xd using i by (simp add: unat_word_ariths)
  then show "x \<in> region (page_va p) 4096"
    by (simp add: region_def)
qed

lemma ents_store:
  assumes "dram_page p" "i < 512"
  shows "ents (store64 m (entry_at (page_va p) i) v) = set_entry (ents m) p i v"
proof (intro ext)
  fix q j
  show "ents (store64 m (entry_at (page_va p) i) v) q j = set_entry (ents m) p i v q j"
  proof (cases "dram_page q \<and> j < 512")
    case True
    show ?thesis
    proof (cases "q = p \<and> j = i")
      case same: True
      then show ?thesis
        using assms by (simp add: ents_def)
    next
      case other: False
      then have "entry_at (page_va p) i \<noteq> entry_at (page_va q) j"
        using entry_inj [of p i q j] assms True by auto
      then have "load64 (store64 m (entry_at (page_va p) i) v) (entry_at (page_va q) j) = load64 m (entry_at (page_va q) j)"
        using assms True by (intro load64_store64_other entry_aligned) auto
      then show ?thesis
        using other True by (auto simp: ents_def)
    qed
  next
    case False
    then show ?thesis
      using assms by (auto simp: ents_def)
  qed
qed

text \<open>The kernel's two entries of the boot table, written into the root \<open>g\<close>.\<close>

definition with_gigapages :: "nat \<Rightarrow> bytes \<Rightarrow> bytes" where
  "with_gigapages g m =
     store64 (store64 m (entry_at (page_va g) 2) GIGAPAGE) (entry_at (page_va g) 510) GIGAPAGE"

lemma ents_with_gigapages:
  "dram_page g \<Longrightarrow> ents (with_gigapages g m) = set_entry (set_entry (ents m) g 2 GIGAPAGE) g 510 GIGAPAGE"
  by (simp add: with_gigapages_def ents_store)

lemma ents_cong_page:
  assumes "\<And>x. x \<in> region (page_va p) 4096 \<Longrightarrow> m' x = m x"
  shows "ents m' p = ents m p"
proof
  fix i
  show "ents m' p i = ents m p i"
  proof (cases "dram_page p \<and> i < 512")
    case True
    then have "load64 m' (entry_at (page_va p) i) = load64 m (entry_at (page_va p) i)"
      using entry_region [of p i] assms by (intro load64_cong) blast
    then show ?thesis
      by (simp add: ents_def)
  qed (auto simp: ents_def)
qed

lemma ents_memset:
  assumes "dram_page q"
  shows "ents (memset m (page_va q) 0 PAGE_SIZE) = (ents m)(q := (\<lambda>_. 0))"
proof (intro ext)
  fix p i
  let ?m = "memset m (page_va q) 0 PAGE_SIZE"
  have m: "?m = (\<lambda>a. if a \<in> region (page_va q) 4096 then 0 else m a)"
    by (simp add: memset_ok PAGE_SIZE_def)
  show "ents ?m p i = ((ents m)(q := (\<lambda>_. 0))) p i"
  proof (cases "p = q")
    case True
    have "load64 ?m (entry_at (page_va q) i) = 0" if "i < 512"
      using entry_region [OF assms that] by (intro load64_zero) (auto simp: m)
    then show ?thesis
      using True by (simp add: ents_def)
  next
    case False
    show ?thesis
    proof (cases "dram_page p")
      case True
      then have "ents ?m p = ents m p"
        using page_regions [OF True assms False] by (intro ents_cong_page) (auto simp: m)
      then show ?thesis
        using False by simp
    qed (use False in \<open>simp add: ents_def\<close>)
  qed
qed

lemma ents_memcpy_other:
  assumes "dram_page q" "dram_page r" "q \<noteq> r" "p \<noteq> q"
  shows "ents (memcpy m (page_va q) (page_va r) PAGE_SIZE) p = ents m p"
proof (cases "dram_page p")
  case True
  have "memcpy m (page_va q) (page_va r) PAGE_SIZE =
      (\<lambda>a. if a \<in> region (page_va q) 4096 then m (page_va r + (a - page_va q)) else m a)"
    using page_regions [OF assms(1-3)] by (subst memcpy_ok) (simp_all add: PAGE_SIZE_def)
  then show ?thesis
    using page_regions [OF True assms(1,4)] by (intro ents_cong_page) auto
qed (simp add: ents_def fun_eq_iff)

lemma ents_memcpy:
  assumes "dram_page q" "dram_page r" "q \<noteq> r"
  shows "ents (memcpy m (page_va q) (page_va r) PAGE_SIZE) q = ents m r"
proof
  fix i
  let ?m = "memcpy m (page_va q) (page_va r) PAGE_SIZE"
  have m: "?m = (\<lambda>a. if a \<in> region (page_va q) 4096 then m (page_va r + (a - page_va q)) else m a)"
    using page_regions [OF assms] by (subst memcpy_ok) (simp_all add: PAGE_SIZE_def)
  show "ents ?m q i = ents m r i"
  proof (cases "i < 512")
    case True
    have "load64 ?m (entry_at (page_va q) i) = load64 m (entry_at (page_va r) i)"
    proof (rule bit_eqI)
      fix n
      show "bit (load64 ?m (entry_at (page_va q) i)) n = bit (load64 m (entry_at (page_va r) i)) n"
      proof (cases "n < 64")
        case n: True
        then have "entry_at (page_va q) i + of_nat (n div 8) \<in> region (entry_at (page_va q) i) 8"
          by (intro region_member) auto
        then have "entry_at (page_va q) i + of_nat (n div 8) \<in> region (page_va q) 4096"
          using entry_region [OF assms(1) True] by blast
        moreover have "entry_at (page_va q) i + of_nat (n div 8) - page_va q = 8 * i + of_nat (n div 8)"
          by (simp add: entry_at_def)
        ultimately show ?thesis
          by (simp add: bit_load64 m) (simp add: entry_at_def add.assoc)
      qed (simp add: bit_load64)
    qed
    then show ?thesis
      using assms True by (simp add: ents_def)
  qed (simp add: ents_def)
qed

lemma page2va_ok:
  assumes "0x82000 \<le> p" "p < 0x88000"
  shows "page2ppn p = ret (of_nat p)" "page2pa p = ret (push_bit PAGE_SHIFT (of_nat p))" "page2va p = ret (page_va p)"
proof -
  have p: "unat (of_nat p :: u64) = p"
    using assms by (intro unat_of_nat_u64) simp
  have "ppn_managed (of_nat p)"
    using assms by (simp add: ppn_managed_def word_le_nat_alt word_less_nat_alt p)
  then show 1: "page2ppn p = ret (of_nat p)"
    by (simp add: page2ppn_def)
  then show 2: "page2pa p = ret (push_bit PAGE_SHIFT (of_nat p))"
    by (simp add: page2pa_def)
  have "unat (push_bit 12 (of_nat p :: u64)) = p * 4096"
    using assms by (intro push_page) simp
  then have "DRAM_BEGIN_PA < push_bit PAGE_SHIFT (of_nat p)" "push_bit PAGE_SHIFT (of_nat p) < DRAM_END_PA"
    using assms by (simp_all add: word_less_nat_alt PAGE_SHIFT_def DRAM_BEGIN_PA_def DRAM_END_PA_def)
  then show "page2va p = ret (page_va p)"
    by (simp add: page2va_def 2 pa2va_def page_va_def)
qed

end
