(* ===== verification/Scheduler_Class.thy ===== *)
theory Scheduler_Class
  imports Proc_State
begin

text \<open>
  The interface \<open>struct scheduler\<close> of \<open>kernel/proc/schedule.h\<close>: the operations of a scheduling
  class and what \<open>kernel/proc/schedule.c\<close> relies on. \<open>queue s\<close> is the set of processes in the
  run queue, \<open>fit s p\<close> says that \<open>p\<close> may be put there, and \<open>invar\<close> is the invariant of the
  class. Picking a process does not remove it: the core scheduler removes it next, and only then
  does the invariant hold again.
\<close>

section \<open>The contract\<close>

locale scheduler_class =
  fixes init :: "'s \<Rightarrow> 's"
    and enqueue :: "pcb_ptr \<Rightarrow> 's \<Rightarrow> 's exec"
    and dequeue :: "pcb_ptr \<Rightarrow> 's \<Rightarrow> 's exec"
    and pick_next :: "'s \<Rightarrow> pcb_ptr option \<times> 's"
    and invar :: "'s \<Rightarrow> bool"
    and queue :: "'s \<Rightarrow> pcb_ptr set"
    and fit :: "'s \<Rightarrow> pcb_ptr \<Rightarrow> bool"
    and best :: "'s \<Rightarrow> pcb_ptr \<Rightarrow> pcb_ptr \<Rightarrow> bool"
  assumes init_queue: "queue (init s) = {}"
    and enqueue_ok: "invar s \<Longrightarrow> p \<notin> queue s \<Longrightarrow> fit s p \<Longrightarrow>
      \<exists>s'. enqueue p s = ret s' \<and> invar s' \<and> queue s' = insert p (queue s)"
    and dequeue_ok: "invar s \<Longrightarrow> p \<in> queue s \<Longrightarrow>
      \<exists>s'. dequeue p s = ret s' \<and> invar s' \<and> queue s' = queue s - {p}"
    and pick_empty: "invar s \<Longrightarrow> queue s = {} \<Longrightarrow> pick_next s = (None, s)"
    and pick_some: "invar s \<Longrightarrow> queue s \<noteq> {} \<Longrightarrow>
      \<exists>p s1 s2. pick_next s = (Some p, s1) \<and> p \<in> queue s \<and> (\<forall>q\<in>queue s. best s p q) \<and>
        dequeue p s1 = ret s2 \<and> invar s2 \<and> queue s2 = queue s - {p}"
begin

text \<open>
  The round of the core scheduler for a current process that stays runnable: it goes back into
  the queue, and a best process of the queue leaves it.
\<close>

lemma requeue_pick:
  assumes "invar s" "p \<notin> queue s" "fit s p"
  shows "\<exists>s1 q s2 s3. enqueue p s = ret s1 \<and> pick_next s1 = (Some q, s2) \<and>
    dequeue q s2 = ret s3 \<and> q \<in> insert p (queue s) \<and> (\<forall>r\<in>insert p (queue s). best s1 q r) \<and>
    invar s3 \<and> queue s3 = insert p (queue s) - {q}"
proof -
  obtain s1 where s1: "enqueue p s = ret s1" "invar s1" "queue s1 = insert p (queue s)"
    using enqueue_ok [OF assms] by blast
  then show ?thesis
    using pick_some [of s1] by (metis insert_not_empty)
qed

lemma enqueue_dequeue:
  assumes "invar s" "p \<notin> queue s" "fit s p"
  shows "\<exists>s1 s2. enqueue p s = ret s1 \<and> dequeue p s1 = ret s2 \<and> invar s2 \<and> queue s2 = queue s"
proof -
  obtain s1 where s1: "enqueue p s = ret s1" "invar s1" "queue s1 = insert p (queue s)"
    using enqueue_ok [OF assms] by blast
  then show ?thesis
    using dequeue_ok [of s1 p] assms(2) by auto
qed

end

end
