(* ===== verification/Stride.thy ===== *)
theory Stride
  imports Scheduler_Class
begin

text \<open>
  The stride scheduler of \<open>kernel/proc/stride_scheduler.c\<close>. Strides are 32-bit words that wrap
  around; the comparison reads their difference as a signed word. It is an order on processes
  whose strides lie less than \<open>2 ^ 31\<close> apart, and the scheduler keeps the strides of the
  processes it rotates within \<open>BIG_STRIDE\<close> of each other, so it always picks a least stride.
\<close>

section \<open>Operations\<close>

definition BIG_STRIDE :: u32 where [const_defs]: "BIG_STRIDE = 0x40000000"

definition stride_comp_fn :: "'z sched_scheme \<Rightarrow> pcb_ptr comp_fn" where
  "stride_comp_fn s left_proc right_proc =
     (let d = sint (p_stride (procs s left_proc) - p_stride (procs s right_proc)) in
      (if d > 0 then 1 else 0) - (if d < 0 then 1 else 0))"

definition stride_init :: "'z sched_scheme \<Rightarrow> 'z sched_scheme" where
  "stride_init s = s\<lparr>rq_run_pool := None, rq_num_proc := 0\<rparr>"

definition stride_enqueue :: "pcb_ptr \<Rightarrow> 'z sched_scheme \<Rightarrow> 'z sched_scheme exec" where
  "stride_enqueue p s =
     (case add_skew_heap (stride_comp_fn s) (rq_run_pool s) p (run_pools s) of
        None \<Rightarrow> None
      | Some (pool, H) \<Rightarrow>
          let s1 = s\<lparr>rq_run_pool := pool, run_pools := H\<rparr>;
              s2 = (if p_time_slice (procs s1 p) = 0 \<or> p_time_slice (procs s1 p) > rq_max_time_slice s1
                    then upd_proc p (\<lambda>q. q\<lparr>p_time_slice := rq_max_time_slice s1\<rparr>) s1 else s1);
              s3 = upd_proc p (\<lambda>q. q\<lparr>p_run_queue := Some ()\<rparr>) s2
          in ret (s3\<lparr>rq_num_proc := rq_num_proc s3 + 1\<rparr>))"

definition stride_dequeue :: "pcb_ptr \<Rightarrow> 'z sched_scheme \<Rightarrow> 'z sched_scheme exec" where
  "stride_dequeue p s =
     assert_then (p_run_queue (procs s p) = Some () \<and> rq_num_proc s > 0)
       (case del_skew_heap (stride_comp_fn s) (rq_run_pool s) p (run_pools s) of
          None \<Rightarrow> None
        | Some (pool, H) \<Rightarrow>
            ret (s\<lparr>rq_run_pool := pool, run_pools := H, rq_num_proc := rq_num_proc s - 1\<rparr>))"

definition stride_pick_next :: "'z sched_scheme \<Rightarrow> pcb_ptr option \<times> 'z sched_scheme" where
  "stride_pick_next s =
     (case rq_run_pool s of
        None \<Rightarrow> (None, s)
      | Some p \<Rightarrow>
          (Some p, upd_proc p (\<lambda>q. q\<lparr>p_stride := p_stride q + BIG_STRIDE div p_priority q\<rparr>) s))"

definition stride_proc_tick :: "pcb_ptr \<Rightarrow> 'z sched_scheme \<Rightarrow> 'z sched_scheme" where
  "stride_proc_tick p s =
     (let s1 = (if p_time_slice (procs s p) > 0
                then upd_proc p (\<lambda>q. q\<lparr>p_time_slice := p_time_slice q - 1\<rparr>) s else s)
      in if p_time_slice (procs s1 p) = 0
         then upd_proc p (\<lambda>q. q\<lparr>p_need_reschedule := True\<rparr>) s1 else s1)"

section \<open>Strides that lie close together\<close>

text \<open>\<open>ahead b x\<close> is how far \<open>x\<close> lies ahead of \<open>b\<close> on the circle of 32-bit words.\<close>

definition ahead :: "u32 \<Rightarrow> u32 \<Rightarrow> nat" where
  "ahead b x = unat (x - b)"

definition stride_window :: "nat \<Rightarrow> u32 \<Rightarrow> 'z sched_scheme \<Rightarrow> pcb_ptr set \<Rightarrow> bool" where
  "stride_window w b s A \<longleftrightarrow> (\<forall>p\<in>A. ahead b (p_stride (procs s p)) < w)"

lemma sint_small: "unat (x :: u32) < 2 ^ 31 \<Longrightarrow> sint x = int (unat x)"
proof -
  assume "unat x < 2 ^ 31"
  then have "int (unat x) < 2 ^ 31"
    using of_nat_less_iff [of "unat x" "2 ^ 31", where ?'a = int] by simp
  moreover have "- (2 ^ 31) \<le> int (unat x)"
    by (rule order_trans [of _ 0]) simp_all
  ultimately have "signed_take_bit 31 (int (unat x)) = int (unat x)"
    by (rule signed_take_bit_int_eq_self [rotated])
  then show ?thesis
    by (simp add: sint_uint)
qed

lemma sint_diff_ahead:
  fixes b x y :: u32
  assumes "ahead b x < 2 ^ 31" "ahead b y < 2 ^ 31"
  shows "sint (x - y) = int (ahead b x) - int (ahead b y)"
proof -
  have eq: "x - y = (x - b) - (y - b)"
    by simp
  have "sint (x - y) = signed_take_bit 31 (sint (x - b) - sint (y - b))"
    by (subst eq) (simp only: sint_word_ariths len_bit0 len_num1, simp)
  also have "\<dots> = signed_take_bit 31 (int (ahead b x) - int (ahead b y))"
    using assms by (simp add: sint_small ahead_def)
  also have "\<dots> = int (ahead b x) - int (ahead b y)"
    using assms by (intro signed_take_bit_int_eq_self) auto
  finally show ?thesis .
qed

lemma stride_comp_fn_less:
  assumes "stride_window (2 ^ 31) b s {p, q}"
  shows "stride_comp_fn s p q = -1 \<longleftrightarrow>
    ahead b (p_stride (procs s p)) < ahead b (p_stride (procs s q))"
  using assms sint_diff_ahead [of b "p_stride (procs s p)" "p_stride (procs s q)"]
  by (auto simp: stride_comp_fn_def stride_window_def Let_def)

definition stride_good :: "'z sched_scheme \<Rightarrow> pcb_ptr set \<Rightarrow> bool" where
  "stride_good s A \<longleftrightarrow> (\<exists>b. stride_window (2 ^ 31) b s A)"

interpretation stride_ord: skew_order "stride_comp_fn s" "stride_good s"
  for s :: "'z sched_scheme"
proof
  show "stride_good s A \<Longrightarrow> B \<subseteq> A \<Longrightarrow> stride_good s B" for A B
    by (auto simp: stride_good_def stride_window_def)
  show "stride_comp_fn s p p \<noteq> -1" for p
    by (simp add: stride_comp_fn_def)
next
  fix p q r
  assume "stride_good s {p, q, r}"
  then obtain b where b: "stride_window (2 ^ 31) b s {p, q, r}"
    by (auto simp: stride_good_def)
  then have "stride_window (2 ^ 31) b s {p, q}" "stride_window (2 ^ 31) b s {q, r}"
      "stride_window (2 ^ 31) b s {p, r}"
    by (auto simp: stride_window_def)
  note less = this [THEN stride_comp_fn_less]
  show "stride_comp_fn s p q = -1 \<Longrightarrow> stride_comp_fn s q r = -1 \<Longrightarrow> stride_comp_fn s p r = -1"
    using less by simp
  show "stride_comp_fn s p q \<noteq> -1 \<Longrightarrow> stride_comp_fn s q r \<noteq> -1 \<Longrightarrow> stride_comp_fn s p r \<noteq> -1"
    using less by simp
qed

section \<open>The run queue\<close>

definition queued_ok :: "'z sched_scheme \<Rightarrow> pcb_ptr \<Rightarrow> bool" where
  "queued_ok s p \<longleftrightarrow> p_run_queue (procs s p) = Some () \<and> p_priority (procs s p) \<noteq> 0 \<and>
     0 < p_time_slice (procs s p) \<and> p_time_slice (procs s p) \<le> rq_max_time_slice s"

definition rq_rep :: "'z sched_scheme \<Rightarrow> pcb_ptr tree \<Rightarrow> bool" where
  "rq_rep s t \<longleftrightarrow> sh_heap (run_pools s) (rq_run_pool s) t \<and> heap_ordered (stride_comp_fn s) t \<and>
     unat (rq_num_proc s) = size t \<and> 0 < rq_max_time_slice s \<and> (\<forall>p\<in>set_tree t. queued_ok s p) \<and>
     (\<exists>b. stride_window (Suc (unat BIG_STRIDE)) b s (set_tree t))"

definition stride_inv :: "'z sched_scheme \<Rightarrow> bool" where
  "stride_inv s \<longleftrightarrow> (\<exists>t. rq_rep s t)"

definition stride_queue :: "'z sched_scheme \<Rightarrow> pcb_ptr set" where
  "stride_queue s = {p. \<exists>t. sh_heap (run_pools s) (rq_run_pool s) t \<and> p \<in> set_tree t}"

definition stride_fit :: "'z sched_scheme \<Rightarrow> pcb_ptr \<Rightarrow> bool" where
  "stride_fit s p \<longleftrightarrow> p_priority (procs s p) \<noteq> 0 \<and> 0 \<le> p_time_slice (procs s p) \<and>
     rq_num_proc s \<noteq> 0xFFFFFFFF \<and>
     (\<exists>b. stride_window (Suc (unat BIG_STRIDE)) b s (insert p (stride_queue s)))"

text \<open>\<open>p\<close> is at most as far ahead of a common base as \<open>q\<close>.\<close>

definition stride_le :: "'z sched_scheme \<Rightarrow> pcb_ptr \<Rightarrow> pcb_ptr \<Rightarrow> bool" where
  "stride_le s p q \<longleftrightarrow> (\<exists>b. stride_window (Suc (unat BIG_STRIDE)) b s {p, q} \<and>
     ahead b (p_stride (procs s p)) \<le> ahead b (p_stride (procs s q)))"

lemma stride_queue_eq: "sh_heap (run_pools s) (rq_run_pool s) t \<Longrightarrow> stride_queue s = set_tree t"
  by (auto simp: stride_queue_def sh_heap_def dest: sh_tree_unique)

lemma rq_rep_queue: "rq_rep s t \<Longrightarrow> stride_queue s = set_tree t"
  by (simp add: rq_rep_def stride_queue_eq)

lemma stride_window_mono:
  "stride_window w b s A \<Longrightarrow> w \<le> w' \<Longrightarrow> B \<subseteq> A \<Longrightarrow> stride_window w' b s B"
  by (fastforce simp: stride_window_def)

lemma stride_window_cong:
  "(\<And>p. p \<in> A \<Longrightarrow> p_stride (procs s' p) = p_stride (procs s p)) \<Longrightarrow>
     stride_window w b s' A = stride_window w b s A"
  by (simp add: stride_window_def)

lemma BIG_STRIDE_window: "Suc (unat BIG_STRIDE) \<le> 2 ^ 31"
  by (simp add: BIG_STRIDE_def)

lemma stride_good_window: "stride_window (Suc (unat BIG_STRIDE)) b s A \<Longrightarrow> stride_good s A"
  unfolding stride_good_def using stride_window_mono [OF _ BIG_STRIDE_window] by blast

lemma stride_comp_fn_cong:
  "p_stride (procs s' p) = p_stride (procs s p) \<Longrightarrow> p_stride (procs s' q) = p_stride (procs s q) \<Longrightarrow>
     stride_comp_fn s' p q = stride_comp_fn s p q"
  by (simp add: stride_comp_fn_def)

lemma rq_root_least:
  assumes "rq_rep s t" "root_of t = Some p" "q \<in> set_tree t"
  shows "stride_le s p q"
proof -
  obtain b where b: "stride_window (Suc (unat BIG_STRIDE)) b s (set_tree t)"
    using assms(1) by (auto simp: rq_rep_def)
  have pq: "stride_window (Suc (unat BIG_STRIDE)) b s {p, q}"
    by (rule stride_window_mono [OF b]) (use assms root_in_set in auto)
  then have "stride_window (2 ^ 31) b s {q, p}"
    by (rule stride_window_mono) (use BIG_STRIDE_window in auto)
  moreover have "stride_comp_fn s q p \<noteq> -1"
    using assms by (intro stride_ord.heap_root_minimal) (auto simp: rq_rep_def)
  ultimately have "ahead b (p_stride (procs s p)) \<le> ahead b (p_stride (procs s q))"
    using stride_comp_fn_less [of b s q p] by (simp add: not_less)
  with pq show ?thesis
    unfolding stride_le_def by blast
qed

subsection \<open>Enqueue\<close>

lemma unat_Suc_u32: "x \<noteq> 0xFFFFFFFF \<Longrightarrow> unat (x + 1 :: u32) = Suc (unat x)"
proof -
  assume x: "x \<noteq> 0xFFFFFFFF"
  have "x + 1 \<noteq> 0"
  proof
    assume "x + 1 = 0"
    then have "x = - 1"
      by (simp add: eq_neg_iff_add_eq_0)
    with x show False
      by simp
  qed
  then show ?thesis
    by (metis unatSuc add.commute)
qed

lemma stride_enqueue_rep:
  assumes rep: "rq_rep s t" and p: "p \<notin> set_tree t" and fit: "stride_fit s p"
  shows "\<exists>s'. stride_enqueue p s = ret s' \<and> rq_rep s' (insert_tree (stride_comp_fn s) p t) \<and>
    (\<forall>q. p_stride (procs s' q) = p_stride (procs s q)) \<and> (\<forall>q. q \<noteq> p \<longrightarrow> procs s' q = procs s q)"
proof -
  let ?c = "stride_comp_fn s" and ?t = "insert_tree (stride_comp_fn s) p t"
  note r = rep [unfolded rq_rep_def]
  obtain H where H: "add_skew_heap ?c (rq_run_pool s) p (run_pools s) = Some (root_of ?t, H)"
      "sh_heap H (root_of ?t) ?t"
    using add_skew_heap_tree [of "run_pools s" "rq_run_pool s" t p ?c] r p by blast
  obtain b where b: "stride_window (Suc (unat BIG_STRIDE)) b s (insert p (set_tree t))"
    using fit rq_rep_queue [OF rep] by (auto simp: stride_fit_def)
  define s' where "s' = (case stride_enqueue p s of Some (Inr u) \<Rightarrow> u)"
  define ts where "ts = (if p_time_slice (procs s p) = 0 \<or> p_time_slice (procs s p) > rq_max_time_slice s
     then rq_max_time_slice s else p_time_slice (procs s p))"
  have e: "stride_enqueue p s = ret s'"
    and P: "procs s' = (procs s)(p := (procs s p)\<lparr>p_time_slice := ts, p_run_queue := Some ()\<rparr>)"
    and R: "rq_num_proc s' = rq_num_proc s + 1" "rq_run_pool s' = root_of ?t" "run_pools s' = H"
      "rq_max_time_slice s' = rq_max_time_slice s"
    by (auto simp: s'_def ts_def stride_enqueue_def H Let_def)
  have ord: "heap_ordered ?c ?t"
    using r stride_good_window [OF b] by (intro stride_ord.heap_ordered_insert) auto
  have c: "stride_comp_fn s' = ?c"
    by (intro ext stride_comp_fn_cong) (simp_all add: P)
  have "queued_ok s' q" if "q \<in> set_tree ?t" for q
    using that r fit by (auto simp: queued_ok_def P R stride_fit_def ts_def)
  moreover have "stride_window (Suc (unat BIG_STRIDE)) b s' (set_tree ?t)"
    using b by (subst stride_window_cong) (simp_all add: P)
  moreover have "unat (rq_num_proc s') = size ?t"
    using r fit by (simp add: R unat_Suc_u32 stride_fit_def)
  ultimately have "rq_rep s' ?t"
    using H(2) ord r by (auto simp: rq_rep_def c R)
  then show ?thesis
    using e by (auto simp: P)
qed

subsection \<open>Dequeue and pick\<close>

text \<open>Only the strides of the queued processes other than the deleted one are compared.\<close>

lemma merge_tree_cong:
  "(\<And>x y. x \<in> set_tree s \<union> set_tree t \<Longrightarrow> y \<in> set_tree s \<union> set_tree t \<Longrightarrow> cmp x y = cmp' x y) \<Longrightarrow>
     merge_tree cmp s t = merge_tree cmp' s t"
  by (induction cmp s t rule: merge_tree.induct) auto

lemma stride_dequeue_rep:
  assumes rep: "sh_heap (run_pools s) (rq_run_pool s) t" "unat (rq_num_proc s) = size t"
    and p: "p \<in> set_tree t" "p_run_queue (procs s p) = Some ()"
    and ord: "heap_ordered (stride_comp_fn s) (delete_tree (stride_comp_fn s) p t)"
    and ok: "0 < rq_max_time_slice s" "\<And>q. q \<in> set_tree t \<Longrightarrow> q \<noteq> p \<Longrightarrow> queued_ok s q"
    and win: "stride_window (Suc (unat BIG_STRIDE)) b s (set_tree t - {p})"
  shows "\<exists>s'. stride_dequeue p s = ret s' \<and> rq_rep s' (delete_tree (stride_comp_fn s) p t) \<and>
    procs s' = procs s"
proof -
  let ?c = "stride_comp_fn s" and ?t = "delete_tree (stride_comp_fn s) p t"
  obtain H where H: "del_skew_heap ?c (rq_run_pool s) p (run_pools s) = Some (root_of ?t, H)"
      "sh_heap H (root_of ?t) ?t"
    using del_skew_heap_tree [OF rep(1) p(1), of ?c] by blast
  have t: "tree_ok t"
    using rep(1) by (simp add: sh_heap_def)
  have n: "Suc (size ?t) = size t"
    by (rule size_delete_tree [OF t p(1)])
  then have n0: "rq_num_proc s \<noteq> 0"
    using rep(2) by auto
  define s' where "s' = s\<lparr>rq_run_pool := root_of ?t, run_pools := H, rq_num_proc := rq_num_proc s - 1\<rparr>"
  have e: "stride_dequeue p s = ret s'"
    using n0 p(2) H(1) by (simp add: stride_dequeue_def s'_def word_greater_zero_iff)
  have c: "stride_comp_fn s' = ?c"
    by (intro ext stride_comp_fn_cong) (simp_all add: s'_def)
  have "unat (rq_num_proc s') = size ?t"
    using n rep(2) n0 by (simp add: s'_def unat_minus_one)
  moreover have "\<forall>q\<in>set_tree ?t. queued_ok s' q"
    using ok(2) t by (auto simp: queued_ok_def s'_def)
  moreover have "stride_window (Suc (unat BIG_STRIDE)) b s' (set_tree ?t)"
    using win t by (simp add: stride_window_def s'_def)
  moreover have "run_pools s' = H" "rq_run_pool s' = root_of ?t" "rq_max_time_slice s' = rq_max_time_slice s"
    by (simp_all add: s'_def)
  ultimately have "rq_rep s' ?t"
    unfolding rq_rep_def c using H(2) ord ok(1) by auto
  then show ?thesis
    using e by (auto simp: s'_def)
qed

text \<open>Advancing the least stride by at most \<open>BIG_STRIDE\<close> keeps all strides in a window.\<close>

lemma ahead_shift:
  assumes "ahead b x \<le> ahead b y"
  shows "ahead x y = ahead b y - ahead b x"
proof -
  have "y - x = (y - b) - (x - b)"
    by simp
  then show ?thesis
    using assms unfolding ahead_def by (metis word_le_nat_alt unat_sub)
qed

lemma window_rebase:
  assumes w: "stride_window w b s A" and p: "p \<in> A"
    and least: "\<And>q. q \<in> A \<Longrightarrow> ahead b (p_stride (procs s p)) \<le> ahead b (p_stride (procs s q))"
  shows "stride_window w (p_stride (procs s p)) s A"
  unfolding stride_window_def
proof
  fix q assume q: "q \<in> A"
  then show "ahead (p_stride (procs s p)) (p_stride (procs s q)) < w"
    using w ahead_shift [OF least [OF q]] by (fastforce simp: stride_window_def)
qed

lemma stride_step_le: "unat (BIG_STRIDE div k) \<le> unat BIG_STRIDE"
  by (simp add: unat_div)

lemma stride_pick_window:
  assumes rep: "rq_rep s t" and p: "root_of t = Some p" and pick: "stride_pick_next s = (Some p, s1)"
  shows "stride_window (Suc (unat BIG_STRIDE)) (p_stride (procs s p)) s1 (set_tree t)"
proof -
  obtain b where b: "stride_window (Suc (unat BIG_STRIDE)) b s (set_tree t)"
    using rep by (auto simp: rq_rep_def)
  have pt: "p \<in> set_tree t"
    using p by (rule root_in_set)
  have "ahead b (p_stride (procs s p)) \<le> ahead b (p_stride (procs s q))" if q: "q \<in> set_tree t" for q
  proof -
    have "stride_window (2 ^ 31) b s {q, p}"
      by (rule stride_window_mono [OF b BIG_STRIDE_window]) (use pt q in auto)
    moreover have "stride_comp_fn s q p \<noteq> -1"
      using rep p q by (intro stride_ord.heap_root_minimal) (auto simp: rq_rep_def)
    ultimately show ?thesis
      using stride_comp_fn_less [of b s q p] by (simp add: not_less)
  qed
  from window_rebase [OF b pt this]
  have w: "stride_window (Suc (unat BIG_STRIDE)) (p_stride (procs s p)) s (set_tree t)" .
  have s1: "procs s1 = (procs s)(p := (procs s p)\<lparr>p_stride :=
      p_stride (procs s p) + BIG_STRIDE div p_priority (procs s p)\<rparr>)"
    using pick by (auto simp: stride_pick_next_def split: option.splits)
  show ?thesis
    using w stride_step_le [of "p_priority (procs s p)"]
    by (auto simp: stride_window_def s1 ahead_def less_Suc_eq_le)
qed

lemma stride_pick_rep:
  assumes rep: "rq_rep s t" and p: "root_of t = Some p"
  shows "\<exists>s1 s2 u. stride_pick_next s = (Some p, s1) \<and> stride_dequeue p s1 = ret s2 \<and> rq_rep s2 u \<and>
    set_tree u = set_tree t - {p} \<and> procs s2 = procs s1 \<and>
    stride_window (Suc (unat BIG_STRIDE)) (p_stride (procs s p)) s2 (set_tree t)"
proof -
  note r = rep [unfolded rq_rep_def]
  define s1 where "s1 = upd_proc p (\<lambda>q. q\<lparr>p_stride := p_stride q + BIG_STRIDE div p_priority q\<rparr>) s"
  have pool: "rq_run_pool s = Some p"
    using r p by (auto dest: sh_heap_root)
  then have pick: "stride_pick_next s = (Some p, s1)"
    by (simp add: stride_pick_next_def s1_def)
  note win = stride_pick_window [OF rep p pick]
  obtain l rt where t: "t = Node l p rt"
    using p by (cases t) auto
  have ok: "tree_ok t"
    using r by (simp add: sh_heap_def)
  have c: "stride_comp_fn s1 x y = stride_comp_fn s x y" if "x \<noteq> p" "y \<noteq> p" for x y
    using that by (intro stride_comp_fn_cong) (simp_all add: s1_def)
  have "heap_ordered (stride_comp_fn s1) l = heap_ordered (stride_comp_fn s) l"
      "heap_ordered (stride_comp_fn s1) rt = heap_ordered (stride_comp_fn s) rt"
    using ok t by (auto intro!: heap_ordered_cong c)
  then have "heap_ordered (stride_comp_fn s1) l" "heap_ordered (stride_comp_fn s1) rt"
    using r t by simp_all
  moreover have "stride_good s1 (set_tree l \<union> set_tree rt)"
    using stride_good_window [OF win] t by (auto intro: stride_ord.good_subset)
  ultimately have ord: "heap_ordered (stride_comp_fn s1) (delete_tree (stride_comp_fn s1) p t)"
    using t by (simp add: stride_ord.heap_ordered_merge)
  have "\<exists>s2. stride_dequeue p s1 = ret s2 \<and> rq_rep s2 (delete_tree (stride_comp_fn s1) p t) \<and>
      procs s2 = procs s1"
  proof (rule stride_dequeue_rep [OF _ _ _ _ ord])
    show "stride_window (Suc (unat BIG_STRIDE)) (p_stride (procs s p)) s1 (set_tree t - {p})"
      by (rule stride_window_mono [OF win]) auto
  qed (use r t pool in \<open>auto simp: s1_def queued_ok_def\<close>)
  then obtain s2 where s2: "stride_dequeue p s1 = ret s2"
      "rq_rep s2 (delete_tree (stride_comp_fn s1) p t)" "procs s2 = procs s1"
    by blast
  moreover have "stride_window (Suc (unat BIG_STRIDE)) (p_stride (procs s p)) s2 (set_tree t)"
    using win by (simp add: stride_window_def s2(3))
  ultimately show ?thesis
    using pick ok by (metis set_delete_tree)
qed

interpretation stride: scheduler_class
  "stride_init :: 'z sched_scheme \<Rightarrow> _" stride_enqueue stride_dequeue stride_pick_next
  stride_inv stride_queue stride_fit stride_le
proof
  fix s :: "'z sched_scheme" and p
  show "stride_queue (stride_init s) = {}"
    using stride_queue_eq [of "stride_init s" Leaf] by (simp add: stride_init_def)
  show "\<exists>s'. stride_enqueue p s = ret s' \<and> stride_inv s' \<and> stride_queue s' = insert p (stride_queue s)"
    if inv: "stride_inv s" and "p \<notin> stride_queue s" "stride_fit s p"
  proof -
    obtain t where t: "rq_rep s t"
      using inv by (auto simp: stride_inv_def)
    show ?thesis
      using stride_enqueue_rep [OF t _ that(3)] that(2) rq_rep_queue [OF t] rq_rep_queue
      by (fastforce simp: stride_inv_def)
  qed
  show "\<exists>s'. stride_dequeue p s = ret s' \<and> stride_inv s' \<and> stride_queue s' = stride_queue s - {p}"
    if inv: "stride_inv s" and "p \<in> stride_queue s"
  proof -
    obtain t where t: "rq_rep s t"
      using inv by (auto simp: stride_inv_def)
    note r = t [unfolded rq_rep_def]
    have p: "p \<in> set_tree t"
      using that(2) rq_rep_queue [OF t] by simp
    obtain b where b: "stride_window (Suc (unat BIG_STRIDE)) b s (set_tree t)"
      using r by blast
    have ok: "tree_ok t"
      using r by (simp add: sh_heap_def)
    have ord: "heap_ordered (stride_comp_fn s) (delete_tree (stride_comp_fn s) p t)"
      using stride_ord.heap_ordered_delete [OF stride_good_window [OF b] ok] r by blast
    have "stride_window (Suc (unat BIG_STRIDE)) b s (set_tree t - {p})"
      by (rule stride_window_mono [OF b]) auto
    then have "\<exists>s'. stride_dequeue p s = ret s' \<and> rq_rep s' (delete_tree (stride_comp_fn s) p t) \<and> procs s' = procs s"
      by (rule stride_dequeue_rep [OF _ _ p _ ord, rotated 5]) (use r p in \<open>auto simp: queued_ok_def\<close>)
    then obtain s' where s': "stride_dequeue p s = ret s'" "rq_rep s' (delete_tree (stride_comp_fn s) p t)"
      by blast
    then have "stride_queue s' = stride_queue s - {p}"
      using rq_rep_queue [OF s'(2)] rq_rep_queue [OF t] ok by simp
    with s' show ?thesis
      unfolding stride_inv_def by blast
  qed
  show "stride_pick_next s = (None, s)" if inv: "stride_inv s" and e: "stride_queue s = {}"
  proof -
    obtain t where t: "rq_rep s t"
      using inv by (auto simp: stride_inv_def)
    then have "t = Leaf"
      using rq_rep_queue [OF t] e by (cases t) auto
    then have "rq_run_pool s = None"
      using t by (simp add: rq_rep_def sh_heap_def)
    then show ?thesis
      by (simp add: stride_pick_next_def)
  qed
  show "\<exists>p s1 s2. stride_pick_next s = (Some p, s1) \<and> p \<in> stride_queue s \<and> (\<forall>q\<in>stride_queue s. stride_le s p q) \<and>
      stride_dequeue p s1 = ret s2 \<and> stride_inv s2 \<and> stride_queue s2 = stride_queue s - {p}"
    if inv: "stride_inv s" and ne: "stride_queue s \<noteq> {}"
  proof -
    obtain t where t: "rq_rep s t"
      using inv by (auto simp: stride_inv_def)
    obtain p where p: "root_of t = Some p"
      using ne rq_rep_queue [OF t] by (cases t) auto
    obtain s1 s2 u where s2: "stride_pick_next s = (Some p, s1)" "stride_dequeue p s1 = ret s2"
        "rq_rep s2 u" "set_tree u = set_tree t - {p}"
      using stride_pick_rep [OF t p] by blast
    show ?thesis
      using s2 rq_root_least [OF t p] root_in_set [OF p] rq_rep_queue [OF t] rq_rep_queue [OF s2(3)]
      by (auto simp: stride_inv_def)
  qed
qed

section \<open>Correctness\<close>

definition sample_pcb :: pcb where
  "sample_pcb = \<lparr>p_state = PROC_RUNNABLE, p_wait_state = 0, p_pid = 1, p_run_times = 0,
     p_kernel_stack = 0, p_need_reschedule = False, p_vmm = None,
     p_context = \<lparr>ctx_ra = 0, ctx_sp = 0, ctx_s = (\<lambda>_. 0)\<rparr>, p_tf = None, p_gpt = 0xFFFFFFFF80300000, p_flags = 0,
     p_name = [], p_exit_code = 0, p_parent = None, p_child = None, p_younger = None,
     p_older = None, p_run_queue = Some (), p_time_slice = 5, p_stride = 0, p_priority = 1\<rparr>"

text \<open>Process 1 is queued just before the wrap-around and process 2 just after it.\<close>

definition sample_sched :: sched where
  "sample_sched = \<lparr>pages = (\<lambda>_. \<lparr>page_ref = 0, page_flags = 0, page_property = 0, page_pra_addr = 0\<rparr>),
     flinks = init_list free_head \<lparr>prv = id, nxt = id\<rparr>, num_free = 0, mem = (\<lambda>_. 0), ide = (\<lambda>_. 0),
     pra_links = \<lparr>prv = id, nxt = id\<rparr>,
     vmas = (\<lambda>_. \<lparr>vma_vmm = None, vm_start = 0, vm_end = 0, vm_flags = 0\<rparr>),
     vmms = (\<lambda>_. \<lparr>vma_curr = None, vmm_gpt = 0, vma_count = 0, pra_list = None, use_count = 0, owner_pid = 0\<rparr>),
     vma_links = \<lparr>prv = id, nxt = id\<rparr>, swap_init_flag = False, test_vmm = None, num_page_fault = 0,
     procs = (\<lambda>p. if p = 1 then sample_pcb\<lparr>p_stride := 0xFFFFFFF0\<rparr>
       else if p = 2 then sample_pcb\<lparr>p_stride := 0x10, p_priority := 2\<rparr> else sample_pcb),
     sstatus = 0, satp = 0, idle_proc = 9, curr_proc = 3,
     run_pools = \<lparr>sh_parent = (\<lambda>p. if p = 2 then Some 1 else None),
       sh_left = (\<lambda>p. if p = 1 then Some 2 else None), sh_right = (\<lambda>p. None)\<rparr>,
     rq_num_proc = 2, rq_max_time_slice = 5, rq_run_pool = Some 1\<rparr>"

abbreviation sample_tree :: "pcb_ptr tree" where
  "sample_tree \<equiv> Node (Node Leaf 2 Leaf) 1 Leaf"

lemma sample_window: "stride_window (Suc (unat BIG_STRIDE)) 0xFFFFFFF0 sample_sched {1, 2, 3}"
  by (simp add: stride_window_def sample_sched_def sample_pcb_def ahead_def BIG_STRIDE_def)

lemma sample_rep: "rq_rep sample_sched sample_tree"
proof -
  have "stride_comp_fn sample_sched 2 1 \<noteq> -1"
    by (simp add: stride_comp_fn_def sample_sched_def sample_pcb_def)
  moreover have "stride_window (Suc (unat BIG_STRIDE)) 0xFFFFFFF0 sample_sched {1, 2}"
    by (rule stride_window_mono [OF sample_window]) auto
  moreover have "insert 1 {2} = {1, 2 :: pcb_ptr}"
    by simp
  ultimately show ?thesis
    by (auto simp: rq_rep_def sh_heap_def sample_sched_def sample_pcb_def queued_ok_def)
qed

lemma sample_queue: "stride_queue sample_sched = {1, 2}"
  using rq_rep_queue [OF sample_rep] by simp

lemma sample_inv: "stride_inv sample_sched"
  using sample_rep by (auto simp: stride_inv_def)

lemma sample_fit: "stride_fit sample_sched 3"
  using sample_window unfolding stride_fit_def sample_queue
  by (auto simp: sample_sched_def sample_pcb_def insert_commute)

text \<open>The stride scheduler picks a process of the run queue whose stride no other queued process
  lies behind, across the wrap-around of 32-bit strides, and dequeuing it leaves the run queue
  well formed with exactly the other processes in it.
\<close>

theorem stride_pick_least:
  assumes "stride_inv s" and "stride_queue s \<noteq> {}"
  shows "\<exists>p s1 s2. stride_pick_next s = (Some p, s1) \<and> p \<in> stride_queue s \<and>
    (\<forall>q\<in>stride_queue s. stride_le s p q) \<and> stride_dequeue p s1 = ret s2 \<and> stride_inv s2 \<and>
    stride_queue s2 = stride_queue s - {p}"
  by (rule stride.pick_some [OF assms])

theorem stride_pick_least_witness:
  "\<exists>p s1 s2. stride_pick_next sample_sched = (Some p, s1) \<and> p \<in> {1, 2} \<and>
    stride_dequeue p s1 = ret s2 \<and> stride_inv s2 \<and> stride_queue s2 = {1, 2} - {p}"
proof -
  have "stride_queue sample_sched \<noteq> {}"
    by (simp add: sample_queue)
  from stride_pick_least [OF sample_inv this] show ?thesis
    unfolding sample_queue by (elim exE conjE) (intro exI conjI)
qed

text \<open>C14: a round of the scheduler, in which the running process goes back into the queue and a
  process of least stride is picked, keeps all strides within \<open>BIG_STRIDE\<close> of each other: the
  picked process, its stride advanced, may be put back into the queue, so the rounds go on for
  ever with a correct comparison although strides wrap around.
\<close>

theorem stride_round:
  assumes "stride_inv s" and "p \<notin> stride_queue s" and "stride_fit s p"
  shows "\<exists>s1 q s2 s3. stride_enqueue p s = ret s1 \<and> stride_pick_next s1 = (Some q, s2) \<and>
    stride_dequeue q s2 = ret s3 \<and> q \<in> insert p (stride_queue s) \<and> stride_inv s3 \<and>
    stride_queue s3 = insert p (stride_queue s) - {q} \<and> stride_fit s3 q"
proof -
  obtain t where t: "rq_rep s t"
    using assms(1) by (auto simp: stride_inv_def)
  note Q = rq_rep_queue [OF t]
  let ?t = "insert_tree (stride_comp_fn s) p t"
  obtain s1 where s1: "stride_enqueue p s = ret s1" "rq_rep s1 ?t"
    using stride_enqueue_rep [OF t _ assms(3)] assms(2) Q by auto
  obtain q where q: "root_of ?t = Some q"
    using set_insert_tree [of "stride_comp_fn s" p t] by (cases ?t) auto
  obtain s2 s3 u where s3: "stride_pick_next s1 = (Some q, s2)" "stride_dequeue q s2 = ret s3"
      "rq_rep s3 u" "set_tree u = set_tree ?t - {q}" "procs s3 = procs s2"
      "stride_window (Suc (unat BIG_STRIDE)) (p_stride (procs s1 q)) s3 (set_tree ?t)"
    using stride_pick_rep [OF s1(2) q] by blast
  have qt: "q \<in> set_tree ?t"
    using q by (rule root_in_set)
  have "queued_ok s1 q"
    using s1(2) qt by (auto simp: rq_rep_def)
  then have prio: "p_priority (procs s3 q) \<noteq> 0" "0 \<le> p_time_slice (procs s3 q)"
    using s3(1,5) by (auto simp: queued_ok_def stride_pick_next_def split: option.splits)
  have Q3: "stride_queue s3 = insert p (stride_queue s) - {q}"
    using rq_rep_queue [OF s3(3)] s3(4) Q by simp
  then have ins: "insert q (stride_queue s3) = set_tree ?t"
    using qt Q by auto
  have "rq_num_proc s3 \<noteq> 0xFFFFFFFF"
  proof -
    have "rq_num_proc s2 = rq_num_proc s1" "rq_num_proc s1 = rq_num_proc s + 1"
      using s3(1) s1(1) by (auto simp: stride_pick_next_def stride_enqueue_def Let_def split: option.splits)
    then have "rq_num_proc s3 = rq_num_proc s"
      using s3(2) by (auto simp: stride_dequeue_def assert_then_eq_ret split: option.splits)
    then show ?thesis
      using assms(3) by (simp add: stride_fit_def)
  qed
  then have "stride_fit s3 q"
    using prio s3(6) ins by (auto simp: stride_fit_def)
  then show ?thesis
    using s1(1) s3 Q3 qt Q by (auto simp: stride_inv_def)
qed

theorem stride_round_witness:
  "\<exists>s1 q s2 s3. stride_enqueue 3 sample_sched = ret s1 \<and> stride_pick_next s1 = (Some q, s2) \<and>
    stride_dequeue q s2 = ret s3 \<and> q \<in> {1, 2, 3} \<and> stride_inv s3 \<and>
    stride_queue s3 = {1, 2, 3} - {q} \<and> stride_fit s3 q"
  using stride_round [OF sample_inv _ sample_fit] by (simp add: sample_queue insert_commute)

end
