(* ===== verification/Page_Table.thy ===== *)
theory Page_Table
  imports Phys_Mem Page_Map Stride
begin

text \<open>
  What the page table operations of \<open>kernel/mm/pmm.c\<close> do to the address space a table stands for.
  \<open>aspace s g\<close> is the invariant of a kernel state and a root table: the tables form a tree of
  allocated pages, mapped pages are allocated and are no tables, and the reference count of a
  mapped page is the number of virtual pages mapped to it.
\<close>

unbundle bit_operations_syntax

section \<open>What the manager leaves alone\<close>

text \<open>Two states that agree on everything but the data of the page manager.\<close>

definition pmm_only :: "'z sched_scheme \<Rightarrow> 'z sched_scheme \<Rightarrow> bool" where
  "pmm_only s s' \<longleftrightarrow> pmm.more s' = pmm.more s"

lemma pmm_only_sel:
  assumes "pmm_only s s'"
  shows "mem s' = mem s" "swap_init_flag s' = swap_init_flag s" "test_vmm s' = test_vmm s" "sstatus s' = sstatus s"
    "vmas s' = vmas s" "vmms s' = vmms s" "vma_links s' = vma_links s" "kmem.more s' = kmem.more s"
  using assms unfolding pmm_only_def by (cases s; cases s'; simp)+

lemma pmm_only_refl [simp]: "pmm_only s s"
  by (simp add: pmm_only_def)

lemma pmm_only_trans: "pmm_only s t \<Longrightarrow> pmm_only t u \<Longrightarrow> pmm_only s u"
  by (simp add: pmm_only_def)

text \<open>Two states with the same free list; reference counts and replacement data may differ.\<close>

definition same_free :: "'a pmm_scheme \<Rightarrow> 'b pmm_scheme \<Rightarrow> bool" where
  "same_free s s' \<longleftrightarrow> flinks s' = flinks s \<and> num_free s' = num_free s \<and>
     (\<forall>i. page_flags (pages s' i) = page_flags (pages s i) \<and> page_property (pages s' i) = page_property (pages s i))"

lemma same_free_inv:
  assumes "same_free s s'"
  shows "bf_abs s' bs = bf_abs s bs" "blocks_of s' = blocks_of s" "bf_inv s' = bf_inv s"
    "free_pages_of s' = free_pages_of s" "page_usable s' = page_usable s"
proof -
  show a: "bf_abs s' bs = bf_abs s bs" for bs
    using assms by (simp add: bf_abs_def bf_rep_def same_free_def)
  show b: "blocks_of s' = blocks_of s"
    using assms by (auto simp: blocks_of_def same_free_def intro!: map_cong split: option.splits lnode.splits)
  show "bf_inv s' = bf_inv s" "free_pages_of s' = free_pages_of s" "page_usable s' = page_usable s"
    using assms by (simp_all add: bf_inv_def free_pages_of_def a b page_usable_def same_free_def fun_eq_iff)
qed

lemma same_free_intr [simp]:
  "same_free s (snd (local_intr_save s))" "same_free s (local_intr_restore flag s)"
  by (simp_all add: same_free_def local_intr_save_def local_intr_restore_def intr_disable_def intr_enable_def)

lemma same_free_ref [simp]: "same_free s (upd_page p (\<lambda>q. q\<lparr>page_ref := f q\<rparr>) s)"
  by (simp add: same_free_def upd_page_def)

lemma same_free_mem [simp]: "same_free s (s\<lparr>mem := m\<rparr>)" "same_free s (store_pte a v s)"
  by (simp_all add: same_free_def store_pte_def)

lemma take_more: "pmm.more (best_fit_take p n s) = pmm.more s"
  by (simp add: best_fit_take_def upd_page_def Let_def)

lemma take_ref: "page_ref (pages (best_fit_take p n s) i) = page_ref (pages s i)"
  by (simp add: best_fit_take_def upd_page_def Let_def)

lemma merge_next_frame:
  "pmm.more (merge_next b s) = pmm.more s" "page_ref (pages (merge_next b s) i) = page_ref (pages s i)"
  by (simp_all add: merge_next_def upd_page_def Let_def split: lnode.splits)

lemma merge_prev_frame:
  "pmm.more (snd (merge_prev b s)) = pmm.more s" "page_ref (pages (snd (merge_prev b s)) i) = page_ref (pages s i)"
  by (simp_all add: merge_prev_def upd_page_def Let_def split: lnode.splits)

lemma free_pages_loop_frame:
  "free_pages_loop p k s = ret s' \<Longrightarrow> pmm.more s' = pmm.more s \<and>
     (\<forall>i. page_ref (pages s' i) = (if p \<le> i \<and> i < p + k then 0 else page_ref (pages s i)))"
proof (induction k arbitrary: p s)
  case (Suc k)
  let ?s = "upd_page p (\<lambda>q. q\<lparr>page_ref := 0, page_flags := 0\<rparr>) s"
  have run: "free_pages_loop (Suc p) k ?s = ret s'"
    using Suc.prems by (simp add: assert_then_eq_ret)
  have "pmm.more ?s = pmm.more s" "page_ref (pages ?s i) = (if i = p then 0 else page_ref (pages s i))" for i
    by (simp_all add: upd_page_def)
  then show ?case
    using Suc.IH [OF run] by auto
qed auto

lemma free_frame:
  assumes "best_fit_free_pages b n s = ret s'"
  shows "pmm.more s' = pmm.more s"
    "page_ref (pages s' i) = (if b \<le> i \<and> i < b + unat n then 0 else page_ref (pages s i))"
proof -
  from assms obtain s1 l where s1: "free_pages_loop b (unat n) s = ret s1" and s': "s' = (let
      s2 = upd_page b (\<lambda>q. q\<lparr>page_property := ucast n\<rparr>) s1;
      s3 = upd_page b (\<lambda>q. q\<lparr>page_flags := page_flags q OR PAGE_PROPERTY\<rparr>) s2;
      s4 = s3\<lparr>num_free := num_free s3 + n\<rparr>;
      s5 = s4\<lparr>flinks := add_list l (nxt (flinks s4) l) (LNode b) (flinks s4)\<rparr>
    in merge_next (fst (merge_prev b s5)) (snd (merge_prev b s5)))"
    by (auto simp: best_fit_free_pages_def exec_elims Let_def case_prod_unfold split: option.splits)
  note f = free_pages_loop_frame [OF s1]
  show "pmm.more s' = pmm.more s"
    using f by (simp add: s' Let_def merge_next_frame merge_prev_frame upd_page_def)
  show "page_ref (pages s' i) = (if b \<le> i \<and> i < b + unat n then 0 else page_ref (pages s i))"
    using f by (simp add: s' Let_def merge_next_frame merge_prev_frame upd_page_def)
qed

lemma intr_pmm_only:
  assumes "local_intr_save s = (flag, s1)" "pmm.more s2 = pmm.more s1"
  shows "pmm_only s (local_intr_restore flag s2)"
proof -
  have "pmm.more (local_intr_restore flag s2) = pmm.more (local_intr_restore flag s1)"
    using assms(2) by (cases s1; cases s2) (simp add: local_intr_restore_def intr_enable_def)
  then show ?thesis
    using local_intr_noop [OF assms(1)] by (simp add: pmm_only_def)
qed

section \<open>Allocation and deallocation\<close>

text \<open>The first \<open>k\<close> pages of every free block are in DRAM.\<close>

definition low_blocks :: "nat \<Rightarrow> 'z pmm_scheme \<Rightarrow> bool" where
  "low_blocks k s \<longleftrightarrow> (\<forall>x\<in>set (blocks_of s). fst x + k \<le> 0x88000)"

lemma low_take_block: "\<forall>x\<in>set bs. fst x + Suc k \<le> m \<Longrightarrow> \<forall>x\<in>set (take_block b 1 bs). fst x + k \<le> m"
  by (induction b "1 :: nat" bs rule: take_block.induct) (auto split: if_splits)

lemma intr_save_free:
  assumes "local_intr_save s = (flag, s1)"
  shows "same_free s s1"
  using same_free_intr(1) [of s] assms by simp

lemma alloc_pages_found:
  assumes inv: "bf_inv s" and n: "0 < n" and sp: "spec_alloc (unat n) (blocks_of s) = (Some p, bs)"
  shows "\<exists>s'. alloc_pages n s = ret (Some p, s') \<and> bf_abs s' bs \<and> pmm_only s s' \<and>
    (\<forall>i. page_ref (pages s' i) = page_ref (pages s i)) \<and> page_usable s' = page_usable s"
proof -
  obtain flag s1 where s1: "local_intr_save s = (flag, s1)"
    by fastforce
  note sf = same_free_inv [OF intr_save_free [OF s1]]
  have abs: "bf_abs s1 (blocks_of s)"
    using inv by (simp add: sf bf_inv_def)
  obtain s2 where s2: "best_fit_alloc_pages n s1 = ret (Some p, s2)" "bf_abs s2 bs" "s2 = best_fit_take p n s1"
    by (rule bf_alloc [OF abs n]) (auto simp: sp)
  let ?s = "local_intr_restore flag s2"
  have "alloc_pages n s = ret (Some p, ?s)"
    by (subst alloc_pages.simps) (simp add: s1 s2(1))
  moreover have "bf_abs ?s bs"
    using s2(2) same_free_inv(1) [OF same_free_intr(2)] by blast
  moreover have "pmm_only s ?s"
    using intr_pmm_only [OF s1] s2(3) take_more by blast
  moreover have "page_ref (pages ?s i) = page_ref (pages s i)" for i
    using s1 by (auto simp: s2(3) take_ref local_intr_restore_def intr_enable_def local_intr_save_def intr_disable_def split: if_splits)
  moreover have "page_usable ?s = page_usable s"
    using same_free_inv(5) [OF same_free_intr(2), of flag s2] page_usable_take [of s1 p n] sf(3,5) inv
    by (simp add: s2(3) fun_eq_iff)
  ultimately show ?thesis
    by blast
qed

lemma alloc_pages_none:
  assumes inv: "bf_inv s" and n: "0 < n" and sp: "fst (spec_alloc (unat n) (blocks_of s)) = None"
  shows "alloc_pages n s = (if swap_init_flag s then bind_exec (swap_out (test_vmm s) n s) (alloc_pages n) else ret (None, s))"
proof -
  obtain flag s1 where s1: "local_intr_save s = (flag, s1)"
    by fastforce
  have abs: "bf_abs s1 (blocks_of s)"
    using inv same_free_inv(1) [OF intr_save_free [OF s1]] by (simp add: bf_inv_def)
  obtain s2 where s2: "best_fit_alloc_pages n s1 = ret (None, s1)"
    by (rule bf_alloc [OF abs n]) (auto simp: sp)
  then show ?thesis
    using local_intr_noop [OF s1] by (subst alloc_pages.simps) (simp add: s1)
qed

lemma spec_alloc_one:
  assumes "bf_inv s"
  shows "if free_pages_of s = {} then fst (spec_alloc 1 (blocks_of s)) = None
    else \<exists>p l. (p, l) \<in> set (blocks_of s) \<and> spec_alloc 1 (blocks_of s) = (Some p, take_block p 1 (blocks_of s))"
proof -
  let ?bs = "blocks_of s"
  have r: "\<forall>x\<in>set ?bs. 0 < snd x"
    using assms by (auto simp: bf_inv_def bf_abs_def bf_rep_def blocks_in_range_def)
  show ?thesis
  proof (cases "?bs = []")
    case True
    then show ?thesis
      by (simp add: free_pages_of_def spec_alloc_def)
  next
    case False
    then have "pick 1 ?bs None \<noteq> None"
      using pick_none [of 1 ?bs None] r by (metis last_in_set less_one not_gr_zero)
    then obtain x where "pick 1 ?bs None = Some x"
      by blast
    moreover from this have "x \<in> set ?bs"
      using pick_sound by fastforce
    moreover have "free_pages_of s \<noteq> {}"
    proof -
      have "blocks_in_range ?bs"
        using assms by (simp add: bf_inv_def bf_abs_def bf_rep_def)
      then show ?thesis
        using head_in_free_set [of ?bs "fst x"] \<open>x \<in> set ?bs\<close> by (auto simp: free_pages_of_def)
    qed
    ultimately show ?thesis
      by (cases x) (auto simp: spec_alloc_def)
  qed
qed

lemma alloc_page_ok:
  assumes inv: "bf_inv s" and ne: "free_pages_of s \<noteq> {}" and low: "low_blocks (Suc k) s"
  shows "\<exists>p s'. alloc_page s = ret (Some p, s') \<and> p \<in> free_pages_of s \<and> free_pages_of s' = free_pages_of s - {p} \<and>
    bf_inv s' \<and> low_blocks k s' \<and> 0x82000 \<le> p \<and> p < 0x88000 \<and> pmm_only s s' \<and>
    (\<forall>i. page_ref (pages s' i) = page_ref (pages s i)) \<and> page_usable s' = page_usable s"
proof -
  let ?bs = "blocks_of s"
  obtain p l where p: "(p, l) \<in> set ?bs" "spec_alloc 1 ?bs = (Some p, take_block p 1 ?bs)"
    using spec_alloc_one [OF inv] ne by auto
  have abs: "apart ?bs" "blocks_in_range ?bs"
    using inv by (auto simp: bf_inv_def bf_abs_def bf_rep_def)
  have l: "0 < l" "0x82000 \<le> p"
    using blocks_in_rangeD [OF abs(2) p(1)] by auto
  obtain s' where s': "alloc_pages 1 s = ret (Some p, s')" "bf_abs s' (take_block p 1 ?bs)" "pmm_only s s'"
      "\<And>i. page_ref (pages s' i) = page_ref (pages s i)" "page_usable s' = page_usable s"
    using alloc_pages_found [OF inv, of 1 p] p(2) by auto
  have "p < 0x88000"
    using low p(1) by (auto simp: low_blocks_def)
  moreover have "low_blocks k s'"
    using low_take_block [of ?bs k] low blocks_of_abs [OF s'(2)] by (simp add: low_blocks_def)
  moreover have "free_pages_of s' = free_pages_of s - {p}" "p \<in> free_pages_of s"
    using free_set_take_block [OF abs p(1), of 1] l blocks_of_abs [OF s'(2)] by (auto simp: free_pages_of_def)
  ultimately show ?thesis
    using s' l bf_invI [OF s'(2)] by (auto simp: alloc_page_def)
qed

lemma free_page_ok:
  assumes inv: "bf_inv s" and p: "page_usable s p" "p \<notin> free_pages_of s"
  shows "\<exists>s'. free_page p s = ret s' \<and> bf_inv s' \<and> free_pages_of s' = insert p (free_pages_of s) \<and> pmm_only s s' \<and>
    (\<forall>i. page_ref (pages s' i) = (if i = p then 0 else page_ref (pages s i))) \<and> page_usable s' = page_usable s"
proof -
  obtain flag s1 where s1: "local_intr_save s = (flag, s1)"
    by fastforce
  note sf = same_free_inv [OF intr_save_free [OF s1]]
  have inv1: "bf_inv s1"
    using inv by (simp add: sf)
  have one: "{p..<p + unat (1 :: u64)} = {p}"
    by auto
  obtain s2 where s2: "best_fit_free_pages p 1 s1 = ret s2" "bf_inv s2" "free_pages_of s2 = insert p (free_pages_of s)"
      "page_usable s2 = page_usable s"
    using bf.dealloc_ok [OF inv1, of 1 p] p unfolding one sf by auto
  note rs = same_free_inv [OF same_free_intr(2), of flag s2]
  have "page_ref (pages (local_intr_restore flag s2) i) = (if i = p then 0 else page_ref (pages s i))" for i
  proof -
    have "p \<le> i \<and> i < p + unat (1 :: u64) \<longleftrightarrow> i = p"
      by auto
    with free_frame(2) [OF s2(1), of i] have "page_ref (pages s2 i) = (if i = p then 0 else page_ref (pages s1 i))"
      by (simp only:)
    then show ?thesis
      using s1 by (simp add: local_intr_restore_def intr_enable_def local_intr_save_def intr_disable_def split: if_splits) auto
  qed
  then show ?thesis
    using s2 rs intr_pmm_only [OF s1 free_frame(1) [OF s2(1)]] by (simp add: free_page_def free_pages_def s1)
qed

text \<open>C34: allocation of one page on every branch. A free page is handed out whatever the swap flag;
  with none left the result is null, or, once swapping is on and no test manager is set, the machine
  stops at a null pointer.\<close>

theorem alloc_page_outcomes:
  assumes "bf_inv s" and "low_blocks 1 s"
  shows "if free_pages_of s \<noteq> {} then
      \<exists>p s'. alloc_page s = ret (Some p, s') \<and> p \<in> free_pages_of s \<and> free_pages_of s' = free_pages_of s - {p} \<and>
        bf_inv s' \<and> sstatus s' = sstatus s \<and> mem s' = mem s
    else if \<not> swap_init_flag s then alloc_page s = ret (None, s)
    else test_vmm s = None \<longrightarrow> alloc_page s = null_deref"
proof (cases "free_pages_of s = {}")
  case True
  then show ?thesis
    using alloc_pages_none [OF assms(1), of 1] spec_alloc_one [OF assms(1)]
    by (simp add: alloc_page_def swap_out_def)
next
  case False
  have low: "low_blocks (Suc 0) s"
    using assms(2) by simp
  obtain p s' where "alloc_page s = ret (Some p, s')" "p \<in> free_pages_of s" "free_pages_of s' = free_pages_of s - {p}"
      "bf_inv s'" "pmm_only s s'"
    using alloc_page_ok [OF assms(1) False low] by blast
  then show ?thesis
    using False pmm_only_sel(1,4) [of s s'] by auto
qed

section \<open>Entries\<close>

lemma bit_PTE_V: "bit PTE_V n \<longleftrightarrow> n = 0"
  by (simp add: PTE_V_def bit_1_iff)

lemma not_bit_word:
  fixes w :: "'a :: len word"
  assumes "unat w < 2 ^ k" "k \<le> n"
  shows "\<not> bit w n"
proof
  assume b: "bit w n"
  have "unat w < 2 ^ n"
    using assms power_increasing [of k n "2 :: nat"] by linarith
  then have "unat w div 2 ^ n = 0"
    by simp
  then have "\<not> bit (unat w) n"
    by (simp only: bit_iff_odd) simp
  with b show False
    by (simp add: bit_unsigned_iff)
qed

lemma pte_valid_bit: "pte_valid e \<longleftrightarrow> bit e 0"
proof -
  have "e AND PTE_V = 0 \<longleftrightarrow> (\<forall>n < 64. \<not> bit (e AND PTE_V) n)"
    by (auto intro: bit_word_eqI)
  then show ?thesis
    by (auto simp: pte_valid_def bit_and_iff bit_PTE_V)
qed

lemma pte_ppn2pte:
  assumes "q < 2 ^ 40" "unat flags < 1024"
  shows "pte_page (ppn2pte (of_nat q) flags) = q"
proof -
  have q: "unat (of_nat q :: u64) = q"
    using assms(1) by (intro unat_of_nat_u64) simp
  have bq: "\<not> bit (of_nat q :: u64) n" if "40 \<le> n" for n
    by (rule not_bit_word [OF _ that]) (use assms(1) q in simp)
  have bf: "\<not> bit flags n" if "10 \<le> n" for n
    by (rule not_bit_word [OF _ that]) (use assms(2) in simp)
  have "pte2ppn (ppn2pte (of_nat q) flags) = of_nat q"
  proof (rule bit_word_eqI)
    fix n
    assume "n < LENGTH(64)"
    then show "bit (pte2ppn (ppn2pte (of_nat q) flags)) n = bit (of_nat q :: u64) n"
      using bq [of n] bf [of "10 + n"]
      by (cases "40 \<le> n") (auto simp: pte2ppn_def ppn2pte_def PTE_SHIFT_def bit_drop_bit_eq bit_or_iff bit_push_bit_iff bit_ucast_iff)
  qed
  then show ?thesis
    by (simp add: pte_page_def q)
qed

lemma pte_valid_ppn2pte: "bit flags 0 \<Longrightarrow> pte_valid (ppn2pte ppn flags)"
  by (simp add: pte_valid_bit ppn2pte_def PTE_SHIFT_def bit_or_iff bit_push_bit_iff bit_ucast_iff)

lemma table_pte:
  assumes "q < 0x88000"
  shows "pte_valid (ppn2pte (of_nat q) (ucast PTE_V))" "pte_page (ppn2pte (of_nat q) (ucast PTE_V)) = q"
proof -
  show "pte_valid (ppn2pte (of_nat q) (ucast PTE_V))"
    by (rule pte_valid_ppn2pte) (simp add: PTE_V_def)
  show "pte_page (ppn2pte (of_nat q) (ucast PTE_V)) = q"
    using assms by (intro pte_ppn2pte) (simp_all add: PTE_V_def)
qed

lemma pte2va_ok:
  assumes "pte_valid e" "0x82000 \<le> pte_page e" "pte_page e < 0x88000"
  shows "pte2va e = ret (page_va (pte_page e))"
  using assms page2va_ok(3) [OF assms(2,3)]
  by (simp add: pte2va_def pte2page_def pte_valid_def pte_page_def)

section \<open>Walking and building tables\<close>

text \<open>Two states that agree on everything but the page manager and the memory.\<close>

definition mem_only :: "'z sched_scheme \<Rightarrow> 'z sched_scheme \<Rightarrow> bool" where
  "mem_only s s' \<longleftrightarrow> pmm.more s' = pmm.more (s\<lparr>mem := mem s'\<rparr>)"

lemma mem_only_refl [simp]: "mem_only s s"
  by (simp add: mem_only_def)

lemma mem_only_sel:
  assumes "mem_only s s'"
  shows "swap_init_flag s' = swap_init_flag s" "test_vmm s' = test_vmm s" "sstatus s' = sstatus s"
    "vmas s' = vmas s" "vmms s' = vmms s" "vma_links s' = vma_links s"
  using assms unfolding mem_only_def by (cases s; cases s'; simp)+

lemma mem_only_trans: "mem_only s t \<Longrightarrow> mem_only t u \<Longrightarrow> mem_only s u"
  unfolding mem_only_def by (cases s; cases t; cases u; simp)

lemma pmm_mem_only: "pmm_only s s' \<Longrightarrow> mem_only s s'"
  unfolding mem_only_def pmm_only_def by (cases s; cases s'; simp)

lemma mem_only_mem [simp]: "mem_only s (s\<lparr>mem := m\<rparr>)" "mem_only s (store_pte a v s)" "mem_only s (upd_page p f s)"
  by (simp_all add: mem_only_def store_pte_def upd_page_def)

definition table_page :: "nat \<Rightarrow> bool" where
  "table_page p \<longleftrightarrow> 0x82000 \<le> p \<and> p < 0x88000"

lemma table_page_dram: "table_page p \<Longrightarrow> dram_page p"
  by (simp add: table_page_def dram_page_def)

definition tabs_ok :: "'z sched_scheme \<Rightarrow> nat \<Rightarrow> bool" where
  "tabs_ok s g \<longleftrightarrow> bf_inv s \<and> dram_page g \<and> tree_ok (ents (mem s)) g \<and>
     (\<forall>p\<in>tables (ents (mem s)) g - {g}. table_page p) \<and> tables (ents (mem s)) g \<inter> free_pages_of s = {}"

lemma tabs_okD:
  assumes "tabs_ok s g"
  shows "bf_inv s" "dram_page g" "tree_ok (ents (mem s)) g"
    "p \<in> mids (ents (mem s)) g \<Longrightarrow> table_page p" "p \<in> leaves (ents (mem s)) g \<Longrightarrow> table_page p"
    "p \<in> tables (ents (mem s)) g \<Longrightarrow> p \<notin> free_pages_of s"
  using assms tree_okD(3,4) [of "ents (mem s)" g] by (auto simp: tabs_ok_def tables_def)

lemma get_table_new:
  assumes inv: "bf_inv s" and ne: "free_pages_of s \<noteq> {}" and low: "low_blocks (Suc k) s"
    and e: "\<not> pte_valid (load64 (mem s) e)"
  shows "\<exists>q s'. get_table alloc_page True e s = ret (True, s') \<and> q \<in> free_pages_of s \<and>
    free_pages_of s' = free_pages_of s - {q} \<and> bf_inv s' \<and> low_blocks k s' \<and> table_page q \<and>
    mem s' = store64 (memset (mem s) (page_va q) 0 PAGE_SIZE) e (ppn2pte (of_nat q) (ucast PTE_V)) \<and> mem_only s s' \<and>
    (\<forall>i. page_ref (pages s' i) = (if i = q then 1 else page_ref (pages s i))) \<and> page_usable s' = page_usable s"
proof -
  obtain q s1 where q: "alloc_page s = ret (Some q, s1)" "q \<in> free_pages_of s" "free_pages_of s1 = free_pages_of s - {q}"
      "bf_inv s1" "low_blocks k s1" "0x82000 \<le> q" "q < 0x88000" "pmm_only s s1"
      "\<And>i. page_ref (pages s1 i) = page_ref (pages s i)" "page_usable s1 = page_usable s"
    using alloc_page_ok [OF inv ne low] by auto
  let ?s2 = "upd_page q (\<lambda>q. q\<lparr>page_ref := 1\<rparr>) s1"
  let ?m = "store64 (memset (mem ?s2) (page_va q) 0 PAGE_SIZE) e (ppn2pte (of_nat q) (ucast PTE_V))"
  let ?s = "?s2\<lparr>mem := ?m\<rparr>"
  have run: "get_table alloc_page True e s = ret (True, ?s)"
    using e by (simp add: get_table_def q(1) page2va_ok [OF q(6,7)] pte_valid_def Let_def)
  have sf: "same_free s1 ?s"
    by (simp add: same_free_def upd_page_def)
  have m: "mem ?s2 = mem s"
    using pmm_only_sel(1) [OF q(8)] by (simp add: upd_page_def)
  have mo: "mem_only s ?s"
    by (rule mem_only_trans [OF pmm_mem_only [OF q(8)] mem_only_trans [OF mem_only_mem(3) mem_only_mem(1)]])
  have "page_ref (pages ?s i) = (if i = q then 1 else page_ref (pages s i))" for i
    using q(9) by (simp add: upd_page_def)
  moreover have "low_blocks k ?s"
    using q(5) same_free_inv(2) [OF sf] by (simp add: low_blocks_def)
  ultimately show ?thesis
    using run q mo same_free_inv [OF sf] m by (intro exI [of _ q] exI [of _ ?s]) (simp add: table_page_def)
qed

lemma get_table_old: "pte_valid (load64 (mem s) e) \<Longrightarrow> get_table al need e s = ret (True, s)"
  by (simp add: get_table_def pte_valid_def)

lemma ents_load: "dram_page p \<Longrightarrow> i < 512 \<Longrightarrow> load64 (mem s) (entry_at (page_va p) i) = ents (mem s) p i"
  by (simp add: ents_def)

lemma get_pte_found:
  assumes ok: "tabs_ok s g" and va: "va < USER_END" and t: "vpn va = (i, j, k)"
  shows "get_pte_by al False (page_va g) va s =
    ret (map_option (\<lambda>p. entry_at (page_va p) k) (leaf_table (ents (mem s)) g i j), s)"
proof -
  have b: "i < 2" "j < 512" "k < 512" "i < 512" "get_gptx va = i" "get_mptx va = j" "get_ptx va = k"
    using t vpn_range [OF va] user_index by (auto simp: vpn_def vpages_def)
  note D = tabs_okD [OF ok]
  let ?E = "ents (mem s)"
  show ?thesis
  proof (cases "mid_table ?E g i")
    case None
    then have "\<not> pte_valid (?E g i)"
      by (simp add: mid_table_def split: if_splits)
    then show ?thesis
      using None b D(2) by (simp add: get_pte_by_def get_table_def leaf_table_def ents_load pte_valid_def)
  next
    case (Some p)
    then have p: "pte_valid (?E g i)" "pte_page (?E g i) = p"
      by (auto simp: mid_table_def split: if_splits)
    have tp: "table_page p"
      using D(4) [OF midsI [OF b(1) Some]] .
    have va: "pte2va (?E g i) = ret (page_va p)"
      using pte2va_ok [OF p(1)] p(2) tp by (simp add: table_page_def)
    have dp: "dram_page p"
      using table_page_dram [OF tp] .
    show ?thesis
    proof (cases "mid_table ?E p j")
      case None
      then have "\<not> pte_valid (?E p j)"
        by (simp add: mid_table_def split: if_splits)
      then show ?thesis
        using None Some b D(2) p(1) va dp
        by (simp add: get_pte_by_def get_table_def leaf_table_def ents_load pte_valid_def Let_def)
    next
      case leaf: (Some q)
      then have q: "pte_valid (?E p j)" "pte_page (?E p j) = q"
        by (auto simp: mid_table_def split: if_splits)
      have l: "leaf_table ?E g i j = Some q"
        using Some leaf by (simp add: leaf_table_def)
      have "table_page q"
        using D(5) [OF leavesI [OF b(1,2) l]] .
      then have "pte2va (?E p j) = ret (page_va q)"
        using pte2va_ok [OF q(1)] q(2) by (simp add: table_page_def)
      then show ?thesis
        using l b D(2) p(1) q(1) va dp
        by (simp add: get_pte_by_def get_table_def ents_load pte_valid_def Let_def)
    qed
  qed
qed

text \<open>A state with more tables and the same address space.\<close>

definition grown :: "nat \<Rightarrow> 'z sched_scheme \<Rightarrow> 'z sched_scheme \<Rightarrow> bool" where
  "grown g s s' \<longleftrightarrow> tabs_ok s' g \<and> mem_only s s' \<and> free_pages_of s' \<subseteq> free_pages_of s \<and>
     (\<forall>t\<in>vpages. pmap (ents (mem s')) g t = pmap (ents (mem s)) g t) \<and>
     tables (ents (mem s')) g \<subseteq> tables (ents (mem s)) g \<union> free_pages_of s \<and>
     tables (ents (mem s)) g \<subseteq> tables (ents (mem s')) g \<and>
     free_pages_of s \<subseteq> free_pages_of s' \<union> tables (ents (mem s')) g \<and>
     (\<forall>q. q \<notin> free_pages_of s \<or> q \<in> free_pages_of s' \<longrightarrow> page_ref (pages s' q) = page_ref (pages s q)) \<and>
     page_usable s' = page_usable s"

lemma grown_refl: "tabs_ok s g \<Longrightarrow> grown g s s"
  by (simp add: grown_def)

lemma grown_trans: "grown g s t \<Longrightarrow> grown g t u \<Longrightarrow> grown g s u"
  unfolding grown_def by (intro conjI; (fastforce intro: mem_only_trans)?)

text \<open>A fresh table in place of an invalid entry of table \<open>p\<close>.\<close>

lemma new_table:
  assumes ok: "tabs_ok s g" and ne: "free_pages_of s \<noteq> {}" and low: "low_blocks (Suc n) s"
    and p: "dram_page p" "p \<in> tables (ents (mem s)) g" and i: "i < 512" "\<not> pte_valid (ents (mem s) p i)"
  shows "\<exists>q s' v. get_table alloc_page True (entry_at (page_va p) i) s = ret (True, s') \<and> q \<in> free_pages_of s \<and>
    free_pages_of s' = free_pages_of s - {q} \<and> bf_inv s' \<and> low_blocks n s' \<and> table_page q \<and> mem_only s s' \<and>
    ents (mem s') = set_entry ((ents (mem s))(q := (\<lambda>_. 0))) p i v \<and> pte_valid v \<and> pte_page v = q \<and>
    (\<forall>i. page_ref (pages s' i) = (if i = q then 1 else page_ref (pages s i))) \<and> page_usable s' = page_usable s"
proof -
  have e: "\<not> pte_valid (load64 (mem s) (entry_at (page_va p) i))"
    using i ents_load [OF p(1) i(1), of s] by simp
  obtain q s' where q: "get_table alloc_page True (entry_at (page_va p) i) s = ret (True, s')" "q \<in> free_pages_of s"
      "free_pages_of s' = free_pages_of s - {q}" "bf_inv s'" "low_blocks n s'" "table_page q"
      "mem s' = store64 (memset (mem s) (page_va q) 0 PAGE_SIZE) (entry_at (page_va p) i) (ppn2pte (of_nat q) (ucast PTE_V))"
      "mem_only s s'" "\<And>i. page_ref (pages s' i) = (if i = q then 1 else page_ref (pages s i))" "page_usable s' = page_usable s"
    using get_table_new [OF tabs_okD(1) [OF ok] ne low e] by blast
  have "ents (mem s') = set_entry ((ents (mem s))(q := (\<lambda>_. 0))) p i (ppn2pte (of_nat q) (ucast PTE_V))"
    unfolding q(7) ents_store [OF p(1) i(1)] ents_memset [OF table_page_dram [OF q(6)]] ..
  moreover have "q < 0x88000"
    using q(6) by (simp add: table_page_def)
  ultimately show ?thesis
    using q table_pte by blast
qed

lemma tabs_ok_new:
  assumes ok: "tabs_ok s g" and q: "q \<in> free_pages_of s" "free_pages_of s' = free_pages_of s - {q}" "bf_inv s'"
    "table_page q" "mem_only s s'" "page_usable s' = page_usable s"
    "\<And>i. page_ref (pages s' i) = (if i = q then 1 else page_ref (pages s i))"
    and E: "tree_ok (ents (mem s')) g" "tables (ents (mem s')) g = insert q (tables (ents (mem s)) g)"
    "\<And>t. t \<in> vpages \<Longrightarrow> pmap (ents (mem s')) g t = pmap (ents (mem s)) g t"
  shows "grown g s s'"
proof -
  have "tabs_ok s' g"
    using ok q E by (auto simp: tabs_ok_def)
  then show ?thesis
    using q E by (auto simp: grown_def)
qed

lemma level1:
  assumes ok: "tabs_ok s g" and ne: "free_pages_of s \<noteq> {}" and low: "low_blocks (Suc n) s" and i: "i < 2"
  shows "\<exists>p s'. get_table alloc_page True (entry_at (page_va g) i) s = ret (True, s') \<and> mid_table (ents (mem s')) g i = Some p \<and>
    grown g s s' \<and> low_blocks n s' \<and> card (free_pages_of s) \<le> Suc (card (free_pages_of s'))"
proof (cases "pte_valid (ents (mem s) g i)")
  case True
  have "low_blocks n s"
    using low by (auto simp: low_blocks_def)
  then show ?thesis
    using True grown_refl [OF ok] ents_load [OF tabs_okD(2) [OF ok] user_index [OF i], of s]
    by (auto simp: get_table_old mid_table_def)
next
  case False
  note g = tabs_okD(2) [OF ok]
  have gt: "g \<in> tables (ents (mem s)) g"
    by (simp add: tables_def)
  obtain q s' v where q: "get_table alloc_page True (entry_at (page_va g) i) s = ret (True, s')" "q \<in> free_pages_of s"
      "free_pages_of s' = free_pages_of s - {q}" "bf_inv s'" "low_blocks n s'" "table_page q" "mem_only s s'"
      "ents (mem s') = set_entry ((ents (mem s))(q := (\<lambda>_. 0))) g i v" "pte_valid v" "pte_page v = q"
      "\<And>i. page_ref (pages s' i) = (if i = q then 1 else page_ref (pages s i))" "page_usable s' = page_usable s"
    using new_table [OF ok ne low g gt user_index [OF i] False] by blast
  have qt: "q \<notin> tables (ents (mem s)) g"
    using tabs_okD(6) [OF ok] q(2) by blast
  then have qg: "q \<noteq> g"
    using gt by auto
  have "tree_ok (ents (mem s')) g" "tables (ents (mem s')) g = insert q (tables (ents (mem s)) g)"
      "\<And>t. t \<in> vpages \<Longrightarrow> pmap (ents (mem s')) g t = pmap (ents (mem s)) g t"
    by (rule new_mid [OF tabs_okD(3) [OF ok] qt i False _ _ _ q(9,10)]; use qg in \<open>simp add: q(8)\<close>)+
  then have "grown g s s'"
    by (rule tabs_ok_new [OF ok q(2,3,4,6,7,12,11)])
  moreover have "mid_table (ents (mem s')) g i = Some q"
    using q(8-10) by (simp add: mid_table_def)
  moreover have "card (free_pages_of s) \<le> Suc (card (free_pages_of s'))"
    unfolding q(3) using bf.frees_finite [OF tabs_okD(1) [OF ok]] q(2) by (simp add: card_Diff_singleton)
  ultimately show ?thesis
    using q(1,5) by blast
qed

lemma level2:
  assumes ok: "tabs_ok s g" and ne: "free_pages_of s \<noteq> {}" and low: "low_blocks (Suc n) s" and i: "i < 2" "j < 512"
    and p: "mid_table (ents (mem s)) g i = Some p"
  shows "\<exists>r s'. get_table alloc_page True (entry_at (page_va p) j) s = ret (True, s') \<and> leaf_table (ents (mem s')) g i j = Some r \<and>
    mid_table (ents (mem s')) p j = Some r \<and> grown g s s' \<and> low_blocks n s' \<and>
    card (free_pages_of s) \<le> Suc (card (free_pages_of s'))"
proof -
  have pm: "p \<in> mids (ents (mem s)) g"
    using midsI [OF i(1) p] .
  then have pt: "p \<in> tables (ents (mem s)) g" and dp: "dram_page p"
    using tabs_okD(4) [OF ok] by (auto simp: tables_def table_page_dram)
  show ?thesis
  proof (cases "pte_valid (ents (mem s) p j)")
    case True
    have "low_blocks n s"
      using low by (auto simp: low_blocks_def)
    then show ?thesis
      using True grown_refl [OF ok] ents_load [OF dp i(2), of s] p by (auto simp: get_table_old mid_table_def leaf_table_def)
  next
    case False
    obtain q s' v where q: "get_table alloc_page True (entry_at (page_va p) j) s = ret (True, s')" "q \<in> free_pages_of s"
        "free_pages_of s' = free_pages_of s - {q}" "bf_inv s'" "low_blocks n s'" "table_page q" "mem_only s s'"
        "ents (mem s') = set_entry ((ents (mem s))(q := (\<lambda>_. 0))) p j v" "pte_valid v" "pte_page v = q"
        "\<And>i. page_ref (pages s' i) = (if i = q then 1 else page_ref (pages s i))" "page_usable s' = page_usable s"
      using new_table [OF ok ne low dp pt i(2) False] by blast
    have qt: "q \<notin> tables (ents (mem s)) g"
      using tabs_okD(6) [OF ok] q(2) by blast
    then have qp: "q \<noteq> p" "q \<noteq> g" "p \<noteq> g"
      using pt pm tree_okD(3) [OF tabs_okD(3) [OF ok]] by (auto simp: tables_def)
    have "tree_ok (ents (mem s')) g" "tables (ents (mem s')) g = insert q (tables (ents (mem s)) g)"
        "\<And>t. t \<in> vpages \<Longrightarrow> pmap (ents (mem s')) g t = pmap (ents (mem s)) g t"
      by (rule new_leaf [OF tabs_okD(3) [OF ok] qt i p False _ _ _ q(9,10)]; use qp in \<open>simp add: q(8)\<close>)+
    then have "grown g s s'"
      by (rule tabs_ok_new [OF ok q(2,3,4,6,7,12,11)])
    moreover have "mid_table (ents (mem s')) g i = Some p" "mid_table (ents (mem s')) p j = Some q"
      using p q(8-10) qp by (simp_all add: mid_table_def split: if_splits)
    moreover have "card (free_pages_of s) \<le> Suc (card (free_pages_of s'))"
      unfolding q(3) using bf.frees_finite [OF tabs_okD(1) [OF ok]] q(2) by (simp add: card_Diff_singleton)
    ultimately show ?thesis
      using q(1,5) by (auto simp: leaf_table_def)
  qed
qed

text \<open>Two pages are enough for the tables on the way to an entry.\<close>

lemma get_pte_room:
  assumes ok: "tabs_ok s g" and va: "va < USER_END" and t: "vpn va = (i, j, k)" and room: "2 \<le> card (free_pages_of s)" and low: "low_blocks (Suc (Suc n)) s"
  shows "\<exists>p s'. get_pte (page_va g) va True s = ret (Some (entry_at (page_va p) k), s') \<and> grown g s s' \<and>
    leaf_table (ents (mem s')) g i j = Some p \<and> low_blocks n s' \<and>
    card (free_pages_of s) \<le> Suc (Suc (card (free_pages_of s')))"
proof -
  have b: "i < 2" "j < 512" "k < 512" "i < 512" "get_gptx va = i" "get_mptx va = j" "get_ptx va = k"
    using t vpn_range [OF va] user_index by (auto simp: vpn_def vpages_def)
  have ne: "free_pages_of s \<noteq> {}"
    using room by auto
  obtain p s1 where s1: "get_table alloc_page True (entry_at (page_va g) i) s = ret (True, s1)" "mid_table (ents (mem s1)) g i = Some p"
      "grown g s s1" "low_blocks (Suc n) s1" "card (free_pages_of s) \<le> Suc (card (free_pages_of s1))"
    using level1 [OF ok ne low b(1)] by blast
  have ok1: "tabs_ok s1 g"
    using s1(3) by (simp add: grown_def)
  have ne1: "free_pages_of s1 \<noteq> {}"
    using room s1(5) by auto
  obtain r s2 where s2: "get_table alloc_page True (entry_at (page_va p) j) s1 = ret (True, s2)"
      "leaf_table (ents (mem s2)) g i j = Some r" "mid_table (ents (mem s2)) p j = Some r" "grown g s1 s2"
      "low_blocks n s2" "card (free_pages_of s1) \<le> Suc (card (free_pages_of s2))"
    using level2 [OF ok1 ne1 s1(4) b(1,2) s1(2)] by blast
  have ok2: "tabs_ok s2 g"
    using s2(4) by (simp add: grown_def)
  have tp: "table_page p"
    using tabs_okD(4) [OF ok1 midsI [OF b(1) s1(2)]] .
  have tr: "table_page r"
    using tabs_okD(5) [OF ok2 leavesI [OF b(1,2) s2(2)]] .
  have v1: "pte2va (load64 (mem s1) (entry_at (page_va g) i)) = ret (page_va p)"
    using s1(2) tp pte2va_ok [of "ents (mem s1) g i"] ents_load [OF tabs_okD(2) [OF ok] b(4), of s1]
    by (auto simp: mid_table_def table_page_def split: if_splits)
  have v2: "pte2va (load64 (mem s2) (entry_at (page_va p) j)) = ret (page_va r)"
    using s2(3) tr pte2va_ok [of "ents (mem s2) p j"] ents_load [OF table_page_dram [OF tp] b(2), of s2]
    by (auto simp: mid_table_def table_page_def split: if_splits)
  have "get_pte (page_va g) va True s = ret (Some (entry_at (page_va r) k), s2)"
    using b s1(1) s2(1) v1 v2 by (simp add: get_pte_def get_pte_by_def Let_def)
  moreover have "card (free_pages_of s) \<le> Suc (Suc (card (free_pages_of s2)))"
    using s1(5) s2(6) by linarith
  ultimately show ?thesis
    using s2(2,5) grown_trans [OF s1(3) s2(4)] by blast
qed

lemma get_pte_create:
  assumes "tabs_ok s g" "va < USER_END" "vpn va = (i, j, k)" "2 \<le> card (free_pages_of s)" "low_blocks 2 s"
  shows "\<exists>p s'. get_pte (page_va g) va True s = ret (Some (entry_at (page_va p) k), s') \<and> grown g s s' \<and>
    leaf_table (ents (mem s')) g i j = Some p"
  using get_pte_room [OF assms(1-4), of 0] assms(5) by (auto simp: numeral_2_eq_2)

section \<open>Address spaces\<close>

definition mappers :: "table_store \<Rightarrow> nat \<Rightarrow> nat \<Rightarrow> vpage set" where
  "mappers E g q = {t\<in>vpages. pte_valid (pmap E g t) \<and> pte_page (pmap E g t) = q}"

text \<open>Allocated pages that are no tables of \<open>g\<close>.\<close>

definition data_page :: "'z sched_scheme \<Rightarrow> nat \<Rightarrow> nat \<Rightarrow> bool" where
  "data_page s g q \<longleftrightarrow> page_usable s q \<and> q \<notin> free_pages_of s \<and> q \<notin> tables (ents (mem s)) g"

text \<open>\<open>x\<close> gives the references to a page that are not mappings of this address space.\<close>

definition aspace :: "(nat \<Rightarrow> nat) \<Rightarrow> 'z sched_scheme \<Rightarrow> nat \<Rightarrow> bool" where
  "aspace x s g \<longleftrightarrow> tabs_ok s g \<and>
     (\<forall>t\<in>vpages. pte_valid (pmap (ents (mem s)) g t) \<longrightarrow> data_page s g (pte_page (pmap (ents (mem s)) g t))) \<and>
     (\<forall>q. data_page s g q \<longrightarrow> unat (page_ref (pages s q)) = card (mappers (ents (mem s)) g q) + x q)"

lemma aspaceD:
  assumes "aspace x s g"
  shows "tabs_ok s g" "t \<in> vpages \<Longrightarrow> pte_valid (pmap (ents (mem s)) g t) \<Longrightarrow> data_page s g (pte_page (pmap (ents (mem s)) g t))"
    "data_page s g q \<Longrightarrow> unat (page_ref (pages s q)) = card (mappers (ents (mem s)) g q) + x q"
  using assms by (auto simp: aspace_def)

lemma finite_mappers [simp]: "finite (mappers E g q)"
  using finite_subset [OF _ finite_vpages, of "mappers E g q"] by (auto simp: mappers_def)

lemma mappers_cong: "(\<And>t. t \<in> vpages \<Longrightarrow> pmap E' g t = pmap E g t) \<Longrightarrow> mappers E' g q = mappers E g q"
  by (auto simp: mappers_def)

lemma aspace_grown:
  assumes a: "aspace x s g" and gr: "grown g s s'"
  shows "aspace x s' g"
proof -
  have G: "tabs_ok s' g" "free_pages_of s' \<subseteq> free_pages_of s"
    "\<And>t. t \<in> vpages \<Longrightarrow> pmap (ents (mem s')) g t = pmap (ents (mem s)) g t"
    "tables (ents (mem s')) g \<subseteq> tables (ents (mem s)) g \<union> free_pages_of s"
    "tables (ents (mem s)) g \<subseteq> tables (ents (mem s')) g"
    "free_pages_of s \<subseteq> free_pages_of s' \<union> tables (ents (mem s')) g"
    "\<And>q. q \<notin> free_pages_of s \<Longrightarrow> page_ref (pages s' q) = page_ref (pages s q)" "page_usable s' = page_usable s"
    using gr unfolding grown_def by blast+
  have d: "data_page s' g q = data_page s g q" for q
    unfolding data_page_def G(8) using G(2,4,5,6) by blast
  have ref: "page_ref (pages s' q) = page_ref (pages s q)" if "data_page s g q" for q
    using that G(7) by (simp add: data_page_def)
  have "mappers (ents (mem s')) g q = mappers (ents (mem s)) g q" for q
    by (rule mappers_cong [OF G(3)])
  then show ?thesis
    unfolding aspace_def d using a G(1,3) ref by (simp add: aspace_def)
qed

text \<open>The state after an entry of the page's leaf table is written.\<close>

lemma store_leaf:
  fixes v :: u64
  assumes ok: "tabs_ok s g" and t: "t = (i, j, k)" "t \<in> vpages" and p: "leaf_table (ents (mem s)) g i j = Some p"
  defines "s' \<equiv> store_pte (entry_at (page_va p) k) v s"
  shows "tabs_ok s' g" "tables (ents (mem s')) g = tables (ents (mem s)) g"
    "u \<in> vpages \<Longrightarrow> pmap (ents (mem s')) g u = (if u = t then v else pmap (ents (mem s)) g u)"
    "load64 (mem s) (entry_at (page_va p) k) = pmap (ents (mem s)) g t" "data_page s' g q = data_page s g q"
proof -
  have b: "i < 2" "j < 512" "k < 512"
    using t by (auto simp: vpages_def)
  have dp: "dram_page p"
    using tabs_okD(5) [OF ok leavesI [OF b(1,2) p]] table_page_dram by blast
  have E: "ents (mem s') = set_entry (ents (mem s)) p k v"
    using ents_store [OF dp b(3)] by (simp add: s'_def store_pte_def)
  note L = set_leaf [OF tabs_okD(3) [OF ok] t p, where v = v, folded E]
  have sf: "same_free s s'"
    by (simp add: s'_def)
  show tt: "tables (ents (mem s')) g = tables (ents (mem s)) g"
    by (rule L(2))
  show "tabs_ok s' g"
    using ok L(1) tt same_free_inv [OF sf] by (simp add: tabs_ok_def)
  show "u \<in> vpages \<Longrightarrow> pmap (ents (mem s')) g u = (if u = t then v else pmap (ents (mem s)) g u)"
    by (rule L(3))
  show "load64 (mem s) (entry_at (page_va p) k) = pmap (ents (mem s)) g t"
    using ents_load [OF dp b(3), of s] p t by (simp add: pmap_def)
  show "data_page s' g q = data_page s g q"
    using tt same_free_inv [OF sf] by (simp add: data_page_def)
qed

lemma del_page_ok:
  assumes a: "aspace x s g" and va: "va < USER_END" and e: "pmap (ents (mem s)) g (vpn va) = e" "pte_valid e"
  defines "q \<equiv> pte_page e"
  shows "\<exists>s'. del_page (page_va g) va s = ret s' \<and> aspace x s' g \<and> mem_only s s' \<and>
    (\<forall>u\<in>vpages. pmap (ents (mem s')) g u = (if u = vpn va then 0 else pmap (ents (mem s)) g u)) \<and>
    tables (ents (mem s')) g = tables (ents (mem s)) g \<and> page_usable s' = page_usable s \<and>
    free_pages_of s' = (if page_ref (pages s q) = 1 then insert q (free_pages_of s) else free_pages_of s) \<and>
    (\<forall>r. r \<noteq> q \<longrightarrow> page_ref (pages s' r) = page_ref (pages s r)) \<and>
    (\<exists>p. leaf_table (ents (mem s)) g (fst (vpn va)) (fst (snd (vpn va))) = Some p \<and>
      mem s' = store64 (mem s) (entry_at (page_va p) (snd (snd (vpn va)))) 0)"
proof -
  obtain i j k where t: "vpn va = (i, j, k)"
    by (metis prod_cases3)
  have tv: "(i, j, k) \<in> vpages"
    using vpn_range [OF va] by (simp add: t)
  note ok = aspaceD(1) [OF a]
  obtain p where p: "leaf_table (ents (mem s)) g i j = Some p"
    using e by (cases "leaf_table (ents (mem s)) g i j") (auto simp: t pmap_def)
  let ?a = "entry_at (page_va p) k"
  have load: "load64 (mem s) ?a = e"
    using store_leaf(4) [OF ok refl tv p] e(1) by (simp add: t)
  have dq: "data_page s g q"
    using aspaceD(2) [OF a vpn_range [OF va]] e by (simp add: q_def)
  have tq: "vpn va \<in> mappers (ents (mem s)) g q"
    using e vpn_range [OF va] by (simp add: mappers_def q_def)
  have card: "0 < card (mappers (ents (mem s)) g q)"
    using tq by (auto simp: card_gt_0_iff)
  have refq: "unat (page_ref (pages s q)) = card (mappers (ents (mem s)) g q) + x q"
    using aspaceD(3) [OF a dq] .
  define s2 where "s2 = upd_page q (\<lambda>r. r\<lparr>page_ref := page_ref r - 1\<rparr>) s"
  have sf: "same_free s s2"
    by (simp add: s2_def)
  have m2: "mem s2 = mem s" "mem_only s s2"
    by (simp_all add: s2_def upd_page_def mem_only_def)
  have r2: "page_ref (pages s2 r) = (if r = q then page_ref (pages s q) - 1 else page_ref (pages s r))" for r
    by (simp add: s2_def upd_page_def)
  have nz: "page_ref (pages s q) \<noteq> 0"
    using refq card by auto
  have u1: "unat (page_ref (pages s q) - 1) = unat (page_ref (pages s q)) - 1"
    using unat_minus_one [OF nz] .
  have z: "page_ref (pages s2 q) = 0 \<longleftrightarrow> page_ref (pages s q) = 1"
    by (simp add: r2)
  obtain s3 where s3: "(if page_ref (pages s2 q) = 0 then free_page q s2 else ret s2) = ret s3" "bf_inv s3" "mem s3 = mem s"
      "mem_only s s3" "free_pages_of s3 = (if page_ref (pages s q) = 1 then insert q (free_pages_of s) else free_pages_of s)"
      "page_usable s3 = page_usable s" "\<And>r. page_ref (pages s3 r) = page_ref (pages s2 r)"
  proof (cases "page_ref (pages s2 q) = 0")
    case True
    obtain s3 where f: "free_page q s2 = ret s3" "bf_inv s3" "free_pages_of s3 = insert q (free_pages_of s2)" "pmm_only s2 s3"
        "\<And>r. page_ref (pages s3 r) = (if r = q then 0 else page_ref (pages s2 r))" "page_usable s3 = page_usable s2"
      using free_page_ok [of s2 q] dq tabs_okD(1) [OF ok] same_free_inv [OF sf] by (auto simp: data_page_def)
    show thesis
      by (rule that [of s3])
        (use True z f same_free_inv [OF sf] m2 pmm_only_sel(1) [OF f(4)] mem_only_trans [OF m2(2) pmm_mem_only [OF f(4)]] in auto)
  next
    case False
    show thesis
      by (rule that [of s2]) (use False z m2 same_free_inv [OF sf] tabs_okD(1) [OF ok] in auto)
  qed
  define s' where "s' = store_pte ?a 0 s3"
  have run: "del_page (page_va g) va s = ret s'"
  proof -
    have "get_pte (page_va g) va False s = ret (Some ?a, s)"
      unfolding get_pte_def get_pte_found [OF ok va t] by (simp add: p)
    moreover have "pte2page e = ret q"
      using e(2) by (simp add: pte2page_def pte_valid_def q_def pte_page_def)
    ultimately have "del_page (page_va g) va s =
        bind_exec (if page_ref (pages s2 q) = 0 then free_page q s2 else ret s2) (\<lambda>s3. ret (store_pte ?a 0 s3))"
      using e(2) load by (simp add: del_page_def pte_valid_def s2_def Let_def)
    then show ?thesis
      unfolding s3(1) by (simp add: s'_def)
  qed
  have qt: "q \<notin> tables (ents (mem s)) g"
    using dq by (simp add: data_page_def)
  have ok3: "tabs_ok s3 g"
    using ok s3(2,3,5) qt by (auto simp: tabs_ok_def)
  have E3: "ents (mem s3) = ents (mem s)"
    by (simp add: s3(3))
  have p3: "leaf_table (ents (mem s3)) g i j = Some p"
    using p by (simp add: E3)
  note L = store_leaf(1-3) [OF ok3 refl tv p3, where v = 0, folded s'_def, unfolded E3 t [symmetric]]
  have fr: "same_free s3 s'"
    by (simp add: s'_def)
  have ref': "page_ref (pages s' r) = page_ref (pages s2 r)" for r
    using s3(7) by (simp add: s'_def store_pte_def)
  have pm: "pmap (ents (mem s')) g u = (if u = vpn va then 0 else pmap (ents (mem s)) g u)" if "u \<in> vpages" for u
    using L(3) [OF that] .
  have mp: "mappers (ents (mem s')) g r = mappers (ents (mem s)) g r - {vpn va}" for r
  proof (rule set_eqI)
    fix u
    show "u \<in> mappers (ents (mem s')) g r \<longleftrightarrow> u \<in> mappers (ents (mem s)) g r - {vpn va}"
      using pm [of u] by (cases "u \<in> vpages"; cases "u = vpn va") (simp_all add: mappers_def)
  qed
  have dp: "data_page s' g r \<longleftrightarrow> data_page s g r \<and> (r = q \<longrightarrow> page_ref (pages s q) \<noteq> 1)" for r
    using L(2) same_free_inv [OF fr] s3(5,6) by (auto simp: data_page_def)
  have as': "aspace x s' g"
    unfolding aspace_def
  proof (intro conjI ballI impI allI)
    show "tabs_ok s' g"
      by (rule L(1))
  next
    fix u
    assume u: "u \<in> vpages" "pte_valid (pmap (ents (mem s')) g u)"
    then have un: "u \<noteq> vpn va" "pmap (ents (mem s')) g u = pmap (ents (mem s)) g u"
      using pm [of u] by (auto split: if_splits)
    have d: "data_page s g (pte_page (pmap (ents (mem s)) g u))"
      using aspaceD(2) [OF a u(1)] u(2) un(2) by simp
    have "page_ref (pages s q) \<noteq> 1" if "pte_page (pmap (ents (mem s)) g u) = q"
    proof
      assume one: "page_ref (pages s q) = 1"
      have "{u, vpn va} \<subseteq> mappers (ents (mem s)) g q"
        using that u un tq by (simp add: mappers_def)
      then have "2 \<le> card (mappers (ents (mem s)) g q)"
        using card_mono [of "mappers (ents (mem s)) g q" "{u, vpn va}"] un(1) by simp
      with refq one show False
        by simp
    qed
    with d show "data_page s' g (pte_page (pmap (ents (mem s')) g u))"
      unfolding dp un(2) by blast
  next
    fix r
    assume "data_page s' g r"
    then have d: "data_page s g r"
      by (simp add: dp)
    show "unat (page_ref (pages s' r)) = card (mappers (ents (mem s')) g r) + x r"
    proof (cases "r = q")
      case True
      then show ?thesis
        using tq refq card u1 by (simp add: ref' r2 mp card_Diff_singleton)
    next
      case False
      then have "vpn va \<notin> mappers (ents (mem s)) g r"
        using e(1) by (auto simp: mappers_def q_def)
      then show ?thesis
        using aspaceD(3) [OF a d] False by (simp add: ref' r2 mp)
    qed
  qed
  have mm: "mem s' = store64 (mem s) ?a 0"
    by (simp add: s'_def store_pte_def s3(3))
  have ref_other: "page_ref (pages s' r) = page_ref (pages s r)" if "r \<noteq> q" for r
    using that ref' [of r] by (simp add: r2)
  have mo: "mem_only s s'"
    using mem_only_trans [OF s3(4), of s'] by (simp add: s'_def)
  show ?thesis
    using run as' mo pm L(2) same_free_inv(4,5) [OF fr] s3(5,6) ref_other p mm
    by (intro exI [of _ s']) (simp add: t)
qed

text \<open>Writing a valid entry over an invalid one, or over one for the same page.\<close>

lemma store_map:
  fixes v :: u64
  assumes a: "aspace y s g" and t: "t = (i, j, k)" "t \<in> vpages" and p: "leaf_table (ents (mem s)) g i j = Some p"
    and e: "e = pmap (ents (mem s)) g t" "pte_valid e \<longrightarrow> pte_page e = q"
    and y: "y = (if pte_valid e then x else x(q := x q + 1))"
    and v: "pte_valid v" "pte_page v = q" and q: "data_page s g q"
  defines "s' \<equiv> store_pte (entry_at (page_va p) k) v s"
  shows "aspace x s' g" "u \<in> vpages \<Longrightarrow> pmap (ents (mem s')) g u = (if u = t then v else pmap (ents (mem s)) g u)"
proof -
  note ok = aspaceD(1) [OF a]
  note L = store_leaf(1-3) [OF ok t p, where v = v, folded s'_def] and LD = store_leaf(5) [OF ok t p, where v = v, folded s'_def]
  show pm: "pmap (ents (mem s')) g u = (if u = t then v else pmap (ents (mem s)) g u)" if "u \<in> vpages" for u
    by (rule L(3) [OF that])
  have mp: "mappers (ents (mem s')) g r = (if r = q then insert t (mappers (ents (mem s)) g r) else mappers (ents (mem s)) g r)" for r
  proof (rule set_eqI)
    fix u
    show "u \<in> mappers (ents (mem s')) g r \<longleftrightarrow>
        u \<in> (if r = q then insert t (mappers (ents (mem s)) g r) else mappers (ents (mem s)) g r)"
      using pm [of u] v t(2) e by (cases "u \<in> vpages"; cases "u = t") (auto simp: mappers_def)
  qed
  have tm: "t \<in> mappers (ents (mem s)) g q \<longleftrightarrow> pte_valid e"
    using e t(2) by (auto simp: mappers_def)
  have ref: "page_ref (pages s' r) = page_ref (pages s r)" for r
    by (simp add: s'_def store_pte_def)
  show "aspace x s' g"
    unfolding aspace_def
  proof (intro conjI ballI impI allI)
    show "tabs_ok s' g"
      by (rule L(1))
  next
    fix u
    assume u: "u \<in> vpages" "pte_valid (pmap (ents (mem s')) g u)"
    show "data_page s' g (pte_page (pmap (ents (mem s')) g u))"
      unfolding LD using pm [OF u(1)] u q v(2) aspaceD(2) [OF a u(1)] by (cases "u = t") simp_all
  next
    fix r
    assume "data_page s' g r"
    then have "unat (page_ref (pages s r)) = card (mappers (ents (mem s)) g r) + y r"
      using aspaceD(3) [OF a] by (simp add: LD)
    then show "unat (page_ref (pages s' r)) = card (mappers (ents (mem s')) g r) + x r"
      using tm by (simp add: ref mp y insert_absorb)
  qed
qed

lemma page_usable_ppn: "page_usable s q \<Longrightarrow> page2ppn q = ret (of_nat q) \<and> q < 2 ^ 40"
proof -
  assume u: "page_usable s q"
  then have q: "unat (of_nat q :: u64) = q"
    by (intro unat_of_nat_u64) (simp add: page_usable_def)
  have "ppn_managed (of_nat q)"
    using u by (simp add: page_usable_def ppn_managed_def word_le_nat_alt word_less_nat_alt q)
  then show ?thesis
    using u by (simp add: page2ppn_def page_usable_def)
qed

lemma map_pte:
  assumes "page_usable s q" "unat flags < 1024"
  shows "pte_valid (ppn2pte (of_nat q) (ucast PTE_V OR flags))" "pte_page (ppn2pte (of_nat q) (ucast PTE_V OR flags)) = q"
proof -
  let ?f = "ucast PTE_V OR flags"
  show "pte_valid (ppn2pte (of_nat q) ?f)"
    by (rule pte_valid_ppn2pte) (simp add: PTE_V_def bit_or_iff)
  have f: "take_bit 10 flags = flags"
    using assms(2) by (simp add: word_unat_eq_iff unsigned_take_bit_eq take_bit_nat_eq_self)
  have "take_bit 10 ?f = ?f"
    unfolding take_bit_or f by (simp add: PTE_V_def)
  then have "unat ?f = take_bit 10 (unat ?f)"
    by (metis unsigned_take_bit_eq)
  then have "unat ?f < 1024"
    using take_bit_nat_less_exp [of 10 "unat ?f"] by simp
  then show "pte_page (ppn2pte (of_nat q) ?f) = q"
    using page_usable_ppn [OF assms(1)] by (intro pte_ppn2pte) auto
qed

lemma add_ref:
  assumes a: "aspace x s g" and q: "data_page s g q" "page_ref (pages s q) \<noteq> - 1"
  defines "s' \<equiv> upd_page q (\<lambda>r. r\<lparr>page_ref := page_ref r + 1\<rparr>) s"
  shows "aspace (x(q := x q + 1)) s' g" "mem s' = mem s" "mem_only s s'" "same_free s s'" "data_page s' g r = data_page s g r"
proof -
  show m: "mem s' = mem s" and "mem_only s s'" and sf: "same_free s s'"
    by (simp_all add: s'_def upd_page_def same_free_def mem_only_def)
  show d: "data_page s' g r = data_page s g r" for r
    using same_free_inv [OF sf] by (simp add: data_page_def m)
  have "page_ref (pages s q) + 1 \<noteq> 0"
    using q(2) by (metis add.inverse_inverse add_eq_0_iff)
  then have "unat (page_ref (pages s q) + 1) = unat (page_ref (pages s q)) + 1"
    using unat_minus_one [of "page_ref (pages s q) + 1"] unat_gt_0 [of "page_ref (pages s q) + 1"] by simp
  then have "unat (page_ref (pages s' r)) = unat (page_ref (pages s r)) + (if r = q then 1 else 0)" for r
    by (simp add: s'_def upd_page_def)
  then show "aspace (x(q := x q + 1)) s' g"
    using a d same_free_inv [OF sf] by (simp add: aspace_def m tabs_ok_def)
qed

lemma sub_ref:
  assumes a: "aspace (x(q := x q + 1)) s g" and q: "data_page s g q"
  defines "s' \<equiv> upd_page q (\<lambda>r. r\<lparr>page_ref := page_ref r - 1\<rparr>) s"
  shows "aspace x s' g" "mem s' = mem s" "mem_only s s'" "same_free s s'" "data_page s' g r = data_page s g r"
proof -
  show m: "mem s' = mem s" and "mem_only s s'" and sf: "same_free s s'"
    by (simp_all add: s'_def upd_page_def same_free_def mem_only_def)
  show d: "data_page s' g r = data_page s g r" for r
    using same_free_inv [OF sf] by (simp add: data_page_def m)
  have one: "unat (page_ref (pages s q)) = card (mappers (ents (mem s)) g q) + (x q + 1)"
    using aspaceD(3) [OF a q] by simp
  then have "page_ref (pages s q) \<noteq> 0"
    by auto
  then have "unat (page_ref (pages s q) - 1) = unat (page_ref (pages s q)) - 1"
    by (rule unat_minus_one)
  then have "unat (page_ref (pages s' r)) = (if r = q then unat (page_ref (pages s q)) - 1 else unat (page_ref (pages s r)))" for r
    by (simp add: s'_def upd_page_def)
  moreover have "unat (page_ref (pages s r)) = card (mappers (ents (mem s)) g r) + (x(q := x q + 1)) r" if "data_page s g r" for r
    using aspaceD(3) [OF a that] .
  ultimately show "aspace x s' g"
    using a d same_free_inv [OF sf] one by (auto simp: aspace_def m tabs_ok_def)
qed

text \<open>What stands between the new reference and the new entry in \<open>add_page\<close>.\<close>

definition drop_old :: "u64 \<Rightarrow> nat \<Rightarrow> u64 \<Rightarrow> u64 \<Rightarrow> 'z sched_scheme \<Rightarrow> 'z sched_scheme exec" where
  "drop_old gpt page addr a s =
     (if load64 (mem s) a AND PTE_V \<noteq> 0 then
        bind_exec (pte2page (load64 (mem s) a)) (\<lambda>p.
          if p = page then ret (upd_page page (\<lambda>q. q\<lparr>page_ref := page_ref q - 1\<rparr>) s)
          else del_page gpt addr s)
      else ret s)"

lemma drop_old_ok:
  assumes a: "aspace (x(q := x q + 1)) s g" and q: "data_page s g q" and va: "va < USER_END" and t: "vpn va = (i, j, k)"
    and p: "leaf_table (ents (mem s)) g i j = Some p"
  shows "\<exists>s' e. drop_old (page_va g) q va (entry_at (page_va p) k) s = ret s' \<and> mem_only s s' \<and>
    e = pmap (ents (mem s')) g (vpn va) \<and> (pte_valid e \<longrightarrow> pte_page e = q) \<and>
    aspace (if pte_valid e then x else x(q := x q + 1)) s' g \<and> data_page s' g q \<and>
    leaf_table (ents (mem s')) g i j = Some p \<and>
    (\<forall>u\<in>vpages. u \<noteq> vpn va \<longrightarrow> pmap (ents (mem s')) g u = pmap (ents (mem s)) g u)"
proof -
  note ok = aspaceD(1) [OF a]
  have tv: "(i, j, k) \<in> vpages"
    using vpn_range [OF va] by (simp add: t)
  let ?e = "pmap (ents (mem s)) g (vpn va)" and ?a = "entry_at (page_va p) k"
  have load: "load64 (mem s) ?a = ?e"
    using store_leaf(4) [OF ok refl tv p] by (simp add: t)
  have run: "drop_old (page_va g) q va ?a s = (if pte_valid ?e then (if pte_page ?e = q
      then ret (upd_page q (\<lambda>r. r\<lparr>page_ref := page_ref r - 1\<rparr>) s) else del_page (page_va g) va s) else ret s)"
    by (simp add: drop_old_def load pte_valid_def pte2page_def pte_page_def)
  consider (none) "\<not> pte_valid ?e" | (same) "pte_valid ?e" "pte_page ?e = q" | (other) "pte_valid ?e" "pte_page ?e \<noteq> q"
    by blast
  then show ?thesis
  proof cases
    case none
    then show ?thesis
      using run a q p by (intro exI [of _ s] exI [of _ ?e]) simp
  next
    case same
    note S = sub_ref [OF a q]
    show ?thesis
      by (rule exI [of _ "upd_page q (\<lambda>r. r\<lparr>page_ref := page_ref r - 1\<rparr>) s"], rule exI [of _ ?e])
        (use run same S q p in simp)
  next
    case other
    from del_page_ok [OF a va refl other(1)]
    obtain s' p' where d: "del_page (page_va g) va s = ret s'" "aspace (x(q := x q + 1)) s' g" "mem_only s s'"
        "\<forall>u\<in>vpages. pmap (ents (mem s')) g u = (if u = vpn va then 0 else pmap (ents (mem s)) g u)"
        "tables (ents (mem s')) g = tables (ents (mem s)) g" "page_usable s' = page_usable s"
        "free_pages_of s' = (if page_ref (pages s (pte_page ?e)) = 1 then insert (pte_page ?e) (free_pages_of s) else free_pages_of s)"
        "leaf_table (ents (mem s)) g (fst (vpn va)) (fst (snd (vpn va))) = Some p'"
        "mem s' = store64 (mem s) (entry_at (page_va p') (snd (snd (vpn va)))) 0"
      by blast
    have b: "i < 2" "j < 512" "k < 512"
      using tv by (auto simp: vpages_def)
    have pl: "p \<in> leaves (ents (mem s)) g"
      using leavesI [OF b(1,2) p] .
    have E: "ents (mem s') = set_entry (ents (mem s)) p k 0"
      using ents_store [OF table_page_dram [OF tabs_okD(5) [OF ok pl]] b(3)] d(8,9) p by (simp add: t)
    have "leaf_table (ents (mem s')) g i j = Some p"
      unfolding E set_leaf_tables(2) [OF tabs_okD(3) [OF ok] pl b(1)] by (rule p)
    moreover have "data_page s' g q"
      using q d(5-7) other(2) by (simp add: data_page_def)
    moreover have "pmap (ents (mem s')) g (vpn va) = 0"
      using d(4) vpn_range [OF va] by simp
    ultimately show ?thesis
      using run other d(1-4) by (intro exI [of _ s'] exI [of _ 0]) simp
  qed
qed

lemma add_page_ok:
  assumes "aspace x s g" and "data_page s g q" and "page_ref (pages s q) \<noteq> - 1" and "unat flags < 1024"
    and "2 \<le> card (free_pages_of s)" and "low_blocks 2 s" and va: "va < USER_END"
  shows "\<exists>s'. add_page (page_va g) q va flags s = ret (0, s') \<and> aspace x s' g \<and> mem_only s s' \<and>
    (\<forall>u\<in>vpages. pmap (ents (mem s')) g u =
       (if u = vpn va then ppn2pte (of_nat q) (ucast PTE_V OR flags) else pmap (ents (mem s)) g u))"
proof -
  obtain i j k where t: "vpn va = (i, j, k)"
    by (metis prod_cases3)
  have tv: "(i, j, k) \<in> vpages"
    using vpn_range [OF va] by (simp add: t)
  obtain p s1 where s1: "get_pte (page_va g) va True s = ret (Some (entry_at (page_va p) k), s1)" "grown g s s1"
      "leaf_table (ents (mem s1)) g i j = Some p"
    using get_pte_create [OF aspaceD(1) [OF assms(1)] va t assms(5,6)] by blast
  have a1: "aspace x s1 g"
    by (rule aspace_grown [OF assms(1) s1(2)])
  have q1: "data_page s1 g q" "page_ref (pages s1 q) \<noteq> - 1"
    using s1(2) assms(2,3) by (auto simp: grown_def data_page_def)
  define s2 where "s2 = upd_page q (\<lambda>r. r\<lparr>page_ref := page_ref r + 1\<rparr>) s1"
  note A = add_ref [OF a1 q1, folded s2_def]
  have q2: "data_page s2 g q" and p2: "leaf_table (ents (mem s2)) g i j = Some p"
    using A(2,5) q1 s1(3) by simp_all
  obtain s3 e where s3: "drop_old (page_va g) q va (entry_at (page_va p) k) s2 = ret s3" "mem_only s2 s3"
      "e = pmap (ents (mem s3)) g (vpn va)" "pte_valid e \<longrightarrow> pte_page e = q"
      "aspace (if pte_valid e then x else x(q := x q + 1)) s3 g" "data_page s3 g q"
      "leaf_table (ents (mem s3)) g i j = Some p"
      "\<And>u. u \<in> vpages \<Longrightarrow> u \<noteq> vpn va \<Longrightarrow> pmap (ents (mem s3)) g u = pmap (ents (mem s2)) g u"
    using drop_old_ok [OF A(1) q2 va t p2] by blast
  have us: "page_usable s3 q"
    using s3(6) by (simp add: data_page_def)
  let ?v = "ppn2pte (of_nat q) (ucast PTE_V OR flags)"
  note M = store_map [OF s3(5) t vpn_range [OF va] s3(7) s3(3,4) refl map_pte [OF us assms(4)] s3(6)]
  let ?s = "store_pte (entry_at (page_va p) k) ?v s3"
  have "add_page (page_va g) q va flags s = ret (0, ?s)"
    using s1(1) s3(1) page_usable_ppn [OF us] by (simp add: add_page_def s2_def drop_old_def Let_def)
  moreover have "mem_only s ?s"
    using s1(2) mem_only_trans A(3) s3(2) mem_only_mem(2) unfolding grown_def by metis
  moreover have "pmap (ents (mem ?s)) g u = (if u = vpn va then ?v else pmap (ents (mem s)) g u)" if "u \<in> vpages" for u
  proof (cases "u = vpn va")
    case False
    have "pmap (ents (mem s2)) g u = pmap (ents (mem s)) g u"
      using s1(2) that A(2) by (simp add: grown_def)
    then show ?thesis
      using M(2) [OF that] s3(8) [OF that] False by simp
  qed (use M(2) [OF that] in simp)
  ultimately show ?thesis
    using M(1) by blast
qed

text \<open>Without a leaf table for the address and without a free page, \<open>add_page\<close> fails.\<close>

lemma get_table_fails:
  assumes "bf_inv s" "free_pages_of s = {}" "\<not> swap_init_flag s" "\<not> pte_valid (load64 (mem s) e)"
  shows "get_table alloc_page True e s = ret (False, s)"
  using alloc_pages_none [OF assms(1), of 1] spec_alloc_one [OF assms(1)] assms(2-4)
  by (simp add: get_table_def alloc_page_def pte_valid_def)

lemma add_page_no_memory:
  assumes ok: "tabs_ok s g" and va: "va < USER_END" and t: "vpn va = (i, j, k)"
    and none: "leaf_table (ents (mem s)) g i j = None" "free_pages_of s = {}" "\<not> swap_init_flag s"
  shows "add_page (page_va g) q va flags s = ret (- E_NO_MEM, s)"
proof -
  have b: "i < 2" "j < 512" "k < 512" "i < 512" "get_gptx va = i" "get_mptx va = j" "get_ptx va = k"
    using t vpn_range [OF va] user_index by (auto simp: vpn_def vpages_def)
  note D = tabs_okD [OF ok]
  let ?E = "ents (mem s)"
  have "get_pte (page_va g) va True s = ret (None, s)"
  proof (cases "mid_table ?E g i")
    case None
    then have "\<not> pte_valid (?E g i)"
      by (simp add: mid_table_def split: if_splits)
    then show ?thesis
      using get_table_fails [OF D(1) none(2,3)] b D(2) by (simp add: get_pte_def get_pte_by_def ents_load)
  next
    case (Some p)
    then have p: "pte_valid (?E g i)" "pte_page (?E g i) = p"
      by (auto simp: mid_table_def split: if_splits)
    have tp: "table_page p"
      using D(4) [OF midsI [OF b(1) Some]] .
    have "\<not> pte_valid (?E p j)"
      using none(1) Some by (simp add: leaf_table_def mid_table_def split: if_splits)
    then show ?thesis
      using get_table_fails [OF D(1) none(2,3)] get_table_old [of s "entry_at (page_va g) i"] b D(2) p tp
        pte2va_ok [OF p(1)] table_page_dram [OF tp]
      by (simp add: get_pte_def get_pte_by_def ents_load table_page_def Let_def)
  qed
  then show ?thesis
    by (simp add: add_page_def)
qed

text \<open>C1: \<open>add_page\<close> implements the update of the map from user pages to entries at one place. Given
  two free pages for tables it succeeds; the address maps to the page with the given flags, every
  other user page keeps its entry, the old page of the address loses a reference and is freed
  with the last one, and the reference counts stay exact. With no free page, a missing table and no swapping
  it returns \<open>-E_NO_MEM\<close> and changes nothing.\<close>

theorem add_page_maps:
  assumes "aspace x s g" and "va < USER_END"
  shows "(data_page s g q \<and> page_ref (pages s q) \<noteq> - 1 \<and> unat flags < 1024 \<and> 2 \<le> card (free_pages_of s) \<and> low_blocks 2 s \<longrightarrow>
      (\<exists>s'. add_page (page_va g) q va flags s = ret (0, s') \<and> aspace x s' g \<and> mem_only s s' \<and>
        (\<forall>u\<in>vpages. pmap (ents (mem s')) g u =
           (if u = vpn va then ppn2pte (of_nat q) (ucast PTE_V OR flags) else pmap (ents (mem s)) g u)))) \<and>
    (free_pages_of s = {} \<and> \<not> swap_init_flag s \<and> leaf_table (ents (mem s)) g (get_gptx va) (get_mptx va) = None \<longrightarrow>
      add_page (page_va g) q va flags s = ret (- E_NO_MEM, s))"
proof (intro conjI impI; (elim conjE)?)
  assume "data_page s g q" "page_ref (pages s q) \<noteq> - 1" "unat flags < 1024" "2 \<le> card (free_pages_of s)" "low_blocks 2 s"
  from add_page_ok [OF assms(1) this assms(2)]
  show "\<exists>s'. add_page (page_va g) q va flags s = ret (0, s') \<and> aspace x s' g \<and> mem_only s s' \<and>
        (\<forall>u\<in>vpages. pmap (ents (mem s')) g u =
           (if u = vpn va then ppn2pte (of_nat q) (ucast PTE_V OR flags) else pmap (ents (mem s)) g u))" .
next
  assume "free_pages_of s = {}" "\<not> swap_init_flag s" "leaf_table (ents (mem s)) g (get_gptx va) (get_mptx va) = None"
  then show "add_page (page_va g) q va flags s = ret (- E_NO_MEM, s)"
    using add_page_no_memory [OF aspaceD(1) [OF assms(1)] assms(2)] by (simp add: vpn_def)
qed

text \<open>A state with two free blocks, a copy of the boot table at page \<open>0x82008\<close> and an allocated page \<open>0x82009\<close>.\<close>

definition sample_space :: sched where
  "sample_space = sample_sched\<lparr>pages := pages sample_pmm, flinks := flinks sample_pmm, num_free := num_free sample_pmm,
     mem := with_gigapages 0x82008 (\<lambda>_. 0)\<rparr>"

lemma sample_space_blocks: "blocks_of sample_space = [(0x82000, 5), (0x82010, 3)]" "bf_inv sample_space"
proof -
  have "same_free sample_pmm sample_space"
    by (simp add: same_free_def sample_space_def)
  then have "bf_abs sample_space [(0x82000, 5), (0x82010, 3)]"
    using sample_pmm_abs same_free_inv(1) by blast
  then show "blocks_of sample_space = [(0x82000, 5), (0x82010, 3)]" "bf_inv sample_space"
    by (auto intro: blocks_of_abs bf_invI)
qed

lemma sample_space_mem: "ents (mem sample_space) p i = (if p = 0x82008 then boot_page_table_sv39 i else 0)"
proof -
  have "ents (\<lambda>_. 0) p i = 0" for p i
    by (simp add: ents_def load64_zero)
  then show ?thesis
    by (simp add: sample_space_def ents_with_gigapages dram_page_def boot_page_table_sv39_def)
qed

lemma sample_space_tables:
  "tree_ok (ents (mem sample_space)) 0x82008" "tables (ents (mem sample_space)) 0x82008 = {0x82008}"
  "t \<in> vpages \<Longrightarrow> pmap (ents (mem sample_space)) 0x82008 t = 0"
  by (rule boot_tables; auto simp: sample_space_mem boot_page_table_sv39_def)+

lemma sample_space_aspace:
  "aspace (\<lambda>q. unat (page_ref (pages sample_space q))) sample_space 0x82008"
  "data_page sample_space 0x82008 0x82009" "low_blocks 2 sample_space" "card (free_pages_of sample_space) = 8"
proof -
  have f: "free_pages_of sample_space = {0x82000..<0x82005} \<union> {0x82010..<0x82013}"
    by (simp add: free_pages_of_def sample_space_blocks)
  have "tabs_ok sample_space 0x82008"
    using sample_space_blocks(2) by (simp add: tabs_ok_def f sample_space_tables dram_page_def)
  moreover have "mappers (ents (mem sample_space)) 0x82008 q = {}" for q
    using sample_space_tables(3) by (auto simp: mappers_def)
  ultimately show "aspace (\<lambda>q. unat (page_ref (pages sample_space q))) sample_space 0x82008"
    by (simp add: aspace_def sample_space_tables)
  show "data_page sample_space 0x82008 0x82009"
  proof -
    have "page_usable sample_space 0x82009"
      by (simp add: page_usable_def sample_space_def sample_pmm_def)
    then show ?thesis
      by (simp add: data_page_def f sample_space_tables)
  qed
  show "low_blocks 2 sample_space"
    by (simp add: low_blocks_def sample_space_blocks)
  show "card (free_pages_of sample_space) = 8"
    unfolding f by (subst card_Un_disjoint) auto
qed

theorem alloc_page_outcomes_witness:
  "\<exists>p s'. alloc_page sample_space = ret (Some p, s') \<and> p \<in> free_pages_of sample_space \<and> p \<notin> free_pages_of s'"
proof -
  have "low_blocks 1 sample_space"
    by (simp add: low_blocks_def sample_space_blocks)
  moreover have "free_pages_of sample_space \<noteq> {}"
    using sample_space_aspace(4) by auto
  ultimately show ?thesis
    using alloc_page_outcomes [OF sample_space_blocks(2)] by auto
qed

theorem add_page_maps_witness:
  "\<exists>s'. add_page (page_va 0x82008) 0x82009 0x800123 0x1F sample_space = ret (0, s') \<and>
    pmap (ents (mem s')) 0x82008 (vpn 0x800123) = ppn2pte 0x82009 0x1F"
proof -
  have r: "page_ref (pages sample_space 0x82009) \<noteq> - 1"
    by (simp add: sample_space_def sample_pmm_def)
  have va: "0x800123 < USER_END"
    by (simp add: USER_END_def)
  show ?thesis
    using add_page_maps [OF sample_space_aspace(1) va, of "0x82009" "0x1F"] r sample_space_aspace(2-4) vpn_range [OF va]
    by (auto simp: PTE_V_def)
qed

text \<open>C13: \<open>del_page\<close> removes the mapping of one user page. Every other user page keeps its
  entry, the page is freed exactly when this was its last reference, and the invariant is kept; for
  an address that is not mapped nothing happens.\<close>

theorem del_page_unmaps:
  assumes "aspace x s g" and va: "va < USER_END"
  shows "\<exists>s'. del_page (page_va g) va s = ret s' \<and> aspace x s' g \<and> mem_only s s' \<and>
    (let e = pmap (ents (mem s)) g (vpn va) in
      (\<forall>u\<in>vpages. pmap (ents (mem s')) g u =
         (if u = vpn va \<and> pte_valid e then 0 else pmap (ents (mem s)) g u)) \<and>
      free_pages_of s' = (if pte_valid e \<and> page_ref (pages s (pte_page e)) = 1
        then insert (pte_page e) (free_pages_of s) else free_pages_of s))"
proof (cases "pte_valid (pmap (ents (mem s)) g (vpn va))")
  case True
  obtain s' where "del_page (page_va g) va s = ret s'" "aspace x s' g" "mem_only s s'"
      "\<forall>u\<in>vpages. pmap (ents (mem s')) g u = (if u = vpn va then 0 else pmap (ents (mem s)) g u)"
      "free_pages_of s' = (if page_ref (pages s (pte_page (pmap (ents (mem s)) g (vpn va)))) = 1
         then insert (pte_page (pmap (ents (mem s)) g (vpn va))) (free_pages_of s) else free_pages_of s)"
    using del_page_ok [OF assms(1) va refl True] by blast
  then show ?thesis
    using True by (intro exI [of _ s']) (simp add: Let_def)
next
  case False
  obtain i j k where t: "vpn va = (i, j, k)"
    by (metis prod_cases3)
  have tv: "(i, j, k) \<in> vpages"
    using vpn_range [OF va] by (simp add: t)
  note ok = aspaceD(1) [OF assms(1)]
  have "del_page (page_va g) va s = ret s"
  proof (cases "leaf_table (ents (mem s)) g i j")
    case None
    then show ?thesis
      unfolding del_page_def get_pte_def get_pte_found [OF ok va t] by simp
  next
    case (Some p)
    have "load64 (mem s) (entry_at (page_va p) k) = pmap (ents (mem s)) g (vpn va)"
      using store_leaf(4) [OF ok refl tv Some] by (simp add: t)
    then show ?thesis
      unfolding del_page_def get_pte_def get_pte_found [OF ok va t] using Some False by (simp add: pte_valid_def)
  qed
  then show ?thesis
    using assms False by (auto simp: Let_def)
qed

section \<open>The software walk\<close>

lemma pa2va_page:
  assumes "table_page p"
  shows "pa2va (push_bit PAGE_SHIFT (of_nat p)) = ret (page_va p)"
  using page2va_ok(2,3) [of p] assms by (simp add: table_page_def page2va_def)

lemma va2page_ok:
  assumes "table_page p"
  shows "va2page (page_va p) = ret p"
proof -
  have p: "unat (of_nat p :: u64) = p" "p < 0x88000" "0x82000 \<le> p"
    using assms by (auto simp: table_page_def intro: unat_of_nat_u64)
  have u: "unat (page_va p) = p * 4096 + 0xFFFFFFFF00000000"
    by (rule unat_page_va [OF table_page_dram [OF assms]])
  have "DRAM_BEGIN_VA < page_va p" "page_va p < DRAM_END_VA"
    using p u by (simp_all add: word_less_nat_alt const_defs)
  moreover have "page_va p - VA_PA_OFFSET = push_bit PAGE_SHIFT (of_nat p)"
    by (simp add: page_va_def)
  ultimately have v: "va2pa (page_va p) = ret (push_bit PAGE_SHIFT (of_nat p))"
    by (simp add: va2pa_def)
  have "unat (drop_bit 12 (push_bit 12 (of_nat p :: u64))) = p"
    unfolding unsigned_drop_bit_eq using push_page [of p] p
    by (simp add: drop_bit_eq_div take_bit_nat_eq_self)
  then have d: "drop_bit 12 (push_bit 12 (of_nat p :: u64)) = of_nat p"
    by (metis p(1) word_unat_eq_iff)
  have "ppn_managed (of_nat p)"
    using p by (simp add: ppn_managed_def word_le_nat_alt word_less_nat_alt)
  then show ?thesis
    unfolding va2page_def v by (simp add: pa2page_def PAGE_SHIFT_def d p(1))
qed

text \<open>The root table must be a page that the manager hands out, and the kernel's gigapages are no tables.\<close>

lemma va2page_unmanaged:
  assumes "dram_page g" "\<not> table_page g"
  shows "va2page (page_va g) = panic"
proof -
  have g: "0x80000 < g" "g < 0x82000"
    using assms by (auto simp: dram_page_def table_page_def)
  have u: "unat (page_va g) = g * 4096 + 0xFFFFFFFF00000000"
    by (rule unat_page_va [OF assms(1)])
  have "DRAM_BEGIN_VA < page_va g" "page_va g < DRAM_END_VA"
    using g u by (simp_all add: word_less_nat_alt const_defs)
  then have v: "va2pa (page_va g) = ret (push_bit PAGE_SHIFT (of_nat g))"
    by (simp add: va2pa_def page_va_def)
  have "unat (drop_bit 12 (push_bit 12 (of_nat g :: u64))) = g"
    unfolding unsigned_drop_bit_eq using push_page [of g] g by (simp add: drop_bit_eq_div take_bit_nat_eq_self)
  then have "\<not> ppn_managed (drop_bit PAGE_SHIFT (push_bit PAGE_SHIFT (of_nat g)))"
    using g by (simp add: ppn_managed_def word_le_nat_alt PAGE_SHIFT_def)
  then show ?thesis
    by (simp add: va2page_def v pa2page_def assert_then_def Let_def)
qed

lemma GIGAPAGE_simps: "GIGAPAGE AND PTE_V \<noteq> 0" "pa2va (push_bit PAGE_SHIFT (pte2ppn GIGAPAGE)) = panic"
  by (simp_all add: GIGAPAGE_def PTE_V_def pte2ppn_def const_defs pa2va_def assert_then_def)

lemma va2pa_mmu_user:
  assumes "tabs_ok s g" and "table_page g" and va: "va < USER_END"
  shows "va2pa_mmu (page_va g) va s = ret (let e = pmap (ents (mem s)) g (vpn va) in
    if pte_valid e then push_bit PAGE_SHIFT (pte2ppn e) OR get_offset va else 0)"
proof -
  obtain i j k where t: "vpn va = (i, j, k)"
    by (metis prod_cases3)
  have b: "i < 2" "j < 512" "k < 512" "i < 512" "get_gptx va = i" "get_mptx va = j" "get_ptx va = k"
    using t vpn_range [OF va] user_index by (auto simp: vpn_def vpages_def)
  have nb: "\<not> 512 \<le> i" "\<not> 512 \<le> j" "\<not> 512 \<le> k"
    using b(2-4) by (simp_all add: not_le)
  let ?E = "ents (mem s)"
  note D = tabs_okD [OF assms(1)]
  have g0: "page_va g \<noteq> 0"
    using unat_page_va [OF D(2)] by auto
  have top: "va2page (page_va g) = ret g" "page2pa g = ret (push_bit PAGE_SHIFT (of_nat g))"
    using va2page_ok [OF assms(2)] page2va_ok(2) [of g] assms(2) by (auto simp: table_page_def)
  have ppn: "pte2ppn e = of_nat (pte_page e)" for e
    by (simp add: pte_page_def)
  show ?thesis
  proof (cases "mid_table ?E g i")
    case None
    then have "\<not> pte_valid (?E g i)"
      by (simp add: mid_table_def split: if_splits)
    then show ?thesis
      using None b g0 top D(2) by (simp add: va2pa_mmu_def PT_SIZE_def ents_load pte_valid_def t pmap_def leaf_table_def Let_def)
  next
    case (Some p)
    then have p: "pte_valid (?E g i)" "pte_page (?E g i) = p"
      by (auto simp: mid_table_def split: if_splits)
    have tp: "table_page p"
      using D(4) [OF midsI [OF b(1) Some]] .
    have vp: "pa2va (push_bit PAGE_SHIFT (pte2ppn (?E g i))) = ret (page_va p)"
      unfolding ppn p(2) by (rule pa2va_page [OF tp])
    have dp: "dram_page p"
      using table_page_dram [OF tp] .
    show ?thesis
    proof (cases "mid_table ?E p j")
      case None
      then have "\<not> pte_valid (?E p j)"
        by (simp add: mid_table_def split: if_splits)
      then show ?thesis
        using None Some b g0 top D(2) p(1) vp dp
        by (simp add: va2pa_mmu_def PT_SIZE_def ents_load pte_valid_def t pmap_def leaf_table_def Let_def)
    next
      case leaf: (Some q)
      then have q: "pte_valid (?E p j)" "pte_page (?E p j) = q"
        by (auto simp: mid_table_def split: if_splits)
      have l: "leaf_table ?E g i j = Some q"
        using Some leaf by (simp add: leaf_table_def)
      have tq: "table_page q"
        using D(5) [OF leavesI [OF b(1,2) l]] .
      have vq: "pa2va (push_bit PAGE_SHIFT (pte2ppn (?E p j))) = ret (page_va q)"
        unfolding ppn q(2) by (rule pa2va_page [OF tq])
      show ?thesis
        using l b nb g0 top D(2) p(1) q(1) vp vq dp table_page_dram [OF tq]
        by (simp add: va2pa_mmu_def PT_SIZE_def ents_load pte_valid_def t pmap_def Let_def)
    qed
  qed
qed

text \<open>C33: \<open>va2pa_mmu\<close> on the tables of the kernel. For a user address it computes the translation that
  \<open>add_page\<close> and \<open>del_page\<close> maintain: the physical address in the entry's page, and zero without a mapping. For an address in
  a gigapage of the kernel, which the hardware translates, it stops the machine, since it takes the gigapage for
  a table; and so it does for every address when the root is the boot table, whose page the manager does not know.\<close>

theorem va2pa_mmu_translates:
  assumes "tabs_ok s g"
  shows "(table_page g \<and> va < USER_END \<longrightarrow> va2pa_mmu (page_va g) va s = ret (let e = pmap (ents (mem s)) g (vpn va) in
      if pte_valid e then push_bit PAGE_SHIFT (pte2ppn e) OR get_offset va else 0)) \<and>
    (ents (mem s) g (get_gptx va) = GIGAPAGE \<or> \<not> table_page g \<longrightarrow> va2pa_mmu (page_va g) va s = panic)"
proof (intro conjI impI)
  assume "table_page g \<and> va < USER_END"
  then show "va2pa_mmu (page_va g) va s = ret (let e = pmap (ents (mem s)) g (vpn va) in
      if pte_valid e then push_bit PAGE_SHIFT (pte2ppn e) OR get_offset va else 0)"
    using va2pa_mmu_user [OF assms] by blast
next
  assume giga: "ents (mem s) g (get_gptx va) = GIGAPAGE \<or> \<not> table_page g"
  have g: "dram_page g" "page_va g \<noteq> 0"
    using tabs_okD(2) [OF assms] unat_page_va by fastforce+
  show "va2pa_mmu (page_va g) va s = panic"
  proof (cases "table_page g")
    case True
    then have "va2page (page_va g) = ret g" "page2pa g = ret (push_bit PAGE_SHIFT (of_nat g))"
      using va2page_ok page2va_ok(2) [of g] by (auto simp: table_page_def)
    then show ?thesis
      using giga True g GIGAPAGE_simps vpn_index(1) [of va]
      by (simp add: va2pa_mmu_def PT_SIZE_def PT_SHIFT_def ents_load Let_def not_le)
  qed (use g va2page_unmanaged in \<open>simp add: va2pa_mmu_def Let_def\<close>)
qed

theorem va2pa_mmu_translates_witness:
  "va2pa_mmu (page_va 0x82008) 0x800123 sample_space = ret 0 \<and>
   va2pa_mmu (page_va 0x82008) 0xFFFFFFFF80200000 sample_space = panic"
proof -
  note T = va2pa_mmu_translates [OF aspaceD(1) [OF sample_space_aspace(1)]]
  have u: "0x800123 < USER_END" "table_page 0x82008"
    by (simp_all add: USER_END_def table_page_def)
  have "pmap (ents (mem sample_space)) 0x82008 (vpn 0x800123) = 0"
    using sample_space_tables(3) [OF vpn_range [OF u(1)]] .
  moreover have "ents (mem sample_space) 0x82008 (get_gptx 0xFFFFFFFF80200000) = GIGAPAGE"
    by (simp add: sample_space_mem boot_page_table_sv39_def get_gptx_def const_defs)
  ultimately show ?thesis
    using T [of "0x800123"] T [of "0xFFFFFFFF80200000"] u by simp
qed

end
