(* ===== verification/Schedule.thy ===== *)
theory Schedule
  imports Stride
begin

text \<open>
  The core scheduler of \<open>kernel/proc/schedule.c\<close> and \<open>run_proc\<close> of \<open>kernel/proc/proc.c\<close>:
  waking a process up, choosing the next one and switching to it, the kernel timers. A call of
  \<open>schedule\<close> that switches ends in the model at the call of \<open>switch_proc\<close>: the process that
  continues restores its own interrupt flag. The invariant \<open>sched_inv P s\<close> says that the run
  queue holds exactly the runnable processes of \<open>P\<close> that are not running.
\<close>

unbundle bit_operations_syntax

section \<open>Operations on processes\<close>

record timer =
  tm_expires :: u32
  tm_proc :: "pcb_ptr option"

record tsched = sched +
  timers :: "u64 \<Rightarrow> timer"
  timer_links :: "(unit, u64) lnode links"

abbreviation timer_head :: "(unit, u64) lnode" where
  "timer_head \<equiv> LHead ()"

definition scheduler_enqueue :: "pcb_ptr \<Rightarrow> 'z sched_scheme \<Rightarrow> 'z sched_scheme exec" where
  "scheduler_enqueue p s = (if p \<noteq> idle_proc s then stride_enqueue p s else ret s)"

definition scheduler_dequeue :: "pcb_ptr \<Rightarrow> 'z sched_scheme \<Rightarrow> 'z sched_scheme exec" where
  "scheduler_dequeue p s = stride_dequeue p s"

definition scheduler_pick_next :: "'z sched_scheme \<Rightarrow> pcb_ptr option \<times> 'z sched_scheme" where
  "scheduler_pick_next s = stride_pick_next s"

definition scheduler_proc_tick :: "pcb_ptr \<Rightarrow> 'z sched_scheme \<Rightarrow> 'z sched_scheme" where
  "scheduler_proc_tick p s =
     (if p \<noteq> idle_proc s then stride_proc_tick p s
      else upd_proc p (\<lambda>q. q\<lparr>p_need_reschedule := True\<rparr>) s)"

definition init_scheduler :: "'z tsched_scheme \<Rightarrow> 'z tsched_scheme" where
  "init_scheduler s =
     (let s1 = s\<lparr>timer_links := init_list timer_head (timer_links s)\<rparr>;
          s2 = s1\<lparr>rq_max_time_slice := MAX_TIME_SLICE\<rparr>
      in stride_init s2)"

definition wakeup_proc :: "pcb_ptr \<Rightarrow> 'z sched_scheme \<Rightarrow> 'z sched_scheme exec" where
  "wakeup_proc p s =
     assert_then (p_state (procs s p) \<noteq> PROC_ZOMBIE)
       (let (intr_flag, s1) = local_intr_save s in
        bind_exec
          (if p_state (procs s1 p) \<noteq> PROC_RUNNABLE then
             let s2 = upd_proc p (\<lambda>q. q\<lparr>p_state := PROC_RUNNABLE\<rparr>) s1;
                 s3 = upd_proc p (\<lambda>q. q\<lparr>p_wait_state := WAIT_NONE\<rparr>) s2
             in if p \<noteq> curr_proc s3 then scheduler_enqueue p s3 else ret s3
           else ret s1)
          (\<lambda>s4. ret (local_intr_restore intr_flag s4)))"

text \<open>\<open>write_satp\<close> and \<open>run_proc\<close> up to \<open>switch_proc\<close>.\<close>

definition write_satp :: "u64 \<Rightarrow> 'z sched_scheme \<Rightarrow> 'z sched_scheme" where
  "write_satp addr s = s\<lparr>satp := 0x8000000000000000 OR drop_bit PAGE_SHIFT addr\<rparr>"

definition run_proc :: "pcb_ptr \<Rightarrow> 'z sched_scheme \<Rightarrow> 'z sched_scheme exec" where
  "run_proc p s =
     (if p \<noteq> curr_proc s then
        let s1 = s\<lparr>curr_proc := p\<rparr>;
            (intr_flag, s2) = local_intr_save s1;
            s3 = s2\<lparr>curr_proc := p\<rparr>
        in bind_exec (va2pa (p_gpt (procs s3 p))) (\<lambda>pa. ret (write_satp pa s3))
      else ret s)"

text \<open>The end of \<open>schedule\<close>: switch to \<open>next_proc\<close>, or restore the interrupt flag.\<close>

definition schedule_finish :: "bool \<Rightarrow> pcb_ptr \<Rightarrow> 'z sched_scheme \<Rightarrow> 'z sched_scheme exec" where
  "schedule_finish intr_flag q s =
     (let s6 = upd_proc q (\<lambda>r. r\<lparr>p_run_times := p_run_times r + 1\<rparr>) s in
      if q \<noteq> curr_proc s6 then run_proc q s6 else ret (local_intr_restore intr_flag s6))"

definition schedule_next :: "bool \<Rightarrow> 'z sched_scheme \<Rightarrow> 'z sched_scheme exec" where
  "schedule_next intr_flag s =
     (let (next_proc, s4) = scheduler_pick_next s in
      case next_proc of
        Some q \<Rightarrow> bind_exec (scheduler_dequeue q s4) (schedule_finish intr_flag q)
      | None \<Rightarrow> schedule_finish intr_flag (idle_proc s4) s4)"

definition schedule :: "'z sched_scheme \<Rightarrow> 'z sched_scheme exec" where
  "schedule s =
     (let (intr_flag, s1) = local_intr_save s;
          s2 = upd_proc (curr_proc s1) (\<lambda>q. q\<lparr>p_need_reschedule := False\<rparr>) s1
      in bind_exec (if p_state (curr_pcb s2) = PROC_RUNNABLE
                    then scheduler_enqueue (curr_proc s2) s2 else ret s2)
           (schedule_next intr_flag))"

section \<open>What the run queue depends on\<close>

definition same_rq :: "'z sched_scheme \<Rightarrow> 'z sched_scheme \<Rightarrow> bool" where
  "same_rq s s' \<longleftrightarrow> run_pools s' = run_pools s \<and> rq_num_proc s' = rq_num_proc s \<and>
     rq_max_time_slice s' = rq_max_time_slice s \<and> rq_run_pool s' = rq_run_pool s \<and>
     (\<forall>p. p_stride (procs s' p) = p_stride (procs s p) \<and>
       p_priority (procs s' p) = p_priority (procs s p) \<and>
       p_run_queue (procs s' p) = p_run_queue (procs s p) \<and>
       p_time_slice (procs s' p) = p_time_slice (procs s p))"

lemma same_rq_refl [simp]: "same_rq s s"
  by (simp add: same_rq_def)

lemma same_rq_comp: "same_rq s s' \<Longrightarrow> stride_comp_fn s' = stride_comp_fn s"
  by (intro ext stride_comp_fn_cong) (simp_all add: same_rq_def)

lemma same_rq_window: "same_rq s s' \<Longrightarrow> stride_window w b s' A = stride_window w b s A"
  by (rule stride_window_cong) (simp add: same_rq_def)

lemma same_rq_queue: "same_rq s s' \<Longrightarrow> stride_queue s' = stride_queue s"
  by (simp add: same_rq_def stride_queue_def)

lemma same_rq_rep: "same_rq s s' \<Longrightarrow> rq_rep s' t = rq_rep s t"
  unfolding rq_rep_def by (simp add: same_rq_comp same_rq_window) (simp add: same_rq_def queued_ok_def)

lemma same_rq_inv: "same_rq s s' \<Longrightarrow> stride_inv s' = stride_inv s"
  by (simp add: stride_inv_def same_rq_rep)

lemma same_rq_fit: "same_rq s s' \<Longrightarrow> stride_fit s' p = stride_fit s p"
  unfolding stride_fit_def by (simp add: same_rq_window same_rq_queue) (simp add: same_rq_def)

lemmas same_rq_facts = same_rq_window same_rq_queue same_rq_inv same_rq_fit

lemma same_rq_intr [simp]:
  "same_rq s (snd (local_intr_save s))" "same_rq s (local_intr_restore flag s)"
  by (simp_all add: same_rq_def)

section \<open>The scheduler invariant\<close>

text \<open>
  \<open>P\<close> is the set of processes other than the idle process. The strides of the queued processes
  and of the running process lie within \<open>BIG_STRIDE\<close> of each other.
\<close>

definition proc_ok :: "'z sched_scheme \<Rightarrow> pcb_ptr \<Rightarrow> bool" where
  "proc_ok s p \<longleftrightarrow> p_priority (procs s p) \<noteq> 0 \<and> 0 \<le> p_time_slice (procs s p) \<and>
     DRAM_BEGIN_VA < p_gpt (procs s p) \<and> p_gpt (procs s p) < DRAM_END_VA"

definition run_set :: "pcb_ptr set \<Rightarrow> 'z sched_scheme \<Rightarrow> pcb_ptr set" where
  "run_set P s = {p \<in> P. p_state (procs s p) = PROC_RUNNABLE}"

definition sched_inv :: "pcb_ptr set \<Rightarrow> 'z sched_scheme \<Rightarrow> bool" where
  "sched_inv P s \<longleftrightarrow> stride_inv s \<and> stride_queue s = run_set P s - {curr_proc s} \<and>
     finite P \<and> card P < 2 ^ 32 - 1 \<and> idle_proc s \<notin> P \<and> curr_proc s \<in> insert (idle_proc s) P \<and>
     p_state (procs s (idle_proc s)) = PROC_RUNNABLE \<and>
     (\<forall>p\<in>insert (idle_proc s) P. proc_ok s p) \<and>
     (\<exists>b. stride_window (Suc (unat BIG_STRIDE)) b s (run_set P s))"

lemma sched_inv_queue_count:
  assumes "sched_inv P s"
  shows "rq_num_proc s \<noteq> 0xFFFFFFFF"
proof -
  obtain t where t: "rq_rep s t"
    using assms by (auto simp: sched_inv_def stride_inv_def)
  have "size t = card (set_tree t)"
    using t by (simp add: rq_rep_def sh_heap_def tree_ok_def distinct_card flip: set_inorder length_inorder)
  also have "\<dots> \<le> card P"
    using assms rq_rep_queue [OF t] by (intro card_mono) (auto simp: sched_inv_def run_set_def)
  finally have "unat (rq_num_proc s) < 2 ^ 32 - 1"
    using assms t by (simp add: sched_inv_def rq_rep_def)
  then show ?thesis
    by auto
qed

lemma stride_enqueue_effect:
  assumes "stride_enqueue p s = ret s'"
  shows "\<exists>ts. procs s' = (procs s)(p := (procs s p)\<lparr>p_time_slice := ts, p_run_queue := Some ()\<rparr>) \<and>
      (0 \<le> p_time_slice (procs s p) \<longrightarrow> 0 < rq_max_time_slice s \<longrightarrow> 0 \<le> ts)"
    and "sstatus s' = sstatus s" "satp s' = satp s" "idle_proc s' = idle_proc s" "curr_proc s' = curr_proc s"
    and "rq_max_time_slice s' = rq_max_time_slice s"
proof -
  let ?ts = "if p_time_slice (procs s p) = 0 \<or> p_time_slice (procs s p) > rq_max_time_slice s
    then rq_max_time_slice s else p_time_slice (procs s p)"
  have "procs s' = (procs s)(p := (procs s p)\<lparr>p_time_slice := ?ts, p_run_queue := Some ()\<rparr>)"
    using assms by (auto simp: stride_enqueue_def Let_def split: option.splits)
  then show "\<exists>ts. procs s' = (procs s)(p := (procs s p)\<lparr>p_time_slice := ts, p_run_queue := Some ()\<rparr>) \<and>
      (0 \<le> p_time_slice (procs s p) \<longrightarrow> 0 < rq_max_time_slice s \<longrightarrow> 0 \<le> ts)"
    by (intro exI [of _ ?ts]) auto
  show "sstatus s' = sstatus s" "satp s' = satp s" "idle_proc s' = idle_proc s" "curr_proc s' = curr_proc s"
    "rq_max_time_slice s' = rq_max_time_slice s"
    using assms by (auto simp: stride_enqueue_def Let_def split: option.splits)
qed

lemma stride_inv_max: "stride_inv s \<Longrightarrow> 0 < rq_max_time_slice s"
  by (auto simp: stride_inv_def rq_rep_def)

text \<open>Putting a process that is about to be runnable into the queue.\<close>

lemma enqueue_runnable:
  assumes inv: "stride_inv s" and out: "p \<notin> stride_queue s" and ok: "proc_ok s p"
    and cnt: "rq_num_proc s \<noteq> 0xFFFFFFFF"
    and win: "stride_window (Suc (unat BIG_STRIDE)) b s (insert p (stride_queue s))"
  obtains s' ts where "stride_enqueue p s = ret s'" "stride_inv s'"
    "stride_queue s' = insert p (stride_queue s)"
    "procs s' = (procs s)(p := (procs s p)\<lparr>p_time_slice := ts, p_run_queue := Some ()\<rparr>)"
    "sstatus s' = sstatus s" "idle_proc s' = idle_proc s" "curr_proc s' = curr_proc s"
    "\<And>q. proc_ok s q \<Longrightarrow> proc_ok s' q"
proof -
  have fit: "stride_fit s p"
    using ok cnt win by (auto simp: stride_fit_def proc_ok_def)
  obtain s' where s': "stride_enqueue p s = ret s'" "stride_inv s'" "stride_queue s' = insert p (stride_queue s)"
    using stride.enqueue_ok [OF inv out fit] by blast
  note eff = stride_enqueue_effect [OF s'(1)]
  obtain ts where ts: "procs s' = (procs s)(p := (procs s p)\<lparr>p_time_slice := ts, p_run_queue := Some ()\<rparr>)"
      "0 \<le> ts"
    using eff(1) ok stride_inv_max [OF inv] by (auto simp: proc_ok_def)
  show thesis
    by (rule that [OF s' ts(1) eff(2,4,5)]) (auto simp: proc_ok_def ts)
qed

section \<open>Waking a process up\<close>

lemma local_intr_cases:
  obtains flag s1 where "local_intr_save s = (flag, s1)" "same_rq s s1" "procs s1 = procs s"
    "idle_proc s1 = idle_proc s" "curr_proc s1 = curr_proc s" "\<not> intr_on s1"
  using local_intr_save_off same_rq_intr(1) [of s] local_intr_sel(1-8) [of s]
  by (metis prod.collapse)

lemma run_set_upd: 
  "p_state (f (procs s p)) = p_state (procs s p) \<Longrightarrow> run_set P (upd_proc p f s) = run_set P s"
  by (auto simp: run_set_def)

lemma wakeup_proc_sleeping:
  assumes inv: "sched_inv P s" and p: "p \<in> P" "p_state (procs s p) \<noteq> PROC_ZOMBIE"
    and sl: "p_state (procs s p) \<noteq> PROC_RUNNABLE"
    and win: "stride_window (Suc (unat BIG_STRIDE)) b s (insert p (run_set P s))"
  shows "\<exists>s'. wakeup_proc p s = ret s' \<and> sched_inv P s' \<and> p_state (procs s' p) = PROC_RUNNABLE \<and>
    p_wait_state (procs s' p) = WAIT_NONE \<and> sstatus s' = sstatus s \<and> curr_proc s' = curr_proc s \<and>
    p_stride (procs s' p) = p_stride (procs s p) \<and> (\<forall>q. q \<noteq> p \<longrightarrow> procs s' q = procs s q)"
proof -
  obtain flag s1 where i: "local_intr_save s = (flag, s1)" "same_rq s s1" "procs s1 = procs s"
      "idle_proc s1 = idle_proc s" "curr_proc s1 = curr_proc s"
    by (rule local_intr_cases [of s])
  define s3 where "s3 = upd_proc p (\<lambda>q. q\<lparr>p_wait_state := WAIT_NONE\<rparr>)
    (upd_proc p (\<lambda>q. q\<lparr>p_state := PROC_RUNNABLE\<rparr>) s1)"
  have rq: "same_rq s s3"
    using i by (auto simp: same_rq_def s3_def)
  have P3: "procs s3 = (procs s)(p := (procs s p)\<lparr>p_state := PROC_RUNNABLE, p_wait_state := WAIT_NONE\<rparr>)"
    by (simp add: s3_def i)
  have sel: "idle_proc s3 = idle_proc s" "curr_proc s3 = curr_proc s" "sstatus s3 = sstatus s1"
    by (simp_all add: s3_def i)
  note I = inv [unfolded sched_inv_def]
  have rs: "run_set P s3 = insert p (run_set P s)"
    using p by (auto simp: run_set_def P3)
  have pq: "p \<notin> stride_queue s"
    using I sl by (auto simp: run_set_def)
  have ok3: "proc_ok s3 q" if "q \<in> insert (idle_proc s) P" for q
    using I that by (auto simp: proc_ok_def P3)
  have body: "wakeup_proc p s = bind_exec (if p \<noteq> curr_proc s3 then scheduler_enqueue p s3 else ret s3)
      (\<lambda>s4. ret (local_intr_restore flag s4))"
    using p(2) sl by (simp add: wakeup_proc_def i s3_def)
  have win3: "stride_window (Suc (unat BIG_STRIDE)) b s3 (run_set P s3)"
    using win by (simp add: rs same_rq_facts [OF rq])
  have idle: "p \<noteq> idle_proc s" "p_state (procs s3 (idle_proc s)) = PROC_RUNNABLE"
    using I p(1) by (auto simp: P3)
  show ?thesis
  proof (cases "p = curr_proc s")
    case True
    have "sched_inv P (local_intr_restore flag s3)"
      using I ok3 win3 True idle rs
      by (auto simp: sched_inv_def sel same_rq_facts [OF same_rq_intr(2)] same_rq_facts [OF rq]
          proc_ok_def run_set_def)
    then show ?thesis
      using body True by (auto simp: sel P3 local_intr_roundtrip [OF i(1)])
  next
    case False
    have "stride_window (Suc (unat BIG_STRIDE)) b s3 (insert p (stride_queue s3))"
      by (rule stride_window_mono [OF win3]) (use I in \<open>auto simp: rs same_rq_facts [OF rq]\<close>)
    then obtain s4 ts where s4: "stride_enqueue p s3 = ret s4" "stride_inv s4"
        "stride_queue s4 = insert p (stride_queue s3)"
        "procs s4 = (procs s3)(p := (procs s3 p)\<lparr>p_time_slice := ts, p_run_queue := Some ()\<rparr>)"
        "sstatus s4 = sstatus s3" "idle_proc s4 = idle_proc s3" "curr_proc s4 = curr_proc s3"
        "\<And>q. proc_ok s3 q \<Longrightarrow> proc_ok s4 q"
      using I pq ok3 p(1) rq sched_inv_queue_count [OF inv]
      by (elim enqueue_runnable [rotated 4]) (auto simp: same_rq_facts [OF rq] same_rq_def)
    have rs4: "run_set P s4 = run_set P s3"
      by (auto simp: run_set_def s4(4))
    have "stride_window (Suc (unat BIG_STRIDE)) b s4 (run_set P s4)"
      unfolding rs4 using win3 by (simp add: stride_window_def s4(4))
    then have "sched_inv P (local_intr_restore flag s4)"
      using I ok3 s4 False idle rs rs4
      by (auto simp: sched_inv_def sel same_rq_facts [OF same_rq_intr(2)] same_rq_facts [OF rq]
          proc_ok_def run_set_def)
    then show ?thesis
      using body s4 False idle sel
      by (auto simp: scheduler_enqueue_def P3 local_intr_roundtrip [OF i(1)])
  qed
qed

section \<open>Choosing the next process\<close>

text \<open>What stays of a state while the scheduler works: everything but the run queue's own data.\<close>

definition core :: "pcb \<Rightarrow> pcb" where
  "core q = q\<lparr>p_stride := 0, p_time_slice := 0, p_run_queue := None, p_need_reschedule := False, p_run_times := 0\<rparr>"

definition same_procs :: "'z sched_scheme \<Rightarrow> 'z sched_scheme \<Rightarrow> bool" where
  "same_procs s s' \<longleftrightarrow> idle_proc s' = idle_proc s \<and>
     (\<forall>p. core (procs s' p) = core (procs s p) \<and> (proc_ok s p \<longrightarrow> proc_ok s' p))"

lemma core_sel:
  assumes "core q' = core q"
  shows "p_state q' = p_state q" "p_wait_state q' = p_wait_state q" "p_pid q' = p_pid q"
    "p_kernel_stack q' = p_kernel_stack q" "p_vmm q' = p_vmm q" "p_context q' = p_context q"
    "p_tf q' = p_tf q" "p_gpt q' = p_gpt q" "p_flags q' = p_flags q" "p_name q' = p_name q"
    "p_exit_code q' = p_exit_code q" "p_parent q' = p_parent q" "p_child q' = p_child q"
    "p_younger q' = p_younger q" "p_older q' = p_older q" "p_priority q' = p_priority q"
  using assms by (cases q; cases q'; simp add: core_def)+

lemma same_procsD:
  assumes "same_procs s s'"
  shows "idle_proc s' = idle_proc s" "core (procs s' p) = core (procs s p)"
    "p_state (procs s' p) = p_state (procs s p)" "p_wait_state (procs s' p) = p_wait_state (procs s p)"
    "proc_ok s p \<Longrightarrow> proc_ok s' p"
  using assms core_sel [of "procs s' p" "procs s p"] by (auto simp: same_procs_def)

lemma same_procs_refl [simp]: "same_procs s s"
  by (simp add: same_procs_def)

lemma same_procs_trans: "same_procs s s' \<Longrightarrow> same_procs s' s'' \<Longrightarrow> same_procs s s''"
  by (simp add: same_procs_def)

lemma same_procs_run_set: "same_procs s s' \<Longrightarrow> run_set P s' = run_set P s"
  by (simp add: same_procsD run_set_def)

lemma schedule_enqueue:
  assumes inv: "sched_inv P s"
  obtains s3 where "(if p_state (curr_pcb s) = PROC_RUNNABLE then scheduler_enqueue (curr_proc s) s else ret s) = ret s3"
    "stride_inv s3" "stride_queue s3 = run_set P s" "same_procs s s3" "curr_proc s3 = curr_proc s"
    "\<And>p. p_stride (procs s3 p) = p_stride (procs s p)" "sstatus s3 = sstatus s"
proof (cases "p_state (curr_pcb s) = PROC_RUNNABLE \<and> curr_proc s \<noteq> idle_proc s")
  case True
  note I = inv [unfolded sched_inv_def]
  obtain b where b: "stride_window (Suc (unat BIG_STRIDE)) b s (run_set P s)"
    using I by blast
  have ins: "insert (curr_proc s) (stride_queue s) = run_set P s"
    using I True by (auto simp: run_set_def)
  have b': "stride_window (Suc (unat BIG_STRIDE)) b s (insert (curr_proc s) (stride_queue s))"
    using b by (simp add: ins)
  have "stride_inv s" "curr_proc s \<notin> stride_queue s" "proc_ok s (curr_proc s)"
    using I by auto
  from enqueue_runnable [OF this sched_inv_queue_count [OF inv] b']
  obtain s3 ts where s3: "stride_enqueue (curr_proc s) s = ret s3" "stride_inv s3"
      "stride_queue s3 = insert (curr_proc s) (stride_queue s)"
      "procs s3 = (procs s)(curr_proc s := (curr_pcb s)\<lparr>p_time_slice := ts, p_run_queue := Some ()\<rparr>)"
      "sstatus s3 = sstatus s" "idle_proc s3 = idle_proc s" "curr_proc s3 = curr_proc s"
      "\<And>q. proc_ok s q \<Longrightarrow> proc_ok s3 q"
    by metis
  show thesis
    by (rule that [of s3]) (use s3 True in \<open>auto simp: scheduler_enqueue_def ins same_procs_def core_def\<close>)
next
  case False
  note I = inv [unfolded sched_inv_def]
  have "stride_queue s = run_set P s"
    using I False by (auto simp: run_set_def)
  then show thesis
    using that [of s] I False by (auto simp: scheduler_enqueue_def)
qed

lemma stride_dequeue_effect:
  assumes "stride_dequeue p s = ret s'"
  shows "procs s' = procs s" "sstatus s' = sstatus s" "idle_proc s' = idle_proc s" "curr_proc s' = curr_proc s"
  using assms by (auto simp: stride_dequeue_def assert_then_eq_ret split: option.splits)

lemma stride_pick_effect:
  assumes "stride_pick_next s = (Some p, s')"
  shows "procs s' = (procs s)(p := (procs s p)\<lparr>p_stride := p_stride (procs s p) + BIG_STRIDE div p_priority (procs s p)\<rparr>)"
    "sstatus s' = sstatus s" "idle_proc s' = idle_proc s" "curr_proc s' = curr_proc s"
  using assms by (auto simp: stride_pick_next_def split: option.splits)

lemma schedule_choose:
  assumes inv: "stride_inv s" and ne: "stride_queue s \<noteq> {}"
  obtains p s4 s5 b where "scheduler_pick_next s = (Some p, s4)" "scheduler_dequeue p s4 = ret s5"
    "p \<in> stride_queue s" "\<And>q. q \<in> stride_queue s \<Longrightarrow> stride_le s p q" "stride_inv s5"
    "stride_queue s5 = stride_queue s - {p}" "same_procs s s5" "curr_proc s5 = curr_proc s"
    "stride_window (Suc (unat BIG_STRIDE)) b s5 (stride_queue s)" "sstatus s5 = sstatus s"
proof -
  obtain t where t: "rq_rep s t"
    using inv by (auto simp: stride_inv_def)
  note Q = rq_rep_queue [OF t]
  obtain p where p: "root_of t = Some p"
    using ne Q by (cases t) auto
  obtain s4 s5 u where s5: "stride_pick_next s = (Some p, s4)" "stride_dequeue p s4 = ret s5"
      "rq_rep s5 u" "set_tree u = set_tree t - {p}" "procs s5 = procs s4"
      "stride_window (Suc (unat BIG_STRIDE)) (p_stride (procs s p)) s5 (set_tree t)"
    using stride_pick_rep [OF t p] by blast
  note eff = stride_pick_effect [OF s5(1)] stride_dequeue_effect [OF s5(2)]
  have sp: "same_procs s s5"
    by (simp add: same_procs_def core_def eff proc_ok_def)
  show thesis
    by (rule that [of p s4 s5])
      (use s5 Q rq_rep_queue [OF s5(3)] root_in_set [OF p] rq_root_least [OF t p] sp eff
        in \<open>auto simp: scheduler_pick_next_def scheduler_dequeue_def stride_inv_def\<close>)
qed

lemma va2pa_ok: "proc_ok s p \<Longrightarrow> va2pa (p_gpt (procs s p)) = ret (p_gpt (procs s p) - VA_PA_OFFSET)"
  by (simp add: va2pa_def proc_ok_def)

text \<open>Switching to \<open>q\<close> (or staying with it).\<close>

lemma schedule_switch:
  assumes "proc_ok s q"
  obtains s' where "(if q \<noteq> curr_proc s then run_proc q s else ret (local_intr_restore flag s)) = ret s'"
    "same_rq s s'" "procs s' = procs s" "idle_proc s' = idle_proc s" "curr_proc s' = q"
proof (cases "q = curr_proc s")
  case True
  then show thesis
    using that [of "local_intr_restore flag s"] by simp
next
  case False
  obtain f s2 where s2: "local_intr_save (s\<lparr>curr_proc := q\<rparr>) = (f, s2)" "same_rq (s\<lparr>curr_proc := q\<rparr>) s2"
      "procs s2 = procs (s\<lparr>curr_proc := q\<rparr>)" "idle_proc s2 = idle_proc (s\<lparr>curr_proc := q\<rparr>)"
    by (rule local_intr_cases [of "s\<lparr>curr_proc := q\<rparr>"])
  have "run_proc q s = ret (write_satp (p_gpt (procs s q) - VA_PA_OFFSET) (s2\<lparr>curr_proc := q\<rparr>))"
    using False s2 va2pa_ok [OF assms] by (simp add: run_proc_def)
  then show thesis
    using that False s2 by (auto simp: write_satp_def same_rq_def)
qed

lemma sched_invI:
  assumes "sched_inv P s" "stride_inv s'" "stride_queue s' = run_set P s - {curr_proc s'}" "same_procs s s'"
    and "curr_proc s' \<in> insert (idle_proc s) P"
    and "stride_window (Suc (unat BIG_STRIDE)) b s' (run_set P s)"
  shows "sched_inv P s'"
  using assms(1) same_procs_run_set [OF assms(4), of P] assms(2,3,5,6) same_procsD [OF assms(4)]
  unfolding sched_inv_def by auto

lemma schedule_finish_ok:
  assumes ok: "proc_ok s5 q"
  shows "\<exists>s'. schedule_finish flag q s5 = ret s' \<and> same_rq s5 s' \<and> same_procs s5 s' \<and> curr_proc s' = q"
proof -
  let ?s6 = "upd_proc q (\<lambda>r. r\<lparr>p_run_times := p_run_times r + 1\<rparr>) s5"
  have "proc_ok ?s6 q"
    using ok by (simp add: proc_ok_def)
  then obtain s' where "schedule_finish flag q s5 = ret s'" "same_rq ?s6 s'" "procs s' = procs ?s6"
      "idle_proc s' = idle_proc ?s6" "curr_proc s' = q"
    by (rule schedule_switch [where flag = flag]) (simp add: Let_def schedule_finish_def)
  then show ?thesis
    by (auto simp: same_rq_def same_procs_def core_def proc_ok_def)
qed

lemma sched_inv_same:
  assumes "sched_inv P s" "same_rq s s'" "same_procs s s'" "curr_proc s' = curr_proc s"
  shows "sched_inv P s'"
proof -
  obtain b where "stride_window (Suc (unat BIG_STRIDE)) b s (run_set P s)"
    using assms(1) by (auto simp: sched_inv_def)
  then show ?thesis
    using assms(1,4) by (intro sched_invI [OF assms(1) _ _ assms(3)])
      (auto simp: same_rq_facts [OF assms(2)] sched_inv_def)
qed

lemma sched_inv_cong:
  assumes "sched_inv P s" "same_rq s s'" "idle_proc s' = idle_proc s" "curr_proc s' = curr_proc s"
    and st: "\<And>p. p_state (procs s' p) = p_state (procs s p)" "\<And>p. p_gpt (procs s' p) = p_gpt (procs s p)"
  shows "sched_inv P s'"
proof -
  have "proc_ok s' p = proc_ok s p" "run_set P s' = run_set P s" for p
    using assms(2) st by (auto simp: proc_ok_def same_rq_def run_set_def)
  then show ?thesis
    using assms unfolding sched_inv_def by (simp add: same_rq_facts [OF assms(2)])
qed

lemma schedule_run:
  assumes inv: "sched_inv P s"
  shows "\<exists>s'. schedule s = ret s' \<and> sched_inv P s' \<and> same_procs s s' \<and>
    (if run_set P s = {} then curr_proc s' = idle_proc s
     else curr_proc s' \<in> run_set P s \<and> (\<forall>q\<in>run_set P s. stride_le s (curr_proc s') q))"
proof -
  obtain flag s1 where i: "local_intr_save s = (flag, s1)" "same_rq s s1" "procs s1 = procs s"
      "idle_proc s1 = idle_proc s" "curr_proc s1 = curr_proc s"
    by (rule local_intr_cases [of s])
  define s2 where "s2 = upd_proc (curr_proc s1) (\<lambda>q. q\<lparr>p_need_reschedule := False\<rparr>) s1"
  have s2: "same_rq s s2" "same_procs s s2" "curr_proc s2 = curr_proc s"
    using i by (auto simp: s2_def same_rq_def same_procs_def core_def proc_ok_def)
  have inv2: "sched_inv P s2"
    by (rule sched_inv_same [OF inv s2])
  obtain s3 where s3: "(if p_state (curr_pcb s2) = PROC_RUNNABLE then scheduler_enqueue (curr_proc s2) s2 else ret s2) = ret s3"
      "stride_inv s3" "stride_queue s3 = run_set P s2" "same_procs s2 s3" "curr_proc s3 = curr_proc s2"
      "\<And>p. p_stride (procs s3 p) = p_stride (procs s2 p)" "sstatus s3 = sstatus s2"
    by (rule schedule_enqueue [OF inv2]) (rule that)
  have R: "run_set P s2 = run_set P s"
    by (rule same_procs_run_set [OF s2(2)])
  have stride: "p_stride (procs s3 p) = p_stride (procs s p)" for p
    using s3(6) s2(1) by (simp add: same_rq_def)
  have sp3: "same_procs s s3"
    using same_procs_trans [OF s2(2) s3(4)] .
  have ok3: "proc_ok s3 p" if "p \<in> insert (idle_proc s) P" for p
    using inv that sp3 by (auto simp: sched_inv_def same_procs_def)
  have eq: "schedule s = schedule_next flag s3"
    unfolding schedule_def i(1) Let_def prod.case s2_def [symmetric] s3(1) by simp
  show ?thesis
  proof (cases "run_set P s = {}")
    case True
    then have pick: "scheduler_pick_next s3 = (None, s3)"
      using s3(2,3) R by (simp add: scheduler_pick_next_def stride.pick_empty)
    have "idle_proc s3 = idle_proc s"
      using sp3 by (simp add: same_procs_def)
    then obtain s' where s': "schedule s = ret s'" "same_rq s3 s'" "same_procs s3 s'" "curr_proc s' = idle_proc s"
      using schedule_finish_ok [of s3 "idle_proc s"] ok3 by (auto simp: eq schedule_next_def pick)
    have "sched_inv P s'"
      by (rule sched_invI [OF inv _ _ same_procs_trans [OF sp3 s'(3)]])
        (use s3 s' R True in \<open>auto simp: same_rq_facts [OF s'(2)] stride_window_def\<close>)
    then show ?thesis
      using s' True same_procs_trans [OF sp3 s'(3)] by auto
  next
    case False
    then obtain p s4 s5 b where p: "scheduler_pick_next s3 = (Some p, s4)" "scheduler_dequeue p s4 = ret s5"
        "p \<in> run_set P s" "\<And>q. q \<in> run_set P s \<Longrightarrow> stride_le s3 p q" "stride_inv s5"
        "stride_queue s5 = run_set P s - {p}" "same_procs s3 s5"
        "stride_window (Suc (unat BIG_STRIDE)) b s5 (run_set P s)"
      using schedule_choose [OF s3(2)] s3(3) R by metis
    have "proc_ok s5 p"
      using ok3 [of p] p(3,7) by (auto simp: same_procs_def run_set_def)
    then obtain s' where s': "schedule s = ret s'" "same_rq s5 s'" "same_procs s5 s'" "curr_proc s' = p"
      using schedule_finish_ok [of s5 p] by (auto simp: eq schedule_next_def p)
    have sp: "same_procs s s'"
      using same_procs_trans [OF same_procs_trans [OF sp3 p(7)] s'(3)] .
    have "sched_inv P s'"
      by (rule sched_invI [OF inv _ _ sp])
        (use p s' in \<open>auto simp: same_rq_facts [OF s'(2)] run_set_def\<close>)
    moreover have "stride_le s p q" if "q \<in> run_set P s" for q
      using p(4) [OF that] stride by (simp add: stride_le_def stride_window_def)
    ultimately show ?thesis
      using s' False p(3) sp by auto
  qed
qed

text \<open>The invariant does not look at the fields of an extended state.\<close>

lemma sched_inv_truncate: "sched_inv P (sched.truncate s) = sched_inv P s"
proof -
  have c: "stride_comp_fn (sched.truncate s) = stride_comp_fn s"
    by (intro ext) (simp add: stride_comp_fn_def sched.defs)
  have w: "stride_window w b (sched.truncate s) A = stride_window w b s A" for w b A
    by (simp add: stride_window_def sched.defs)
  have r: "rq_rep (sched.truncate s) t = rq_rep s t" for t
    unfolding rq_rep_def c w by (simp add: queued_ok_def sched.defs)
  have q: "stride_queue (sched.truncate s) = stride_queue s" "run_set P (sched.truncate s) = run_set P s"
    by (simp_all add: stride_queue_def run_set_def sched.defs)
  show ?thesis
    unfolding sched_inv_def stride_inv_def r w q by (simp add: proc_ok_def sched.defs)
qed

text \<open>Nor do the operations change them.\<close>

lemma more_basics [simp]:
  "sched.more (upd_proc p f s) = sched.more s"
  "sched.more (snd (local_intr_save s)) = sched.more s"
  "sched.more (local_intr_restore flag s) = sched.more s"
  "sched.more (write_satp a s) = sched.more s"
  "sched.more (snd (stride_pick_next s)) = sched.more s"
  by (simp_all add: upd_proc_def local_intr_save_def local_intr_restore_def intr_disable_def
      intr_enable_def write_satp_def stride_pick_next_def split: option.splits)

lemma more_rq:
  "stride_enqueue p s = ret s' \<Longrightarrow> sched.more s' = sched.more s"
  "stride_dequeue p s = ret s' \<Longrightarrow> sched.more s' = sched.more s"
  by (auto simp: stride_enqueue_def stride_dequeue_def Let_def assert_then_eq_ret upd_proc_def split: option.splits)

lemma wakeup_more:
  assumes "wakeup_proc p s = ret s'"
  shows "sched.more s' = sched.more s"
  using assms more_basics(2) [of s]
  by (auto simp: wakeup_proc_def assert_then_eq_ret bind_exec_eq_ret scheduler_enqueue_def Let_def
      case_prod_unfold dest!: more_rq split: if_splits)

lemma run_proc_more: "run_proc p s = ret s' \<Longrightarrow> sched.more s' = sched.more s"
  using more_basics(2) [of "s\<lparr>curr_proc := p\<rparr>"]
  by (auto simp: run_proc_def Let_def case_prod_unfold bind_exec_eq_ret split: if_splits)

lemma schedule_finish_more: "schedule_finish flag q s = ret s' \<Longrightarrow> sched.more s' = sched.more s"
  by (auto simp: schedule_finish_def Let_def dest: run_proc_more split: if_splits)

lemma schedule_next_more:
  assumes "schedule_next flag s = ret s'"
  shows "sched.more s' = sched.more s"
  using assms more_basics(5) [of s]
  by (auto simp: schedule_next_def scheduler_pick_next_def scheduler_dequeue_def case_prod_unfold
      Let_def bind_exec_eq_ret dest!: schedule_finish_more more_rq split: option.splits)

lemma schedule_more:
  assumes "schedule s = ret s'"
  shows "sched.more s' = sched.more s"
  using assms more_basics(2) [of s]
  by (auto simp: schedule_def case_prod_unfold Let_def bind_exec_eq_ret scheduler_enqueue_def
      dest!: schedule_next_more more_rq split: if_splits)

section \<open>Correctness\<close>

definition sample_sleeper :: sched where
  "sample_sleeper = sample_sched\<lparr>procs := (procs sample_sched)(4 := sample_pcb\<lparr>p_state := PROC_SLEEPING,
     p_wait_state := WAIT_TIMER, p_run_queue := None\<rparr>)\<rparr>"

lemma sample_run_set: "run_set {1, 2, 3, 4} sample_sleeper = {1, 2, 3}"
  by (auto simp: run_set_def sample_sleeper_def sample_sched_def sample_pcb_def const_defs)

lemma sample_sleeper_rep: "rq_rep sample_sleeper sample_tree"
proof -
  have "stride_comp_fn sample_sleeper 2 1 \<noteq> -1"
    by (simp add: stride_comp_fn_def sample_sleeper_def sample_sched_def sample_pcb_def)
  moreover have "stride_window (Suc (unat BIG_STRIDE)) 0xFFFFFFF0 sample_sleeper {1, 2}"
    by (simp add: stride_window_def sample_sleeper_def sample_sched_def sample_pcb_def ahead_def BIG_STRIDE_def)
  ultimately show ?thesis
    by (auto simp: rq_rep_def sh_heap_def sample_sleeper_def sample_sched_def sample_pcb_def queued_ok_def)
qed

lemma sample_sched_inv: "sched_inv {1, 2, 3, 4} sample_sleeper"
proof -
  have "stride_window (Suc (unat BIG_STRIDE)) 0xFFFFFFF0 sample_sleeper {1, 2, 3}"
    by (simp add: stride_window_def sample_sleeper_def sample_sched_def sample_pcb_def ahead_def BIG_STRIDE_def)
  moreover have "stride_queue sample_sleeper = {1, 2}"
    using rq_rep_queue [OF sample_sleeper_rep] by auto
  moreover have "stride_inv sample_sleeper"
    using sample_sleeper_rep by (auto simp: stride_inv_def)
  moreover have "curr_proc sample_sleeper = 3" "idle_proc sample_sleeper = 9"
    by (simp_all add: sample_sleeper_def sample_sched_def)
  moreover have "proc_ok sample_sleeper p" for p
    by (simp add: proc_ok_def sample_sleeper_def sample_sched_def sample_pcb_def const_defs)
  moreover have "p_state (procs sample_sleeper 9) = PROC_RUNNABLE"
    by (simp add: sample_sleeper_def sample_sched_def sample_pcb_def)
  ultimately show ?thesis
    by (auto simp: sched_inv_def sample_run_set)
qed

text \<open>C5: the scheduler never loses or invents a process. When the run queue holds exactly the
  runnable processes that are not running, \<open>schedule\<close> returns with the same being true again: if
  any process is runnable it switches to one of them of least stride, otherwise to the idle
  process, and no process changes state.
\<close>

theorem schedule_correct:
  assumes "sched_inv P s"
  shows "\<exists>s'. schedule s = ret s' \<and> sched_inv P s' \<and> run_set P s' = run_set P s \<and>
    (if run_set P s = {} then curr_proc s' = idle_proc s
     else curr_proc s' \<in> run_set P s \<and> (\<forall>q\<in>run_set P s. stride_le s (curr_proc s') q))"
  using schedule_run [OF assms] same_procs_run_set by blast

theorem schedule_correct_witness:
  "\<exists>s'. schedule sample_sleeper = ret s' \<and> sched_inv {1, 2, 3, 4} s' \<and> curr_proc s' \<in> {1, 2, 3} \<and>
    stride_le sample_sleeper (curr_proc s') 1"
  using schedule_correct [OF sample_sched_inv] unfolding sample_run_set by auto

text \<open>Waking a sleeping process makes it runnable, clears what it waited for, puts it into the run
  queue unless it is the running one, and changes no other process and not the interrupt switch.
  Its stride has to lie within \<open>BIG_STRIDE\<close> of the strides of the runnable processes.
\<close>

theorem wakeup_correct:
  assumes "sched_inv P s" and "p \<in> P" and "p_state (procs s p) = PROC_SLEEPING"
    and "stride_window (Suc (unat BIG_STRIDE)) b s (insert p (run_set P s))"
  shows "\<exists>s'. wakeup_proc p s = ret s' \<and> sched_inv P s' \<and> run_set P s' = insert p (run_set P s) \<and>
    p_wait_state (procs s' p) = WAIT_NONE \<and> sstatus s' = sstatus s \<and>
    (\<forall>q. q \<noteq> p \<longrightarrow> procs s' q = procs s q)"
proof -
  have "p_state (procs s p) \<noteq> PROC_ZOMBIE" "p_state (procs s p) \<noteq> PROC_RUNNABLE"
    using assms(3) by (simp_all add: const_defs)
  from wakeup_proc_sleeping [OF assms(1,2) this assms(4)] show ?thesis
    using assms(2) by (fastforce simp: run_set_def)
qed

theorem wakeup_correct_witness:
  "\<exists>s'. wakeup_proc 4 sample_sleeper = ret s' \<and> sched_inv {1, 2, 3, 4} s' \<and>
    run_set {1, 2, 3, 4} s' = {1, 2, 3, 4}"
proof -
  have "stride_window (Suc (unat BIG_STRIDE)) 0xFFFFFFF0 sample_sleeper (insert 4 {1, 2, 3})"
    by (simp add: stride_window_def sample_sleeper_def sample_sched_def sample_pcb_def ahead_def BIG_STRIDE_def)
  moreover have "p_state (procs sample_sleeper 4) = PROC_SLEEPING"
    by (simp add: sample_sleeper_def)
  ultimately show ?thesis
    using wakeup_correct [OF sample_sched_inv, of 4 "0xFFFFFFF0"] unfolding sample_run_set
    by (auto simp: insert_commute)
qed

end
