(* ===== verification/Timer_List.thy ===== *)
theory Timer_List
  imports Schedule
begin

text \<open>
  The kernel timers of \<open>kernel/proc/schedule.c\<close>. The list keeps, for each timer, the ticks left
  after the timer before it has expired. \<open>deadlines s vs\<close> are the absolute numbers of ticks left:
  adding, deleting and ticking are shown to insert, remove and count down absolute deadlines.
\<close>

unbundle bit_operations_syntax

section \<open>Operations\<close>

definition upd_timer :: "u64 \<Rightarrow> (timer \<Rightarrow> timer) \<Rightarrow> 'z tsched_scheme \<Rightarrow> 'z tsched_scheme" where
  "upd_timer t f s = s\<lparr>timers := (timers s)(t := f (timers s t))\<rparr>"

text \<open>The loop of \<open>add_timer\<close>: the node before which the timer is to be inserted.\<close>

partial_function (option) add_timer_loop ::
  "u64 \<Rightarrow> (unit, u64) lnode \<Rightarrow> 'z tsched_scheme \<Rightarrow> ((unit, u64) lnode \<times> 'z tsched_scheme) option" where
  "add_timer_loop t list s =
     (case list of
        LHead _ \<Rightarrow> Some (list, s)
      | LNode n \<Rightarrow>
          if tm_expires (timers s t) < tm_expires (timers s n)
          then Some (list, upd_timer n (\<lambda>m. m\<lparr>tm_expires := tm_expires m - tm_expires (timers s t)\<rparr>) s)
          else let s1 = upd_timer t (\<lambda>m. m\<lparr>tm_expires := tm_expires m - tm_expires (timers s n)\<rparr>) s
               in add_timer_loop t (nxt (timer_links s1) list) s1)"

definition add_timer :: "u64 \<Rightarrow> 'z tsched_scheme \<Rightarrow> 'z tsched_scheme exec" where
  "add_timer t s =
     (let (intr_flag, s1) = local_intr_save s in
      assert_then (tm_expires (timers s1 t) > 0 \<and> tm_proc (timers s1 t) \<noteq> None)
        (assert_then (list_empty (timer_links s1) (LNode t))
          (case add_timer_loop t (nxt (timer_links s1) timer_head) s1 of
             None \<Rightarrow> None
           | Some (list, s2) \<Rightarrow>
               let L = timer_links s2 in
               ret (local_intr_restore intr_flag
                 (s2\<lparr>timer_links := add_list (prv L list) list (LNode t) L\<rparr>)))))"

definition del_timer :: "u64 \<Rightarrow> 'z tsched_scheme \<Rightarrow> 'z tsched_scheme" where
  "del_timer t s =
     (let (intr_flag, s1) = local_intr_save s;
          s4 = (if list_empty (timer_links s1) (LNode t) then s1
                else let s2 = (if tm_expires (timers s1 t) = 0 then s1
                               else case nxt (timer_links s1) (LNode t) of
                                      LHead _ \<Rightarrow> s1
                                    | LNode n \<Rightarrow> upd_timer n (\<lambda>m. m\<lparr>tm_expires :=
                                        tm_expires m + tm_expires (timers s1 t)\<rparr>) s1);
                         s3 = s2\<lparr>timer_links := del_list (LNode t) (timer_links s2)\<rparr>
                     in s3\<lparr>timer_links := init_list (LNode t) (timer_links s3)\<rparr>)
      in local_intr_restore intr_flag s4)"

text \<open>The \<open>while (!timer->expires)\<close> loop of \<open>run_timers\<close>; \<open>list\<close> is the link of \<open>timer\<close>.\<close>

partial_function (option) run_timers_loop ::
  "u64 \<Rightarrow> 'z tsched_scheme \<Rightarrow> 'z tsched_scheme exec" where
  "run_timers_loop t s =
     (if tm_expires (timers s t) \<noteq> 0 then ret s
      else let list = nxt (timer_links s) (LNode t) in
        (case tm_proc (timers s t) of
           None \<Rightarrow> null_deref
         | Some p \<Rightarrow>
             assert_then (p_wait_state (procs s p) = 0 \<or> p_wait_state (procs s p) AND WAIT_INT \<noteq> 0)
               (bind_exec (wakeup_proc p s) (\<lambda>s1.
                  let s2 = del_timer t s1 in
                  case list of LHead _ \<Rightarrow> ret s2 | LNode t' \<Rightarrow> run_timers_loop t' s2))))"

definition run_timers :: "'z tsched_scheme \<Rightarrow> 'z tsched_scheme exec" where
  "run_timers s =
     (let (intr_flag, s1) = local_intr_save s in
      bind_exec
        (case nxt (timer_links s1) timer_head of
           LHead _ \<Rightarrow> ret s1
         | LNode t \<Rightarrow>
             assert_then (tm_expires (timers s1 t) \<noteq> 0)
               (run_timers_loop t (upd_timer t (\<lambda>m. m\<lparr>tm_expires := tm_expires m - 1\<rparr>) s1)))
        (\<lambda>s2. ret (local_intr_restore intr_flag (scheduler_proc_tick (curr_proc s2) s2))))"

section \<open>Relative and absolute deadlines\<close>

fun insert_delta :: "u64 \<times> nat \<Rightarrow> (u64 \<times> nat) list \<Rightarrow> (u64 \<times> nat) list" where
  "insert_delta (x, e) [] = [(x, e)]"
| "insert_delta (x, e) ((y, d) # ds) =
     (if e < d then (x, e) # (y, d - e) # ds else (y, d) # insert_delta (x, e - d) ds)"

fun remaining :: "nat \<Rightarrow> (u64 \<times> nat) list \<Rightarrow> (u64 \<times> nat) list" where
  "remaining a [] = []"
| "remaining a ((y, d) # ds) = (y, a + d) # remaining (a + d) ds"

lemma remaining_append:
  "remaining a (us @ vs) = remaining a us @ remaining (a + sum_list (map snd us)) vs"
  by (induction us arbitrary: a) (auto simp: ac_simps)

lemma map_fst_remaining [simp]: "map fst (remaining a ds) = map fst ds"
  by (induction ds arbitrary: a) auto

lemma remaining_insert:
  "remaining a (insert_delta (x, e) ds) =
     takeWhile (\<lambda>y. snd y \<le> a + e) (remaining a ds) @ (x, a + e) #
     dropWhile (\<lambda>y. snd y \<le> a + e) (remaining a ds)"
  by (induction ds arbitrary: a e) auto

definition deltas :: "'z tsched_scheme \<Rightarrow> u64 list \<Rightarrow> (u64 \<times> nat) list" where
  "deltas s vs = map (\<lambda>t. (t, unat (tm_expires (timers s t)))) vs"

definition deadlines :: "'z tsched_scheme \<Rightarrow> u64 list \<Rightarrow> (u64 \<times> nat) list" where
  "deadlines s vs = remaining 0 (deltas s vs)"

definition timer_rep :: "'z tsched_scheme \<Rightarrow> u64 list \<Rightarrow> bool" where
  "timer_rep s vs \<longleftrightarrow> dlist (timer_links s) timer_head (map LNode vs) \<and>
     sum_list (map snd (deltas s vs)) < 2 ^ 32"

lemma deltas_simps [simp]:
  "deltas s [] = []"
  "deltas s (t # vs) = (t, unat (tm_expires (timers s t))) # deltas s vs"
  "deltas s (us @ vs) = deltas s us @ deltas s vs"
  by (simp_all add: deltas_def)

lemma deltas_upd_other: "t \<notin> set vs \<Longrightarrow> deltas (upd_timer t f s) vs = deltas s vs"
  by (auto simp: deltas_def upd_timer_def)

lemma deltas_cong: "timers s' = timers s \<Longrightarrow> deltas s' vs = deltas s vs"
  by (simp add: deltas_def)

section \<open>Adding a timer\<close>

lemma add_timer_loop_ok:
  assumes "dlist (timer_links s) timer_head (map LNode (us @ vs))" and "t \<notin> set vs"
  shows "\<exists>vs1 vs2 T. vs = vs1 @ vs2 \<and>
    add_timer_loop t (hd (map LNode vs @ [timer_head])) s = Some (hd (map LNode vs2 @ [timer_head]), s\<lparr>timers := T\<rparr>) \<and>
    (\<forall>x. x \<notin> insert t (set vs) \<longrightarrow> T x = timers s x) \<and> (\<forall>x. tm_proc (T x) = tm_proc (timers s x)) \<and>
    deltas (s\<lparr>timers := T\<rparr>) (vs1 @ t # vs2) = insert_delta (t, unat (tm_expires (timers s t))) (deltas s vs)"
  using assms
proof (induction vs arbitrary: us s)
  case Nil
  show ?case
    by (rule exI [of _ "[]"], rule exI [of _ "[]"], rule exI [of _ "timers s"])
      (simp add: add_timer_loop.simps)
next
  case (Cons n vs)
  let ?et = "tm_expires (timers s t)" and ?en = "tm_expires (timers s n)"
  have nt: "n \<noteq> t" "n \<notin> set vs" "t \<notin> set vs"
    using Cons.prems dlist_distinct [OF Cons.prems(1)] by (auto simp: distinct_map)
  show ?case
  proof (cases "?et < ?en")
    case True
    let ?T = "(timers s)(n := (timers s n)\<lparr>tm_expires := ?en - ?et\<rparr>)"
    have "unat (?en - ?et) = unat ?en - unat ?et"
      using True by (simp add: unat_sub word_less_nat_alt word_le_nat_alt)
    then have d: "deltas (s\<lparr>timers := ?T\<rparr>) (t # n # vs) = insert_delta (t, unat ?et) (deltas s (n # vs))"
      using True nt by (simp add: deltas_def word_less_nat_alt)
    have l: "add_timer_loop t (LNode n) s = Some (LNode n, s\<lparr>timers := ?T\<rparr>)"
      using True by (simp add: add_timer_loop.simps upd_timer_def)
    show ?thesis
    proof (rule exI [of _ "[]"], rule exI [of _ "n # vs"], rule exI [of _ ?T], intro conjI)
      show "deltas (s\<lparr>timers := ?T\<rparr>) ([] @ t # n # vs) = insert_delta (t, unat ?et) (deltas s (n # vs))"
        using d by simp
      show "add_timer_loop t (hd (map LNode (n # vs) @ [timer_head])) s =
          Some (hd (map LNode (n # vs) @ [timer_head]), s\<lparr>timers := ?T\<rparr>)"
        using l by simp
    qed auto
  next
    case False
    define s1 where "s1 = upd_timer t (\<lambda>m. m\<lparr>tm_expires := tm_expires m - ?en\<rparr>) s"
    have links: "timer_links s1 = timer_links s"
      by (simp add: s1_def upd_timer_def)
    have nx: "nxt (timer_links s1) (LNode n) = hd (map LNode vs @ [timer_head])"
      using dlist_nxt [of "timer_links s" timer_head "map LNode us" "LNode n" "map LNode vs"] Cons.prems(1)
      by (simp add: links)
    have "dlist (timer_links s1) timer_head (map LNode ((us @ [n]) @ vs))"
      using Cons.prems(1) by (simp add: links)
    from Cons.IH [OF this nt(3)]
    obtain vs1 vs2 T where T: "vs = vs1 @ vs2"
        "add_timer_loop t (hd (map LNode vs @ [timer_head])) s1 = Some (hd (map LNode vs2 @ [timer_head]), s1\<lparr>timers := T\<rparr>)"
        "\<forall>x. x \<notin> insert t (set vs) \<longrightarrow> T x = timers s1 x" "\<forall>x. tm_proc (T x) = tm_proc (timers s1 x)"
        "deltas (s1\<lparr>timers := T\<rparr>) (vs1 @ t # vs2) = insert_delta (t, unat (tm_expires (timers s1 t))) (deltas s1 vs)"
      by blast
    have s1T: "s1\<lparr>timers := T\<rparr> = s\<lparr>timers := T\<rparr>"
      by (simp add: s1_def upd_timer_def)
    have et: "unat (tm_expires (timers s1 t)) = unat ?et - unat ?en"
      using False by (simp add: s1_def upd_timer_def unat_sub word_le_nat_alt word_less_nat_alt)
    have d1: "deltas s1 vs = deltas s vs"
      using nt by (simp add: s1_def deltas_upd_other)
    have Tn: "T n = timers s n"
      using T(3) nt by (simp add: s1_def upd_timer_def)
    show ?thesis
    proof (rule exI [of _ "n # vs1"], rule exI [of _ vs2], rule exI [of _ T], intro conjI)
      show "add_timer_loop t (hd (map LNode (n # vs) @ [timer_head])) s = Some (hd (map LNode vs2 @ [timer_head]), s\<lparr>timers := T\<rparr>)"
      proof -
        have "add_timer_loop t (LNode n) s = add_timer_loop t (nxt (timer_links s1) (LNode n)) s1"
          using False by (subst add_timer_loop.simps) (simp add: s1_def Let_def)
        then show ?thesis
          unfolding nx using T(2) by (simp add: s1T)
      qed
      show "deltas (s\<lparr>timers := T\<rparr>) ((n # vs1) @ t # vs2) = insert_delta (t, unat ?et) (deltas s (n # vs))"
        using T(5) False by (simp add: s1T et d1 Tn word_less_nat_alt)
    qed (use T nt in \<open>auto simp: s1_def upd_timer_def\<close>)
  qed
qed

lemma sum_insert_delta: "sum_list (map snd (insert_delta (x, e) ds)) \<le> max e (sum_list (map snd ds))"
proof (induction ds arbitrary: e)
  case (Cons y ds)
  show ?case
    using Cons.IH [of "e - snd y"] by (cases y) (auto simp: max_def split: if_splits)
qed simp

lemma prv_hd_append:
  assumes "dlist L h (us @ vs)"
  shows "prv L (hd (vs @ [h])) = last (h # us)"
  using assms dlist_prv_head [of L h us] dlist_prv [of L h us] by (cases vs) auto

lemma timer_sel_intr [simp]:
  "timers (snd (local_intr_save s)) = timers s"
  "timer_links (snd (local_intr_save s)) = timer_links s"
  "timers (local_intr_restore flag s) = timers s"
  "timer_links (local_intr_restore flag s) = timer_links s"
  by (simp_all add: local_intr_save_def local_intr_restore_def intr_disable_def intr_enable_def)

lemma add_timer_ok:
  assumes rep: "timer_rep s vs" and t: "t \<notin> set vs" "list_empty (timer_links s) (LNode t)"
    and e: "0 < tm_expires (timers s t)" "tm_proc (timers s t) \<noteq> None"
  shows "\<exists>s' vs1 vs2. vs = vs1 @ vs2 \<and> add_timer t s = ret s' \<and> timer_rep s' (vs1 @ t # vs2) \<and>
    deltas s' (vs1 @ t # vs2) = insert_delta (t, unat (tm_expires (timers s t))) (deltas s vs) \<and>
    (\<forall>x. tm_proc (timers s' x) = tm_proc (timers s x)) \<and> procs s' = procs s \<and> sstatus s' = sstatus s"
proof -
  obtain flag s1 where i: "local_intr_save s = (flag, s1)"
    by fastforce
  have s1: "timers s1 = timers s" "timer_links s1 = timer_links s" "procs s1 = procs s"
    using timer_sel_intr(1,2) [of s] local_intr_sel(1) [of s] by (simp_all add: i)
  have d: "dlist (timer_links s1) timer_head (map LNode ([] @ vs))"
    using rep by (simp add: timer_rep_def s1)
  obtain vs1 vs2 T where T: "vs = vs1 @ vs2"
      "add_timer_loop t (hd (map LNode vs @ [timer_head])) s1 = Some (hd (map LNode vs2 @ [timer_head]), s1\<lparr>timers := T\<rparr>)"
      "\<forall>x. tm_proc (T x) = tm_proc (timers s1 x)"
      "deltas (s1\<lparr>timers := T\<rparr>) (vs1 @ t # vs2) = insert_delta (t, unat (tm_expires (timers s1 t))) (deltas s1 vs)"
    using add_timer_loop_ok [OF d t(1)] by blast
  let ?at = "hd (map LNode vs2 @ [timer_head])" and ?L = "timer_links s1"
  let ?L' = "add_list (prv ?L ?at) ?at (LNode t) ?L"
  let ?s' = "local_intr_restore flag (s1\<lparr>timers := T, timer_links := ?L'\<rparr>)"
  have "nxt ?L timer_head = hd (map LNode vs @ [timer_head])"
    using dlist_nxt_head [OF d] by simp
  then have ret: "add_timer t s = ret ?s'"
    using e t(2) T(2) by (simp add: add_timer_def i s1 Let_def)
  have dl: "dlist ?L timer_head (map LNode vs1 @ map LNode vs2)"
    using d T(1) by simp
  have "dlist ?L' timer_head (map LNode vs1 @ LNode t # map LNode vs2)"
    unfolding prv_hd_append [OF dl] using t(1) T(1) by (intro dlist_add [OF dl]) auto
  moreover have del: "deltas ?s' (vs1 @ t # vs2) = insert_delta (t, unat (tm_expires (timers s t))) (deltas s vs)"
    using T(4) by (simp add: deltas_def s1)
  moreover have "sum_list (map snd (deltas ?s' (vs1 @ t # vs2))) < 2 ^ 32"
    unfolding del using rep sum_insert_delta [of t "unat (tm_expires (timers s t))" "deltas s vs"]
      unat_u32_bound [of "tm_expires (timers s t)"] by (auto simp: timer_rep_def max_def split: if_splits)
  ultimately have "timer_rep ?s' (vs1 @ t # vs2)"
    by (simp add: timer_rep_def)
  then show ?thesis
    using T(1,3) ret del by (auto simp: s1 local_intr_roundtrip [OF i])
qed

section \<open>Deleting a timer\<close>

text \<open>The delta of the deleted timer goes to the next one.\<close>

fun drop_delta :: "nat \<Rightarrow> (u64 \<times> nat) list \<Rightarrow> (u64 \<times> nat) list" where
  "drop_delta d [] = []"
| "drop_delta d ((y, e) # ds) = (y, e + d) # ds"

lemma remaining_drop: "remaining a (drop_delta d ds) = remaining (a + d) ds"
  by (cases "(d, ds)" rule: drop_delta.cases) (auto simp: ac_simps)

lemma sum_drop_delta: "sum_list (map snd (drop_delta d ds)) \<le> d + sum_list (map snd ds)"
  by (cases "(d, ds)" rule: drop_delta.cases) auto

lemma del_timer_ok:
  assumes rep: "timer_rep s (us @ t # vs)"
  shows "timer_rep (del_timer t s) (us @ vs)"
    and "deltas (del_timer t s) (us @ vs) = deltas s us @ drop_delta (unat (tm_expires (timers s t))) (deltas s vs)"
    and "\<And>x. tm_proc (timers (del_timer t s) x) = tm_proc (timers s x)" "procs (del_timer t s) = procs s"
    and "sstatus (del_timer t s) = sstatus s" "list_empty (timer_links (del_timer t s)) (LNode t)"
    and "\<And>x. x \<notin> set vs \<or> tm_expires (timers s t) = 0 \<Longrightarrow> timers (del_timer t s) x = timers s x"
    and "same_rq s (del_timer t s)" "idle_proc (del_timer t s) = idle_proc s" "curr_proc (del_timer t s) = curr_proc s"
proof -
  obtain flag s1 where i: "local_intr_save s = (flag, s1)" "same_rq s s1" "procs s1 = procs s"
      "idle_proc s1 = idle_proc s" "curr_proc s1 = curr_proc s"
    by (rule local_intr_cases [of s])
  have s1: "timers s1 = timers s" "timer_links s1 = timer_links s"
    using timer_sel_intr(1,2) [of s] by (simp_all add: i(1))
  define d where "d = tm_expires (timers s t)"
  have dl: "dlist (timer_links s) timer_head (map LNode us @ LNode t # map LNode vs)"
    using rep by (simp add: timer_rep_def)
  note ne = dlist_member_not_empty [OF dl]
  have nx: "nxt (timer_links s) (LNode t) = hd (map LNode vs @ [timer_head])"
    by (rule dlist_nxt [OF dl])
  define T where "T = (case vs of [] \<Rightarrow> timers s
     | n # ws \<Rightarrow> if d = 0 then timers s
                 else (timers s)(n := (timers s n)\<lparr>tm_expires := tm_expires (timers s n) + d\<rparr>))"
  define L where "L = init_list (LNode t) (del_list (LNode t) (timer_links s))"
  have noop: "s1\<lparr>timers := timers s, timer_links := X\<rparr> = s1\<lparr>timer_links := X\<rparr>" for X
    by (simp flip: s1(1))
  have del: "del_timer t s = local_intr_restore flag (s1\<lparr>timers := T, timer_links := L\<rparr>)"
    by (cases vs) (simp_all add: del_timer_def i(1) s1 ne nx T_def L_def d_def upd_timer_def noop)
  have dis: "distinct (us @ t # vs)"
    using dlist_distinct [OF dl] by (auto simp: distinct_map inj_on_def)
  have bound: "unat (tm_expires (timers s n)) + unat d < 2 ^ 32" if "vs = n # ws" for n ws
    using rep that by (simp add: timer_rep_def d_def)
  show deltas: "deltas (del_timer t s) (us @ vs) = deltas s us @ drop_delta (unat (tm_expires (timers s t))) (deltas s vs)"
    unfolding d_def [symmetric] using dis bound
    by (cases vs) (auto simp: del deltas_def T_def unat_plus_if_size word_size)
  have "sum_list (map snd (deltas (del_timer t s) (us @ vs))) < 2 ^ 32"
    unfolding deltas using rep sum_drop_delta [of "unat (tm_expires (timers s t))" "deltas s vs"]
    by (simp add: timer_rep_def)
  then show "timer_rep (del_timer t s) (us @ vs)"
    using dlist_del_init [OF dl] by (simp add: timer_rep_def del L_def)
  show "\<And>x. tm_proc (timers (del_timer t s) x) = tm_proc (timers s x)"
    by (simp add: del T_def split: list.splits)
  show "procs (del_timer t s) = procs s" "idle_proc (del_timer t s) = idle_proc s"
      "curr_proc (del_timer t s) = curr_proc s"
    by (simp_all add: del i)
  show "sstatus (del_timer t s) = sstatus s"
    by (simp add: del local_intr_roundtrip [OF i(1)])
  show "list_empty (timer_links (del_timer t s)) (LNode t)"
    by (simp add: del L_def list_empty_init)
  show "\<And>x. x \<notin> set vs \<or> tm_expires (timers s t) = 0 \<Longrightarrow> timers (del_timer t s) x = timers s x"
    by (auto simp: del T_def d_def split: list.splits)
  show "same_rq s (del_timer t s)"
    using i by (simp add: del same_rq_def)
qed

section \<open>A tick\<close>

definition wake_ok :: "'z sched_scheme \<Rightarrow> pcb_ptr \<Rightarrow> bool" where
  "wake_ok s p \<longleftrightarrow> p_state (procs s p) \<noteq> PROC_ZOMBIE \<and>
     (p_wait_state (procs s p) = 0 \<or> p_wait_state (procs s p) AND WAIT_INT \<noteq> 0)"

lemma tsched_more:
  fixes s s' :: "'z tsched_scheme"
  assumes "sched.more s' = sched.more s"
  shows "timers s' = timers s" "timer_links s' = timer_links s"
  using assms by (cases s; cases s'; simp)+

lemmas wakeup_proc_timers = wakeup_more [THEN tsched_more(1)] wakeup_more [THEN tsched_more(2)]

text \<open>Waking a process that may be asleep or runnable.\<close>

lemma wakeup_any:
  fixes s :: "'z tsched_scheme"
  assumes inv: "sched_inv P s" and p: "p \<in> P" and ok: "wake_ok s p"
    and win: "stride_window (Suc (unat BIG_STRIDE)) b s (insert p (run_set P s))"
  obtains s' where "wakeup_proc p s = ret s'" "sched_inv P s'" "run_set P s' = insert p (run_set P s)"
    "\<And>q. p_stride (procs s' q) = p_stride (procs s q)" "\<And>q. wake_ok s q \<Longrightarrow> wake_ok s' q"
    "sstatus s' = sstatus s" "curr_proc s' = curr_proc s" "timers s' = timers s" "timer_links s' = timer_links s"
proof (cases "p_state (procs s p) = PROC_RUNNABLE")
  case True
  obtain flag s1 where i: "local_intr_save s = (flag, s1)" "same_rq s s1" "procs s1 = procs s"
      "idle_proc s1 = idle_proc s" "curr_proc s1 = curr_proc s"
    by (rule local_intr_cases [of s])
  have "wakeup_proc p s = ret s"
    using True ok by (simp add: wakeup_proc_def wake_ok_def i local_intr_noop [OF i(1)])
  then show thesis
    by (rule that) (use inv True p in \<open>auto simp: run_set_def\<close>)
next
  case False
  have z: "p_state (procs s p) \<noteq> PROC_ZOMBIE"
    using ok by (simp add: wake_ok_def)
  obtain s' where s': "wakeup_proc p s = ret s'" "sched_inv P s'" "p_state (procs s' p) = PROC_RUNNABLE"
      "p_wait_state (procs s' p) = WAIT_NONE" "sstatus s' = sstatus s" "curr_proc s' = curr_proc s"
      "p_stride (procs s' p) = p_stride (procs s p)" "\<forall>q. q \<noteq> p \<longrightarrow> procs s' q = procs s q"
    using wakeup_proc_sleeping [OF inv p z False win] by blast
  have "p_stride (procs s' q) = p_stride (procs s q)" for q
    using s'(7,8) by (cases "q = p") auto
  moreover have "wake_ok s' q" if "wake_ok s q" for q
    using s'(3,4,8) that by (cases "q = p") (auto simp: wake_ok_def const_defs)
  moreover have "run_set P s' = insert p (run_set P s)"
  proof -
    have "q \<in> run_set P s' \<longleftrightarrow> q \<in> insert p (run_set P s)" for q
      using s'(3,8) p by (cases "q = p") (auto simp: run_set_def)
    then show ?thesis by blast
  qed
  ultimately show thesis
    using that s' wakeup_proc_timers [OF s'(1)] by blast
qed

abbreviation expired :: "'z tsched_scheme \<Rightarrow> u64 \<Rightarrow> bool" where
  "expired s t \<equiv> tm_expires (timers s t) = 0"

definition timer_procs :: "'z tsched_scheme \<Rightarrow> u64 list \<Rightarrow> pcb_ptr set" where
  "timer_procs s ts = {p. \<exists>t\<in>set ts. tm_proc (timers s t) = Some p}"

definition timers_ready :: "pcb_ptr set \<Rightarrow> u32 \<Rightarrow> 'z tsched_scheme \<Rightarrow> u64 list \<Rightarrow> bool" where
  "timers_ready P b s ts \<longleftrightarrow> (\<forall>t\<in>set ts. tm_proc (timers s t) \<noteq> None) \<and>
     (\<forall>p\<in>timer_procs s ts. p \<in> P \<and> wake_ok s p) \<and>
     stride_window (Suc (unat BIG_STRIDE)) b s (run_set P s \<union> timer_procs s ts)"

lemma timer_procs_Cons: "tm_proc (timers s t) = Some p \<Longrightarrow> timer_procs s (t # ts) = insert p (timer_procs s ts)"
  by (auto simp: timer_procs_def)

lemma sched_inv_del_timer:
  assumes "timer_rep s (us @ t # vs)" "sched_inv P s"
  shows "sched_inv P (del_timer t s)"
proof -
  note d = del_timer_ok [OF assms(1)]
  show ?thesis
    using assms(2) by (rule sched_inv_same) (auto simp: d same_procs_def proc_ok_def)
qed

lemma run_timers_step:
  fixes s :: "'z tsched_scheme"
  assumes rep: "timer_rep s (t # vs)" and inv: "sched_inv P s" and e: "expired s t"
    and ready: "timers_ready P b s (t # zs)"
  obtains s2 where "run_timers_loop t s = (case vs of [] \<Rightarrow> ret s2 | u # _ \<Rightarrow> run_timers_loop u s2)"
    "timer_rep s2 vs" "sched_inv P s2" "timers s2 = timers s" "timers_ready P b s2 zs"
    "run_set P s2 = run_set P s \<union> timer_procs s [t]" "sstatus s2 = sstatus s" "curr_proc s2 = curr_proc s"
proof -
  obtain p where tp: "tm_proc (timers s t) = Some p"
    using ready by (auto simp: timers_ready_def)
  have pP: "p \<in> P" "wake_ok s p"
    and win: "stride_window (Suc (unat BIG_STRIDE)) b s (run_set P s \<union> insert p (timer_procs s zs))"
    using ready by (auto simp: timers_ready_def timer_procs_Cons [OF tp])
  have "stride_window (Suc (unat BIG_STRIDE)) b s (insert p (run_set P s))"
    by (rule stride_window_mono [OF win]) auto
  from wakeup_any [OF inv pP this]
  obtain s1 where s1: "wakeup_proc p s = ret s1" "sched_inv P s1" "run_set P s1 = insert p (run_set P s)"
      "\<And>q. p_stride (procs s1 q) = p_stride (procs s q)" "\<And>q. wake_ok s q \<Longrightarrow> wake_ok s1 q"
      "sstatus s1 = sstatus s" "curr_proc s1 = curr_proc s" "timers s1 = timers s" "timer_links s1 = timer_links s"
    by metis
  have rep1: "timer_rep s1 ([] @ t # vs)"
    using rep s1(8,9) by (simp add: timer_rep_def deltas_def)
  note d = del_timer_ok [OF rep1]
  let ?s2 = "del_timer t s1"
  have T: "timers ?s2 = timers s"
    using d(7) e s1(8) by auto
  have nx: "nxt (timer_links s) (LNode t) = hd (map LNode vs @ [timer_head])"
    using dlist_nxt [of "timer_links s" timer_head "[]" "LNode t" "map LNode vs"] rep by (simp add: timer_rep_def)
  have step: "run_timers_loop t s = (case vs of [] \<Rightarrow> ret ?s2 | u # _ \<Rightarrow> run_timers_loop u ?s2)"
    using e tp pP(2) s1(1) nx
    by (subst run_timers_loop.simps) (auto simp: wake_ok_def Let_def split: list.splits)
  have rs: "run_set P ?s2 = insert p (run_set P s)"
    using s1(3) by (simp add: run_set_def d(4))
  have tpz: "timer_procs ?s2 zs = timer_procs s zs"
    by (simp add: timer_procs_def T)
  have "stride_window (Suc (unat BIG_STRIDE)) b ?s2 (run_set P ?s2 \<union> timer_procs ?s2 zs)"
    using win unfolding rs tpz by (simp add: stride_window_def d(4) s1(4))
  then have "timers_ready P b ?s2 zs"
    using ready s1(5) tpz by (auto simp: timers_ready_def timer_procs_Cons [OF tp] T wake_ok_def d(4))
  moreover have "run_set P ?s2 = run_set P s \<union> timer_procs s [t]"
    using rs tp by (auto simp: timer_procs_def)
  moreover have "timer_rep ?s2 vs" "sstatus ?s2 = sstatus s" "curr_proc ?s2 = curr_proc s"
    using d(1,5,10) s1(6,7) by simp_all
  ultimately show thesis
    using step sched_inv_del_timer [OF rep1 s1(2)] T by (intro that)
qed

lemma run_timers_loop_ok:
  fixes s :: "'z tsched_scheme"
  assumes "timer_rep s (t # vs)" "sched_inv P s" "timers_ready P b s (takeWhile (expired s) (t # vs))"
  shows "\<exists>s'. run_timers_loop t s = ret s' \<and> sched_inv P s' \<and> timer_rep s' (dropWhile (expired s) (t # vs)) \<and>
    timers s' = timers s \<and> run_set P s' = run_set P s \<union> timer_procs s (takeWhile (expired s) (t # vs)) \<and>
    sstatus s' = sstatus s \<and> curr_proc s' = curr_proc s"
  using assms
proof (induction vs arbitrary: t s)
  case Nil
  show ?case
  proof (cases "expired s t")
    case False
    then show ?thesis
      using Nil.prems by (simp add: run_timers_loop.simps timer_procs_def)
  next
    case True
    with Nil.prems(3) have "timers_ready P b s (t # [])"
      by simp
    from Nil.prems(1,2) True this
    obtain s2 where s2: "run_timers_loop t s = ret s2" "timer_rep s2 []" "sched_inv P s2" "timers s2 = timers s"
        "run_set P s2 = run_set P s \<union> timer_procs s [t]" "sstatus s2 = sstatus s" "curr_proc s2 = curr_proc s"
      by (rule run_timers_step) (simp only: list.case)
    then show ?thesis
      using True by (intro exI [of _ s2]) simp
  qed
next
  case (Cons u vs)
  show ?case
  proof (cases "expired s t")
    case False
    then show ?thesis
      using Cons.prems by (simp add: run_timers_loop.simps timer_procs_def)
  next
    case True
    let ?Z = "takeWhile (expired s) (u # vs)"
    have "timers_ready P b s (t # ?Z)"
      using Cons.prems(3) True by simp
    from Cons.prems(1,2) True this
    obtain s2 where s2: "run_timers_loop t s = run_timers_loop u s2"
        "timer_rep s2 (u # vs)" "sched_inv P s2" "timers s2 = timers s" "timers_ready P b s2 ?Z"
        "run_set P s2 = run_set P s \<union> timer_procs s [t]" "sstatus s2 = sstatus s" "curr_proc s2 = curr_proc s"
      by (rule run_timers_step) (simp only: list.case)
    have Z2: "takeWhile (expired s2) (u # vs) = ?Z" "dropWhile (expired s2) (u # vs) = dropWhile (expired s) (u # vs)"
      by (simp_all add: s2(4))
    have "timer_procs s2 ?Z \<union> timer_procs s [t] = timer_procs s (t # ?Z)"
      by (auto simp: timer_procs_def s2(4))
    moreover obtain s' where "run_timers_loop u s2 = ret s'" "sched_inv P s'"
        "timer_rep s' (dropWhile (expired s) (u # vs))" "timers s' = timers s2"
        "run_set P s' = run_set P s2 \<union> timer_procs s2 ?Z" "sstatus s' = sstatus s2" "curr_proc s' = curr_proc s2"
      using Cons.IH [OF s2(2,3)] s2(5) unfolding Z2 by blast
    ultimately show ?thesis
      using s2 True by (intro exI [of _ s']) (auto simp del: Un_iff)
  qed
qed

lemma remaining_ge: "y \<in> set (remaining a ds) \<Longrightarrow> a \<le> snd y"
proof (induction ds arbitrary: a)
  case (Cons d ds)
  obtain x e where d: "d = (x, e)"
    by (cases d)
  show ?case
    using Cons.prems Cons.IH [of "a + e"] by (auto simp: d)
qed simp

lemma remaining_dropWhile:
  "remaining 0 (dropWhile (\<lambda>y. snd y = 0) ds) = filter (\<lambda>y. snd y \<noteq> 0) (remaining 0 ds)"
proof (induction ds)
  case (Cons y ds)
  show ?case
  proof (cases "snd y = 0")
    case False
    then have "filter (\<lambda>y. snd y \<noteq> 0) (remaining (snd y) ds) = remaining (snd y) ds"
      by (auto simp: filter_id_conv dest: remaining_ge)
    then show ?thesis
      using False by (cases y) simp
  qed (use Cons in \<open>cases y, simp\<close>)
qed simp

lemma remaining_takeWhile:
  "takeWhile (\<lambda>y. snd y = 0) ds = filter (\<lambda>y. snd y = 0) (remaining 0 ds)"
proof (induction ds)
  case (Cons y ds)
  show ?case
  proof (cases "snd y = 0")
    case False
    then have "filter (\<lambda>y. snd y = 0) (remaining (snd y) ds) = []"
      by (auto simp: filter_empty_conv dest: remaining_ge)
    then show ?thesis
      using False by (cases y) simp
  qed (use Cons in \<open>cases y, simp\<close>)
qed simp

lemma remaining_Suc: "map (\<lambda>y. (fst y, snd y - 1)) (remaining (Suc a) ds) = remaining a ds"
  by (induction ds arbitrary: a) auto

lemma deltas_fst_filters:
  "map fst (takeWhile (\<lambda>y. snd y = 0) (deltas s vs)) = takeWhile (expired s) vs"
  "dropWhile (\<lambda>y. snd y = 0) (deltas s vs) = deltas s (dropWhile (expired s) vs)"
  by (induction vs) (auto simp: unat_eq_0)

text \<open>The tick of the running process, which is not in the queue.\<close>

lemma rq_rep_upd_other:
  assumes "rq_rep s t" "p \<notin> set_tree t" "p_stride (f (procs s p)) = p_stride (procs s p)"
  shows "rq_rep (upd_proc p f s) t"
proof -
  have "stride_comp_fn (upd_proc p f s) = stride_comp_fn s"
    using assms(3) by (intro ext stride_comp_fn_cong) auto
  moreover have "stride_window w b (upd_proc p f s) A = stride_window w b s A" for w b A
    using assms(3) by (intro stride_window_cong) auto
  moreover have "queued_ok (upd_proc p f s) q = queued_ok s q" if "q \<in> set_tree t" for q
    using that assms(2) by (auto simp: queued_ok_def)
  ultimately show ?thesis
    using assms(1) by (simp add: rq_rep_def)
qed

lemma sched_inv_upd_curr:
  assumes inv: "sched_inv P s" and f: "p_stride (f (curr_pcb s)) = p_stride (curr_pcb s)"
    "core (f (curr_pcb s)) = core (curr_pcb s)" "0 \<le> p_time_slice (curr_pcb s) \<Longrightarrow> 0 \<le> p_time_slice (f (curr_pcb s))"
  shows "sched_inv P (upd_proc (curr_proc s) f s)"
proof -
  let ?s = "upd_proc (curr_proc s) f s"
  note I = inv [unfolded sched_inv_def]
  obtain t where t: "rq_rep s t"
    using I by (auto simp: stride_inv_def)
  have q: "set_tree t = run_set P s - {curr_proc s}"
    using I rq_rep_queue [OF t] by simp
  have t': "rq_rep ?s t"
    using t q f(1) by (intro rq_rep_upd_other) auto
  obtain b where "stride_window (Suc (unat BIG_STRIDE)) b s (run_set P s)"
    using I by blast
  then have "stride_window (Suc (unat BIG_STRIDE)) b ?s (run_set P s)"
    using f(1) by (auto simp: stride_window_def)
  moreover have "same_procs s ?s"
    using f core_sel [OF f(2)] by (auto simp: same_procs_def proc_ok_def)
  ultimately show ?thesis
    using t' q I by (intro sched_invI [OF inv]) (auto simp: stride_inv_def rq_rep_queue [OF t'])
qed

lemma sched_inv_tick:
  assumes "sched_inv P s"
  shows "sched_inv P (scheduler_proc_tick (curr_proc s) s)"
proof -
  let ?dec = "upd_proc (curr_proc s) (\<lambda>q. q\<lparr>p_time_slice := p_time_slice q - 1\<rparr>) s"
  have d: "sched_inv P ?dec" if "p_time_slice (curr_pcb s) > 0"
    using that by (intro sched_inv_upd_curr [OF assms]) (auto simp: core_def)
  have r: "sched_inv P (upd_proc (curr_proc u) (\<lambda>q. q\<lparr>p_need_reschedule := True\<rparr>) u)" if "sched_inv P u" for u
    by (rule sched_inv_upd_curr [OF that]) (auto simp: core_def)
  show ?thesis
    using assms d r [of ?dec] r [OF assms]
    by (auto simp: scheduler_proc_tick_def stride_proc_tick_def Let_def)
qed

lemma tick_sel [simp]:
  "timers (scheduler_proc_tick p s) = timers s"
  "timer_links (scheduler_proc_tick p s) = timer_links s"
  "sstatus (scheduler_proc_tick p s) = sstatus s"
  "run_set P (scheduler_proc_tick p s) = run_set P s"
  by (auto simp: scheduler_proc_tick_def stride_proc_tick_def upd_proc_def Let_def run_set_def)

lemma sched_inv_intr: "sched_inv P (local_intr_restore flag s) = sched_inv P s"
  by (simp add: sched_inv_def same_rq_facts [OF same_rq_intr(2)] run_set_def proc_ok_def)

text \<open>Decrementing the first delta counts all deadlines down; the timers that reach zero are a
  prefix of the list.\<close>

lemma tick_deadlines:
  assumes vs: "vs = t # ws" "t \<notin> set ws" and pend: "\<forall>y\<in>set (deadlines s vs). snd y \<noteq> 0"
    and s2: "timers s2 = (timers s)(t := (timers s t)\<lparr>tm_expires := tm_expires (timers s t) - 1\<rparr>)"
  shows "takeWhile (expired s2) vs = map fst (filter (\<lambda>y. snd y = 1) (deadlines s vs))"
    and "remaining 0 (deltas s2 (dropWhile (expired s2) vs)) =
      map (\<lambda>y. (fst y, snd y - 1)) (filter (\<lambda>y. snd y \<noteq> 1) (deadlines s vs))"
    and "sum_list (map snd (deltas s2 vs)) \<le> sum_list (map snd (deltas s vs))"
    and "tm_expires (timers s t) \<noteq> 0"
proof -
  show nz: "tm_expires (timers s t) \<noteq> 0"
    using pend vs by (auto simp: deadlines_def)
  have dl2: "deltas s2 vs = (t, unat (tm_expires (timers s t)) - 1) # deltas s ws"
    using nz vs by (auto simp: s2 deltas_def unat_minus_one)
  then show "sum_list (map snd (deltas s2 vs)) \<le> sum_list (map snd (deltas s vs))"
    by (simp add: vs)
  have d2: "deadlines s2 vs = map (\<lambda>y. (fst y, snd y - 1)) (deadlines s vs)"
  proof -
    obtain k where "unat (tm_expires (timers s t)) = Suc k"
      using nz by (metis unat_eq_0 not0_implies_Suc)
    then show ?thesis
      unfolding deadlines_def dl2 using remaining_Suc [of k "deltas s ws"] by (simp add: vs)
  qed
  show "takeWhile (expired s2) vs = map fst (filter (\<lambda>y. snd y = 1) (deadlines s vs))"
  proof -
    have "takeWhile (expired s2) vs = map fst (filter (\<lambda>y. snd y = 0) (deadlines s2 vs))"
      unfolding deadlines_def remaining_takeWhile [symmetric] by (simp add: deltas_fst_filters)
    also have "\<dots> = map fst (filter (\<lambda>y. snd y - 1 = 0) (deadlines s vs))"
      by (simp add: d2 filter_map comp_def)
    also have "filter (\<lambda>y. snd y - 1 = 0) (deadlines s vs) = filter (\<lambda>y. snd y = 1) (deadlines s vs)"
      using pend by (intro filter_cong) auto
    finally show ?thesis .
  qed
  show "remaining 0 (deltas s2 (dropWhile (expired s2) vs)) =
      map (\<lambda>y. (fst y, snd y - 1)) (filter (\<lambda>y. snd y \<noteq> 1) (deadlines s vs))"
  proof -
    have "remaining 0 (deltas s2 (dropWhile (expired s2) vs)) = filter (\<lambda>y. snd y \<noteq> 0) (deadlines s2 vs)"
      unfolding deltas_fst_filters(2) [symmetric] deadlines_def by (rule remaining_dropWhile)
    also have "\<dots> = map (\<lambda>y. (fst y, snd y - 1)) (filter (\<lambda>y. snd y - 1 \<noteq> 0) (deadlines s vs))"
      by (simp add: d2 filter_map comp_def not_le)
    also have "filter (\<lambda>y. snd y - 1 \<noteq> 0) (deadlines s vs) = filter (\<lambda>y. snd y \<noteq> 1) (deadlines s vs)"
      using pend by (intro filter_cong) auto
    finally show ?thesis .
  qed
qed

lemma sched_inv_more:
  "sched_inv P s \<Longrightarrow> procs s' = procs s \<Longrightarrow> same_rq s s' \<Longrightarrow> idle_proc s' = idle_proc s \<Longrightarrow>
     curr_proc s' = curr_proc s \<Longrightarrow> sched_inv P s'"
  by (erule sched_inv_same) (simp_all add: same_procs_def proc_ok_def)

lemma run_timers_ok:
  fixes s :: "'z tsched_scheme"
  assumes rep: "timer_rep s vs" and inv: "sched_inv P s"
    and pend: "\<forall>y\<in>set (deadlines s vs). snd y \<noteq> 0"
    and ready: "timers_ready P b s (map fst (filter (\<lambda>y. snd y = 1) (deadlines s vs)))"
  shows "\<exists>s' vs'. run_timers s = ret s' \<and> sched_inv P s' \<and> timer_rep s' vs' \<and>
    deadlines s' vs' = map (\<lambda>y. (fst y, snd y - 1)) (filter (\<lambda>y. snd y \<noteq> 1) (deadlines s vs)) \<and>
    run_set P s' = run_set P s \<union> timer_procs s (map fst (filter (\<lambda>y. snd y = 1) (deadlines s vs))) \<and>
    sstatus s' = sstatus s"
proof -
  obtain flag s1 where i: "local_intr_save s = (flag, s1)" "same_rq s s1" "procs s1 = procs s"
      "idle_proc s1 = idle_proc s" "curr_proc s1 = curr_proc s"
    by (rule local_intr_cases [of s])
  have s1: "timers s1 = timers s" "timer_links s1 = timer_links s"
    using timer_sel_intr(1,2) [of s] by (simp_all add: i(1))
  have inv1: "sched_inv P s1"
    by (rule sched_inv_same [OF inv i(2)]) (simp_all add: same_procs_def proc_ok_def i)
  have nx: "nxt (timer_links s1) timer_head = hd (map LNode vs @ [timer_head])"
    using rep by (simp add: timer_rep_def s1 dlist_nxt_head)
  show ?thesis
  proof (cases vs)
    case Nil
    let ?s' = "local_intr_restore flag (scheduler_proc_tick (curr_proc s1) s1)"
    have "run_timers s = ret ?s'"
      using nx Nil by (simp add: run_timers_def i(1))
    moreover have "sched_inv P ?s'"
      by (simp add: sched_inv_intr sched_inv_tick [OF inv1])
    moreover have "timer_rep ?s' []"
      using rep Nil by (simp add: timer_rep_def s1)
    moreover have "run_set P ?s' = run_set P s"
      using tick_sel(4) [of P "curr_proc s1" s1] i(3) by (simp add: run_set_def)
    moreover have "sstatus ?s' = sstatus s"
      by (rule local_intr_roundtrip [OF i(1)]) simp
    ultimately show ?thesis
      using Nil by (intro exI [of _ ?s'] exI [of _ "[]"]) (simp add: deadlines_def timer_procs_def)
  next
    case (Cons t ws)
    define s2 where "s2 = upd_timer t (\<lambda>m. m\<lparr>tm_expires := tm_expires m - 1\<rparr>) s1"
    have s2: "timers s2 = (timers s)(t := (timers s t)\<lparr>tm_expires := tm_expires (timers s t) - 1\<rparr>)"
        "timer_links s2 = timer_links s" "procs s2 = procs s" "sstatus s2 = sstatus s1" "curr_proc s2 = curr_proc s"
      by (simp_all add: s2_def upd_timer_def s1 i)
    have "t \<notin> set ws"
      using rep Cons dlist_distinct by (fastforce simp: timer_rep_def)
    note tick = tick_deadlines [OF Cons this pend s2(1)]
    have rep2: "timer_rep s2 (t # ws)"
      using rep tick(3) by (simp add: timer_rep_def Cons s2)
    have inv2: "sched_inv P s2"
      by (rule sched_inv_more [OF inv1]) (simp_all add: s2_def upd_timer_def same_rq_def)
    have tp: "timer_procs s2 xs = timer_procs s xs" "run_set P s2 = run_set P s" for xs
      by (auto simp: timer_procs_def run_set_def s2)
    have "timers_ready P b s2 (takeWhile (expired s2) (t # ws))"
      using ready tick(1) unfolding timers_ready_def tp Cons
      by (auto simp: s2 wake_ok_def stride_window_def)
    from run_timers_loop_ok [OF rep2 inv2 this]
    obtain s3 where s3: "run_timers_loop t s2 = ret s3" "sched_inv P s3"
        "timer_rep s3 (dropWhile (expired s2) vs)" "timers s3 = timers s2"
        "run_set P s3 = run_set P s2 \<union> timer_procs s2 (takeWhile (expired s2) vs)"
        "sstatus s3 = sstatus s2" "curr_proc s3 = curr_proc s2"
      unfolding Cons [symmetric] by blast
    let ?s' = "local_intr_restore flag (scheduler_proc_tick (curr_proc s3) s3)"
    have "run_timers s = ret ?s'"
      using nx Cons tick(4) s3(1) by (simp add: run_timers_def i(1) s1 s2_def [symmetric])
    moreover have "sched_inv P ?s'"
      by (simp add: sched_inv_intr sched_inv_tick [OF s3(2)])
    moreover have "timer_rep ?s' (dropWhile (expired s2) vs)"
      using s3(3) by (simp add: timer_rep_def deltas_def)
    moreover have "deadlines ?s' (dropWhile (expired s2) vs) =
        map (\<lambda>y. (fst y, snd y - 1)) (filter (\<lambda>y. snd y \<noteq> 1) (deadlines s vs))"
      unfolding tick(2) [symmetric] by (simp add: deadlines_def deltas_def s3(4))
    moreover have "run_set P ?s' = run_set P s \<union> timer_procs s (map fst (filter (\<lambda>y. snd y = 1) (deadlines s vs)))"
      using s3(5) tick(1) tp tick_sel(4) [of P "curr_proc s3" s3] by (simp add: run_set_def)
    moreover have "sstatus ?s' = sstatus s"
      by (rule local_intr_roundtrip [OF i(1)]) (simp add: s3 s2)
    ultimately show ?thesis
      by blast
  qed
qed

section \<open>Correctness\<close>

text \<open>Timer 1 of process 4 expires at the next tick, timer 2 three ticks later; timer 3 is free.\<close>

definition sample_timers :: tsched where
  "sample_timers = sched.extend sample_sleeper
     \<lparr>timers = (\<lambda>t. if t = 1 then \<lparr>tm_expires = 1, tm_proc = Some 4\<rparr>
        else if t = 2 then \<lparr>tm_expires = 3, tm_proc = Some 3\<rparr> else \<lparr>tm_expires = 2, tm_proc = Some 2\<rparr>),
      timer_links = \<lparr>prv = (\<lambda>x. if x = LNode 2 then LNode 1 else if x = timer_head then LNode 2
          else if x = LNode 1 then timer_head else x),
        nxt = (\<lambda>x. if x = timer_head then LNode 1 else if x = LNode 1 then LNode 2
          else if x = LNode 2 then timer_head else x)\<rparr>\<rparr>"

lemma sample_timers_rep: "timer_rep sample_timers [1, 2]"
  by (simp add: timer_rep_def sample_timers_def sched.defs dlist_def)

lemma sample_deadlines: "deadlines sample_timers [1, 2] = [(1, 1), (2, 4)]"
  by (simp add: deadlines_def sample_timers_def sched.defs)

text \<open>C27: adding a timer files it under its own absolute deadline, behind the timers that expire no
  later, and moves the deadline of no other timer, although the list stores differences.
\<close>

theorem add_timer_deadlines:
  assumes "timer_rep s vs" and "t \<notin> set vs" and "list_empty (timer_links s) (LNode t)"
    and "0 < tm_expires (timers s t)" and "tm_proc (timers s t) \<noteq> None"
  shows "\<exists>s' vs'. add_timer t s = ret s' \<and> timer_rep s' vs' \<and>
    deadlines s' vs' =
      takeWhile (\<lambda>y. snd y \<le> unat (tm_expires (timers s t))) (deadlines s vs) @
      (t, unat (tm_expires (timers s t))) #
      dropWhile (\<lambda>y. snd y \<le> unat (tm_expires (timers s t))) (deadlines s vs) \<and>
    procs s' = procs s \<and> sstatus s' = sstatus s"
  using add_timer_ok [OF assms] by (fastforce simp: deadlines_def remaining_insert)

theorem add_timer_deadlines_witness:
  "\<exists>s' vs'. add_timer 3 sample_timers = ret s' \<and> timer_rep s' vs' \<and>
    deadlines s' vs' = [(1, 1), (3, 2), (2, 4)]"
proof -
  have "list_empty (timer_links sample_timers) (LNode 3)" "tm_expires (timers sample_timers 3) = 2"
      "tm_proc (timers sample_timers 3) \<noteq> None"
    by (simp_all add: list_empty_def sample_timers_def sched.defs)
  with add_timer_deadlines [OF sample_timers_rep, of 3] show ?thesis
    by (auto simp: sample_deadlines)
qed

text \<open>Deleting a timer removes its deadline and moves no other.\<close>

theorem del_timer_deadlines:
  assumes "timer_rep s (us @ t # vs)"
  shows "timer_rep (del_timer t s) (us @ vs) \<and>
    deadlines (del_timer t s) (us @ vs) = filter (\<lambda>y. fst y \<noteq> t) (deadlines s (us @ t # vs))"
proof -
  have "distinct (us @ t # vs)"
    using assms dlist_distinct by (fastforce simp: timer_rep_def distinct_map)
  moreover have "filter (\<lambda>y. fst y \<noteq> t) (remaining a (deltas s xs)) = remaining a (deltas s xs)"
    if "t \<notin> set xs" for a xs
    using that by (induction xs arbitrary: a) auto
  ultimately show ?thesis
    using del_timer_ok(1,2) [OF assms] by (auto simp: deadlines_def remaining_append remaining_drop)
qed

theorem del_timer_deadlines_witness:
  "timer_rep (del_timer 1 sample_timers) [2] \<and> deadlines (del_timer 1 sample_timers) [2] = [(2, 4)]"
  using del_timer_deadlines [of sample_timers "[]" 1 "[2]"] sample_timers_rep by (simp add: sample_deadlines)

text \<open>C15: a timer tick counts every deadline down by one, drops the timers whose last tick it is and
  makes exactly their processes runnable, in any number, keeping the scheduler invariant.
\<close>

theorem run_timers_tick:
  assumes "timer_rep s vs" and "sched_inv P s" and "\<forall>y\<in>set (deadlines s vs). snd y \<noteq> 0"
    and "timers_ready P b s (map fst (filter (\<lambda>y. snd y = 1) (deadlines s vs)))"
  shows "\<exists>s' vs'. run_timers s = ret s' \<and> sched_inv P s' \<and> timer_rep s' vs' \<and>
    deadlines s' vs' = map (\<lambda>y. (fst y, snd y - 1)) (filter (\<lambda>y. snd y \<noteq> 1) (deadlines s vs)) \<and>
    run_set P s' = run_set P s \<union> timer_procs s (map fst (filter (\<lambda>y. snd y = 1) (deadlines s vs)))"
  using run_timers_ok [OF assms] by blast

theorem run_timers_tick_witness:
  "\<exists>s' vs'. run_timers sample_timers = ret s' \<and> sched_inv {1, 2, 3, 4} s' \<and> timer_rep s' vs' \<and>
    deadlines s' vs' = [(2, 3)] \<and> run_set {1, 2, 3, 4} s' = {1, 2, 3, 4}"
proof -
  have eq: "procs sample_timers = procs sample_sleeper"
    by (simp add: sample_timers_def sched.defs)
  have rs: "run_set {1, 2, 3, 4} sample_timers = {1, 2, 3}"
    using sample_run_set by (simp add: run_set_def eq)
  have inv: "sched_inv {1, 2, 3, 4} sample_timers"
  proof -
    have "sched.truncate sample_timers = sample_sleeper"
      by (simp add: sample_timers_def sched.defs)
    then show ?thesis
      using sample_sched_inv sched_inv_truncate [of _ sample_timers] by simp
  qed
  have tp: "timer_procs sample_timers [1] = {4}"
    by (auto simp: timer_procs_def sample_timers_def sched.defs)
  have "timers_ready {1, 2, 3, 4} 0xFFFFFFF0 sample_timers [1]"
    unfolding timers_ready_def tp rs
    by (simp add: stride_window_def eq wake_ok_def) (simp add: sample_timers_def sched.defs sample_sleeper_def sample_sched_def sample_pcb_def ahead_def const_defs)
  with run_timers_tick [OF sample_timers_rep inv] show ?thesis
    by (simp add: sample_deadlines tp rs insert_commute)
qed

end
