(* ===== verification/Wait_Queue.thy ===== *)
theory Wait_Queue
  imports Timer_List
begin

text \<open>
  The wait queues of \<open>kernel/sync/wait.c\<close>. A queue is the ring of the \<open>wait_link\<close> fields of
  \<open>struct wait\<close> objects, with the queue's address as header. The lemmas say what each operation
  does to the sequence of waiters. \<open>add_wait_queue\<close> passes the last waiter as the successor of
  the new one: from the third waiter on the waiters in between drop out of the queue.
\<close>

unbundle bit_operations_syntax

section \<open>Operations\<close>

record wait =
  w_proc :: "pcb_ptr option"
  w_wakeup_state :: u32
  w_queue :: "u64 option"

record wsched = tsched +
  waits :: "u64 \<Rightarrow> wait"
  wait_links :: "(u64, u64) lnode links"

definition upd_wait :: "u64 \<Rightarrow> (wait \<Rightarrow> wait) \<Rightarrow> 'z wsched_scheme \<Rightarrow> 'z wsched_scheme" where
  "upd_wait w f s = s\<lparr>waits := (waits s)(w := f (waits s w))\<rparr>"

definition init_wait :: "u64 \<Rightarrow> pcb_ptr \<Rightarrow> 'z wsched_scheme \<Rightarrow> 'z wsched_scheme" where
  "init_wait w p s =
     (let s1 = upd_wait w (\<lambda>x. x\<lparr>w_proc := Some p\<rparr>) s;
          s2 = upd_wait w (\<lambda>x. x\<lparr>w_wakeup_state := WAIT_INT\<rparr>) s1
      in s2\<lparr>wait_links := init_list (LNode w) (wait_links s2)\<rparr>)"

definition init_wait_queue :: "u64 \<Rightarrow> 'z wsched_scheme \<Rightarrow> 'z wsched_scheme" where
  "init_wait_queue q s = s\<lparr>wait_links := init_list (LHead q) (wait_links s)\<rparr>"

definition add_wait_queue :: "u64 \<Rightarrow> u64 \<Rightarrow> 'z wsched_scheme \<Rightarrow> 'z wsched_scheme exec" where
  "add_wait_queue q w s =
     assert_then (list_empty (wait_links s) (LNode w) \<and> w_proc (waits s w) \<noteq> None)
       (let s1 = upd_wait w (\<lambda>x. x\<lparr>w_queue := Some q\<rparr>) s;
            L = wait_links s1
        in ret (s1\<lparr>wait_links := add_list (LHead q) (prv L (LHead q)) (LNode w) L\<rparr>))"

definition in_queue :: "u64 \<Rightarrow> u64 \<Rightarrow> 'z wsched_scheme \<Rightarrow> bool" where
  "in_queue q w s \<longleftrightarrow> \<not> list_empty (wait_links s) (LNode w) \<and> w_queue (waits s w) = Some q"

definition del_wait_queue :: "u64 \<Rightarrow> u64 \<Rightarrow> 'z wsched_scheme \<Rightarrow> 'z wsched_scheme exec" where
  "del_wait_queue q w s =
     assert_then (in_queue q w s)
       (let s1 = s\<lparr>wait_links := del_list (LNode w) (wait_links s)\<rparr>
        in ret (s1\<lparr>wait_links := init_list (LNode w) (wait_links s1)\<rparr>))"

text \<open>\<open>list != wait_queue ? LIST2WAIT(wait_link, list) : NULL\<close>\<close>

definition wait_of :: "u64 \<Rightarrow> (u64, u64) lnode \<Rightarrow> u64 option" where
  "wait_of q list = (case list of LHead h \<Rightarrow> None | LNode w \<Rightarrow> Some w)"

definition wait_queue_next :: "u64 \<Rightarrow> u64 \<Rightarrow> 'z wsched_scheme \<Rightarrow> u64 option exec" where
  "wait_queue_next q w s =
     assert_then (in_queue q w s) (ret (wait_of q (nxt (wait_links s) (LNode w))))"

definition wait_queue_prev :: "u64 \<Rightarrow> u64 \<Rightarrow> 'z wsched_scheme \<Rightarrow> u64 option exec" where
  "wait_queue_prev q w s =
     assert_then (in_queue q w s) (ret (wait_of q (prv (wait_links s) (LNode w))))"

definition wait_queue_first :: "u64 \<Rightarrow> 'z wsched_scheme \<Rightarrow> u64 option" where
  "wait_queue_first q s = wait_of q (nxt (wait_links s) (LHead q))"

definition wait_queue_last :: "u64 \<Rightarrow> 'z wsched_scheme \<Rightarrow> u64 option" where
  "wait_queue_last q s = wait_of q (prv (wait_links s) (LHead q))"

definition wait_queue_empty :: "u64 \<Rightarrow> 'z wsched_scheme \<Rightarrow> bool" where
  "wait_queue_empty q s = list_empty (wait_links s) (LHead q)"

definition wakeup_wait :: "u64 \<Rightarrow> u64 \<Rightarrow> u32 \<Rightarrow> bool \<Rightarrow> 'z wsched_scheme \<Rightarrow> 'z wsched_scheme exec" where
  "wakeup_wait q w wakeup_state del s =
     bind_exec (if del then del_wait_queue q w s else ret s) (\<lambda>s1.
       let s2 = upd_wait w (\<lambda>x. x\<lparr>w_wakeup_state := wakeup_state\<rparr>) s1 in
       case w_proc (waits s2 w) of None \<Rightarrow> null_deref | Some p \<Rightarrow> wakeup_proc p s2)"

definition wakeup_first :: "u64 \<Rightarrow> u32 \<Rightarrow> bool \<Rightarrow> 'z wsched_scheme \<Rightarrow> 'z wsched_scheme exec" where
  "wakeup_first q wakeup_state del s =
     (case wait_queue_first q s of None \<Rightarrow> ret s | Some w \<Rightarrow> wakeup_wait q w wakeup_state del s)"

text \<open>The \<open>for\<close> loop of \<open>wakeup_queue\<close>, \<open>wait\<close> being the current waiter.\<close>

partial_function (option) wakeup_queue_loop ::
  "u64 \<Rightarrow> u32 \<Rightarrow> bool \<Rightarrow> u64 option \<Rightarrow> 'z wsched_scheme \<Rightarrow> 'z wsched_scheme exec" where
  "wakeup_queue_loop q wakeup_state del wait s =
     (case wait of
        None \<Rightarrow> ret s
      | Some w \<Rightarrow>
          bind_exec (if del then ret (wait_queue_first q s) else wait_queue_next q w s) (\<lambda>next_wait.
          bind_exec (wakeup_wait q w wakeup_state del s) (\<lambda>s1.
            wakeup_queue_loop q wakeup_state del next_wait s1)))"

definition wakeup_queue :: "u64 \<Rightarrow> u32 \<Rightarrow> bool \<Rightarrow> 'z wsched_scheme \<Rightarrow> 'z wsched_scheme exec" where
  "wakeup_queue q wakeup_state del s = wakeup_queue_loop q wakeup_state del (wait_queue_first q s) s"

definition add_curr_wait :: "u64 \<Rightarrow> u64 \<Rightarrow> u32 \<Rightarrow> 'z wsched_scheme \<Rightarrow> 'z wsched_scheme exec" where
  "add_curr_wait q w wait_state s =
     (let s1 = init_wait w (curr_proc s) s;
          s2 = upd_proc (curr_proc s1) (\<lambda>p. p\<lparr>p_state := PROC_SLEEPING\<rparr>) s1;
          s3 = upd_proc (curr_proc s2) (\<lambda>p. p\<lparr>p_wait_state := wait_state\<rparr>) s2
      in add_wait_queue q w s3)"

definition del_curr_wait :: "u64 \<Rightarrow> u64 \<Rightarrow> 'z wsched_scheme \<Rightarrow> 'z wsched_scheme exec" where
  "del_curr_wait q w s =
     (if \<not> list_empty (wait_links s) (LNode w) then del_wait_queue q w s else ret s)"

section \<open>Queues as sequences\<close>

text \<open>\<open>wq_rep s q ws\<close>: the waiters of queue \<open>q\<close>, first to last.\<close>

definition wq_rep :: "'z wsched_scheme \<Rightarrow> u64 \<Rightarrow> u64 list \<Rightarrow> bool" where
  "wq_rep s q ws \<longleftrightarrow> dlist (wait_links s) (LHead q) (map LNode ws) \<and>
     (\<forall>w\<in>set ws. w_queue (waits s w) = Some q \<and> w_proc (waits s w) \<noteq> None)"

lemma upd_wait_sel [simp]:
  "waits (upd_wait w f s) = (waits s)(w := f (waits s w))"
  "wait_links (upd_wait w f s) = wait_links s"
  "procs (upd_wait w f s) = procs s"
  "curr_proc (upd_wait w f s) = curr_proc s"
  "idle_proc (upd_wait w f s) = idle_proc s"
  "sstatus (upd_wait w f s) = sstatus s"
  by (simp_all add: upd_wait_def)

lemma wq_first: "wq_rep s q ws \<Longrightarrow> wait_queue_first q s = (case ws of [] \<Rightarrow> None | w # _ \<Rightarrow> Some w)"
  by (auto simp: wq_rep_def wait_queue_first_def wait_of_def dlist_nxt_head split: list.splits)

lemma wq_last: "wq_rep s q ws \<Longrightarrow> wait_queue_last q s = (if ws = [] then None else Some (last ws))"
  by (auto simp: wq_rep_def wait_queue_last_def wait_of_def dlist_prv_head last_map)

lemma wq_empty: "wq_rep s q ws \<Longrightarrow> wait_queue_empty q s = (ws = [])"
  using dlist_list_empty by (fastforce simp: wq_rep_def wait_queue_empty_def)

lemma wq_in_queue: "wq_rep s q (us @ w # ws) \<Longrightarrow> in_queue q w s"
  using dlist_member_not_empty [of "wait_links s" "LHead q" "map LNode us" "LNode w" "map LNode ws"]
  by (simp add: wq_rep_def in_queue_def)

lemma wq_next:
  "wq_rep s q (us @ w # ws) \<Longrightarrow> wait_queue_next q w s = ret (case ws of [] \<Rightarrow> None | v # _ \<Rightarrow> Some v)"
  using dlist_nxt [of "wait_links s" "LHead q" "map LNode us" "LNode w" "map LNode ws"]
    wq_in_queue [of s q us w ws]
  by (auto simp: wait_queue_next_def wait_of_def wq_rep_def split: list.splits)

lemma wq_del:
  assumes "wq_rep s q (us @ w # ws)"
  obtains s' where "del_wait_queue q w s = ret s'" "wq_rep s' q (us @ ws)"
    "s' = s\<lparr>wait_links := wait_links s'\<rparr>" "list_empty (wait_links s') (LNode w)"
proof -
  let ?L = "init_list (LNode w) (del_list (LNode w) (wait_links s))"
  have "dlist ?L (LHead q) (map LNode us @ map LNode ws)"
    using assms by (intro dlist_del_init) (simp add: wq_rep_def)
  moreover have "del_wait_queue q w s = ret (s\<lparr>wait_links := ?L\<rparr>)"
    using wq_in_queue [OF assms] by (simp add: del_wait_queue_def Let_def)
  ultimately show thesis
    using assms by (intro that [of "s\<lparr>wait_links := ?L\<rparr>"]) (auto simp: wq_rep_def list_empty_init)
qed

text \<open>
  Adding a waiter: it becomes the first one, and of the waiters already there only the last one
  remains reachable.
\<close>

lemma dlist_add_head_last:
  assumes d: "dlist L h xs" and e: "e \<notin> set (h # xs)"
  shows "dlist (add_list h (prv L h) e L) h (e # (if xs = [] then [] else [last xs]))"
proof (cases xs rule: rev_cases)
  case Nil
  then show ?thesis
    using dlist_add [of L h "[]" "[]" e] d e dlist_prv_head [OF d] by simp
next
  case (snoc us u)
  have p: "prv L h = u"
    using dlist_prv_head [OF d] snoc by simp
  have n: "nxt L u = h"
    using dlist_nxt [of L h us u "[]"] d snoc by simp
  show ?thesis
    using e snoc p n dlist_distinct [OF d] by (auto simp: dlist_def add_list_def Let_def)
qed

lemma wq_add:
  assumes "wq_rep s q ws" "w \<notin> set ws" "list_empty (wait_links s) (LNode w)" "w_proc (waits s w) \<noteq> None"
  shows "\<exists>s'. add_wait_queue q w s = ret s' \<and> wq_rep s' q (w # (if ws = [] then [] else [last ws])) \<and>
    procs s' = procs s \<and> waits s' = (waits s)(w := (waits s w)\<lparr>w_queue := Some q\<rparr>) \<and>
    curr_proc s' = curr_proc s \<and> idle_proc s' = idle_proc s \<and> same_rq s s' \<and> sstatus s' = sstatus s"
proof -
  let ?L = "add_list (LHead q) (prv (wait_links s) (LHead q)) (LNode w) (wait_links s)"
  let ?s = "(upd_wait w (\<lambda>x. x\<lparr>w_queue := Some q\<rparr>) s)\<lparr>wait_links := ?L\<rparr>"
  have "dlist ?L (LHead q) (map LNode (w # (if ws = [] then [] else [last ws])))"
    using assms(1,2) dlist_add_head_last [of "wait_links s" "LHead q" "map LNode ws" "LNode w"]
    by (auto simp: wq_rep_def last_map image_iff split: if_splits)
  moreover have "add_wait_queue q w s = ret ?s"
    using assms by (simp add: add_wait_queue_def Let_def)
  ultimately show ?thesis
    using assms(1,4) by (auto simp: wq_rep_def same_rq_def upd_wait_def)
qed

end
