(* ===== verification/Semaphore.thy ===== *)
theory Semaphore
  imports Wait_Queue
begin

text \<open>
  The kernel semaphores of \<open>kernel/sync/sem.c\<close>, named by their address, which is also the
  address of their wait queue. \<open>down\<close> either takes a unit, or queues the caller and switches to
  another process; \<open>down_resume\<close> is what the caller executes when it runs again. An \<open>up\<close> with
  waiters hands its unit to the first of them without touching the value.
\<close>

section \<open>Operations\<close>

record ssched = wsched +
  sem_value :: "u64 \<Rightarrow> int"

definition set_sem :: "u64 \<Rightarrow> int \<Rightarrow> 'z ssched_scheme \<Rightarrow> 'z ssched_scheme" where
  "set_sem q v s = s\<lparr>sem_value := (sem_value s)(q := v)\<rparr>"

definition init_sem :: "u64 \<Rightarrow> int \<Rightarrow> 'z ssched_scheme \<Rightarrow> 'z ssched_scheme" where
  "init_sem q v s =
     (let s1 = set_sem q v s
      in s1\<lparr>wait_links := init_list (LHead q) (wait_links s1)\<rparr>)"

definition up :: "u64 \<Rightarrow> 'z ssched_scheme \<Rightarrow> 'z ssched_scheme exec" where
  "up q s =
     (let (intr_flag, s1) = local_intr_save s in
      bind_exec
        (case wait_queue_first q s1 of
           None \<Rightarrow> ret (set_sem q (sem_value s1 q + 1) s1)
         | Some w \<Rightarrow>
             (case w_proc (waits s1 w) of
                None \<Rightarrow> null_deref
              | Some p \<Rightarrow>
                  assert_then (p_wait_state (procs s1 p) = WAIT_SEM) (wakeup_wait q w WAIT_SEM True s1)))
        (\<lambda>s2. ret (local_intr_restore intr_flag s2)))"

text \<open>
  \<open>down\<close> up to its return or to the context switch in \<open>schedule\<close>: the flag tells whether it
  returned. \<open>w\<close> is the address of the \<open>struct wait\<close> on the caller's stack.
\<close>

definition down :: "u64 \<Rightarrow> u64 \<Rightarrow> 'z ssched_scheme \<Rightarrow> (bool \<times> 'z ssched_scheme) exec" where
  "down q w s =
     (let (intr_flag, s1) = local_intr_save s in
      if sem_value s1 q > 0 then
        ret (True, local_intr_restore intr_flag (set_sem q (sem_value s1 q - 1) s1))
      else
        bind_exec (add_curr_wait q w WAIT_SEM s1) (\<lambda>s2.
        bind_exec (schedule (local_intr_restore intr_flag s2)) (\<lambda>s3. ret (False, s3))))"

definition down_resume :: "u64 \<Rightarrow> u64 \<Rightarrow> 'z ssched_scheme \<Rightarrow> 'z ssched_scheme exec" where
  "down_resume q w s =
     (let (intr_flag, s1) = local_intr_save s in
      bind_exec (del_curr_wait q w s1) (\<lambda>s2.
        let s3 = local_intr_restore intr_flag s2 in
        assert_then (w_wakeup_state (waits s3 w) = WAIT_SEM) (ret s3)))"

definition try_down :: "u64 \<Rightarrow> 'z ssched_scheme \<Rightarrow> bool \<times> 'z ssched_scheme" where
  "try_down q s =
     (let (intr_flag, s1) = local_intr_save s;
          (r, s2) = (if sem_value s1 q > 0 then (True, set_sem q (sem_value s1 q - 1) s1) else (False, s1))
      in (r, local_intr_restore intr_flag s2))"

section \<open>Semaphores as a value and a queue of sleeping processes\<close>

definition sem_rep :: "'z ssched_scheme \<Rightarrow> u64 \<Rightarrow> int \<Rightarrow> u64 list \<Rightarrow> bool" where
  "sem_rep s q v ws \<longleftrightarrow> sem_value s q = v \<and> wq_rep s q ws \<and> 0 \<le> v \<and> (ws \<noteq> [] \<longrightarrow> v = 0) \<and>
     distinct (map (\<lambda>w. w_proc (waits s w)) ws) \<and>
     (\<forall>w\<in>set ws. \<forall>p. w_proc (waits s w) = Some p \<longrightarrow>
        p_state (procs s p) = PROC_SLEEPING \<and> p_wait_state (procs s p) = WAIT_SEM)"

lemma wsched_more:
  fixes s s' :: "'z ssched_scheme"
  assumes "sched.more s' = sched.more s"
  shows "waits s' = waits s" "wait_links s' = wait_links s" "sem_value s' = sem_value s"
    "timers s' = timers s" "timer_links s' = timer_links s"
  using assms by (cases s; cases s'; simp)+

lemma set_sem_sel [simp]:
  "procs (set_sem q v s) = procs s" "sstatus (set_sem q v s) = sstatus s"
  "curr_proc (set_sem q v s) = curr_proc s" "waits (set_sem q v s) = waits s"
  "wait_links (set_sem q v s) = wait_links s" "sem_value (set_sem q v s) = (sem_value s)(q := v)"
  by (simp_all add: set_sem_def)

lemma intr_ssched [simp]:
  fixes s :: "'z ssched_scheme"
  shows "waits (snd (local_intr_save s)) = waits s" "wait_links (snd (local_intr_save s)) = wait_links s"
    "sem_value (snd (local_intr_save s)) = sem_value s"
    "waits (local_intr_restore flag s) = waits s" "wait_links (local_intr_restore flag s) = wait_links s"
    "sem_value (local_intr_restore flag s) = sem_value s"
  by (simp_all add: wsched_more [OF more_basics(2)] wsched_more [OF more_basics(3)])

lemma sem_rep_intr [simp]: "sem_rep (local_intr_restore flag s) q v ws = sem_rep s q v ws"
  by (simp add: sem_rep_def wq_rep_def)

text \<open>The state inside the critical section.\<close>

lemma save_ssched:
  fixes s :: "'z ssched_scheme"
  obtains flag s1 where "local_intr_save s = (flag, s1)" "procs s1 = procs s" "waits s1 = waits s"
    "wait_links s1 = wait_links s" "sem_value s1 = sem_value s" "curr_proc s1 = curr_proc s"
    "idle_proc s1 = idle_proc s" "same_rq s s1"
proof -
  obtain flag s1 where i: "local_intr_save s = (flag, s1)" "same_rq s s1" "procs s1 = procs s"
      "idle_proc s1 = idle_proc s" "curr_proc s1 = curr_proc s"
    by (rule local_intr_cases [of s])
  then show thesis
    using intr_ssched(1-3) [of s] by (intro that [OF i(1)]) simp_all
qed

lemma up_no_waiter:
  assumes "sem_rep s q v []"
  shows "\<exists>s'. up q s = ret s' \<and> sem_rep s' q (v + 1) [] \<and> procs s' = procs s \<and> sstatus s' = sstatus s"
proof -
  obtain flag s1 where i: "local_intr_save s = (flag, s1)" "procs s1 = procs s" "waits s1 = waits s"
      "wait_links s1 = wait_links s" "sem_value s1 = sem_value s"
    by (rule save_ssched [of s])
  have wq: "wq_rep s1 q []"
    using assms i by (simp add: sem_rep_def wq_rep_def)
  let ?s' = "local_intr_restore flag (set_sem q (v + 1) s1)"
  have "up q s = ret ?s'"
    using assms wq_first [OF wq] by (simp add: up_def i sem_rep_def)
  moreover have "sem_rep ?s' q (v + 1) []"
    using assms wq by (simp add: sem_rep_def wq_rep_def)
  moreover have "sstatus ?s' = sstatus s"
    by (rule local_intr_roundtrip [OF i(1)]) simp
  ultimately show ?thesis
    by (auto simp: i)
qed

text \<open>Waking the first waiter and taking it out of the queue.\<close>

lemma wakeup_wait_first:
  fixes s :: "'z ssched_scheme"
  assumes wq: "wq_rep s q (w # ws)" and p: "w_proc (waits s w) = Some p" "p \<in> P"
    and sl: "p_state (procs s p) = PROC_SLEEPING" and inv: "sched_inv P s"
    and win: "stride_window (Suc (unat BIG_STRIDE)) b s (insert p (run_set P s))"
  obtains s' where "wakeup_wait q w st True s = ret s'" "sched_inv P s'" "p_state (procs s' p) = PROC_RUNNABLE"
    "\<forall>r. r \<noteq> p \<longrightarrow> procs s' r = procs s r" "wq_rep s' q ws" "list_empty (wait_links s') (LNode w)"
    "waits s' = (waits s)(w := (waits s w)\<lparr>w_wakeup_state := st\<rparr>)" "sem_value s' = sem_value s"
    "sstatus s' = sstatus s" "curr_proc s' = curr_proc s"
proof -
  obtain s2 where s2: "del_wait_queue q w s = ret s2" "wq_rep s2 q ([] @ ws)"
      "s2 = s\<lparr>wait_links := wait_links s2\<rparr>" "list_empty (wait_links s2) (LNode w)"
    using wq_del [of s q "[]" w ws] wq by auto
  have sel2: "procs s2 = procs s" "waits s2 = waits s" "curr_proc s2 = curr_proc s" "sstatus s2 = sstatus s"
      "idle_proc s2 = idle_proc s" "same_rq s s2" "sem_value s2 = sem_value s"
    by (subst s2(3), simp add: same_rq_def)+
  define s3 where "s3 = upd_wait w (\<lambda>x. x\<lparr>w_wakeup_state := st\<rparr>) s2"
  have sel3: "procs s3 = procs s" "curr_proc s3 = curr_proc s" "idle_proc s3 = idle_proc s"
      "same_rq s s3" "waits s3 = (waits s)(w := (waits s w)\<lparr>w_wakeup_state := st\<rparr>)"
      "wait_links s3 = wait_links s2" "sem_value s3 = sem_value s" "sstatus s3 = sstatus s"
    using sel2 by (simp_all add: s3_def same_rq_def upd_wait_def)
  have inv3: "sched_inv P s3"
    by (rule sched_inv_more [OF inv]) (simp_all add: sel3)
  have "stride_window (Suc (unat BIG_STRIDE)) b s3 (insert p (run_set P s3))"
    using win by (simp add: run_set_def sel3 stride_window_def)
  then obtain s4 where s4: "wakeup_proc p s3 = ret s4" "sched_inv P s4" "p_state (procs s4 p) = PROC_RUNNABLE"
      "sstatus s4 = sstatus s3" "curr_proc s4 = curr_proc s3" "\<forall>r. r \<noteq> p \<longrightarrow> procs s4 r = procs s3 r"
    using wakeup_proc_sleeping [OF inv3 p(2)] sl by (auto simp: const_defs sel3)
  note m4 = wsched_more [OF wakeup_more [OF s4(1)]]
  have "wakeup_wait q w st True s = ret s4"
    using s2(1) s4(1) [unfolded s3_def] p(1) by (simp add: wakeup_wait_def sel2)
  moreover have "w \<notin> set ws"
    using wq dlist_distinct by (fastforce simp: wq_rep_def)
  then have "wq_rep s4 q ws"
    using s2(2) by (auto simp: wq_rep_def m4 sel3 sel2)
  ultimately show thesis
    using s4 s2(4) by (intro that [of s4]) (simp_all add: m4 sel3)
qed

lemma up_handoff:
  fixes s :: "'z ssched_scheme"
  assumes rep: "sem_rep s q v (w # ws)" and p: "w_proc (waits s w) = Some p" "p \<in> P"
    and inv: "sched_inv P s"
    and win: "stride_window (Suc (unat BIG_STRIDE)) b s (insert p (run_set P s))"
  shows "\<exists>s'. up q s = ret s' \<and> sem_rep s' q v ws \<and> sched_inv P s' \<and>
    run_set P s' = insert p (run_set P s) \<and> w_wakeup_state (waits s' w) = WAIT_SEM \<and>
    list_empty (wait_links s') (LNode w) \<and> sstatus s' = sstatus s \<and> curr_proc s' = curr_proc s"
proof -
  obtain flag s1 where i: "local_intr_save s = (flag, s1)" "procs s1 = procs s" "waits s1 = waits s"
      "wait_links s1 = wait_links s" "sem_value s1 = sem_value s" "curr_proc s1 = curr_proc s"
      "idle_proc s1 = idle_proc s" "same_rq s s1"
    by (rule save_ssched [of s])
  have wq: "wq_rep s1 q (w # ws)"
    using rep i by (simp add: sem_rep_def wq_rep_def)
  have st: "p_state (procs s p) = PROC_SLEEPING" "p_wait_state (procs s p) = WAIT_SEM"
    using rep p(1) by (auto simp: sem_rep_def)
  obtain s4 where s4: "wakeup_wait q w WAIT_SEM True s1 = ret s4" "sched_inv P s4" "p_state (procs s4 p) = PROC_RUNNABLE"
      "\<forall>r. r \<noteq> p \<longrightarrow> procs s4 r = procs s1 r" "wq_rep s4 q ws" "list_empty (wait_links s4) (LNode w)"
      "waits s4 = (waits s1)(w := (waits s1 w)\<lparr>w_wakeup_state := WAIT_SEM\<rparr>)" "sem_value s4 = sem_value s1"
      "sstatus s4 = sstatus s1" "curr_proc s4 = curr_proc s1"
  proof (rule wakeup_wait_first [OF wq _ p(2)])
    show "stride_window (Suc (unat BIG_STRIDE)) b s1 (insert p (run_set P s1))"
      using win i by (simp add: run_set_def stride_window_def)
    show "sched_inv P s1"
      by (rule sched_inv_more [OF inv]) (simp_all add: i)
  qed (use p st i in auto)
  have "up q s = ret (local_intr_restore flag s4)"
    using wq_first [OF wq] p(1) st(2) s4(1) by (simp add: up_def i)
  moreover have "sem_rep s4 q v ws"
  proof -
    have "r \<noteq> p" if "u \<in> set ws" "w_proc (waits s u) = Some r" for u r
      using rep p(1) that by (force simp: sem_rep_def)
    moreover have wp: "w_proc (waits s4 u) = w_proc (waits s u)" for u
      by (simp add: s4 i)
    ultimately show ?thesis
      using rep s4(4,5) by (auto simp: sem_rep_def wp s4(8) i(2,5))
  qed
  moreover have "run_set P s4 = insert p (run_set P s)"
  proof -
    have "r \<in> run_set P s4 \<longleftrightarrow> r \<in> insert p (run_set P s)" for r
      using s4(3,4) p(2) by (cases "r = p") (auto simp: run_set_def i)
    then show ?thesis by blast
  qed
  moreover have "sstatus (local_intr_restore flag s4) = sstatus s"
    by (rule local_intr_roundtrip [OF i(1)]) (simp add: s4)
  ultimately show ?thesis
    using s4(2,6,7,10) by (auto simp: sched_inv_intr run_set_def i)
qed

lemma wakeup_queue_del:
  fixes s :: "'z ssched_scheme"
  assumes wq: "wq_rep s q (w # ws)" and p: "w_proc (waits s w) = Some p" "p \<in> P"
    and sl: "p_state (procs s p) = PROC_SLEEPING" and inv: "sched_inv P s"
    and win: "stride_window (Suc (unat BIG_STRIDE)) b s (insert p (run_set P s))"
  shows "wakeup_queue q st True s = panic"
proof -
  obtain s' where s': "wakeup_wait q w st True s = ret s'" "list_empty (wait_links s') (LNode w)"
    using wakeup_wait_first [OF assms] by metis
  have "wakeup_wait q w st True s' = panic"
    using s'(2) by (simp add: wakeup_wait_def del_wait_queue_def in_queue_def)
  then have "wakeup_queue_loop q st True (Some w) s' = panic"
    by (subst wakeup_queue_loop.simps) simp
  then have "wakeup_queue_loop q st True (Some w) s = panic"
    using wq_first [OF wq] s'(1) by (subst wakeup_queue_loop.simps) simp
  then show ?thesis
    using wq_first [OF wq] by (simp add: wakeup_queue_def)
qed

lemma down_free:
  assumes "sem_rep s q v []" "0 < v"
  shows "\<exists>s'. down q w s = ret (True, s') \<and> sem_rep s' q (v - 1) [] \<and> procs s' = procs s \<and> sstatus s' = sstatus s"
proof -
  obtain flag s1 where i: "local_intr_save s = (flag, s1)" "procs s1 = procs s" "waits s1 = waits s"
      "wait_links s1 = wait_links s" "sem_value s1 = sem_value s"
    by (rule save_ssched [of s])
  let ?s' = "local_intr_restore flag (set_sem q (v - 1) s1)"
  have "down q w s = ret (True, ?s')"
    using assms by (simp add: down_def i sem_rep_def)
  moreover have "sem_rep ?s' q (v - 1) []"
    using assms i by (simp add: sem_rep_def wq_rep_def)
  moreover have "sstatus ?s' = sstatus s"
    by (rule local_intr_roundtrip [OF i(1)]) simp
  ultimately show ?thesis
    by (auto simp: i)
qed

text \<open>The running process may go to sleep: it is not in the run queue.\<close>

lemma sched_inv_sleep_curr:
  assumes inv: "sched_inv P s" and c: "curr_proc s \<in> P" and st: "st \<noteq> PROC_RUNNABLE"
    and s': "same_rq s s'" "procs s' = (procs s)(curr_proc s := (curr_pcb s)\<lparr>p_state := st, p_wait_state := v\<rparr>)"
      "curr_proc s' = curr_proc s" "idle_proc s' = idle_proc s"
  shows "sched_inv P s'" and "run_set P s' = run_set P s - {curr_proc s}"
proof -
  show rs: "run_set P s' = run_set P s - {curr_proc s}"
    using st by (auto simp: run_set_def s'(2))
  note I = inv [unfolded sched_inv_def]
  obtain b where "stride_window (Suc (unat BIG_STRIDE)) b s (run_set P s)"
    using I by blast
  then have "stride_window (Suc (unat BIG_STRIDE)) b s' (run_set P s')"
    unfolding same_rq_window [OF s'(1)] by (rule stride_window_mono) (auto simp: rs)
  moreover have "idle_proc s \<noteq> curr_proc s"
    using I c by auto
  ultimately show "sched_inv P s'"
    using I c unfolding sched_inv_def
    by (auto simp: rs s' same_rq_facts [OF s'(1)] proc_ok_def)
qed

lemma down_block:
  fixes s :: "'z ssched_scheme"
  assumes rep: "sem_rep s q 0 ws" and w: "w \<notin> set ws"
    and inv: "sched_inv P s" and c: "curr_proc s \<in> P" "Some (curr_proc s) \<notin> (\<lambda>u. w_proc (waits s u)) ` set ws"
  shows "\<exists>s'. down q w s = ret (False, s') \<and> sem_rep s' q 0 (w # (if ws = [] then [] else [last ws])) \<and> sched_inv P s' \<and>
    run_set P s' = run_set P s - {curr_proc s} \<and> curr_proc s' \<noteq> curr_proc s \<and>
    w_proc (waits s' w) = Some (curr_proc s)"
proof -
  obtain flag s1 where i: "local_intr_save s = (flag, s1)" "procs s1 = procs s" "waits s1 = waits s"
      "wait_links s1 = wait_links s" "sem_value s1 = sem_value s" "curr_proc s1 = curr_proc s"
      "idle_proc s1 = idle_proc s" "same_rq s s1"
    by (rule save_ssched [of s])
  define s2 where "s2 = upd_proc (curr_proc s1) (\<lambda>p. p\<lparr>p_wait_state := WAIT_SEM\<rparr>)
    (upd_proc (curr_proc s1) (\<lambda>p. p\<lparr>p_state := PROC_SLEEPING\<rparr>) (init_wait w (curr_proc s1) s1))"
  have sel2: "procs s2 = (procs s)(curr_proc s := (curr_pcb s)\<lparr>p_state := PROC_SLEEPING, p_wait_state := WAIT_SEM\<rparr>)"
      "waits s2 = (waits s)(w := (waits s w)\<lparr>w_proc := Some (curr_proc s), w_wakeup_state := WAIT_INT\<rparr>)"
      "wait_links s2 = init_list (LNode w) (wait_links s)" "curr_proc s2 = curr_proc s"
      "idle_proc s2 = idle_proc s" "same_rq s s2" "sem_value s2 = sem_value s"
    using i by (auto simp: s2_def init_wait_def Let_def same_rq_def upd_wait_def upd_proc_def)
  have wq2: "wq_rep s2 q ws"
    using rep w by (auto simp: sem_rep_def wq_rep_def sel2 intro!: dlist_init_other)
  obtain s3 where s3: "add_wait_queue q w s2 = ret s3" "wq_rep s3 q (w # (if ws = [] then [] else [last ws]))"
      "procs s3 = procs s2" "waits s3 = (waits s2)(w := (waits s2 w)\<lparr>w_queue := Some q\<rparr>)"
      "curr_proc s3 = curr_proc s2" "idle_proc s3 = idle_proc s2" "same_rq s2 s3"
    using wq_add [OF wq2 w] by (auto simp: sel2 list_empty_init)
  have sub: "u \<in> set ws" if "u \<in> set (if ws = [] then [] else [last ws])" for u
    using that by (auto split: if_splits)
  have sv3: "sem_value s3 = sem_value s"
    using s3(1) by (auto simp: add_wait_queue_def assert_then_eq_ret Let_def upd_wait_def sel2)
  define s4 where "s4 = local_intr_restore flag s3"
  have rq4: "same_rq s s4"
    using sel2(6) s3(7) by (simp add: same_rq_def s4_def)
  have inv4: "sched_inv P s4" "run_set P s4 = run_set P s - {curr_proc s}"
    using sched_inv_sleep_curr [OF inv c(1) _ rq4, of PROC_SLEEPING WAIT_SEM]
    by (simp_all add: s4_def s3 sel2 const_defs)
  obtain s' where s': "schedule s4 = ret s'" "sched_inv P s'" "same_procs s4 s'"
      "curr_proc s' \<in> run_set P s4 \<or> curr_proc s' = idle_proc s4"
    using schedule_run [OF inv4(1)] by metis
  note m = wsched_more [OF schedule_more [OF s'(1)]]
  have d: "down q w s = ret (False, s')"
    using rep s3(1) s'(1) i
    by (simp add: down_def sem_rep_def add_curr_wait_def s4_def s2_def Let_def init_wait_def)
  have "idle_proc s4 \<noteq> curr_proc s"
    using inv c(1) by (auto simp: s4_def s3 sel2 sched_inv_def)
  then have ne: "curr_proc s' \<noteq> curr_proc s"
    using s'(4) unfolding inv4(2) by (metis DiffD2 singletonI)
  have P4: "procs s4 = procs s2"
    by (simp add: s4_def s3)
  have ps: "p_state (procs s' r) = p_state (procs s2 r)" "p_wait_state (procs s' r) = p_wait_state (procs s2 r)" for r
    using same_procsD(3,4) [OF s'(3), of r] by (simp_all add: P4)
  have wp: "w_proc (waits s' u) = (if u = w then Some (curr_proc s) else w_proc (waits s u))" for u
    by (simp add: m s4_def s3 sel2)
  let ?ws = "if ws = [] then [] else [last ws]"
  have "wq_rep s' q (w # ?ws)"
    using s3(2) by (simp add: wq_rep_def m s4_def)
  moreover have "distinct (map (\<lambda>u. w_proc (waits s' u)) (w # ?ws))"
    using w c(2) by (cases "ws = []") (auto simp: wp dest: last_in_set)
  moreover have "\<forall>u\<in>set (w # ?ws). \<forall>p. w_proc (waits s' u) = Some p \<longrightarrow>
      p_state (procs s' p) = PROC_SLEEPING \<and> p_wait_state (procs s' p) = WAIT_SEM"
    using rep w sub by (auto simp: sem_rep_def wp ps sel2)
  ultimately have "sem_rep s' q 0 (w # ?ws)"
    using rep by (simp add: sem_rep_def m s4_def sv3)
  then show ?thesis
    using d s'(2) same_procs_run_set [OF s'(3), of P] inv4(2) ne wp by auto
qed

text \<open>A waiter that an \<open>up\<close> has woken finds itself unlinked and returns.\<close>

lemma down_resume_ok:
  fixes s :: "'z ssched_scheme"
  assumes "list_empty (wait_links s) (LNode w)" "w_wakeup_state (waits s w) = WAIT_SEM"
  shows "down_resume q w s = ret s"
proof -
  obtain flag s1 where i: "local_intr_save s = (flag, s1)" "procs s1 = procs s" "waits s1 = waits s"
      "wait_links s1 = wait_links s" "sem_value s1 = sem_value s"
    by (rule save_ssched [of s])
  show ?thesis
    using assms by (simp add: down_resume_def i del_curr_wait_def local_intr_noop [OF i(1)])
qed

lemma try_down_iff:
  "try_down q s = (r, s') \<Longrightarrow> r = (0 < sem_value s q) \<and>
     sem_value s' q = (if r then sem_value s q - 1 else sem_value s q) \<and> procs s' = procs s"
  by (rule save_ssched [of s]) (auto simp: try_down_def split: if_splits)

section \<open>Correctness\<close>

text \<open>Process 4 waits on semaphore 100 with the wait object 50; process 3 runs.\<close>

definition sample_sem :: ssched where
  "sample_sem = tsched.extend
     (upd_proc 4 (\<lambda>q. q\<lparr>p_wait_state := WAIT_SEM\<rparr>) sample_timers)
     \<lparr>waits = (\<lambda>w. \<lparr>w_proc = Some 4, w_wakeup_state = WAIT_INT, w_queue = Some 100\<rparr>),
      wait_links = \<lparr>prv = (\<lambda>x. if x = LHead 100 then LNode 50 else if x = LNode 50 then LHead 100 else x),
        nxt = (\<lambda>x. if x = LHead 100 then LNode 50 else if x = LNode 50 then LHead 100 else x)\<rparr>,
      sem_value = (\<lambda>q. 0)\<rparr>"

lemma sample_sem_procs: "procs sample_sem = (procs sample_sleeper)(4 := (procs sample_sleeper 4)\<lparr>p_wait_state := WAIT_SEM\<rparr>)"
  by (simp add: sample_sem_def tsched.defs sample_timers_def sched.defs)

lemma sample_sem_rep: "sem_rep sample_sem 100 0 [50]"
proof -
  have "p_state (procs sample_sem 4) = PROC_SLEEPING" "p_wait_state (procs sample_sem 4) = WAIT_SEM"
    by (simp_all add: sample_sem_procs sample_sleeper_def)
  then show ?thesis
    by (simp add: sem_rep_def wq_rep_def) (simp add: sample_sem_def tsched.defs dlist_def)
qed

lemma sample_sem_inv: "sched_inv {1, 2, 3, 4} sample_sem"
proof -
  let ?t = "sched.truncate sample_sem"
  have "procs ?t = procs sample_sem" "curr_proc ?t = curr_proc sample_sleeper" "idle_proc ?t = idle_proc sample_sleeper"
      "run_pools ?t = run_pools sample_sleeper" "rq_num_proc ?t = rq_num_proc sample_sleeper"
      "rq_max_time_slice ?t = rq_max_time_slice sample_sleeper" "rq_run_pool ?t = rq_run_pool sample_sleeper"
    by (simp_all add: sched.defs sample_sem_def tsched.defs sample_timers_def)
  then have "sched_inv {1, 2, 3, 4} ?t"
    by (intro sched_inv_cong [OF sample_sched_inv]) (auto simp: same_rq_def sample_sem_procs)
  then show ?thesis
    by (simp add: sched_inv_truncate)
qed

lemma sample_sem_run_set: "run_set {1, 2, 3, 4} sample_sem = {1, 2, 3}"
proof -
  have "p_state (procs sample_sem p) = p_state (procs sample_sleeper p)" for p
    by (simp add: sample_sem_procs)
  then show ?thesis
    using sample_run_set by (simp add: run_set_def)
qed

text \<open>C28: an \<open>up\<close> on a semaphore with waiters hands its unit to the first of them: the value stays,
  the waiter leaves the queue, its process becomes runnable and nothing happens to the other
  waiters; when it runs, the rest of its \<open>down\<close> returns without touching anything.\<close>

theorem sem_handoff:
  assumes "sem_rep s q v (w # ws)" and "w_proc (waits s w) = Some p" and "p \<in> P" and "sched_inv P s"
    and "stride_window (Suc (unat BIG_STRIDE)) b s (insert p (run_set P s))"
  shows "\<exists>s'. up q s = ret s' \<and> sem_rep s' q v ws \<and> sched_inv P s' \<and>
    run_set P s' = insert p (run_set P s) \<and> sstatus s' = sstatus s \<and> down_resume q w s' = ret s'"
  using up_handoff [OF assms] down_resume_ok by metis

theorem sem_handoff_witness:
  "\<exists>s'. up 100 sample_sem = ret s' \<and> sem_rep s' 100 0 [] \<and> sched_inv {1, 2, 3, 4} s' \<and>
    run_set {1, 2, 3, 4} s' = {1, 2, 3, 4} \<and> down_resume 100 50 s' = ret s'"
proof -
  have "stride_window (Suc (unat BIG_STRIDE)) 0xFFFFFFF0 sample_sem (insert 4 {1, 2, 3})"
    by (simp add: stride_window_def sample_sem_procs sample_sleeper_def sample_sched_def sample_pcb_def ahead_def BIG_STRIDE_def)
  moreover have "w_proc (waits sample_sem 50) = Some 4"
    by (simp add: sample_sem_def tsched.defs)
  ultimately show ?thesis
    using sem_handoff [OF sample_sem_rep _ _ sample_sem_inv, of 4 "0xFFFFFFF0"]
    by (simp add: sample_sem_run_set insert_commute) blast
qed

text \<open>C29: a \<open>down\<close> on an exhausted semaphore puts the caller to sleep as the first waiter of the
  queue, in which of the earlier waiters only the last one stays, and switches to another process;
  the scheduler invariant is kept and no runnable process but the caller stops being runnable.\<close>

theorem sem_blocks:
  assumes "sem_rep s q 0 ws" and "w \<notin> set ws" and "sched_inv P s"
    and "curr_proc s \<in> P" and "Some (curr_proc s) \<notin> (\<lambda>u. w_proc (waits s u)) ` set ws"
  shows "\<exists>s'. down q w s = ret (False, s') \<and> sem_rep s' q 0 (w # (if ws = [] then [] else [last ws])) \<and> sched_inv P s' \<and>
    run_set P s' = run_set P s - {curr_proc s} \<and> curr_proc s' \<noteq> curr_proc s \<and>
    w_proc (waits s' w) = Some (curr_proc s)"
  by (rule down_block [OF assms])

theorem sem_blocks_witness:
  "\<exists>s'. down 100 51 sample_sem = ret (False, s') \<and> sem_rep s' 100 0 [51, 50] \<and>
    sched_inv {1, 2, 3, 4} s' \<and> run_set {1, 2, 3, 4} s' = {1, 2}"
proof -
  have c: "curr_proc sample_sem = 3" "w_proc (waits sample_sem 50) = Some 4"
    by (simp_all add: sample_sem_def tsched.defs sample_timers_def sched.defs sample_sleeper_def sample_sched_def)
  have "{1, 2, 3} - {3} = {1, 2 :: pcb_ptr}"
    by auto
  then show ?thesis
    using sem_blocks [OF sample_sem_rep _ sample_sem_inv, of 51] by (auto simp: c sample_sem_run_set)
qed

text \<open>C31: \<open>add_wait_queue\<close> links a new waiter between the header and the last waiter: the new one
  is first, and of the waiters already queued only the last remains in the queue. With two or
  more waiters a process is lost: no later \<open>up\<close> can wake it.\<close>

theorem add_wait_queue_loses_waiters:
  assumes "wq_rep s q ws" and "w \<notin> set ws" and "list_empty (wait_links s) (LNode w)"
    and "w_proc (waits s w) \<noteq> None"
  shows "\<exists>s'. add_wait_queue q w s = ret s' \<and> wq_rep s' q (w # (if ws = [] then [] else [last ws]))"
  using wq_add [OF assms] by blast

definition sample_two_waiters :: ssched where
  "sample_two_waiters = sample_sem\<lparr>wait_links :=
     \<lparr>prv = (\<lambda>x. if x = LHead 100 then LNode 50 else if x = LNode 50 then LNode 52 else if x = LNode 52 then LHead 100 else x),
      nxt = (\<lambda>x. if x = LHead 100 then LNode 52 else if x = LNode 52 then LNode 50 else if x = LNode 50 then LHead 100 else x)\<rparr>\<rparr>"

theorem add_wait_queue_loses_waiters_witness:
  "wq_rep sample_two_waiters 100 [52, 50] \<and>
    (\<exists>s'. add_wait_queue 100 51 sample_two_waiters = ret s' \<and> wq_rep s' 100 [51, 50])"
proof -
  have q: "wq_rep sample_two_waiters 100 [52, 50]"
    by (simp add: wq_rep_def sample_two_waiters_def sample_sem_def tsched.defs dlist_def)
  moreover have "list_empty (wait_links sample_two_waiters) (LNode 51)" "w_proc (waits sample_two_waiters 51) \<noteq> None"
    by (simp_all add: sample_two_waiters_def sample_sem_def tsched.defs list_empty_def)
  ultimately show ?thesis
    using add_wait_queue_loses_waiters [OF q, of 51] by simp
qed

text \<open>C32: \<open>wakeup_queue\<close> with deletion reads the next waiter before it deletes the current one and
  so takes the same one again: on any queue with a sleeping first waiter it stops the machine at
  the assertion of \<open>del_wait_queue\<close>.\<close>

theorem wakeup_queue_del_panics:
  assumes "wq_rep s q (w # ws)" and "w_proc (waits s w) = Some p" and "p \<in> P"
    and "p_state (procs s p) = PROC_SLEEPING" and "sched_inv P (s :: 'z ssched_scheme)"
    and "stride_window (Suc (unat BIG_STRIDE)) b s (insert p (run_set P s))"
  shows "wakeup_queue q st True s = panic"
  by (rule wakeup_queue_del [OF assms])

theorem wakeup_queue_del_panics_witness: "wakeup_queue 100 WAIT_SEM True sample_sem = panic"
proof (rule wakeup_queue_del_panics [OF _ _ _ _ sample_sem_inv])
  show "wq_rep sample_sem 100 [50]"
    using sample_sem_rep by (simp add: sem_rep_def)
  show "w_proc (waits sample_sem 50) = Some 4"
    by (simp add: sample_sem_def tsched.defs)
  show "p_state (procs sample_sem 4) = PROC_SLEEPING"
    by (simp add: sample_sem_procs sample_sleeper_def)
  show "stride_window (Suc (unat BIG_STRIDE)) 0xFFFFFFF0 sample_sem (insert 4 (run_set {1, 2, 3, 4} sample_sem))"
    unfolding sample_sem_run_set
    by (simp add: stride_window_def sample_sem_procs sample_sleeper_def sample_sched_def sample_pcb_def ahead_def BIG_STRIDE_def)
qed simp

end
