(* ===== verification/Vmm.thy ===== *)
theory Vmm
  imports Semaphore Phys_Mem
begin

text \<open>
  Virtual memory areas, \<open>kernel/mm/vmm.c\<close>: the sorted list of areas of a memory manager with its
  lookup cache, the mapping of new areas, the check of user pointers, the page fault handler and
  the duplication and removal of an address space. \<open>vma_rep s v as\<close> says that the areas of manager
  \<open>v\<close> are \<open>as\<close> in address order.
\<close>

unbundle bit_operations_syntax

section \<open>Operations\<close>

text \<open>\<open>sizeof(struct vm_area)\<close> and \<open>sizeof(struct vm_manager)\<close> on a 64-bit machine.\<close>

definition VM_AREA_SIZE :: u64 where [const_defs]: "VM_AREA_SIZE = 48"
definition VM_MANAGER_SIZE :: u64 where [const_defs]: "VM_MANAGER_SIZE = 88"

definition upd_vma :: "u64 \<Rightarrow> (vm_area \<Rightarrow> vm_area) \<Rightarrow> 'z kmem_scheme \<Rightarrow> 'z kmem_scheme" where
  "upd_vma a f s = s\<lparr>vmas := (vmas s)(a := f (vmas s a))\<rparr>"

definition init_vma :: "u64 \<Rightarrow> u64 \<Rightarrow> u32 \<Rightarrow> 'z sched_scheme \<Rightarrow> (u64 option \<times> 'z sched_scheme) exec" where
  "init_vma start fin flags s =
     bind_exec (malloc VM_AREA_SIZE s) (\<lambda>(vma, s1).
       if vma = 0 then ret (None, s1)
       else ret (Some vma, upd_vma vma (\<lambda>x. x\<lparr>vm_start := start, vm_end := fin, vm_flags := flags\<rparr>) s1))"

text \<open>The address of the semaphore inside a manager stands for the manager's address.\<close>

definition init_vmm :: "'z ssched_scheme \<Rightarrow> (u64 option \<times> 'z ssched_scheme) exec" where
  "init_vmm s =
     bind_exec (malloc VM_MANAGER_SIZE s) (\<lambda>(vmm, s1).
       if vmm = 0 then ret (None, s1)
       else
         let s2 = s1\<lparr>vma_links := init_list (LHead vmm) (vma_links s1)\<rparr>;
             s3 = upd_vmm vmm (\<lambda>v. v\<lparr>vma_curr := None, vmm_gpt := 0, vma_count := 0\<rparr>) s2;
             s4 = (if swap_init_flag s3 then swap_init_vmm vmm s3
                   else upd_vmm vmm (\<lambda>v. v\<lparr>pra_list := None\<rparr>) s3);
             s5 = upd_vmm vmm (\<lambda>v. v\<lparr>use_count := 0\<rparr>) s4
         in ret (Some vmm, init_sem vmm 1 s5))"

partial_function (option) del_vmm_loop :: "u64 \<Rightarrow> (u64, u64) lnode \<Rightarrow> 'z sched_scheme \<Rightarrow> 'z sched_scheme exec" where
  "del_vmm_loop vmm list s =
     (case nxt (vma_links s) list of
        LHead _ \<Rightarrow> ret s
      | LNode a \<Rightarrow>
          bind_exec (free a VM_AREA_SIZE (s\<lparr>vma_links := del_list (LNode a) (vma_links s)\<rparr>)) (\<lambda>s1.
            del_vmm_loop vmm (LNode a) s1))"

definition del_vmm :: "u64 \<Rightarrow> 'z sched_scheme \<Rightarrow> 'z sched_scheme exec" where
  "del_vmm vmm s = bind_exec (del_vmm_loop vmm (LHead vmm) s) (free vmm VM_MANAGER_SIZE)"

definition in_vma :: "vm_area \<Rightarrow> u64 \<Rightarrow> bool" where
  "in_vma a addr \<longleftrightarrow> vm_start a \<le> addr \<and> vm_end a > addr"

partial_function (option) find_vma_loop :: "u64 \<Rightarrow> (u64, u64) lnode \<Rightarrow> 'z kmem_scheme \<Rightarrow> u64 option option" where
  "find_vma_loop addr list s =
     (case nxt (vma_links s) list of
        LHead _ \<Rightarrow> Some None
      | LNode a \<Rightarrow> if in_vma (vmas s a) addr then Some (Some a) else find_vma_loop addr (LNode a) s)"

definition find_vma :: "u64 option \<Rightarrow> u64 \<Rightarrow> 'z kmem_scheme \<Rightarrow> (u64 option \<times> 'z kmem_scheme) exec" where
  "find_vma vmm addr s =
     (case vmm of
        None \<Rightarrow> ret (None, s)
      | Some v \<Rightarrow>
          case (case vma_curr (vmms s v) of
                  Some a \<Rightarrow> if in_vma (vmas s a) addr then Some (Some a) else find_vma_loop addr (LHead v) s
                | None \<Rightarrow> find_vma_loop addr (LHead v) s) of
            None \<Rightarrow> None
          | Some None \<Rightarrow> ret (None, s)
          | Some (Some a) \<Rightarrow> ret (Some a, upd_vmm v (\<lambda>x. x\<lparr>vma_curr := Some a\<rparr>) s))"

definition test_vma_overlap :: "vm_area \<Rightarrow> vm_area \<Rightarrow> bool" where
  "test_vma_overlap p n \<longleftrightarrow> vm_start p < vm_end p \<and> vm_end p \<le> vm_start n \<and> vm_start n < vm_end n"

partial_function (option) add_vma_loop :: "u64 \<Rightarrow> (u64, u64) lnode \<Rightarrow> 'z kmem_scheme \<Rightarrow> (u64, u64) lnode option" where
  "add_vma_loop start list s =
     (case nxt (vma_links s) list of
        LHead h \<Rightarrow> Some (LHead h)
      | LNode a \<Rightarrow> if vm_start (vmas s a) < start then add_vma_loop start (LNode a) s else Some (LNode a))"

definition add_vma :: "u64 \<Rightarrow> u64 \<Rightarrow> 'z kmem_scheme \<Rightarrow> 'z kmem_scheme exec" where
  "add_vma vmm vma s =
     assert_then (vm_start (vmas s vma) < vm_end (vmas s vma))
       (case add_vma_loop (vm_start (vmas s vma)) (LHead vmm) s of
          None \<Rightarrow> None
        | Some list \<Rightarrow>
            assert_then (case prv (vma_links s) list of LHead _ \<Rightarrow> True | LNode p \<Rightarrow> test_vma_overlap (vmas s p) (vmas s vma))
              (assert_then (case list of LHead _ \<Rightarrow> True | LNode n \<Rightarrow> test_vma_overlap (vmas s vma) (vmas s n))
                (let s1 = upd_vma vma (\<lambda>x. x\<lparr>vma_vmm := Some vmm\<rparr>) s;
                     s2 = s1\<lparr>vma_links := add_list (prv (vma_links s1) list) list (LNode vma) (vma_links s1)\<rparr>
                 in ret (upd_vmm vmm (\<lambda>v. v\<lparr>vma_count := vma_count v + 1\<rparr>) s2))))"

text \<open>The result of \<open>vm_map\<close>, and what it stores through \<open>vma_store\<close>.\<close>

definition vm_map :: "u64 option \<Rightarrow> u64 \<Rightarrow> u64 \<Rightarrow> u32 \<Rightarrow> 'z sched_scheme \<Rightarrow> (int \<times> u64 option \<times> 'z sched_scheme) exec" where
  "vm_map vmm addr len flags s =
     (let start = rounddown addr PAGE_SIZE; fin = roundup (addr + len) PAGE_SIZE in
      if \<not> user_access start fin then ret (- E_INVAL, None, s)
      else case vmm of
        None \<Rightarrow> panic
      | Some v \<Rightarrow>
          bind_exec (find_vma vmm start s) (\<lambda>(vma, s1).
            if (case vma of None \<Rightarrow> False | Some a \<Rightarrow> fin > vm_start (vmas s1 a)) then ret (- E_INVAL, None, s1)
            else bind_exec (init_vma start fin flags s1) (\<lambda>(vma, s2).
              case vma of
                None \<Rightarrow> ret (- E_NO_DEV, None, s2)
              | Some a \<Rightarrow> bind_exec (add_vma v a s2) (\<lambda>s3. ret (0, Some a, s3)))))"

partial_function (option) dup_vmm_loop ::
  "u64 \<Rightarrow> u64 \<Rightarrow> (u64, u64) lnode \<Rightarrow> 'z sched_scheme \<Rightarrow> (int \<times> 'z sched_scheme) exec" where
  "dup_vmm_loop from to list s =
     (case prv (vma_links s) list of
        LHead _ \<Rightarrow> ret (0, s)
      | LNode a \<Rightarrow>
          bind_exec (init_vma (vm_start (vmas s a)) (vm_end (vmas s a)) (vm_flags (vmas s a)) s) (\<lambda>(new_vma, s1).
            case new_vma of
              None \<Rightarrow> ret (- E_NO_MEM, s1)
            | Some n \<Rightarrow>
                bind_exec (add_vma to n s1) (\<lambda>s2.
                bind_exec (copy_range (vmm_gpt (vmms s2 from)) (vmm_gpt (vmms s2 to))
                             (vm_start (vmas s2 a)) (vm_end (vmas s2 a)) s2) (\<lambda>(err, s3).
                  if err \<noteq> 0 then ret (- E_NO_MEM, s3) else dup_vmm_loop from to (LNode a) s3))))"

definition dup_vmm :: "u64 option \<Rightarrow> u64 option \<Rightarrow> 'z sched_scheme \<Rightarrow> (int \<times> 'z sched_scheme) exec" where
  "dup_vmm from to s =
     (case (from, to) of
        (Some f, Some t) \<Rightarrow> dup_vmm_loop f t (LHead f) s
      | _ \<Rightarrow> panic)"

partial_function (option) del_range_vmas :: "u64 \<Rightarrow> (u64, u64) lnode \<Rightarrow> 'z sched_scheme \<Rightarrow> 'z sched_scheme exec" where
  "del_range_vmas gpt list s =
     (case nxt (vma_links s) list of
        LHead _ \<Rightarrow> ret s
      | LNode a \<Rightarrow>
          bind_exec (del_range gpt (vm_start (vmas s a)) (vm_end (vmas s a)) s) (\<lambda>s1. del_range_vmas gpt (LNode a) s1))"

partial_function (option) free_range_vmas :: "u64 \<Rightarrow> (u64, u64) lnode \<Rightarrow> 'z sched_scheme \<Rightarrow> 'z sched_scheme exec" where
  "free_range_vmas gpt list s =
     (case nxt (vma_links s) list of
        LHead _ \<Rightarrow> ret s
      | LNode a \<Rightarrow>
          bind_exec (free_range gpt (vm_start (vmas s a)) (vm_end (vmas s a)) s) (\<lambda>s1. free_range_vmas gpt (LNode a) s1))"

definition del_vmas :: "u64 option \<Rightarrow> 'z sched_scheme \<Rightarrow> 'z sched_scheme exec" where
  "del_vmas vmm s =
     (case vmm of
        None \<Rightarrow> panic
      | Some v \<Rightarrow>
          assert_then (use_count (vmms s v) = 0)
            (let gpt = vmm_gpt (vmms s v) in
             bind_exec (del_range_vmas gpt (LHead v) s) (free_range_vmas gpt (LHead v))))"

definition handle_page_fault :: "u64 option \<Rightarrow> u64 \<Rightarrow> 'z sched_scheme \<Rightarrow> (int \<times> 'z sched_scheme) exec" where
  "handle_page_fault vmm addr s =
     bind_exec (find_vma vmm addr s) (\<lambda>(vma, s1).
       let s2 = s1\<lparr>num_page_fault := num_page_fault s1 + 1\<rparr> in
       case (vmm, vma) of
         (Some v, Some a) \<Rightarrow>
           if vm_start (vmas s2 a) > addr then ret (- E_INVAL, s2)
           else
             let pte_flags = (if vm_flags (vmas s2 a) AND VMA_WRITE \<noteq> 0 then ucast (PTE_R OR PTE_W) else 0);
                 addr = rounddown addr PAGE_SIZE in
             bind_exec (get_pte (vmm_gpt (vmms s2 v)) addr True s2) (\<lambda>(p_pte, s3).
               case p_pte of
                 None \<Rightarrow> null_deref
               | Some p \<Rightarrow>
                   if load64 (mem s3) p = 0 then
                     bind_exec (alloc_page_gpte (vmm_gpt (vmms s3 v)) addr pte_flags s3) (\<lambda>(page, s4).
                       ret (if page = None then - E_NO_MEM else 0, s4))
                   else if swap_init_flag s3 then
                     bind_exec (swap_in v addr s3) (\<lambda>(page, s4).
                     bind_exec (add_page (vmm_gpt (vmms s4 v)) page addr pte_flags s4) (\<lambda>(_, s5).
                     bind_exec (swap_set_swappable v page s5) (\<lambda>s6.
                       ret (0, upd_page page (\<lambda>q. q\<lparr>page_pra_addr := addr\<rparr>) s6))))
                   else ret (- E_NO_MEM, s3))
       | _ \<Rightarrow> ret (- E_INVAL, s2))"

partial_function (option) check_vmm_loop :: "u64 \<Rightarrow> u64 \<Rightarrow> u64 \<Rightarrow> bool \<Rightarrow> 'z kmem_scheme \<Rightarrow> (bool \<times> 'z kmem_scheme) exec" where
  "check_vmm_loop vmm start fin wr s =
     (if start < fin then
        bind_exec (find_vma (Some vmm) start s) (\<lambda>(vma, s1).
          case vma of
            None \<Rightarrow> ret (False, s1)
          | Some a \<Rightarrow>
              let x = vmas s1 a in
              if start < vm_start x \<or> vm_flags x AND (if wr then VMA_WRITE else VMA_READ) = 0 \<or>
                 (wr \<and> vm_flags x AND VMA_STACK \<noteq> 0 \<and> start < vm_start x + PAGE_SIZE)
              then ret (False, s1)
              else check_vmm_loop vmm (vm_end x) fin wr s1)
      else ret (True, s))"

definition check_vmm :: "u64 option \<Rightarrow> u64 \<Rightarrow> u64 \<Rightarrow> bool \<Rightarrow> 'z kmem_scheme \<Rightarrow> (bool \<times> 'z kmem_scheme) exec" where
  "check_vmm vmm addr len wr s =
     (case vmm of
        Some v \<Rightarrow>
          if \<not> user_access addr (addr + len) then ret (False, s)
          else check_vmm_loop v addr (addr + len) wr s
      | None \<Rightarrow> ret (kernel_access addr (addr + len), s))"

text \<open>
  The lock of a manager. \<open>lock_vmm\<close> tells whether it got the lock; when it did not, the caller
  sleeps and goes on with \<open>lock_vmm_resume\<close>. \<open>w\<close> is the \<open>struct wait\<close> on the caller's stack.
\<close>

definition set_owner :: "u64 \<Rightarrow> int \<Rightarrow> 'z kmem_scheme \<Rightarrow> 'z kmem_scheme" where
  "set_owner v pid s = upd_vmm v (\<lambda>x. x\<lparr>owner_pid := pid\<rparr>) s"

definition lock_vmm :: "u64 option \<Rightarrow> u64 \<Rightarrow> 'z ssched_scheme \<Rightarrow> (bool \<times> 'z ssched_scheme) exec" where
  "lock_vmm vmm w s =
     (case vmm of
        None \<Rightarrow> ret (True, s)
      | Some v \<Rightarrow>
          bind_exec (down v w s) (\<lambda>(done, s1).
            if done then ret (True, set_owner v (p_pid (curr_pcb s1)) s1) else ret (False, s1)))"

definition lock_vmm_resume :: "u64 \<Rightarrow> u64 \<Rightarrow> 'z ssched_scheme \<Rightarrow> 'z ssched_scheme exec" where
  "lock_vmm_resume v w s =
     bind_exec (down_resume v w s) (\<lambda>s1. ret (set_owner v (p_pid (curr_pcb s1)) s1))"

definition unlock_vmm :: "u64 option \<Rightarrow> 'z ssched_scheme \<Rightarrow> 'z ssched_scheme exec" where
  "unlock_vmm vmm s =
     (case vmm of
        None \<Rightarrow> ret s
      | Some v \<Rightarrow> bind_exec (up v s) (\<lambda>s1. ret (set_owner v (- 1) s1)))"

section \<open>Areas in address order\<close>

definition vma_before :: "vm_area \<Rightarrow> vm_area \<Rightarrow> bool" where
  "vma_before x y \<longleftrightarrow> vm_end x \<le> vm_start y"

definition vma_rep :: "'z kmem_scheme \<Rightarrow> u64 \<Rightarrow> u64 list \<Rightarrow> bool" where
  "vma_rep s v as \<longleftrightarrow>
     dlist (vma_links s) (LHead v) (map LNode as) \<and>
     sorted_wrt vma_before (map (vmas s) as) \<and>
     (\<forall>a\<in>set as. vm_start (vmas s a) < vm_end (vmas s a)) \<and>
     (\<forall>a. vma_curr (vmms s v) = Some a \<longrightarrow> a \<in> set as)"

text \<open>The lookup without the cache: the first area of the list that contains the address.\<close>

definition area_of :: "'z kmem_scheme \<Rightarrow> u64 list \<Rightarrow> u64 \<Rightarrow> u64 option" where
  "area_of s as addr = find (\<lambda>a. in_vma (vmas s a) addr) as"

lemma vma_before_vmm [simp]:
  "vma_before (x\<lparr>vma_vmm := m\<rparr>) y = vma_before x y" "vma_before y (x\<lparr>vma_vmm := m\<rparr>) = vma_before y x"
  by (simp_all add: vma_before_def)

lemma upd_vmm_sel [simp]:
  "vmms (upd_vmm v f s) = (vmms s)(v := f (vmms s v))"
  "vmas (upd_vmm v f s) = vmas s"
  "vma_links (upd_vmm v f s) = vma_links s"
  by (simp_all add: upd_vmm_def)

lemma upd_vma_sel [simp]:
  "vmas (upd_vma a f s) = (vmas s)(a := f (vmas s a))"
  "vmms (upd_vma a f s) = vmms s"
  "vma_links (upd_vma a f s) = vma_links s"
  by (simp_all add: upd_vma_def)

text \<open>Areas do not overlap, so the area of an address is unique.\<close>

lemma vma_rep_unique:
  assumes "vma_rep s v as" "a \<in> set as" "b \<in> set as" "in_vma (vmas s a) x" "in_vma (vmas s b) x"
  shows "a = b"
proof (rule ccontr)
  assume ne: "a \<noteq> b"
  have "sorted_wrt (\<lambda>a b. vma_before (vmas s a) (vmas s b)) as"
    using assms(1) by (simp add: vma_rep_def sorted_wrt_map)
  then have "vma_before (vmas s a) (vmas s b) \<or> vma_before (vmas s b) (vmas s a)"
    using assms(2,3) ne by (induction as) auto
  with assms(4,5) show False
    by (auto simp: vma_before_def in_vma_def word_less_nat_alt word_le_nat_alt)
qed

lemma area_of_Some: "vma_rep s v as \<Longrightarrow> a \<in> set as \<Longrightarrow> in_vma (vmas s a) x \<Longrightarrow> area_of s as x = Some a"
  unfolding area_of_def using vma_rep_unique [of s v as a _ x]
  by (metis (no_types, lifting) find_None_iff find_Some_iff nth_mem option.exhaust)

lemma find_vma_loop_ok:
  assumes "dlist (vma_links s) (LHead v) (map LNode (us @ as))"
  shows "find_vma_loop x (last (LHead v # map LNode us)) s = Some (find (\<lambda>a. in_vma (vmas s a) x) as)"
  using assms
proof (induction as arbitrary: us)
  case Nil
  then show ?case
    using dlist_nxt_last [of "vma_links s" "LHead v" "map LNode us" "[]"] by (subst find_vma_loop.simps) simp
next
  case (Cons a as)
  then have "nxt (vma_links s) (last (LHead v # map LNode us)) = LNode a"
    using dlist_nxt_last [of "vma_links s" "LHead v" "map LNode us" "map LNode (a # as)"] by simp
  then show ?case
    using Cons.IH [of "us @ [a]"] Cons.prems by (subst find_vma_loop.simps) simp
qed

lemma vma_rep_curr:
  "vma_rep s v as \<Longrightarrow> a \<in> set as \<Longrightarrow> vma_rep (upd_vmm v (\<lambda>x. x\<lparr>vma_curr := Some a\<rparr>) s) v as"
  by (simp add: vma_rep_def)

lemma find_vma_ok:
  assumes "vma_rep s v as"
  shows "\<exists>s'. find_vma (Some v) x s = ret (area_of s as x, s') \<and> vma_rep s' v as \<and> vmas s' = vmas s \<and>
    (s' = s \<or> (\<exists>a. s' = upd_vmm v (\<lambda>x. x\<lparr>vma_curr := Some a\<rparr>) s))"
proof -
  have loop: "find_vma_loop x (LHead v) s = Some (area_of s as x)"
    using find_vma_loop_ok [of s v "[]" as x] assms by (simp add: vma_rep_def area_of_def)
  have mem: "a \<in> set as" if "area_of s as x = Some a" for a
    using that by (auto simp: area_of_def find_Some_iff)
  have fin: "find_vma (Some v) x s = (case area_of s as x of None \<Rightarrow> ret (None, s)
      | Some a \<Rightarrow> ret (Some a, upd_vmm v (\<lambda>x. x\<lparr>vma_curr := Some a\<rparr>) s))"
  proof (cases "vma_curr (vmms s v)")
    case None
    then show ?thesis
      by (simp add: find_vma_def loop split: option.splits)
  next
    case (Some a)
    then have "a \<in> set as"
      using assms by (simp add: vma_rep_def)
    then show ?thesis
      using Some area_of_Some [OF assms, of a x] by (simp add: find_vma_def loop split: option.splits)
  qed
  show ?thesis
  proof (cases "area_of s as x")
    case None
    then show ?thesis
      using fin assms by simp
  next
    case (Some a)
    then show ?thesis
      using fin vma_rep_curr [OF assms mem [OF Some]] by auto
  qed
qed

section \<open>Insertion\<close>

abbreviation starts_below :: "'z kmem_scheme \<Rightarrow> u64 \<Rightarrow> u64 \<Rightarrow> bool" where
  "starts_below s x a \<equiv> vm_start (vmas s a) < x"

lemma add_vma_loop_ok:
  assumes "dlist (vma_links s) (LHead v) (map LNode (us @ as))"
  shows "add_vma_loop x (last (LHead v # map LNode us)) s =
    Some (hd (map LNode (dropWhile (starts_below s x) as) @ [LHead v]))"
  using assms
proof (induction as arbitrary: us)
  case Nil
  have "nxt (vma_links s) (last (LHead v # map LNode us)) = LHead v"
    using Nil dlist_nxt_head [of "vma_links s" "LHead v" "map LNode us"]
      dlist_nxt [of "vma_links s" "LHead v" "map LNode (butlast us)" "LNode (last us)" "[]"]
    by (cases us rule: rev_cases) auto
  then show ?case
    by (subst add_vma_loop.simps) simp
next
  case (Cons a as)
  have "nxt (vma_links s) (last (LHead v # map LNode us)) = LNode a"
    using Cons.prems dlist_nxt_head [of "vma_links s" "LHead v" "map LNode (us @ a # as)"]
      dlist_nxt [of "vma_links s" "LHead v" "map LNode (butlast us)" "LNode (last us)" "map LNode (a # as)"]
    by (cases us rule: rev_cases) auto
  then show ?case
    using Cons.IH [of "us @ [a]"] Cons.prems by (subst add_vma_loop.simps) simp
qed

definition vma_apart :: "vm_area \<Rightarrow> vm_area \<Rightarrow> bool" where
  "vma_apart x y \<longleftrightarrow> vma_before x y \<or> vma_before y x"

text \<open>In a sorted list the two neighbours decide.\<close>

lemma apart_neighbours:
  assumes "sorted_wrt vma_before (us @ ws)" "\<forall>y\<in>set (us @ ws). vm_start y < vm_end y" "vm_start x < vm_end x"
    "\<forall>y\<in>set us. vm_start y < vm_start x" "\<forall>y\<in>set ws. \<not> vm_start y < vm_start x"
  shows "(\<forall>y\<in>set (us @ ws). vma_apart x y) \<longleftrightarrow>
    (us \<noteq> [] \<longrightarrow> vma_before (last us) x) \<and> (ws \<noteq> [] \<longrightarrow> vma_before x (hd ws))" (is "?A \<longleftrightarrow> ?B")
proof
  assume ?A
  have "vma_before y x" if y: "y \<in> set us" for y
  proof -
    have "vma_apart x y" "vm_start y < vm_start x"
      using y \<open>?A\<close> assms(4) by auto
    with assms(3) show ?thesis
      by (auto simp: vma_apart_def vma_before_def word_less_nat_alt word_le_nat_alt)
  qed
  moreover have "vma_before x y" if y: "y \<in> set ws" for y
  proof -
    have "vma_apart x y" "\<not> vm_start y < vm_start x" "vm_start y < vm_end y"
      using y \<open>?A\<close> assms(2,5) by auto
    then show ?thesis
      by (auto simp: vma_apart_def vma_before_def word_less_nat_alt word_le_nat_alt)
  qed
  ultimately show ?B
    by simp
next
  assume ?B
  have "vma_before y x" if y: "y \<in> set us" for y
  proof -
    have "vma_before (last us) x"
      using y \<open>?B\<close> by (cases us) auto
    moreover have "y = last us \<or> vma_before y (last us)"
      using y assms(1) by (cases us rule: rev_cases) (auto simp: sorted_wrt_append)
    moreover have "vm_start (last us) < vm_end (last us)"
      using y assms(2) by (cases us) auto
    ultimately show ?thesis
      by (auto simp: vma_before_def word_less_nat_alt word_le_nat_alt)
  qed
  moreover have "vma_before x y" if y: "y \<in> set ws" for y
  proof -
    have "vma_before x (hd ws)" "vm_start (hd ws) < vm_end (hd ws)" "y = hd ws \<or> vma_before (hd ws) y"
      using y \<open>?B\<close> assms(1,2) by (cases ws; auto simp: sorted_wrt_append)+
    then show ?thesis
      by (auto simp: vma_before_def word_less_nat_alt word_le_nat_alt)
  qed
  ultimately show ?A
    by (auto simp: vma_apart_def)
qed

text \<open>The place of a new area.\<close>

definition insert_area :: "'z kmem_scheme \<Rightarrow> u64 \<Rightarrow> u64 list \<Rightarrow> u64 list" where
  "insert_area s a as =
     takeWhile (starts_below s (vm_start (vmas s a))) as @ a # dropWhile (starts_below s (vm_start (vmas s a))) as"

lemma vma_starts_sorted:
  assumes "sorted_wrt vma_before (map f as)" "\<forall>a\<in>set as. vm_start (f a) < vm_end (f a)" "b \<in> set (dropWhile (\<lambda>a. vm_start (f a) < x) as)"
  shows "\<not> vm_start (f b) < x"
  using assms
proof (induction as)
  case (Cons c as)
  show ?case
  proof (cases "vm_start (f c) < x")
    case False
    with Cons.prems show ?thesis
      by (auto simp: vma_before_def word_less_nat_alt word_le_nat_alt)
  qed (use Cons in auto)
qed simp

lemma add_vma_ok:
  assumes rep: "vma_rep s v as" and new: "a \<notin> set as" and pos: "vm_start (vmas s a) < vm_end (vmas s a)"
  shows "if \<forall>b\<in>set as. vma_apart (vmas s a) (vmas s b)
    then \<exists>s'. add_vma v a s = ret s' \<and> vma_rep s' v (insert_area s a as) \<and>
      vmas s' = (vmas s)(a := (vmas s a)\<lparr>vma_vmm := Some v\<rparr>) \<and> vma_count (vmms s' v) = vma_count (vmms s v) + 1
    else add_vma v a s = panic"
proof -
  define us where "us = takeWhile (starts_below s (vm_start (vmas s a))) as"
  define ws where "ws = dropWhile (starts_below s (vm_start (vmas s a))) as"
  have as: "as = us @ ws"
    by (simp add: us_def ws_def)
  have d: "dlist (vma_links s) (LHead v) (map LNode us @ map LNode ws)"
    and srt: "sorted_wrt vma_before (map (vmas s) us @ map (vmas s) ws)"
    and ne: "\<forall>y\<in>set (map (vmas s) us @ map (vmas s) ws). vm_start y < vm_end y"
    and cur: "\<And>b. vma_curr (vmms s v) = Some b \<Longrightarrow> b \<in> set as"
    using rep as by (auto simp: vma_rep_def)
  have loop: "add_vma_loop (vm_start (vmas s a)) (LHead v) s = Some (hd (map LNode ws @ [LHead v]))"
    using add_vma_loop_ok [of s v "[]" as "vm_start (vmas s a)"] rep by (simp add: vma_rep_def ws_def)
  have prv: "prv (vma_links s) (hd (map LNode ws @ [LHead v])) = last (LHead v # map LNode us)"
    using d dlist_prv_head [of "vma_links s" "LHead v" "map LNode us"]
      dlist_prv [of "vma_links s" "LHead v" "map LNode us" "LNode (hd ws)" "map LNode (tl ws)"]
    by (cases ws) auto
  have below: "\<forall>y\<in>set (map (vmas s) us). vm_start y < vm_start (vmas s a)"
    by (auto simp: us_def dest: set_takeWhileD)
  have above: "\<forall>y\<in>set (map (vmas s) ws). \<not> vm_start y < vm_start (vmas s a)"
  proof
    fix y
    assume "y \<in> set (map (vmas s) ws)"
    then obtain b where b: "b \<in> set ws" "y = vmas s b"
      by auto
    have "sorted_wrt vma_before (map (vmas s) as)" "\<forall>b\<in>set as. vm_start (vmas s b) < vm_end (vmas s b)"
      using rep by (simp_all add: vma_rep_def)
    from vma_starts_sorted [OF this b(1) [unfolded ws_def]] show "\<not> vm_start y < vm_start (vmas s a)"
      unfolding b(2) .
  qed
  have cond: "(\<forall>b\<in>set as. vma_apart (vmas s a) (vmas s b)) \<longleftrightarrow>
      (us \<noteq> [] \<longrightarrow> vma_before (vmas s (last us)) (vmas s a)) \<and> (ws \<noteq> [] \<longrightarrow> vma_before (vmas s a) (vmas s (hd ws)))"
  proof -
    have "(\<forall>b\<in>set as. vma_apart (vmas s a) (vmas s b)) \<longleftrightarrow> (\<forall>y\<in>set (map (vmas s) us @ map (vmas s) ws). vma_apart (vmas s a) y)"
      by (simp add: as ball_Un)
    then show ?thesis
      unfolding apart_neighbours [OF srt ne pos below above]
      by (cases "us = []"; cases "ws = []") (simp_all add: last_map hd_map)
  qed
  have t1: "(case prv (vma_links s) (hd (map LNode ws @ [LHead v])) of LHead _ \<Rightarrow> True
      | LNode p \<Rightarrow> test_vma_overlap (vmas s p) (vmas s a)) \<longleftrightarrow> (us \<noteq> [] \<longrightarrow> vma_before (vmas s (last us)) (vmas s a))"
    unfolding prv using pos ne by (cases us rule: rev_cases) (auto simp: test_vma_overlap_def vma_before_def)
  have t2: "(case hd (map LNode ws @ [LHead v]) of LHead _ \<Rightarrow> True
      | LNode n \<Rightarrow> test_vma_overlap (vmas s a) (vmas s n)) \<longleftrightarrow> (ws \<noteq> [] \<longrightarrow> vma_before (vmas s a) (vmas s (hd ws)))"
    using pos ne by (cases ws) (auto simp: test_vma_overlap_def vma_before_def)
  show ?thesis
  proof (cases "\<forall>b\<in>set as. vma_apart (vmas s a) (vmas s b)")
    case False
    then show ?thesis
      using pos t1 t2 cond by (auto simp: add_vma_def loop)
  next
    case True
    let ?L = "add_list (last (LHead v # map LNode us)) (hd (map LNode ws @ [LHead v])) (LNode a) (vma_links s)"
    let ?s = "upd_vmm v (\<lambda>v. v\<lparr>vma_count := vma_count v + 1\<rparr>) ((upd_vma a (\<lambda>x. x\<lparr>vma_vmm := Some v\<rparr>) s)\<lparr>vma_links := ?L\<rparr>)"
    have run: "add_vma v a s = ret ?s"
      using pos True t1 t2 cond by (simp add: add_vma_def loop prv Let_def)
    have "dlist ?L (LHead v) (map LNode us @ LNode a # map LNode ws)"
      using d new as by (intro dlist_add) auto
    moreover have "sorted_wrt vma_before (map (vmas ?s) (us @ a # ws))"
    proof -
      have eq: "map (vmas ?s) us = map (vmas s) us" "map (vmas ?s) ws = map (vmas s) ws"
        using new as by auto
      have "vma_before y (vmas s a)" if y: "y \<in> set (map (vmas s) us)" for y
      proof -
        have "vma_apart (vmas s a) y" "vm_start y < vm_start (vmas s a)"
          using y True below by (auto simp: as)
        with pos show ?thesis
          by (auto simp: vma_apart_def vma_before_def word_less_nat_alt word_le_nat_alt)
      qed
      moreover have "vma_before (vmas s a) y" if y: "y \<in> set (map (vmas s) ws)" for y
      proof -
        have "vma_apart (vmas s a) y" "\<not> vm_start y < vm_start (vmas s a)" "vm_start y < vm_end y"
          using y True above ne by (auto simp: as)
        then show ?thesis
          by (auto simp: vma_apart_def vma_before_def word_less_nat_alt word_le_nat_alt)
      qed
      ultimately show ?thesis
        using srt by (simp only: map_append list.map eq sorted_wrt_append sorted_wrt.simps set_append list.set) auto
    qed
    moreover have "\<forall>b\<in>set (us @ a # ws). vm_start (vmas ?s b) < vm_end (vmas ?s b)"
      using pos ne by auto
    moreover have "\<forall>b. vma_curr (vmms ?s v) = Some b \<longrightarrow> b \<in> set (us @ a # ws)"
      using cur as by auto
    ultimately have "vma_rep ?s v (insert_area s a as)"
      by (simp only: vma_rep_def insert_area_def us_def [symmetric] ws_def [symmetric] upd_vmm_sel) simp
    then show ?thesis
      using True run by auto
  qed
qed

section \<open>Checking user pointers\<close>

definition may_access :: "bool \<Rightarrow> vm_area \<Rightarrow> u64 \<Rightarrow> bool" where
  "may_access wr a x \<longleftrightarrow> in_vma a x \<and> vm_flags a AND (if wr then VMA_WRITE else VMA_READ) \<noteq> 0 \<and>
     \<not> (wr \<and> vm_flags a AND VMA_STACK \<noteq> 0 \<and> x < vm_start a + PAGE_SIZE)"

text \<open>Every byte of the range lies in an area that permits the access.\<close>

definition range_ok :: "'z kmem_scheme \<Rightarrow> u64 list \<Rightarrow> bool \<Rightarrow> u64 \<Rightarrow> u64 \<Rightarrow> bool" where
  "range_ok s as wr b e \<longleftrightarrow> (\<forall>x. b \<le> x \<and> x < e \<longrightarrow> (\<exists>a\<in>set as. may_access wr (vmas s a) x))"

lemma area_of_in: "area_of s as x = Some a \<Longrightarrow> a \<in> set as \<and> in_vma (vmas s a) x"
  by (auto simp: area_of_def find_Some_iff)

lemma range_ok_step:
  assumes rep: "vma_rep s v as" and b: "b < e" and a: "area_of s as b = Some a"
  shows "range_ok s as wr b e \<longleftrightarrow> may_access wr (vmas s a) b \<and> range_ok s as wr (vm_end (vmas s a)) e"
proof -
  note m = area_of_in [OF a]
  have *: "(\<exists>c\<in>set as. may_access wr (vmas s c) x) \<longleftrightarrow> may_access wr (vmas s a) x" if "in_vma (vmas s a) x" for x
    using vma_rep_unique [OF rep] that m by (auto simp: may_access_def)
  have mono: "may_access wr (vmas s a) x" if "may_access wr (vmas s a) b" "b \<le> x" "x < vm_end (vmas s a)" for x
    using that by (auto simp: may_access_def in_vma_def)
  have in_a: "in_vma (vmas s a) x" if "b \<le> x" "x < vm_end (vmas s a)" for x
    using that m by (auto simp: in_vma_def)
  show ?thesis
  proof
    assume r: "range_ok s as wr b e"
    then have "may_access wr (vmas s a) b"
      using b * [of b] m by (auto simp: range_ok_def)
    moreover have "range_ok s as wr (vm_end (vmas s a)) e"
      using r m by (auto simp: range_ok_def in_vma_def dest: order_less_le_trans [THEN order_less_imp_le])
    ultimately show "may_access wr (vmas s a) b \<and> range_ok s as wr (vm_end (vmas s a)) e" ..
  next
    assume r: "may_access wr (vmas s a) b \<and> range_ok s as wr (vm_end (vmas s a)) e"
    show "range_ok s as wr b e"
      unfolding range_ok_def
    proof (intro allI impI)
      fix x
      assume x: "b \<le> x \<and> x < e"
      show "\<exists>c\<in>set as. may_access wr (vmas s c) x"
      proof (cases "x < vm_end (vmas s a)")
        case True
        then show ?thesis
          using mono [of x] r x m by blast
      next
        case False
        then show ?thesis
          using r x by (auto simp: range_ok_def)
      qed
    qed
  qed
qed

lemma range_ok_cong: "vmas s' = vmas s \<Longrightarrow> range_ok s' as wr b e = range_ok s as wr b e"
  by (simp add: range_ok_def)

lemma check_vmm_loop_ok:
  assumes "vma_rep s v as"
  shows "\<exists>s'. check_vmm_loop v b e wr s = ret (range_ok s as wr b e, s') \<and> vma_rep s' v as \<and> vmas s' = vmas s"
  using assms
proof (induction "unat e - unat b" arbitrary: b s rule: less_induct)
  case less
  show ?case
  proof (cases "b < e")
    case False
    then show ?thesis
      using less.prems by (subst check_vmm_loop.simps) (auto simp: range_ok_def)
  next
    case True
    obtain s1 where s1: "find_vma (Some v) b s = ret (area_of s as b, s1)" "vma_rep s1 v as" "vmas s1 = vmas s"
      using find_vma_ok [OF less.prems, of b] by blast
    show ?thesis
    proof (cases "area_of s as b")
      case None
      then have "\<not> range_ok s as wr b e"
        using True by (auto simp: range_ok_def area_of_def find_None_iff may_access_def)
      then show ?thesis
        using True None s1 by (subst check_vmm_loop.simps) simp
    next
      case (Some a)
      note m = area_of_in [OF Some] and step = range_ok_step [OF less.prems True Some, of wr]
      have ma: "may_access wr (vmas s a) b \<longleftrightarrow> \<not> (b < vm_start (vmas s a) \<or>
          vm_flags (vmas s a) AND (if wr then VMA_WRITE else VMA_READ) = 0 \<or>
          wr \<and> vm_flags (vmas s a) AND VMA_STACK \<noteq> 0 \<and> b < vm_start (vmas s a) + PAGE_SIZE)"
        using m by (auto simp: may_access_def in_vma_def)
      show ?thesis
      proof (cases "may_access wr (vmas s a) b")
        case no: False
        then show ?thesis
          using True Some s1 step ma by (subst check_vmm_loop.simps) (simp add: Let_def)
      next
        case yes: True
        have "unat e - unat (vm_end (vmas s a)) < unat e - unat b"
          using m True by (auto simp: in_vma_def word_less_nat_alt word_le_nat_alt)
        from less.hyps [OF this s1(2)] obtain s2 where
          "check_vmm_loop v (vm_end (vmas s a)) e wr s1 = ret (range_ok s1 as wr (vm_end (vmas s a)) e, s2)"
          "vma_rep s2 v as" "vmas s2 = vmas s1"
          by blast
        then show ?thesis
          using True Some s1 step ma yes range_ok_cong [OF s1(3)] by (subst check_vmm_loop.simps) (auto simp: Let_def)
      qed
    qed
  qed
qed

section \<open>What the operations guarantee\<close>

section \<open>A sample address space\<close>

text \<open>A manager with the areas \<open>[0x1000000, 0x1001000)\<close>, readable and writable, and
  \<open>[0x1003000, 0x1005000)\<close>, readable only, and a third area that is not yet in its list.\<close>

definition sample_areas :: sched where
  "sample_areas = sample_sched\<lparr>
     vmas := (\<lambda>a. if a = 501 then \<lparr>vma_vmm = Some 500, vm_start = 0x1000000, vm_end = 0x1001000, vm_flags = 3\<rparr>
       else if a = 502 then \<lparr>vma_vmm = Some 500, vm_start = 0x1003000, vm_end = 0x1005000, vm_flags = 1\<rparr>
       else \<lparr>vma_vmm = None, vm_start = 0x1001000, vm_end = 0x1002000, vm_flags = 1\<rparr>),
     vma_links := init_list (LNode 503) \<lparr>
       prv = (\<lambda>l. if l = LHead 500 then LNode 502 else if l = LNode 502 then LNode 501 else LHead 500),
       nxt = (\<lambda>l. if l = LHead 500 then LNode 501 else if l = LNode 501 then LNode 502 else LHead 500)\<rparr>\<rparr>"

lemma sample_areas_rep: "vma_rep sample_areas 500 [501, 502]"
  by (simp add: vma_rep_def sample_areas_def sample_sched_def dlist_def vma_before_def init_list_def)

lemma sample_areas_vmas:
  "vmas sample_areas 501 = \<lparr>vma_vmm = Some 500, vm_start = 0x1000000, vm_end = 0x1001000, vm_flags = 3\<rparr>"
  "vmas sample_areas 502 = \<lparr>vma_vmm = Some 500, vm_start = 0x1003000, vm_end = 0x1005000, vm_flags = 1\<rparr>"
  "vmas sample_areas 503 = \<lparr>vma_vmm = None, vm_start = 0x1001000, vm_end = 0x1002000, vm_flags = 1\<rparr>"
  by (simp_all add: sample_areas_def)

lemma sample_areas_range: "range_ok sample_areas [501, 502] False 0x1003010 0x1004010"
proof -
  have "may_access False (vmas sample_areas 502) x" if "0x1003010 \<le> x" "x < 0x1004010" for x
    using order_trans [OF _ that(1), of "0x1003000"] order.strict_trans2 [OF that(2), of "0x1005000"]
    by (simp add: may_access_def in_vma_def sample_areas_vmas VMA_READ_def)
  then show ?thesis
    by (simp add: range_ok_def)
qed

text \<open>\<open>find_vma\<close> returns, with its cache or without, the one area that contains the address, or
  null when there is none, and keeps the areas as they are.\<close>

theorem find_vma_correct:
  assumes "vma_rep s v as"
  shows "\<exists>r s'. find_vma (Some v) addr s = ret (r, s') \<and> vma_rep s' v as \<and> vmas s' = vmas s \<and>
    r = area_of s as addr \<and> (\<forall>a\<in>set as. in_vma (vmas s a) addr \<longleftrightarrow> r = Some a)"
proof -
  obtain s' where "find_vma (Some v) addr s = ret (area_of s as addr, s')" "vma_rep s' v as" "vmas s' = vmas s"
    using find_vma_ok [OF assms, of addr] by blast
  moreover have "in_vma (vmas s a) addr \<longleftrightarrow> area_of s as addr = Some a" if "a \<in> set as" for a
    using area_of_Some [OF assms that] area_of_in [of s as addr a] by blast
  ultimately show ?thesis
    by blast
qed

theorem find_vma_correct_witness:
  "\<exists>r s'. find_vma (Some 500) 0x1004fff sample_areas = ret (r, s') \<and> r = Some 502 \<and> vma_rep s' 500 [501, 502]"
  using find_vma_correct [OF sample_areas_rep, of "0x1004fff"]
  by (auto simp: area_of_def in_vma_def sample_areas_vmas)

text \<open>C18: \<open>add_vma\<close> files an area at its place in address order when it overlaps no other, and stops
  the machine when it does.\<close>

theorem add_vma_correct:
  assumes "vma_rep s v as" and "a \<notin> set as" and "vm_start (vmas s a) < vm_end (vmas s a)"
  shows "if \<forall>b\<in>set as. vma_apart (vmas s a) (vmas s b)
    then \<exists>s'. add_vma v a s = ret s' \<and> vma_rep s' v (insert_area s a as) \<and>
      vmas s' = (vmas s)(a := (vmas s a)\<lparr>vma_vmm := Some v\<rparr>) \<and> vma_count (vmms s' v) = vma_count (vmms s v) + 1
    else add_vma v a s = panic"
  by (rule add_vma_ok [OF assms])

theorem add_vma_correct_witness:
  "(\<exists>s'. add_vma 500 503 sample_areas = ret s' \<and> vma_rep s' 500 [501, 503, 502]) \<and>
   add_vma 500 504 (upd_vma 504 (\<lambda>x. x\<lparr>vm_start := 0x1000800\<rparr>) sample_areas) = panic"
proof
  show "\<exists>s'. add_vma 500 503 sample_areas = ret s' \<and> vma_rep s' 500 [501, 503, 502]"
    using add_vma_correct [OF sample_areas_rep, of 503]
    by (auto simp: sample_areas_vmas vma_apart_def vma_before_def insert_area_def)
  let ?s = "upd_vma 504 (\<lambda>x. x\<lparr>vm_start := 0x1000800\<rparr>) sample_areas"
  have "vma_rep ?s 500 [501, 502]"
    using sample_areas_rep by (simp add: vma_rep_def)
  from add_vma_correct [OF this, of 504] show "add_vma 500 504 ?s = panic"
    by (simp add: sample_areas_vmas vma_apart_def vma_before_def sample_areas_def)
qed

text \<open>C6: \<open>check_vmm\<close> accepts a user range exactly when it lies in user space and every byte of it is
  in an area that permits the access; the guard page of a stack permits no write. The loop
  terminates.\<close>

theorem check_vmm_correct:
  assumes "vma_rep s v as"
  shows "\<exists>s'. check_vmm (Some v) addr len wr s =
      ret (user_access addr (addr + len) \<and> range_ok s as wr addr (addr + len), s') \<and>
    vma_rep s' v as \<and> vmas s' = vmas s"
  using check_vmm_loop_ok [OF assms, of addr "addr + len" wr] assms by (auto simp: check_vmm_def)

theorem check_vmm_correct_witness:
  "(\<exists>s'. check_vmm (Some 500) 0x1003010 0x1000 False sample_areas = ret (True, s')) \<and>
   (\<exists>s'. check_vmm (Some 500) 0x1003010 0x1000 True sample_areas = ret (False, s'))"
proof
  show "\<exists>s'. check_vmm (Some 500) 0x1003010 0x1000 False sample_areas = ret (True, s')"
    using check_vmm_correct [OF sample_areas_rep, of "0x1003010" "0x1000" False] sample_areas_range
    by (auto simp: user_access_def USER_BEGIN_def USER_END_def)
  have "\<not> range_ok sample_areas [501, 502] True 0x1003010 0x1004010"
    by (auto simp: range_ok_def may_access_def in_vma_def sample_areas_vmas VMA_WRITE_def
        intro!: exI [of _ "0x1003010"])
  then show "\<exists>s'. check_vmm (Some 500) 0x1003010 0x1000 True sample_areas = ret (False, s')"
    using check_vmm_correct [OF sample_areas_rep, of "0x1003010" "0x1000" True] by auto
qed

end
