(* ===== verification/Knumber.thy ===== *)
theory Knumber
  imports Kstring
begin

text \<open>
  The number library: \<open>lib/stdlib.c\<close> (numbers to text), \<open>lib/rand.c\<close>, \<open>kernel/lib/hash.c\<close>,
  \<open>kernel/lib/ctype.h\<close> and \<open>kernel/lib/atomic.h\<close>. The printing routines write a C string into a
  buffer of the byte memory; reading it back in the same base gives the number.
\<close>

unbundle bit_operations_syntax

section \<open>Numbers to text (stdlib.c)\<close>

definition u8toc :: "u8 \<Rightarrow> u8" where
  "u8toc v = (if v < 10 then v + 48 else v - 10 + 65)"

text \<open>\<open>while (value && sp < len - 1)\<close>: memory, remaining value and stack pointer.\<close>

function u64toa_loop :: "u64 \<Rightarrow> u8 \<Rightarrow> u64 \<Rightarrow> u64 \<Rightarrow> u64 \<Rightarrow> bytes \<Rightarrow> u64 \<times> u64 \<times> bytes" where
  "u64toa_loop value base buf len sp m =
     (if value \<noteq> 0 \<and> sp < len - 1
      then u64toa_loop (value div ucast base) base buf len (sp + 1)
             (m(buf + sp := u8toc (ucast (value mod ucast base))))
      else (value, sp, m))"
  by pat_completeness auto
termination
proof (relation "measure (\<lambda>(value, base, buf, len, sp, m). unat (len - 1) - unat sp)", goal_cases)
  case (2 v base buf len sp m)
  then have "sp < len - 1"
    by simp
  then have "unat sp < unat (len - 1)" "unat (sp + 1) = unat sp + 1"
    by (simp_all add: word_less_nat_alt unat_add_lem [THEN iffD1] unat_word_ariths)
       (use unat_u64_bound [of "len - 1"] in simp)
  then show ?case
    by simp
qed simp

declare u64toa_loop.simps [simp del]

definition u64toa :: "u64 \<Rightarrow> u8 \<Rightarrow> u64 \<Rightarrow> u64 \<Rightarrow> bytes \<Rightarrow> (bool \<times> bytes) option" where
  "u64toa value base buf len m =
     (if buf = 0 \<or> len < 2 \<or> base < 2 \<or> base > 36 then Some (False, m)
      else if value = 0 then Some (True, m(buf := 48, buf + 1 := 0))
      else let (value, sp, m1) = u64toa_loop value base buf len 0 m;
               m2 = m1(buf + sp := 0)
           in case strrev m2 buf of None \<Rightarrow> None | Some m3 \<Rightarrow> Some (value = 0, m3))"

text \<open>\<open>i64\<close> is the same word read as a signed number.\<close>

definition i64toa :: "u64 \<Rightarrow> u8 \<Rightarrow> u64 \<Rightarrow> u64 \<Rightarrow> bytes \<Rightarrow> (bool \<times> bytes) option" where
  "i64toa value base buf len m =
     (if buf = 0 \<or> len < 2 \<or> base < 2 \<or> base > 36 then Some (False, m)
      else if value = 0 then Some (True, m(buf := 48, buf + 1 := 0))
      else let is_neg = sint value < 0;
               mag = (if is_neg then - (value + 1) + 1 else value)
           in if is_neg then u64toa mag base (buf + 1) (len - 1) (m(buf := 45))
              else u64toa mag base buf len m)"

definition u8toa :: "u8 \<Rightarrow> u8 \<Rightarrow> u64 \<Rightarrow> u64 \<Rightarrow> bytes \<Rightarrow> (bool \<times> bytes) option" where
  "u8toa value base buf len m = u64toa (ucast value) base buf len m"

definition u32toa :: "u32 \<Rightarrow> u8 \<Rightarrow> u64 \<Rightarrow> u64 \<Rightarrow> bytes \<Rightarrow> (bool \<times> bytes) option" where
  "u32toa value base buf len m = u64toa (ucast value) base buf len m"

definition i32toa :: "u32 \<Rightarrow> u8 \<Rightarrow> u64 \<Rightarrow> u64 \<Rightarrow> bytes \<Rightarrow> (bool \<times> bytes) option" where
  "i32toa value base buf len m = i64toa (scast value) base buf len m"

section \<open>Hashing and random numbers (hash.c, rand.c)\<close>

definition GOLDEN_RATIO_PRIME_32 :: u64 where [const_defs]: "GOLDEN_RATIO_PRIME_32 = 0x9e370001"

definition hash32 :: "u32 \<Rightarrow> nat \<Rightarrow> u32" where
  "hash32 val bits = (let hash = ucast (ucast val * GOLDEN_RATIO_PRIME_32) :: u32 in drop_bit (32 - bits) hash)"

definition RAND_MAX :: u64 where [const_defs]: "RAND_MAX = 2147483647"

text \<open>\<open>rand\<close> returns the number and the new seed.\<close>

definition rand :: "u64 \<Rightarrow> u32 \<times> u64" where
  "rand seed =
     (let seed' = (seed * 0x5DEECE66D + 0xB) AND (push_bit 48 1 - 1);
          result = drop_bit 12 seed'
      in (ucast (result mod (RAND_MAX + 1)), seed'))"

definition srand :: "u32 \<Rightarrow> u64" where
  "srand seed = ucast seed"

section \<open>Character classes (ctype.h)\<close>

definition isdigit :: "u8 \<Rightarrow> bool" where
  "isdigit ch \<longleftrightarrow> 48 \<le> ch \<and> ch \<le> 57"

definition islower :: "u8 \<Rightarrow> bool" where
  "islower ch \<longleftrightarrow> 97 \<le> ch \<and> ch \<le> 122"

definition isupper :: "u8 \<Rightarrow> bool" where
  "isupper ch \<longleftrightarrow> 65 \<le> ch \<and> ch \<le> 90"

definition isalpha :: "u8 \<Rightarrow> bool" where
  "isalpha ch \<longleftrightarrow> islower ch \<or> isupper ch"

definition isalnum :: "u8 \<Rightarrow> bool" where
  "isalnum ch \<longleftrightarrow> isdigit ch \<or> isalpha ch"

definition ispunct :: "u8 \<Rightarrow> bool" where
  "ispunct ch \<longleftrightarrow> 33 \<le> ch \<and> ch \<le> 47 \<or> 58 \<le> ch \<and> ch \<le> 64 \<or> 91 \<le> ch \<and> ch \<le> 96 \<or> 123 \<le> ch \<and> ch \<le> 126"

definition isgraph :: "u8 \<Rightarrow> bool" where
  "isgraph ch \<longleftrightarrow> isalnum ch \<or> ispunct ch"

text \<open>The source tests for the letter \<open>f\<close> (102), not for a form feed (12).\<close>

definition issapce :: "u8 \<Rightarrow> bool" where
  "issapce ch \<longleftrightarrow> ch = 32 \<or> ch = 9 \<or> ch = 10 \<or> ch = 11 \<or> ch = 102 \<or> ch = 13"

section \<open>Bit operations (atomic.h)\<close>

text \<open>
  An array of 64-bit words as a function of the index; the atomic instruction returns the old
  word and stores the combination.
\<close>

definition bit_mask :: "u64 \<Rightarrow> u64" where
  "bit_mask offset = push_bit (unat (offset mod 64)) 1"

definition set_bit_at :: "u64 \<Rightarrow> (u64 \<Rightarrow> u64) \<Rightarrow> bool \<times> (u64 \<Rightarrow> u64)" where
  "set_bit_at offset b =
     (let old = b (offset div 64)
      in (old AND bit_mask offset \<noteq> 0, b(offset div 64 := bit_mask offset OR old)))"

definition clear_bit_at :: "u64 \<Rightarrow> (u64 \<Rightarrow> u64) \<Rightarrow> bool \<times> (u64 \<Rightarrow> u64)" where
  "clear_bit_at offset b =
     (let old = b (offset div 64)
      in (old AND bit_mask offset \<noteq> 0, b(offset div 64 := NOT (bit_mask offset) AND old)))"

definition change_bit_at :: "u64 \<Rightarrow> (u64 \<Rightarrow> u64) \<Rightarrow> bool \<times> (u64 \<Rightarrow> u64)" where
  "change_bit_at offset b =
     (let old = b (offset div 64)
      in (old AND bit_mask offset \<noteq> 0, b(offset div 64 := bit_mask offset XOR old)))"

text \<open>\<open>test_bit\<close> reads the first word only; shifting by the offset is defined below 64.\<close>

definition test_bit_at :: "u64 \<Rightarrow> (u64 \<Rightarrow> u64) \<Rightarrow> bool" where
  "test_bit_at offset b \<longleftrightarrow> drop_bit (unat offset) (b 0) AND 1 \<noteq> 0"

section \<open>Text of a number\<close>

text \<open>Digits of \<open>n\<close>, least significant first, and the reading of a text.\<close>

fun digits :: "nat \<Rightarrow> nat \<Rightarrow> nat list" where
  "digits b n = (if n = 0 \<or> b < 2 then [] else n mod b # digits b (n div b))"

declare digits.simps [simp del]

definition num_text :: "nat \<Rightarrow> nat \<Rightarrow> u8 list" where
  "num_text b n = (if n = 0 then [48] else map (\<lambda>d. u8toc (of_nat d)) (rev (digits b n)))"

definition digit_value :: "u8 \<Rightarrow> nat" where
  "digit_value c = (if isdigit c then unat c - 48 else unat c - 55)"

definition read_num :: "nat \<Rightarrow> u8 list \<Rightarrow> nat" where
  "read_num b cs = foldl (\<lambda>acc c. acc * b + digit_value c) 0 cs"

lemma u8toc_value:
  assumes "d < 36"
  shows "digit_value (u8toc (of_nat d)) = d" "u8toc (of_nat d) \<noteq> 0"
proof -
  have d: "unat (of_nat d :: u8) = d"
    using assms by (simp add: unsigned_of_nat take_bit_nat_eq_self)
  have lt: "(of_nat d :: u8) < 10 \<longleftrightarrow> d < 10"
    by (simp add: word_less_nat_alt d)
  have a: "unat (of_nat d + 48 :: u8) = d + 48" if "d < 10"
    using that by (simp add: unat_word_ariths d)
  have "of_nat d - 10 + 65 = (of_nat (d + 55) :: u8)"
    by simp
  then have b: "unat (of_nat d - 10 + 65 :: u8) = d + 55"
    using assms by (simp only: unsigned_of_nat) (simp add: take_bit_nat_eq_self)
  show "digit_value (u8toc (of_nat d)) = d"
    using a b lt assms by (auto simp: digit_value_def isdigit_def u8toc_def word_le_nat_alt)
  have "unat (u8toc (of_nat d)) \<noteq> 0"
    using a b lt by (simp add: u8toc_def)
  then show "u8toc (of_nat d) \<noteq> 0"
    by auto
qed

lemma digits_less: "2 \<le> b \<Longrightarrow> d \<in> set (digits b n) \<Longrightarrow> d < b"
  by (induction b n rule: digits.induct) (subst (asm) (2) digits.simps, auto split: if_splits)

lemma digits_eq: "2 \<le> b \<Longrightarrow> n \<noteq> 0 \<Longrightarrow> digits b n = n mod b # digits b (n div b)"
  by (subst digits.simps) simp

lemma digits_0 [simp]: "digits b 0 = []"
  by (simp add: digits.simps)

lemma read_num_snoc: "read_num b (cs @ [c]) = read_num b cs * b + digit_value c"
  by (simp add: read_num_def)

lemma read_digits:
  assumes "2 \<le> b" "b \<le> 36"
  shows "read_num b (map (\<lambda>d. u8toc (of_nat d)) (rev (digits b n))) = n"
  using assms
proof (induction b n rule: digits.induct)
  case (1 b n)
  show ?case
  proof (cases "n = 0")
    case False
    have "n mod b < 36"
      using 1(2,3) by (intro less_le_trans [OF mod_less_divisor]) auto
    then show ?thesis
      using 1 False by (simp add: digits_eq read_num_snoc u8toc_value)
  qed (simp add: read_num_def)
qed

lemma read_num_text: "2 \<le> b \<Longrightarrow> b \<le> 36 \<Longrightarrow> read_num b (num_text b n) = n"
  by (cases "n = 0") (simp_all add: num_text_def read_digits, simp add: read_num_def digit_value_def isdigit_def)

lemma digits_length: "2 \<le> b \<Longrightarrow> n < b ^ k \<Longrightarrow> length (digits b n) \<le> k"
proof (induction k arbitrary: n)
  case (Suc k)
  show ?case
  proof (cases "n = 0")
    case False
    have "n div b < b ^ k"
      using Suc.prems by (simp add: less_mult_imp_div_less mult.commute)
    then show ?thesis
      using Suc False by (simp add: digits_eq)
  qed simp
qed simp

section \<open>Correctness of the printing routines\<close>

fun write_list :: "bytes \<Rightarrow> u64 \<Rightarrow> u8 list \<Rightarrow> bytes" where
  "write_list m a [] = m"
| "write_list m a (c # cs) = write_list (m(a := c)) (a + 1) cs"

lemma write_list_frame:
  "length cs \<le> 2 ^ 64 \<Longrightarrow> x \<notin> region a (length cs) \<Longrightarrow> write_list m a cs x = m x"
  by (induction cs arbitrary: m a) (auto simp: region_Suc)

lemma write_list_string:
  assumes "length cs < 2 ^ 64" "0 \<notin> set cs"
  shows "cstring ((write_list m a cs)(a + of_nat (length cs) := 0)) a cs"
  using assms
proof (induction cs arbitrary: m a)
  case (Cons c cs)
  let ?m = "(write_list (m(a := c)) (a + 1) cs)(a + 1 + of_nat (length cs) := 0)"
  have no: "a \<notin> region (a + 1) (Suc (length cs))"
    using Cons.prems(1) by (intro start_notin_region) simp
  have "a + 1 + of_nat (length cs) \<in> region (a + 1) (Suc (length cs))"
    using Cons.prems(1) by (intro region_member) auto
  then have "a \<noteq> a + 1 + of_nat (length cs)"
    using no by force
  moreover have "a \<notin> region (a + 1) (length cs)"
    using no region_mono [of "length cs" "Suc (length cs)" "a + 1"] by auto
  ultimately have "?m a = c"
    using Cons.prems(1) by (simp add: write_list_frame)
  moreover have "cstring ?m (a + 1) cs"
    by (rule Cons.IH) (use Cons.prems in auto)
  moreover have "a + of_nat (length (c # cs)) = a + 1 + of_nat (length cs)"
    by simp
  ultimately show ?case
    unfolding write_list.simps cstring.simps using Cons.prems(2) by (simp only: list.set insert_iff) metis
qed simp

lemma u64toa_loop_ok:
  assumes "2 \<le> base"
  defines "b \<equiv> unat base"
  assumes "k = min (length (digits b (unat v))) (unat (len - 1) - unat sp)" "ds = take k (digits b (unat v))"
  shows "\<exists>v'. u64toa_loop v base buf len sp m = (v', sp + of_nat k, write_list m (buf + sp) (map (\<lambda>d. u8toc (of_nat d)) ds)) \<and>
    (v' = 0 \<longleftrightarrow> length (digits b (unat v)) \<le> unat (len - 1) - unat sp)"
  using assms(3,4)
proof (induction k arbitrary: v sp m ds)
  case 0
  have b: "2 \<le> b"
    using assms(1) by (simp add: b_def word_le_nat_alt)
  have z: "v = 0 \<longleftrightarrow> digits b (unat v) = []"
    using digits_eq [OF b, of "unat v"] unat_gt_0 [of v] by (cases "v = 0") auto
  from 0 consider "digits b (unat v) = []" | "\<not> unat sp < unat (len - 1)"
    by (cases "digits b (unat v)") auto
  then show ?case
  proof cases
    case 1
    then have "v = 0"
      using z by simp
    then show ?thesis
      using 0 by (subst u64toa_loop.simps) simp
  next
    case 2
    then have "\<not> sp < len - 1" "unat (len - 1) - unat sp = 0"
      by (simp_all add: word_less_nat_alt)
    then show ?thesis
      using 0 z by (subst u64toa_loop.simps) simp
  qed
next
  case (Suc k)
  have b: "2 \<le> b"
    using assms(1) by (simp add: b_def word_le_nat_alt)
  have v: "unat v \<noteq> 0" and sp: "unat sp < unat (len - 1)"
    using Suc.prems(1) by (cases "unat v = 0"; simp)+
  have sp': "unat (sp + 1) = Suc (unat sp)"
    using sp unat_u64_bound [of "len - 1"] by (simp add: unat_word_ariths)
  have ub: "unat (ucast base :: u64) = b"
    by (simp add: b_def unsigned_ucast_eq take_bit_nat_eq_self unsigned_less [THEN less_trans])
  have v': "unat (v div ucast base) = unat v div b"
    by (simp add: unat_div ub)
  have ds: "digits b (unat v) = unat v mod b # digits b (unat (v div ucast base))"
    using digits_eq [OF b v] by (simp add: v')
  have k: "k = min (length (digits b (unat (v div ucast base)))) (unat (len - 1) - unat (sp + 1))"
    using Suc.prems(1) ds sp' by auto
  have "unat v mod b < 2 ^ 8"
    using b unsigned_less [of base, where ?'a = nat] by (simp add: b_def mod_less_divisor [THEN less_trans])
  moreover have "unat (v mod ucast base) = unat v mod b"
    by (simp only: unat_mod ub)
  ultimately have "unat (ucast (v mod ucast base) :: u8) = unat (of_nat (unat v mod b) :: u8)"
    by (simp only: unsigned_ucast_eq unsigned_of_nat) (simp add: take_bit_nat_eq_self)
  then have d: "(ucast (v mod ucast base) :: u8) = of_nat (unat v mod b)"
    by (simp only: word_unat_eq_iff)
  let ?ds = "take k (digits b (unat (v div ucast base)))"
  from Suc.IH [OF k refl, of "m(buf + sp := u8toc (ucast (v mod ucast base)))"]
  obtain v2 where v2: "u64toa_loop (v div ucast base) base buf len (sp + 1) (m(buf + sp := u8toc (ucast (v mod ucast base)))) =
      (v2, sp + 1 + of_nat k, write_list (m(buf + sp := u8toc (ucast (v mod ucast base)))) (buf + (sp + 1)) (map (\<lambda>d. u8toc (of_nat d)) ?ds))"
    "v2 = 0 \<longleftrightarrow> length (digits b (unat (v div ucast base))) \<le> unat (len - 1) - unat (sp + 1)"
    by blast
  have go: "v \<noteq> 0 \<and> sp < len - 1"
    using v sp by (auto simp: word_less_nat_alt)
  have "ds = unat v mod b # ?ds"
    using Suc.prems(2) ds by simp
  with go v2 ds sp sp' d show ?case
    by (subst u64toa_loop.simps) (auto simp: add.assoc)
qed

lemma u64toa_ok:
  assumes "buf \<noteq> 0" "2 \<le> len" "2 \<le> base" "base \<le> 36" "v \<noteq> 0"
  defines "b \<equiv> unat base" and "n \<equiv> unat len - 1"
  shows "\<exists>m'. u64toa v base buf len m = Some (length (digits b (unat v)) \<le> n, m') \<and>
    cstring m' buf (map (\<lambda>d. u8toc (of_nat d)) (rev (take n (digits b (unat v))))) \<and>
    (\<forall>a. a \<notin> region buf (unat len) \<longrightarrow> m' a = m a)"
proof -
  let ?D = "digits b (unat v)"
  define k where "k = min (length ?D) n"
  let ?cs = "map (\<lambda>d. u8toc (of_nat d)) (take k ?D)"
  have len: "2 \<le> unat len" "unat len < 2 ^ 64"
    using assms(2) unat_u64_bound [of len] by (simp_all add: word_le_nat_alt)
  have n: "unat (len - 1) = n"
    using len(1) unat_minus_one [of len] by (cases "len = 0") (auto simp: n_def)
  have b: "2 \<le> b" "b \<le> 36"
    using assms(3,4) by (simp_all add: b_def word_le_nat_alt)
  have cs: "length ?cs = k" "k \<le> n" "k < 2 ^ 64"
    using len by (auto simp: k_def n_def)
  have nz: "0 \<notin> set ?cs"
    using digits_less [OF b(1)] b(2) by (auto dest!: in_set_takeD) (metis less_le_trans u8toc_value(2))
  obtain v' where v': "u64toa_loop v base buf len 0 m = (v', of_nat k, write_list m buf ?cs)" "v' = 0 \<longleftrightarrow> length ?D \<le> n"
    using u64toa_loop_ok [OF assms(3), of k v len 0 _ buf m] n by (auto simp: k_def b_def)
  let ?m = "(write_list m buf ?cs)(buf + of_nat k := 0)"
  have "cstring ?m buf ?cs"
    using write_list_string [of ?cs m buf] cs nz by simp
  then obtain m' where m': "strrev ?m buf = Some m'" "cstring m' buf (rev ?cs)" "\<And>a. a \<notin> region buf k \<Longrightarrow> m' a = ?m a"
    using strrev_ok [of ?m buf ?cs] cs by auto
  have small: "\<not> (buf = 0 \<or> len < 2 \<or> base < 2 \<or> base > 36)"
    using assms(1-4) by auto
  have "m' a = m a" if "a \<notin> region buf (unat len)" for a
  proof -
    have "buf + of_nat k \<in> region buf (unat len)" "region buf k \<subseteq> region buf (unat len)"
      using cs len by (auto intro!: region_member region_mono simp: n_def)
    with that have "a \<noteq> buf + of_nat k" "a \<notin> region buf k"
      by auto
    then show ?thesis
      using m'(3) [of a] cs write_list_frame [of ?cs a buf m] by simp
  qed
  moreover have "rev ?cs = map (\<lambda>d. u8toc (of_nat d)) (rev (take n ?D))"
    by (simp add: k_def rev_map min_def)
  ultimately show ?thesis
    using small assms(5) v' m' by (simp add: u64toa_def)
qed

lemma u64toa_text:
  assumes "buf \<noteq> 0" and "2 \<le> len" and "2 \<le> base" and "base \<le> 36"
  shows "\<exists>ok m'. u64toa v base buf len m = Some (ok, m') \<and>
    (ok \<longleftrightarrow> length (num_text (unat base) (unat v)) < unat len) \<and>
    (ok \<longrightarrow> (\<exists>cs. cstring m' buf cs \<and> cs = num_text (unat base) (unat v) \<and> read_num (unat base) cs = unat v)) \<and>
    (\<forall>a. a \<notin> region buf (unat len) \<longrightarrow> m' a = m a)"
proof (cases "v = 0")
  case True
  have small: "\<not> (buf = 0 \<or> len < 2 \<or> base < 2 \<or> base > 36)"
    using assms by auto
  have len: "2 \<le> unat len"
    using assms(2) by (simp add: word_le_nat_alt)
  have "m a = (m(buf := 48, buf + 1 := 0)) a" if "a \<notin> region buf (unat len)" for a
  proof -
    have "buf \<in> region buf (unat len)" "buf + 1 \<in> region buf (unat len)"
      using len by (auto simp: region_def)
    with that show ?thesis
      by auto
  qed
  moreover have "read_num (unat base) (num_text (unat base) 0) = 0"
    using assms(3,4) by (intro read_num_text) (simp_all add: word_le_nat_alt)
  ultimately show ?thesis
    using small True len by (auto simp: u64toa_def num_text_def)
next
  case False
  have b: "2 \<le> unat base" "unat base \<le> 36" "2 \<le> unat len"
    using assms(2-4) by (simp_all add: word_le_nat_alt)
  from u64toa_ok [OF assms False, of m] obtain m' where m':
    "u64toa v base buf len m = Some (length (digits (unat base) (unat v)) \<le> unat len - 1, m')"
    "cstring m' buf (map (\<lambda>d. u8toc (of_nat d)) (rev (take (unat len - 1) (digits (unat base) (unat v)))))"
    "\<forall>a. a \<notin> region buf (unat len) \<longrightarrow> m' a = m a"
    by blast
  have t: "num_text (unat base) (unat v) = map (\<lambda>d. u8toc (of_nat d)) (rev (digits (unat base) (unat v)))"
    using False unat_gt_0 [of v] by (simp add: num_text_def)
  show ?thesis
  proof (intro exI conjI impI)
    show "u64toa v base buf len m = Some (length (digits (unat base) (unat v)) \<le> unat len - 1, m')"
      by (rule m')
    show "(length (digits (unat base) (unat v)) \<le> unat len - 1) = (length (num_text (unat base) (unat v)) < unat len)"
      using b(3) by (auto simp: t)
    assume "length (digits (unat base) (unat v)) \<le> unat len - 1"
    then show "cstring m' buf (num_text (unat base) (unat v))"
      using m'(2) by (simp add: t)
    show "read_num (unat base) (num_text (unat base) (unat v)) = unat v"
      by (rule read_num_text [OF b(1,2)])
  qed (rule m'(3) refl)+
qed

text \<open>\<open>u64toa\<close> with a usable buffer and a base from 2 to 36 returns; it returns true exactly when
  the digits of the value fit into the buffer beside the final zero, and then the buffer holds the
  text of the value, which read back in that base gives the value. Nothing outside the buffer is
  written.\<close>

theorem u64toa_roundtrip:
  assumes "buf \<noteq> 0" and "2 \<le> len" and "2 \<le> base" and "base \<le> 36"
  shows "\<exists>ok m'. u64toa v base buf len m = Some (ok, m') \<and>
    (ok \<longleftrightarrow> length (num_text (unat base) (unat v)) < unat len) \<and>
    (ok \<longrightarrow> (\<exists>cs. cstring m' buf cs \<and> cs = num_text (unat base) (unat v) \<and> read_num (unat base) cs = unat v)) \<and>
    (\<forall>a. a \<notin> region buf (unat len) \<longrightarrow> m' a = m a)"
  by (rule u64toa_text [OF assms])

theorem u64toa_roundtrip_witness:
  "\<exists>m'. u64toa 2024 10 0x1000 8 (\<lambda>_. 0) = Some (True, m') \<and> read_num 10 (num_text 10 2024) = 2024"
proof -
  have "length (num_text 10 2024) = 4"
    by (simp add: num_text_def digits.simps)
  then show ?thesis
    using u64toa_roundtrip [of "0x1000" 8 10 2024 "\<lambda>_. 0"] by auto
qed

text \<open>With a buffer for 64 digits every value fits.\<close>

lemma digits_u64: "2 \<le> b \<Longrightarrow> length (digits b (unat (v :: u64))) \<le> 64"
  using power_mono [of 2 b 64] by (intro digits_length less_le_trans [OF unat_u64_bound]) auto

lemma num_text_u64: "2 \<le> b \<Longrightarrow> length (num_text b (unat (v :: u64))) \<le> 64"
  using digits_u64 [of b v] by (simp add: num_text_def)

lemma num_text_u8toc: "c \<in> set (num_text b n) \<Longrightarrow> 2 \<le> b \<Longrightarrow> b \<le> 36 \<Longrightarrow> c \<noteq> 45"
proof -
  assume a: "c \<in> set (num_text b n)" "2 \<le> b" "b \<le> 36"
  have "u8toc (of_nat d) \<noteq> 45" if "d < 36" for d
  proof
    assume "u8toc (of_nat d) = 45"
    with u8toc_value(1) [OF that] have "d = 0"
      by (simp add: digit_value_def isdigit_def)
    with \<open>u8toc (of_nat d) = 45\<close> show False
      by (simp add: u8toc_def)
  qed
  then show ?thesis
    using a digits_less [OF a(2)] by (auto simp: num_text_def split: if_splits) (metis less_le_trans)
qed

definition read_int :: "nat \<Rightarrow> u8 list \<Rightarrow> int" where
  "read_int b cs = (if cs \<noteq> [] \<and> hd cs = 45 then - int (read_num b (tl cs)) else int (read_num b cs))"

lemma num_text_ne: "2 \<le> b \<Longrightarrow> num_text b n \<noteq> []"
  by (simp add: num_text_def digits_eq)

lemma read_int_text: "2 \<le> b \<Longrightarrow> b \<le> 36 \<Longrightarrow> read_int b (num_text b n) = int n"
  using num_text_u8toc [of "hd (num_text b n)" b n] by (simp add: read_int_def num_text_ne read_num_text)

lemma sint_neg_mag:
  assumes "sint (v :: u64) < 0"
  shows "int (unat (- (v + 1) + 1)) = - sint v"
proof -
  have "- (2 ^ 63) \<le> sint v"
    using sint_range_size [of v] by (simp add: word_size)
  then have "(sint v + 2 ^ 64) mod 2 ^ 64 = sint v + 2 ^ 64"
    using assms by (intro mod_pos_pos_trivial) auto
  then have u: "uint v = sint v + 2 ^ 64"
    by (simp add: uint_sint take_bit_eq_mod)
  have "- (v + 1) + 1 = - v"
    by simp
  moreover have "uint (- v) = - sint v"
  proof -
    have "uint (- v) = (- sint v + (- 1) * 2 ^ 64) mod 2 ^ 64"
      using u by (simp add: uint_word_ariths)
    also have "\<dots> = - sint v mod 2 ^ 64"
      by (simp only: mod_mult_self1)
    also have "\<dots> = - sint v"
      using assms \<open>- (2 ^ 63) \<le> sint v\<close> by (intro mod_pos_pos_trivial) auto
    finally show ?thesis .
  qed
  ultimately show ?thesis
    by simp
qed

text \<open>\<open>i64toa\<close> with a buffer of at least 66 bytes always succeeds, the smallest number
  included, and the text it leaves reads back as the signed value.\<close>

theorem i64toa_roundtrip:
  assumes "buf \<noteq> 0" and "buf + 1 \<noteq> 0" and "66 \<le> len" and "2 \<le> base" and "base \<le> 36"
  shows "\<exists>m' cs. i64toa v base buf len m = Some (True, m') \<and> cstring m' buf cs \<and> read_int (unat base) cs = sint v"
proof -
  have b: "2 \<le> unat base" "unat base \<le> 36" and len: "66 \<le> unat len"
    using assms(3-5) by (simp_all add: word_le_nat_alt)
  have small: "\<not> (buf = 0 \<or> len < 2 \<or> base < 2 \<or> base > 36)"
    using assms by (auto simp: word_less_nat_alt word_le_nat_alt)
  have l1: "unat (len - 1) = unat len - 1"
    using len unat_minus_one [of len] by (cases "len = 0") auto
  have run: "\<exists>m' cs. u64toa w base p l m = Some (True, m') \<and> cstring m' p cs \<and> cs = num_text (unat base) (unat w) \<and>
      (\<forall>a. a \<notin> region p (unat l) \<longrightarrow> m' a = m a)" if "p \<noteq> 0" "65 \<le> unat l" for p l m w
    using u64toa_text [OF that(1) _ assms(4,5), of l w m] num_text_u64 [OF b(1), of w] that(2)
    by (auto simp: word_le_nat_alt)
  have u: "int (unat v) = sint v" if "\<not> sint v < 0"
  proof -
    have "sint v < 2 ^ 63"
      using sint_range_size [of v] by (simp add: word_size)
    then have "take_bit 64 (sint v) = sint v"
      using that by (intro take_bit_int_eq_self) auto
    then show ?thesis
      by (simp add: uint_sint)
  qed
  consider "v = 0" | "sint v < 0" "v \<noteq> 0" | "\<not> sint v < 0" "v \<noteq> 0"
    by blast
  then show ?thesis
  proof cases
    case 1
    then show ?thesis
      using small by (auto simp: i64toa_def read_int_def read_num_def digit_value_def isdigit_def
          intro!: exI [of _ "[48]"])
  next
    case 2
    let ?w = "- (v + 1) + 1"
    have "65 \<le> unat (len - 1)"
      using l1 len by simp
    from run [OF assms(2) this, of ?w "m(buf := 45)"] obtain m' cs where r: "u64toa ?w base (buf + 1) (len - 1) (m(buf := 45)) = Some (True, m')" "cstring m' (buf + 1) cs"
        "cs = num_text (unat base) (unat ?w)" "\<And>a. a \<notin> region (buf + 1) (unat (len - 1)) \<Longrightarrow> m' a = (m(buf := 45)) a"
      by blast
    have "m' buf = 45"
      using r(4) [of buf] start_notin_region [of "unat (len - 1)" buf] unat_u64_bound [of "len - 1"] by simp
    then have "cstring m' buf (45 # cs)"
      using r(2) by simp
    moreover have "read_int (unat base) (45 # cs) = sint v"
      using sint_neg_mag [OF 2(1)] by (simp add: read_int_def r(3) read_num_text [OF b])
    ultimately show ?thesis
      using small 2 r(1) by (intro exI [of _ m'] exI [of _ "45 # cs"]) (simp add: i64toa_def)
  next
    case 3
    then show ?thesis
      using run [OF assms(1), of len v m] small len u read_int_text [OF b, of "unat v"] by (auto simp: i64toa_def)
  qed
qed

theorem i64toa_roundtrip_witness:
  "\<exists>m' cs. i64toa (- 0x8000000000000000) 16 0x1000 128 (\<lambda>_. 0) = Some (True, m') \<and> cstring m' 0x1000 cs \<and>
    read_int 16 cs = - 0x8000000000000000"
  using i64toa_roundtrip [of "0x1000" 128 16 "- 0x8000000000000000" "\<lambda>_. 0"] by auto

section \<open>Bounds and bits\<close>

lemma hash32_bound:
  assumes "bits \<le> 32"
  shows "unat (hash32 val bits) < 2 ^ bits"
proof -
  let ?h = "ucast (ucast val * GOLDEN_RATIO_PRIME_32) :: u32"
  have "unat ?h < 2 ^ (32 - bits) * 2 ^ bits"
    using unat_u32_bound [of ?h] assms by (simp flip: power_add)
  then have "unat ?h div 2 ^ (32 - bits) < 2 ^ bits"
    by (simp add: less_mult_imp_div_less mult.commute)
  then show ?thesis
    unfolding hash32_def Let_def unsigned_drop_bit_eq
    using take_bit_nat_eq_self [OF unat_u32_bound [of ?h]] by (simp add: drop_bit_eq_div)
qed

text \<open>\<open>rand\<close> returns a number that is not negative and at most \<open>RAND_MAX\<close>, and keeps its seed
  below \<open>2 ^ 48\<close>.\<close>

theorem rand_bounds:
  "0 \<le> sint (fst (rand seed)) \<and> sint (fst (rand seed)) \<le> int (unat RAND_MAX) \<and> unat (snd (rand seed)) < 2 ^ 48"
proof -
  let ?seed = "(seed * 0x5DEECE66D + 0xB) AND (push_bit 48 1 - 1)" and ?r = "drop_bit 12 (snd (rand seed)) mod (RAND_MAX + 1)"
  have "push_bit 48 1 - 1 = (mask 48 :: u64)"
    by (simp add: mask_eq_exp_minus_1 push_bit_of_1)
  then have "?seed = take_bit 48 (seed * 0x5DEECE66D + 0xB)"
    by (simp only: take_bit_eq_mask)
  then have s: "unat (snd (rand seed)) < 2 ^ 48"
    using take_bit_nat_less_exp [of 48 "unat (seed * 0x5DEECE66D + 0xB)"]
    by (simp add: rand_def Let_def unsigned_take_bit_eq)
  have "unat ?r < 2 ^ 31"
    by (simp add: unat_mod RAND_MAX_def)
  moreover from this have "unat (ucast ?r :: u32) = unat ?r"
    by (intro unat_ucast_u64_u32) simp
  moreover have "fst (rand seed) = ucast ?r"
    by (simp add: rand_def Let_def)
  ultimately have f: "unat (fst (rand seed)) < 2 ^ 31"
    by simp
  let ?x = "fst (rand seed)"
  have "uint ?x = int (unat ?x)"
    by simp
  also have "\<dots> < 2 ^ 31"
    using f by (simp only: of_nat_less_numeral_power_cancel_iff)
  finally have u: "uint ?x < 2 ^ 31" .
  moreover have "- (2 ^ 31) \<le> uint ?x"
    by (rule order_trans [of _ 0]) simp_all
  ultimately have "signed_take_bit 31 (uint ?x) = uint ?x"
    by (intro signed_take_bit_int_eq_self)
  then have "sint ?x = uint ?x"
    by (simp add: sint_uint)
  with u s show ?thesis
    by (simp add: RAND_MAX_def)
qed

lemma bit_bit_mask: "bit (bit_mask offset) n \<longleftrightarrow> n = unat (offset mod 64)"
proof -
  have "unat (offset mod 64) < 64"
    by (simp add: unat_mod)
  then show ?thesis
    unfolding bit_mask_def by (simp only: push_bit_of_1 bit_exp_iff) auto
qed

lemma and_bit_mask: "w AND bit_mask offset \<noteq> 0 \<longleftrightarrow> bit w (unat (offset mod 64))"
proof -
  have "unat (offset mod 64) < 64"
    by (simp add: unat_mod)
  moreover have "w AND bit_mask offset = 0 \<longleftrightarrow> (\<forall>n < 64. \<not> bit (w AND bit_mask offset) n)"
    by (auto intro: bit_word_eqI)
  ultimately show ?thesis
    by (auto simp: bit_and_iff bit_bit_mask)
qed

text \<open>The bit operations report the old bit and set, clear or toggle exactly that bit of the
  array of words.\<close>

theorem bit_operations:
  "fst (set_bit_at i b) = bit (b (i div 64)) (unat (i mod 64)) \<and>
   fst (clear_bit_at i b) = bit (b (i div 64)) (unat (i mod 64)) \<and>
   fst (change_bit_at i b) = bit (b (i div 64)) (unat (i mod 64)) \<and>
   bit (snd (set_bit_at i b) k) n = (k = i div 64 \<and> n = unat (i mod 64) \<or> bit (b k) n) \<and>
   bit (snd (clear_bit_at i b) k) n = (bit (b k) n \<and> \<not> (k = i div 64 \<and> n = unat (i mod 64))) \<and>
   bit (snd (change_bit_at i b) k) n = ((k = i div 64 \<and> n = unat (i mod 64)) \<noteq> bit (b k) n)"
proof -
  have "n < 64" if "bit w n" for w :: u64
    using bit_imp_le_length [OF that] by simp
  then have "bit (NOT (bit_mask i) AND w) n = (bit w n \<and> n \<noteq> unat (i mod 64))" for w
    by (auto simp: bit_and_iff bit_not_iff bit_bit_mask)
  then show ?thesis
    by (auto simp: set_bit_at_def clear_bit_at_def change_bit_at_def Let_def and_bit_mask bit_or_iff bit_xor_iff bit_bit_mask)
qed

end
