(* ===== verification/Kstdio.thy ===== *)
theory Kstdio
  imports Knumber
begin

text \<open>
  Console input and output, \<open>kernel/lib/stdio.c\<close>. The firmware console behind \<open>sbi.c\<close> is the
  sequence of characters written so far and the sequence of results that the coming calls of
  \<open>sbi_console_getchar\<close> will give; a read that waits for ever is \<open>None\<close>. Buffers on the stack are
  addresses passed to the routine that owns them.
\<close>

section \<open>Operations\<close>

record con =
  con_mem :: bytes
  con_out :: "u8 list"
  con_in :: "u8 list"

definition putch :: "u8 \<Rightarrow> con \<Rightarrow> con" where
  "putch c s = s\<lparr>con_out := con_out s @ [c]\<rparr>"

partial_function (option) putstr :: "u64 \<Rightarrow> con \<Rightarrow> con option" where
  "putstr str s = (if con_mem s str \<noteq> 0 then putstr (str + 1) (putch (con_mem s str) s) else Some s)"

text \<open>\<open>putstr\<close> of a string literal.\<close>

definition putlit :: "string \<Rightarrow> con \<Rightarrow> con" where
  "putlit cs s = fold (\<lambda>c. putch (of_nat (of_char c))) cs s"

definition put_u64 :: "u64 \<Rightarrow> u64 \<Rightarrow> u8 \<Rightarrow> con \<Rightarrow> con option" where
  "put_u64 buf v base s =
     (case u64toa v base buf 128 (con_mem s) of
        None \<Rightarrow> None
      | Some (ok, m) \<Rightarrow>
          let s1 = s\<lparr>con_mem := m\<rparr> in if ok then putstr buf s1 else Some (putlit ''u64toa error\<newline>'' s1))"

definition put_i64 :: "u64 \<Rightarrow> u64 \<Rightarrow> u8 \<Rightarrow> con \<Rightarrow> con option" where
  "put_i64 buf v base s =
     (case i64toa v base buf 128 (con_mem s) of
        None \<Rightarrow> None
      | Some (ok, m) \<Rightarrow>
          let s1 = s\<lparr>con_mem := m\<rparr> in if ok then putstr buf s1 else Some (putlit ''i64toa error\<newline>'' s1))"

fun getch_loop :: "u8 list \<Rightarrow> (u8 \<times> u8 list) option" where
  "getch_loop [] = None"
| "getch_loop (c # cs) = (if c > 127 then getch_loop cs else Some (c, cs))"

definition getch :: "con \<Rightarrow> (u8 \<times> con) option" where
  "getch s = (case getch_loop (con_in s) of None \<Rightarrow> None | Some (c, cs) \<Rightarrow> Some (c, s\<lparr>con_in := cs\<rparr>))"

partial_function (option) getstr_loop :: "u64 \<Rightarrow> u32 \<Rightarrow> con \<Rightarrow> (u32 \<times> con) option" where
  "getstr_loop str sp s =
     (case getch s of
        None \<Rightarrow> None
      | Some (ch, s1) \<Rightarrow>
          if ch = 0 then Some (sp, s1)
          else let s2 = putch ch s1 in
            if ch = 8 \<and> sp > 0 then getstr_loop str (sp - 1) s2
            else if ch = 10 \<or> ch = 13 then Some (sp, s2)
            else getstr_loop str (sp + 1) (s2\<lparr>con_mem := (con_mem s2)(str + ucast sp := ch)\<rparr>))"

definition getstr :: "u64 \<Rightarrow> con \<Rightarrow> con option" where
  "getstr str s =
     (case getstr_loop str 0 s of
        None \<Rightarrow> None
      | Some (sp, s1) \<Rightarrow> Some (s1\<lparr>con_mem := (con_mem s1)(str + ucast sp := 0)\<rparr>))"

section \<open>Output\<close>

lemma putstr_ok: "cstring (con_mem s) str cs \<Longrightarrow> putstr str s = Some (s\<lparr>con_out := con_out s @ cs\<rparr>)"
proof (induction cs arbitrary: str s)
  case (Cons c cs)
  have "cstring (con_mem (putch c s)) (str + 1) cs" "con_mem s str = c" "c \<noteq> 0"
    using Cons.prems by (simp_all add: putch_def)
  with Cons.IH [OF this(1)] show ?case
    by (subst putstr.simps) (simp add: putch_def)
qed (simp add: putstr.simps)

lemma u64toa_128:
  assumes "buf \<noteq> 0" "2 \<le> base" "base \<le> 36"
  shows "\<exists>m'. u64toa v base buf 128 m = Some (True, m') \<and> cstring m' buf (num_text (unat base) (unat v))"
proof -
  have b: "2 \<le> unat base"
    using assms(2) by (simp add: word_le_nat_alt)
  show ?thesis
    using u64toa_text [OF assms(1) _ assms(2,3), of 128 v m] num_text_u64 [OF b, of v] by auto
qed

text \<open>\<open>put_u64\<close> prints the text of the number in the given base, for every number.\<close>

theorem put_u64_prints:
  assumes "buf \<noteq> 0" and "2 \<le> base" and "base \<le> 36"
  shows "\<exists>s'. put_u64 buf v base s = Some s' \<and> con_out s' = con_out s @ num_text (unat base) (unat v) \<and>
    con_in s' = con_in s"
proof -
  obtain m where m: "u64toa v base buf 128 (con_mem s) = Some (True, m)" "cstring m buf (num_text (unat base) (unat v))"
    using u64toa_128 [OF assms] by blast
  then have "cstring (con_mem (s\<lparr>con_mem := m\<rparr>)) buf (num_text (unat base) (unat v))"
    by simp
  from putstr_ok [OF this] m(1) show ?thesis
    by (simp add: put_u64_def)
qed

theorem put_u64_prints_witness:
  "\<exists>s'. put_u64 0x1000 255 16 \<lparr>con_mem = (\<lambda>_. 0), con_out = [], con_in = []\<rparr> = Some s' \<and> con_out s' = [70, 70]"
proof -
  have "num_text 16 255 = [70, 70]"
    by (simp add: num_text_def digits.simps u8toc_def)
  then show ?thesis
    using put_u64_prints [of "0x1000" 16 255 "\<lparr>con_mem = (\<lambda>_. 0), con_out = [], con_in = []\<rparr>"] by auto
qed

section \<open>Input\<close>

text \<open>The editing of a line: a backspace takes back the last character, or stands for itself at the
  start of the line.\<close>

fun edit_line :: "u8 list \<Rightarrow> u8 list \<Rightarrow> u8 list" where
  "edit_line line [] = line"
| "edit_line line (c # cs) = edit_line (if c = 8 \<and> line \<noteq> [] then butlast line else line @ [c]) cs"

definition typed :: "u8 list \<Rightarrow> bool" where
  "typed cs \<longleftrightarrow> (\<forall>c\<in>set cs. c \<noteq> 0 \<and> c \<noteq> 10 \<and> c \<noteq> 13 \<and> c \<le> 127)"

text \<open>The bytes of a line stand in memory without the final zero.\<close>

definition holds_at :: "bytes \<Rightarrow> u64 \<Rightarrow> u8 list \<Rightarrow> bool" where
  "holds_at m a cs \<longleftrightarrow> (\<forall>i < length cs. m (a + of_nat i) = cs ! i)"

lemma holds_at_butlast: "holds_at m a cs \<Longrightarrow> holds_at m a (butlast cs)"
  by (auto simp: holds_at_def nth_butlast)

lemma holds_at_snoc:
  assumes "holds_at m a cs" "length cs < 2 ^ 32"
  shows "holds_at (m(a + of_nat (length cs) := c)) a (cs @ [c])"
proof -
  have "a + of_nat i \<noteq> a + of_nat (length cs)" if "i < length cs" for i
  proof
    assume "a + of_nat i = a + (of_nat (length cs) :: u64)"
    then have "unat (of_nat i :: u64) = unat (of_nat (length cs) :: u64)"
      by simp
    with that assms(2) show False
      by (simp add: unat_of_nat_u64)
  qed
  then show ?thesis
    using assms(1) by (auto simp: holds_at_def nth_append less_Suc_eq)
qed

lemma getstr_loop_ok:
  assumes "typed cs" "length line + length cs < 2 ^ 32" "holds_at (con_mem s) str line" "0 \<notin> set line"
    "con_in s = cs @ 13 # rest" "n = length line"
  shows "\<exists>s'. getstr_loop str (of_nat n) s = Some (of_nat (length (edit_line line cs)), s') \<and>
    holds_at (con_mem s') str (edit_line line cs) \<and> 0 \<notin> set (edit_line line cs) \<and>
    length (edit_line line cs) < 2 ^ 32 \<and> con_in s' = rest \<and> con_out s' = con_out s @ cs @ [13]"
  using assms
proof (induction cs arbitrary: line s n)
  case Nil
  then show ?case
    by (subst getstr_loop.simps) (simp add: getch_def putch_def)
next
  case (Cons c cs)
  have c: "c \<noteq> 0" "c \<noteq> 10" "c \<noteq> 13" "\<not> c > 127" "typed cs"
    using Cons.prems(1) by (auto simp: typed_def)
  have g: "getch s = Some (c, s\<lparr>con_in := cs @ 13 # rest\<rparr>)"
    using Cons.prems(5) c(4) by (simp add: getch_def)
  have n: "(of_nat n :: u32) > 0 \<longleftrightarrow> line \<noteq> []"
    using Cons.prems(2,6) by (auto simp: word_less_nat_alt unat_of_nat_u32)
  let ?s = "putch c (s\<lparr>con_in := cs @ 13 # rest\<rparr>)"
  show ?case
  proof (cases "c = 8 \<and> line \<noteq> []")
    case True
    have w: "of_nat n - 1 = (of_nat (n - 1) :: u32)"
      using True Cons.prems(6) by (simp add: of_nat_diff Suc_le_eq)
    have "\<exists>s'. getstr_loop str (of_nat (n - 1)) ?s = Some (of_nat (length (edit_line (butlast line) cs)), s') \<and>
      holds_at (con_mem s') str (edit_line (butlast line) cs) \<and> 0 \<notin> set (edit_line (butlast line) cs) \<and>
      length (edit_line (butlast line) cs) < 2 ^ 32 \<and> con_in s' = rest \<and> con_out s' = con_out ?s @ cs @ [13]"
      by (rule Cons.IH) (use c Cons.prems in \<open>auto simp: putch_def holds_at_butlast dest: in_set_butlastD\<close>)
    then show ?thesis
      using True g c n w by (subst getstr_loop.simps) (simp add: putch_def)
  next
    case False
    let ?t = "?s\<lparr>con_mem := (con_mem ?s)(str + ucast (of_nat n :: u32) := c)\<rparr>"
    have w: "of_nat n + 1 = (of_nat (Suc n) :: u32)" "(ucast (of_nat n :: u32) :: u64) = of_nat n"
      using Cons.prems(2,6) by (simp, simp add: word_unat_eq_iff unat_of_nat_u32 unat_of_nat_u64)
    have h: "holds_at (con_mem ?t) str (line @ [c])"
      using holds_at_snoc [OF Cons.prems(3), of c] Cons.prems(2,6) w by (simp add: putch_def)
    have "\<exists>s'. getstr_loop str (of_nat (Suc n)) ?t = Some (of_nat (length (edit_line (line @ [c]) cs)), s') \<and>
      holds_at (con_mem s') str (edit_line (line @ [c]) cs) \<and> 0 \<notin> set (edit_line (line @ [c]) cs) \<and>
      length (edit_line (line @ [c]) cs) < 2 ^ 32 \<and> con_in s' = rest \<and> con_out s' = con_out ?t @ cs @ [13]"
      by (rule Cons.IH [OF c(5) _ h]) (use c Cons.prems in \<open>auto simp: putch_def\<close>)
    then show ?thesis
      using False g c n w by (subst getstr_loop.simps) (auto simp: putch_def add.commute [of _ 1])
  qed
qed

text \<open>\<open>getstr\<close> echoes the typed line and leaves the edited line as a string, whatever the mixture
  of characters and backspaces.\<close>

theorem getstr_reads_line:
  assumes "typed cs" and "length cs < 2 ^ 32" and "con_in s = cs @ 13 # rest"
  shows "\<exists>s'. getstr str s = Some s' \<and> cstring (con_mem s') str (edit_line [] cs) \<and> con_in s' = rest \<and>
    con_out s' = con_out s @ cs @ [13]"
proof -
  let ?l = "edit_line [] cs"
  obtain s1 where s1: "getstr_loop str 0 s = Some (of_nat (length ?l), s1)" "holds_at (con_mem s1) str ?l"
      "0 \<notin> set ?l" "length ?l < 2 ^ 32" "con_in s1 = rest" "con_out s1 = con_out s @ cs @ [13]"
    using getstr_loop_ok [OF assms(1) _ _ _ assms(3), of "[]" str 0] assms(2) by (auto simp: holds_at_def)
  have w: "(ucast (of_nat (length ?l) :: u32) :: u64) = of_nat (length ?l)"
    using s1(4) by (simp add: word_unat_eq_iff unat_of_nat_u32 unat_of_nat_u64)
  have "holds_at ((con_mem s1)(str + of_nat (length ?l) := 0)) str (?l @ [0])"
    by (rule holds_at_snoc [OF s1(2,4)])
  then have "cstring ((con_mem s1)(str + of_nat (length ?l) := 0)) str ?l"
    using s1(3) by (auto simp: cstring_nth holds_at_def nth_append)
  then show ?thesis
    using s1 w by (simp add: getstr_def)
qed

theorem getstr_reads_line_witness:
  "\<exists>s'. getstr 0x1000 \<lparr>con_mem = (\<lambda>_. 0), con_out = [], con_in = [97, 98, 8, 99, 13]\<rparr> = Some s' \<and>
    cstring (con_mem s') 0x1000 [97, 99]"
  using getstr_reads_line [of "[97, 98, 8, 99]" "\<lparr>con_mem = (\<lambda>_. 0), con_out = [], con_in = [97, 98, 8, 99, 13]\<rparr>" "[]" "0x1000"]
  by (auto simp: typed_def)

end
