(* ===== verification/Proc_Table.thy ===== *)
theory Proc_Table
  imports Vmm Kstdio
begin

text \<open>
  The process table of \<open>kernel/proc/proc.c\<close>: the list of all processes, the hash lists, the family
  links \<open>parent\<close>, \<open>child\<close>, \<open>younger\<close> and \<open>older\<close>, and the allocation of process numbers.
  \<open>kids s p xs\<close> says that the children of \<open>p\<close> are \<open>xs\<close>, the youngest first; \<open>pid_inv\<close> is the
  invariant behind \<open>alloc_pid\<close>.
\<close>

unbundle bit_operations_syntax

section \<open>State\<close>

text \<open>
  \<open>tfs\<close> holds the trap frames by address, \<open>kout\<close> what the console has shown, \<open>sym\<close> the addresses
  the linker gives to code and data of the image; \<open>next_pid\<close> and \<open>prev_pid\<close> are the static
  variables of \<open>alloc_pid\<close>.
\<close>

record ksched = ssched +
  init_proc_ptr :: "pcb_ptr option"
  num_proc :: u32
  proc_links :: "(unit, pcb_ptr) lnode links"
  hash_links :: "(u32, pcb_ptr) lnode links"
  run_links :: "(unit, pcb_ptr) lnode links"
  next_pid :: int
  prev_pid :: int
  tfs :: "u64 \<Rightarrow> trapframe"
  g_bpt :: u64
  g_ticks :: u64
  sym :: "string \<Rightarrow> u64"
  kout :: "u8 list"

abbreviation proc_head :: "(unit, pcb_ptr) lnode" where
  "proc_head \<equiv> LHead ()"

text \<open>Console output inside the kernel, as \<open>putstr\<close>, \<open>put_u64\<close> and \<open>put_i64\<close> print it.\<close>

definition kput :: "u8 list \<Rightarrow> 'z ksched_scheme \<Rightarrow> 'z ksched_scheme" where
  "kput cs s = s\<lparr>kout := kout s @ cs\<rparr>"

definition lit :: "string \<Rightarrow> u8 list" where
  "lit cs = map (\<lambda>c. of_nat (of_char c)) cs"

definition int_text :: "nat \<Rightarrow> int \<Rightarrow> u8 list" where
  "int_text b v = (if v < 0 then 45 # num_text b (nat (- v)) else num_text b (nat v))"

section \<open>Links\<close>

definition HASH_SHIFT :: nat where [const_defs]: "HASH_SHIFT = 10"
definition HASH_LIST_SIZE :: nat where [const_defs]: "HASH_LIST_SIZE = 2 ^ 10"

definition pid_hash :: "int \<Rightarrow> u32" where
  "pid_hash pid = hash32 (word_of_int pid) HASH_SHIFT"

definition set_links :: "pcb_ptr \<Rightarrow> 'z ksched_scheme \<Rightarrow> 'z ksched_scheme exec" where
  "set_links p s =
     (let s1 = s\<lparr>proc_links := add_list proc_head (nxt (proc_links s) proc_head) (LNode p) (proc_links s)\<rparr>;
          s2 = upd_proc p (\<lambda>q. q\<lparr>p_younger := None\<rparr>) s1 in
      case p_parent (procs s2 p) of
        None \<Rightarrow> null_deref
      | Some par \<Rightarrow>
          let s3 = upd_proc p (\<lambda>q. q\<lparr>p_older := p_child (procs s2 par)\<rparr>) s2;
              s4 = (case p_older (procs s3 p) of
                      None \<Rightarrow> s3
                    | Some old \<Rightarrow> upd_proc old (\<lambda>q. q\<lparr>p_younger := Some p\<rparr>) s3);
              s5 = upd_proc par (\<lambda>q. q\<lparr>p_child := Some p\<rparr>) s4
          in ret (s5\<lparr>num_proc := num_proc s5 + 1\<rparr>))"

definition remove_links :: "pcb_ptr \<Rightarrow> 'z ksched_scheme \<Rightarrow> 'z ksched_scheme exec" where
  "remove_links p s =
     (let s1 = s\<lparr>proc_links := del_list (LNode p) (proc_links s)\<rparr>;
          s2 = (case p_older (procs s1 p) of
                  None \<Rightarrow> s1
                | Some old \<Rightarrow> upd_proc old (\<lambda>q. q\<lparr>p_younger := p_younger (procs s1 p)\<rparr>) s1) in
      bind_exec
        (case p_younger (procs s2 p) of
           Some yng \<Rightarrow> ret (upd_proc yng (\<lambda>q. q\<lparr>p_older := p_older (procs s2 p)\<rparr>) s2)
         | None \<Rightarrow>
             (case p_parent (procs s2 p) of
                None \<Rightarrow> null_deref
              | Some par \<Rightarrow> ret (upd_proc par (\<lambda>q. q\<lparr>p_child := p_older (procs s2 p)\<rparr>) s2)))
        (\<lambda>s3. ret (s3\<lparr>num_proc := num_proc s3 - 1\<rparr>)))"

definition hash_proc :: "pcb_ptr \<Rightarrow> 'z ksched_scheme \<Rightarrow> 'z ksched_scheme" where
  "hash_proc p s =
     (let h = LHead (pid_hash (p_pid (procs s p)))
      in s\<lparr>hash_links := add_list h (nxt (hash_links s) h) (LNode p) (hash_links s)\<rparr>)"

definition unhash_proc :: "pcb_ptr \<Rightarrow> 'z ksched_scheme \<Rightarrow> 'z ksched_scheme" where
  "unhash_proc p s = s\<lparr>hash_links := del_list (LNode p) (hash_links s)\<rparr>"

section \<open>Process numbers\<close>

text \<open>The scan of the process list in \<open>alloc_pid\<close>; \<open>continue\<close> restarts it at the head.\<close>

partial_function (option) alloc_pid_loop :: "(unit, pcb_ptr) lnode \<Rightarrow> int \<Rightarrow> int \<Rightarrow> 'z ksched_scheme \<Rightarrow> (int \<times> int) option" where
  "alloc_pid_loop list prev nextp s =
     (case nxt (proc_links s) list of
        LHead _ \<Rightarrow> Some (prev, nextp)
      | LNode p \<Rightarrow>
          let pid = p_pid (procs s p) in
          if pid = prev then
            (if prev + 1 \<ge> nextp
             then alloc_pid_loop proc_head (if prev + 1 \<ge> MAX_PID then 1 else prev + 1) MAX_PID s
             else alloc_pid_loop (LNode p) (prev + 1) nextp s)
          else if prev < pid \<and> pid < nextp then alloc_pid_loop (LNode p) prev pid s
          else alloc_pid_loop (LNode p) prev nextp s)"

definition alloc_pid :: "'z ksched_scheme \<Rightarrow> (int \<times> 'z ksched_scheme) exec" where
  "alloc_pid s =
     (let prev = (if prev_pid s + 1 \<ge> MAX_PID then 1 else prev_pid s + 1) in
      if prev \<ge> next_pid s \<or> prev = 1 then
        (case alloc_pid_loop proc_head prev MAX_PID s of
           None \<Rightarrow> None
         | Some (prev', next') \<Rightarrow> ret (prev', s\<lparr>prev_pid := prev', next_pid := next'\<rparr>))
      else ret (prev, s\<lparr>prev_pid := prev\<rparr>))"

partial_function (option) get_proc_loop :: "int \<Rightarrow> (unit, pcb_ptr) lnode \<Rightarrow> 'z ksched_scheme \<Rightarrow> pcb_ptr option option" where
  "get_proc_loop pid list s =
     (case nxt (proc_links s) list of
        LHead _ \<Rightarrow> Some None
      | LNode p \<Rightarrow> if p_pid (procs s p) = pid then Some (Some p) else get_proc_loop pid (LNode p) s)"

definition get_proc :: "int \<Rightarrow> 'z ksched_scheme \<Rightarrow> pcb_ptr option exec" where
  "get_proc pid s =
     (if pid > 0 \<and> pid < MAX_PID then
        (case get_proc_loop pid proc_head s of None \<Rightarrow> None | Some r \<Rightarrow> ret r)
      else ret None)"

section \<open>The allocation of a process number\<close>

text \<open>The processes in list order, and the numbers in use.\<close>

definition proc_rep :: "'z ksched_scheme \<Rightarrow> pcb_ptr list \<Rightarrow> bool" where
  "proc_rep s ps \<longleftrightarrow> dlist (proc_links s) proc_head (map LNode ps)"

definition pids :: "'z ksched_scheme \<Rightarrow> pcb_ptr list \<Rightarrow> int set" where
  "pids s ps = (\<lambda>p. p_pid (procs s p)) ` set ps"

text \<open>No number from \<open>a\<close> to \<open>b\<close> is in use.\<close>

definition pids_clear :: "'z ksched_scheme \<Rightarrow> pcb_ptr list \<Rightarrow> int \<Rightarrow> int \<Rightarrow> bool" where
  "pids_clear s ps a b \<longleftrightarrow> {a..<b} \<inter> pids s ps = {}"

lemma proc_rep_nxt: "proc_rep s (us @ ws) \<Longrightarrow>
    nxt (proc_links s) (last (proc_head # map LNode us)) = hd (map LNode ws @ [proc_head])"
  using dlist_nxt_last [of "proc_links s" proc_head "map LNode us" "map LNode ws"] by (simp add: proc_rep_def)

lemma pids_clear_append: "pids_clear s (us @ ws) a b \<longleftrightarrow> pids_clear s us a b \<and> pids_clear s ws a b"
  by (auto simp: pids_clear_def pids_def)

lemma pids_clear_one: "pids_clear s [p] a b \<longleftrightarrow> p_pid (procs s p) < a \<or> b \<le> p_pid (procs s p)"
  by (auto simp: pids_clear_def pids_def)

lemma pids_clear_mono: "pids_clear s ps a b \<Longrightarrow> a \<le> c \<Longrightarrow> d \<le> b \<Longrightarrow> pids_clear s ps c d"
  by (auto simp: pids_clear_def) (metis atLeastLessThan_iff disjoint_iff order.strict_trans2 order_trans)

lemma pids_clear_Nil [simp]: "pids_clear s [] a b"
  by (simp add: pids_clear_def pids_def)

text \<open>How far the candidate still is from a free number \<open>f\<close>: it only moves on from numbers in use, so
  it never passes \<open>f\<close>, and it wraps around at most once.\<close>

definition pid_dist :: "int \<Rightarrow> int \<Rightarrow> nat" where
  "pid_dist f prev = nat (if prev \<le> f then f - prev else MAX_PID - prev + f)"

definition pid_found :: "'z ksched_scheme \<Rightarrow> pcb_ptr list \<Rightarrow> (int \<times> int) option \<Rightarrow> bool" where
  "pid_found s ps r \<longleftrightarrow> (\<exists>prev nextp. r = Some (prev, nextp) \<and> 1 \<le> prev \<and> prev < nextp \<and>
     nextp \<le> MAX_PID \<and> pids_clear s ps prev nextp)"

lemma alloc_pid_loop_node:
  assumes "nxt (proc_links s) l = LNode p"
  shows "alloc_pid_loop l prev nextp s =
    (if p_pid (procs s p) = prev then
       (if prev + 1 \<ge> nextp
        then alloc_pid_loop proc_head (if prev + 1 \<ge> MAX_PID then 1 else prev + 1) MAX_PID s
        else alloc_pid_loop (LNode p) (prev + 1) nextp s)
     else alloc_pid_loop (LNode p) prev
       (if prev < p_pid (procs s p) \<and> p_pid (procs s p) < nextp then p_pid (procs s p) else nextp) s)"
  by (subst alloc_pid_loop.simps) (auto simp: assms Let_def)

lemma alloc_pid_loop_ok:
  assumes "proc_rep s (us @ ws)" and f: "1 \<le> f" "f < MAX_PID" "f \<notin> pids s (us @ ws)"
    and "1 \<le> prev" "prev < nextp" "nextp \<le> MAX_PID" "pids_clear s us prev nextp"
  shows "pid_found s (us @ ws) (alloc_pid_loop (last (proc_head # map LNode us)) prev nextp s)"
  using assms
proof (induction "pid_dist f prev" arbitrary: us ws prev nextp rule: less_induct)
  case outer: less
  from outer.prems show ?case
  proof (induction ws arbitrary: us nextp)
    case Nil
    then show ?case
      using proc_rep_nxt [of s us "[]"] by (subst alloc_pid_loop.simps) (simp add: pid_found_def)
  next
    case (Cons p ws)
    let ?pid = "p_pid (procs s p)" and ?l = "last (proc_head # map LNode us)"
    have n: "nxt (proc_links s) ?l = LNode p"
      using proc_rep_nxt [OF Cons.prems(1)] by simp
    have l: "last (proc_head # map LNode (us @ [p])) = LNode p" and a: "us @ p # ws = (us @ [p]) @ ws"
      by simp_all
    have taken: "?pid \<noteq> f"
      using Cons.prems(4) by (auto simp: pids_def)
    consider (restart) "?pid = prev" "prev + 1 \<ge> nextp" | (skip) "?pid = prev" "prev + 1 < nextp"
      | (lower) "prev < ?pid" "?pid < nextp" | (other) "?pid < prev \<or> nextp \<le> ?pid"
      by linarith
    then show ?case
    proof cases
      case restart
      let ?q = "if prev + 1 \<ge> MAX_PID then 1 else prev + 1"
      have "pid_dist f ?q < pid_dist f prev" "1 \<le> ?q" "?q < MAX_PID"
        using restart taken Cons.prems(2,3,5-7) by (auto simp: pid_dist_def MAX_PID_def MAX_PROCESS_def)
      then have "pid_found s (us @ p # ws) (alloc_pid_loop proc_head ?q MAX_PID s)"
        using outer.hyps [of ?q "[]" "us @ p # ws" MAX_PID] Cons.prems(1-4) by simp
      moreover have "alloc_pid_loop ?l prev nextp s = alloc_pid_loop proc_head ?q MAX_PID s"
        using restart alloc_pid_loop_node [OF n] by simp
      ultimately show ?thesis
        by simp
    next
      case skip
      have "pid_dist f (prev + 1) < pid_dist f prev"
        using skip taken Cons.prems(2,3,5-7) by (auto simp: pid_dist_def)
      moreover have "pids_clear s (us @ [p]) (prev + 1) nextp"
        using skip Cons.prems(8) by (auto simp: pids_clear_append pids_clear_one elim: pids_clear_mono)
      ultimately have "pid_found s (us @ p # ws) (alloc_pid_loop (LNode p) (prev + 1) nextp s)"
        using outer.hyps [of "prev + 1" "us @ [p]" ws nextp] Cons.prems(1-7) skip unfolding a l by simp
      moreover have "alloc_pid_loop ?l prev nextp s = alloc_pid_loop (LNode p) (prev + 1) nextp s"
        using skip alloc_pid_loop_node [OF n] by simp
      ultimately show ?thesis
        by simp
    next
      case lower
      have "pids_clear s (us @ [p]) prev ?pid"
        using lower Cons.prems(8) by (auto simp: pids_clear_append pids_clear_one elim: pids_clear_mono)
      then have "pid_found s (us @ p # ws) (alloc_pid_loop (LNode p) prev ?pid s)"
        using Cons.IH [of "us @ [p]" ?pid] Cons.prems(1-7) lower unfolding a l by simp
      moreover have "alloc_pid_loop ?l prev nextp s = alloc_pid_loop (LNode p) prev ?pid s"
        using lower alloc_pid_loop_node [OF n, of prev nextp] by simp
      ultimately show ?thesis
        by simp
    next
      case other
      have "pids_clear s (us @ [p]) prev nextp"
        using other Cons.prems(8) by (simp add: pids_clear_append pids_clear_one)
      then have "pid_found s (us @ p # ws) (alloc_pid_loop (LNode p) prev nextp s)"
        using Cons.IH [of "us @ [p]" nextp] Cons.prems(1-7) unfolding a l by simp
      moreover have "alloc_pid_loop ?l prev nextp s = alloc_pid_loop (LNode p) prev nextp s"
        using other Cons.prems(6) alloc_pid_loop_node [OF n, of prev nextp] by auto
      ultimately show ?thesis
        by simp
    qed
  qed
qed

lemma get_proc_loop_ok:
  assumes "proc_rep s (us @ ws)"
  shows "get_proc_loop n (last (proc_head # map LNode us)) s = Some (find (\<lambda>p. p_pid (procs s p) = n) ws)"
  using assms
proof (induction ws arbitrary: us)
  case Nil
  then show ?case
    using proc_rep_nxt [of s us "[]"] by (subst get_proc_loop.simps) simp
next
  case (Cons p ws)
  then have "nxt (proc_links s) (last (proc_head # map LNode us)) = LNode p"
    using proc_rep_nxt [of s us "p # ws"] by simp
  then show ?case
    using Cons.IH [of "us @ [p]"] Cons.prems by (subst get_proc_loop.simps) simp
qed

lemma get_proc_ok:
  assumes "proc_rep s ps"
  shows "get_proc n s = ret (if 0 < n \<and> n < MAX_PID then find (\<lambda>p. p_pid (procs s p) = n) ps else None)"
  using get_proc_loop_ok [of s "[]" ps n] assms by (simp add: get_proc_def)

text \<open>The static variables between two calls: the numbers after the last one, up to \<open>next_pid\<close>, are free.\<close>

definition pid_inv :: "'z ksched_scheme \<Rightarrow> pcb_ptr list \<Rightarrow> bool" where
  "pid_inv s ps \<longleftrightarrow> 0 \<le> prev_pid s \<and> next_pid s \<le> MAX_PID \<and> pids_clear s ps (prev_pid s + 1) (next_pid s)"

lemma free_pid_exists:
  assumes "int (length ps) < MAX_PID - 1"
  shows "\<exists>f. 1 \<le> f \<and> f < MAX_PID \<and> f \<notin> pids s ps"
proof (rule ccontr)
  assume "\<not> ?thesis"
  then have "{1..<MAX_PID} \<subseteq> pids s ps"
    by auto
  then have "card {1..<MAX_PID} \<le> card (pids s ps)"
    by (intro card_mono) (simp add: pids_def)
  also have "\<dots> \<le> length ps"
    unfolding pids_def by (metis card_image_le card_length le_trans List.finite_set)
  finally show False
    using assms by (simp add: MAX_PID_def MAX_PROCESS_def)
qed

lemma alloc_pid_ok:
  assumes rep: "proc_rep s ps" and inv: "pid_inv s ps" and room: "int (length ps) < MAX_PID - 1"
  shows "\<exists>pid nextp. alloc_pid s = ret (pid, s\<lparr>prev_pid := pid, next_pid := nextp\<rparr>) \<and> 1 \<le> pid \<and> pid < nextp \<and>
    nextp \<le> MAX_PID \<and> pids_clear s ps pid nextp"
proof -
  let ?prev = "if prev_pid s + 1 \<ge> MAX_PID then 1 else prev_pid s + 1"
  obtain f where f: "1 \<le> f" "f < MAX_PID" "f \<notin> pids s ps"
    using free_pid_exists [OF room] by blast
  have p: "1 \<le> ?prev" "?prev < MAX_PID"
    using inv by (auto simp: pid_inv_def MAX_PID_def MAX_PROCESS_def)
  show ?thesis
  proof (cases "?prev \<ge> next_pid s \<or> ?prev = 1")
    case True
    have "pid_found s ps (alloc_pid_loop proc_head ?prev MAX_PID s)"
      using alloc_pid_loop_ok [of s "[]" ps f ?prev MAX_PID] rep f p by simp
    then obtain pid nextp where "alloc_pid_loop proc_head ?prev MAX_PID s = Some (pid, nextp)" "1 \<le> pid"
      "pid < nextp" "nextp \<le> MAX_PID" "pids_clear s ps pid nextp"
      by (auto simp: pid_found_def)
    with True show ?thesis
      by (auto simp: alloc_pid_def Let_def)
  next
    case False
    then have q: "?prev = prev_pid s + 1" "prev_pid s + 1 < next_pid s" "1 \<le> prev_pid s + 1"
      using p by (auto split: if_splits)
    then have "alloc_pid s = ret (prev_pid s + 1, s\<lparr>prev_pid := prev_pid s + 1\<rparr>)"
      using False by (simp add: alloc_pid_def Let_def)
    also have "ret (prev_pid s + 1, s\<lparr>prev_pid := prev_pid s + 1\<rparr>) = ret (prev_pid s + 1, s\<lparr>prev_pid := prev_pid s + 1, next_pid := next_pid s\<rparr>)"
      by (rule arg_cong [where f = "\<lambda>x. ret (prev_pid s + 1, x)"]) (cases s, simp)
    finally have "alloc_pid s = ret (prev_pid s + 1, s\<lparr>prev_pid := prev_pid s + 1, next_pid := next_pid s\<rparr>)" .
    moreover have "next_pid s \<le> MAX_PID" "pids_clear s ps (prev_pid s + 1) (next_pid s)"
      using inv by (simp_all add: pid_inv_def)
    ultimately show ?thesis
      using q(2,3) by blast
  qed
qed

lemma pid_inv_register:
  assumes "pids_clear s ps pid nextp" "1 \<le> pid" "nextp \<le> MAX_PID" "p \<notin> set ps"
  shows "pid_inv (upd_proc p (\<lambda>q. q\<lparr>p_pid := pid\<rparr>) (s\<lparr>prev_pid := pid, next_pid := nextp\<rparr>)) (p # ps)"
proof -
  let ?s = "upd_proc p (\<lambda>q. q\<lparr>p_pid := pid\<rparr>) (s\<lparr>prev_pid := pid, next_pid := nextp\<rparr>)"
  have "pids ?s (p # ps) = insert pid (pids s ps)"
    using assms(4) unfolding pids_def by (auto simp: image_iff)
  then show ?thesis
    using assms pids_clear_mono [OF assms(1), of "pid + 1" nextp]
    by (simp add: pid_inv_def pids_clear_def upd_proc_def)
qed

section \<open>Families\<close>

text \<open>Siblings between a younger neighbour \<open>y\<close> and an older neighbour \<open>z\<close>, the youngest first.\<close>

definition first_of :: "pcb_ptr list \<Rightarrow> pcb_ptr option \<Rightarrow> pcb_ptr option" where
  "first_of xs z = (case xs of [] \<Rightarrow> z | x # _ \<Rightarrow> Some x)"

definition last_of :: "pcb_ptr list \<Rightarrow> pcb_ptr option \<Rightarrow> pcb_ptr option" where
  "last_of xs y = (if xs = [] then y else Some (last xs))"

lemma first_last_simps [simp]:
  "first_of [] z = z" "first_of (x # xs) z = Some x" "last_of [] y = y" "last_of (xs @ [x]) y = Some x"
  "last_of (x # xs) y = last_of xs (Some x)" "first_of (xs @ ys) z = first_of xs (first_of ys z)"
  by (simp_all add: first_of_def last_of_def split: list.splits)

fun sseg :: "(pcb_ptr \<Rightarrow> pcb) \<Rightarrow> pcb_ptr option \<Rightarrow> pcb_ptr list \<Rightarrow> pcb_ptr option \<Rightarrow> bool" where
  "sseg P y [] z = True"
| "sseg P y (x # xs) z \<longleftrightarrow> p_younger (P x) = y \<and> p_older (P x) = first_of xs z \<and> sseg P (Some x) xs z"

lemma sseg_append: "sseg P y (us @ ws) z \<longleftrightarrow> sseg P y us (first_of ws z) \<and> sseg P (last_of us y) ws z"
  by (induction us arbitrary: y) auto

lemma sseg_cong:
  "(\<And>x. x \<in> set xs \<Longrightarrow> p_younger (P' x) = p_younger (P x) \<and> p_older (P' x) = p_older (P x)) \<Longrightarrow>
    sseg P' y xs z = sseg P y xs z"
  by (induction xs arbitrary: y) auto

lemma sseg_other [simp]: "q \<notin> set xs \<Longrightarrow> sseg (P(q := r)) y xs z = sseg P y xs z"
  by (rule sseg_cong) auto

lemma sseg_first:
  "sseg P y (x # xs) z \<Longrightarrow> x \<notin> set xs \<Longrightarrow> sseg (P(x := (P x)\<lparr>p_younger := y'\<rparr>)) y' (x # xs) z"
  by simp

lemma sseg_last:
  "sseg P y (xs @ [x]) z \<Longrightarrow> x \<notin> set xs \<Longrightarrow> sseg (P(x := (P x)\<lparr>p_older := z'\<rparr>)) y (xs @ [x]) z'"
  by (simp add: sseg_append)

text \<open>The children of a process.\<close>

definition kids :: "(pcb_ptr \<Rightarrow> pcb) \<Rightarrow> pcb_ptr \<Rightarrow> pcb_ptr list \<Rightarrow> bool" where
  "kids P par xs \<longleftrightarrow> p_child (P par) = first_of xs None \<and> distinct xs \<and> sseg P None xs None \<and>
     (\<forall>x\<in>set xs. p_parent (P x) = Some par)"

text \<open>The process table: the list of processes and the children of each of them and of \<open>idle\<close>, which
  is in no list itself.\<close>

definition family :: "'z ksched_scheme \<Rightarrow> pcb_ptr list \<Rightarrow> (pcb_ptr \<Rightarrow> pcb_ptr list) \<Rightarrow> bool" where
  "family s ps K \<longleftrightarrow> proc_rep s ps \<and> idle_proc s \<notin> set ps \<and>
     (\<forall>q\<in>insert (idle_proc s) (set ps). kids (procs s) q (K q) \<and> set (K q) \<subseteq> set ps) \<and>
     (\<forall>p\<in>set ps. \<exists>q\<in>insert (idle_proc s) (set ps). p \<in> set (K q))"

lemma familyD:
  assumes "family s ps K"
  shows "proc_rep s ps" and "idle_proc s \<notin> set ps"
    and "q \<in> insert (idle_proc s) (set ps) \<Longrightarrow> kids (procs s) q (K q)"
    and "q \<in> insert (idle_proc s) (set ps) \<Longrightarrow> set (K q) \<subseteq> set ps"
    and "p \<in> set ps \<Longrightarrow> \<exists>q\<in>insert (idle_proc s) (set ps). p \<in> set (K q)"
  using assms by (auto simp: family_def)

lemma kidsD:
  assumes "kids P par xs"
  shows "p_child (P par) = first_of xs None" "distinct xs" "sseg P None xs None" "x \<in> set xs \<Longrightarrow> p_parent (P x) = Some par"
  using assms by (auto simp: kids_def)

lemma kids_cong:
  assumes "kids P q xs" "p_child (P' q) = p_child (P q)"
    "\<And>x. x \<in> set xs \<Longrightarrow> p_younger (P' x) = p_younger (P x) \<and> p_older (P' x) = p_older (P x) \<and> p_parent (P' x) = p_parent (P x)"
  shows "kids P' q xs"
  using assms sseg_cong [of xs P' P None None] by (simp add: kids_def)

lemma set_links_sel:
  assumes "p_parent (procs s p) = Some par" "p \<noteq> par" "p_child (procs s par) \<noteq> Some p"
  shows "\<exists>s'. set_links p s = ret s' \<and> num_proc s' = num_proc s + 1 \<and> idle_proc s' = idle_proc s \<and>
    proc_links s' = add_list proc_head (nxt (proc_links s) proc_head) (LNode p) (proc_links s) \<and>
    (\<forall>q. p_child (procs s' q) = (if q = par then Some p else p_child (procs s q))) \<and>
    (\<forall>q. p_parent (procs s' q) = p_parent (procs s q)) \<and>
    (\<forall>q. p_younger (procs s' q) = (if q = p then None else if p_child (procs s par) = Some q then Some p else p_younger (procs s q))) \<and>
    (\<forall>q. p_older (procs s' q) = (if q = p then p_child (procs s par) else p_older (procs s q)))"
  using assms by (cases "p_child (procs s par)") (auto simp: set_links_def upd_proc_def Let_def)

lemma remove_links_sel:
  assumes "p_parent (procs s p) = Some par" "p_older (procs s p) \<noteq> Some p" "p_younger (procs s p) \<noteq> Some p"
    "p_older (procs s p) = None \<or> p_older (procs s p) \<noteq> p_younger (procs s p)"
  shows "\<exists>s'. remove_links p s = ret s' \<and> num_proc s' = num_proc s - 1 \<and> idle_proc s' = idle_proc s \<and>
    proc_links s' = del_list (LNode p) (proc_links s) \<and>
    (\<forall>q. p_child (procs s' q) = (if p_younger (procs s p) = None \<and> q = par then p_older (procs s p) else p_child (procs s q))) \<and>
    (\<forall>q. p_parent (procs s' q) = p_parent (procs s q)) \<and>
    (\<forall>q. p_younger (procs s' q) = (if p_older (procs s p) = Some q then p_younger (procs s p) else p_younger (procs s q))) \<and>
    (\<forall>q. p_older (procs s' q) = (if p_younger (procs s p) = Some q then p_older (procs s p) else p_older (procs s q)))"
  using assms by (cases "p_older (procs s p)"; cases "p_younger (procs s p)") (auto simp: remove_links_def upd_proc_def Let_def)

lemma kids_parent: "kids P q xs \<Longrightarrow> x \<in> set xs \<Longrightarrow> p_parent (P x) = Some par \<Longrightarrow> q = par"
  by (auto simp: kids_def)

lemma sseg_link:
  assumes "sseg P None xs None" "p \<notin> set xs" "distinct xs"
    "\<forall>q. p_younger (P' q) = (if q = p then None else if first_of xs None = Some q then Some p else p_younger (P q))"
    "\<forall>q. p_older (P' q) = (if q = p then first_of xs None else p_older (P q))"
  shows "sseg P' None (p # xs) None"
proof (cases xs)
  case (Cons x ys)
  have "sseg P' (Some x) ys None = sseg P (Some x) ys None"
    using assms Cons by (intro sseg_cong) auto
  then show ?thesis
    using assms Cons by auto
qed (use assms in simp)

lemma sseg_unlink:
  assumes "sseg P y (us @ p # ws) z" "distinct (us @ p # ws)"
    "\<forall>q\<in>set (us @ ws). p_younger (P' q) = (if ws \<noteq> [] \<and> q = hd ws then last_of us y else p_younger (P q))"
    "\<forall>q\<in>set (us @ ws). p_older (P' q) = (if us \<noteq> [] \<and> q = last us then first_of ws z else p_older (P q))"
  shows "sseg P' y (us @ ws) z"
proof -
  have "sseg P' y us (first_of ws z)"
  proof (cases us rule: rev_cases)
    case (snoc vs u)
    have "u \<noteq> hd ws \<or> ws = []" and "\<forall>v\<in>set vs. v \<noteq> u \<and> (ws = [] \<or> v \<noteq> hd ws)"
      using assms(2) snoc by (cases ws; auto)+
    then have "sseg P' y vs (Some u) = sseg P y vs (Some u)" "p_younger (P' u) = p_younger (P u)" "p_older (P' u) = first_of ws z"
      using assms(3,4) snoc by (auto intro!: sseg_cong)
    then show ?thesis
      using assms(1) snoc by (simp add: sseg_append)
  qed simp
  moreover have "sseg P' (last_of us y) ws z"
  proof (cases ws)
    case (Cons w vs)
    have "us = [] \<or> (w \<noteq> last us \<and> (\<forall>v\<in>set vs. v \<noteq> last us))" "w \<notin> set vs"
      using assms(2) Cons by (cases us rule: rev_cases; auto)+
    then have "sseg P' (Some w) vs z = sseg P (Some w) vs z" "p_younger (P' w) = last_of us y" "p_older (P' w) = p_older (P w)"
      using assms(3,4) Cons by (auto intro!: sseg_cong)
    then show ?thesis
      using assms(1) Cons by (simp add: sseg_append)
  qed simp
  ultimately show ?thesis
    by (simp add: sseg_append)
qed

lemma set_links_family_ok:
  assumes fam: "family s ps K" and new: "p \<notin> insert (idle_proc s) (set ps)"
    and par: "p_parent (procs s p) = Some par" "par \<in> insert (idle_proc s) (set ps)"
    and "p_child (procs s p) = None"
  shows "\<exists>s'. set_links p s = ret s' \<and> num_proc s' = num_proc s + 1 \<and> idle_proc s' = idle_proc s \<and>
    family s' (p # ps) (K(par := p # K par, p := []))"
proof -
  let ?P = "procs s" and ?K = "K(par := p # K par, p := [])"
  have ne: "p \<noteq> par" and child: "p_child (?P par) = first_of (K par) None" "p \<notin> set (K par)"
    using new par kidsD(1) [OF familyD(3) [OF fam par(2)]] familyD(4) [OF fam par(2)] by auto
  then have "p_child (?P par) \<noteq> Some p"
    by (auto simp: first_of_def split: list.splits)
  from set_links_sel [OF par(1) ne this] obtain s' where s': "set_links p s = ret s'"
    "num_proc s' = num_proc s + 1" "idle_proc s' = idle_proc s"
    "proc_links s' = add_list proc_head (nxt (proc_links s) proc_head) (LNode p) (proc_links s)"
    "\<forall>q. p_child (procs s' q) = (if q = par then Some p else p_child (?P q))"
    "\<forall>q. p_parent (procs s' q) = p_parent (?P q)"
    "\<forall>q. p_younger (procs s' q) = (if q = p then None else if first_of (K par) None = Some q then Some p else p_younger (?P q))"
    "\<forall>q. p_older (procs s' q) = (if q = p then first_of (K par) None else p_older (?P q))"
    unfolding child(1) by blast
  have "proc_rep s' (p # ps)"
    using dlist_add_front [of "proc_links s" proc_head "map LNode ps" "LNode p"] familyD(1) [OF fam] new
    by (auto simp: proc_rep_def s'(4))
  moreover have "kids (procs s') q (?K q) \<and> set (?K q) \<subseteq> set (p # ps)" if q: "q \<in> insert (idle_proc s) (set (p # ps))" for q
  proof -
    consider "q = p" | "q = par" "q \<noteq> p" | "q \<noteq> par" "q \<noteq> p" "q \<in> insert (idle_proc s) (set ps)"
      using q by auto
    then show ?thesis
    proof cases
      case 1
      then show ?thesis
        using assms(5) ne by (simp add: kids_def s'(5))
    next
      case 2
      note k = kidsD [OF familyD(3) [OF fam par(2)]]
      have "sseg (procs s') None (p # K par) None"
        using k(3) child(2) k(2) s'(7,8) by (rule sseg_link)
      then show ?thesis
        using 2 k child(2) par(1) familyD(4) [OF fam par(2)] by (auto simp: kids_def s'(5,6))
    next
      case 3
      have "x \<noteq> p" "first_of (K par) None \<noteq> Some x" if "x \<in> set (K q)" for x
      proof -
        show "x \<noteq> p"
          using that new familyD(4) [OF fam 3(3)] by auto
        have "x \<notin> set (K par)"
          using kidsD(4) [OF familyD(3) [OF fam 3(3)] that] kidsD(4) [OF familyD(3) [OF fam par(2)]] 3(1) by auto
        then show "first_of (K par) None \<noteq> Some x"
          by (auto simp: first_of_def split: list.splits)
      qed
      then have "kids (procs s') q (K q)"
        using 3 by (intro kids_cong [OF familyD(3) [OF fam 3(3)]]) (simp_all add: s'(5-8))
      then show ?thesis
        using 3 familyD(4) [OF fam 3(3)] by auto
    qed
  qed
  moreover have "\<exists>q\<in>insert (idle_proc s) (set (p # ps)). x \<in> set (?K q)" if x: "x \<in> set (p # ps)" for x
  proof (cases "x = p")
    case True
    then show ?thesis
      using par(2) ne by (intro bexI [of _ par]) auto
  next
    case False
    then obtain q where "q \<in> insert (idle_proc s) (set ps)" "x \<in> set (K q)"
      using x familyD(5) [OF fam, of x] by auto
    then show ?thesis
      using new by (intro bexI [of _ q]) auto
  qed
  moreover have "idle_proc s \<notin> set (p # ps)"
    using new familyD(2) [OF fam] by auto
  ultimately have "family s' (p # ps) ?K"
    unfolding family_def s'(3) by blast
  then show ?thesis
    using s'(1-3) by blast
qed

lemma remove_links_family_ok:
  assumes fam: "family s ps K" and p: "p \<in> set ps" "K p = []"
    and par: "p_parent (procs s p) = Some par"
  shows "\<exists>s'. remove_links p s = ret s' \<and> num_proc s' = num_proc s - 1 \<and> idle_proc s' = idle_proc s \<and>
    family s' (remove1 p ps) (K(par := remove1 p (K par)))"
proof -
  let ?P = "procs s" and ?K = "K(par := remove1 p (K par))"
  obtain par' where "par' \<in> insert (idle_proc s) (set ps)" "p \<in> set (K par')"
    using familyD(5) [OF fam p(1)] by blast
  then have m: "par \<in> insert (idle_proc s) (set ps)" and pk: "p \<in> set (K par)"
    using kidsD(4) [OF familyD(3) [OF fam]] par by fastforce+
  note k = kidsD [OF familyD(3) [OF fam m]]
  obtain us ws where split: "K par = us @ p # ws"
    using pk by (metis split_list)
  have d: "distinct (us @ p # ws)" and sg: "sseg ?P None (us @ p # ws) None"
    using k(2,3) split by simp_all
  then have yo: "p_younger (?P p) = last_of us None" "p_older (?P p) = first_of ws None"
    by (simp_all add: sseg_append)
  have mem: "last_of us None = Some q \<longleftrightarrow> us \<noteq> [] \<and> q = last us" "first_of ws None = Some q \<longleftrightarrow> ws \<noteq> [] \<and> q = hd ws" for q
    by (auto simp: last_of_def first_of_def split: list.splits)
  have "first_of ws None \<noteq> Some p" "last_of us None \<noteq> Some p" "first_of ws None = None \<or> first_of ws None \<noteq> last_of us None"
    using d by (cases ws; cases us rule: rev_cases; auto)+
  then obtain s' where s': "remove_links p s = ret s'" "num_proc s' = num_proc s - 1" "idle_proc s' = idle_proc s"
    "proc_links s' = del_list (LNode p) (proc_links s)"
    "\<forall>q. p_child (procs s' q) = (if last_of us None = None \<and> q = par then first_of ws None else p_child (?P q))"
    "\<forall>q. p_parent (procs s' q) = p_parent (?P q)"
    "\<forall>q. p_younger (procs s' q) = (if first_of ws None = Some q then last_of us None else p_younger (?P q))"
    "\<forall>q. p_older (procs s' q) = (if last_of us None = Some q then first_of ws None else p_older (?P q))"
    using remove_links_sel [OF par] unfolding yo by blast
  have np: "p \<notin> set us" "remove1 p (K par) = us @ ws"
    using d split by (auto simp: remove1_append)
  obtain as bs where ps: "ps = as @ p # bs"
    using p(1) by (metis split_list)
  have dps: "distinct ps"
    using familyD(1) [OF fam] by (auto simp: proc_rep_def distinct_map dest!: dlist_distinct)
  then have r: "remove1 p ps = as @ bs" "set (remove1 p ps) = set ps - {p}"
    using ps by (auto simp: remove1_append)
  have "proc_rep s' (remove1 p ps)"
    using dlist_del [of "proc_links s" proc_head "map LNode as" "LNode p" "map LNode bs"] familyD(1) [OF fam] ps
    unfolding proc_rep_def s'(4) r(1) by simp
  moreover have "kids (procs s') q (?K q) \<and> set (?K q) \<subseteq> set ps - {p}" if q: "q \<in> insert (idle_proc s) (set ps - {p})" for q
  proof (cases "q = par")
    case True
    have "sseg (procs s') None (us @ ws) None"
      using sg d by (rule sseg_unlink) (simp_all add: s'(7,8) mem)
    moreover have "p_child (procs s' par) = first_of (us @ ws) None"
      using k(1) split by (cases us) (simp_all add: s'(5) last_of_def)
    ultimately have "kids (procs s') par (us @ ws)"
      using k(4) split d by (simp add: kids_def s'(6))
    moreover have "set (us @ ws) \<subseteq> set ps - {p}"
      using split d familyD(4) [OF fam m] by auto
    ultimately show ?thesis
      using True by (simp add: np(2))
  next
    case False
    have qm: "q \<in> insert (idle_proc s) (set ps)"
      using q by auto
    have out: "x \<notin> set (K par)" if "x \<in> set (K q)" for x
      using kidsD(4) [OF familyD(3) [OF fam qm] that] k(4) False by auto
    then have "first_of ws None \<noteq> Some x \<and> last_of us None \<noteq> Some x" if "x \<in> set (K q)" for x
      using that split unfolding mem by fastforce
    then have "kids (procs s') q (K q)"
      using False by (intro kids_cong [OF familyD(3) [OF fam qm]]) (simp_all add: s'(5-8))
    then show ?thesis
      using False out pk familyD(4) [OF fam qm] by auto
  qed
  moreover have "\<exists>q\<in>insert (idle_proc s) (set ps - {p}). x \<in> set (?K q)" if x: "x \<in> set ps - {p}" for x
  proof -
    obtain q where q: "q \<in> insert (idle_proc s) (set ps)" "x \<in> set (K q)"
      using x familyD(5) [OF fam, of x] by auto
    then have "q \<noteq> p"
      using p(2) by auto
    then show ?thesis
      using q x split np by (intro bexI [of _ q]) auto
  qed
  moreover have "idle_proc s \<notin> set ps - {p}"
    using familyD(2) [OF fam] by auto
  ultimately have "family s' (remove1 p ps) ?K"
    unfolding family_def s'(3) r(2) by blast
  then show ?thesis
    using s'(1-3) by blast
qed

end
