(* ===== verification/User_Access.thy ===== *)
theory User_Access
  imports Proc_Table Page_Map
begin

text \<open>
  Accesses of the kernel through user pointers. The kernel dereferences them directly
  (\<open>SSTATUS_SUM\<close> is set in \<open>init_idt\<close>), so an access goes through the page table in \<open>satp\<close>, and one
  that finds no mapping traps: \<open>exception_handler\<close> and \<open>page_fault_handler\<close> of
  \<open>kernel/trap/trap.c\<close> map a page or stop the machine, and the access is tried again.
\<close>

unbundle bit_operations_syntax

section \<open>Trap causes (riscv.h)\<close>

definition SCAUSE_INTR :: u64 where [const_defs]: "SCAUSE_INTR = push_bit 63 1"
definition SCAUSE_SSI :: u64 where [const_defs]: "SCAUSE_SSI = 0x1 OR SCAUSE_INTR"
definition SCAUSE_STI :: u64 where [const_defs]: "SCAUSE_STI = 0x5 OR SCAUSE_INTR"
definition SCAUSE_SEI :: u64 where [const_defs]: "SCAUSE_SEI = 0x9 OR SCAUSE_INTR"
definition SCAUSE_IAM :: u64 where [const_defs]: "SCAUSE_IAM = 0x00000000"
definition SCAUSE_IAF :: u64 where [const_defs]: "SCAUSE_IAF = 0x00000001"
definition SCAUSE_II :: u64 where [const_defs]: "SCAUSE_II = 0x00000002"
definition SCAUSE_B :: u64 where [const_defs]: "SCAUSE_B = 0x00000003"
definition SCAUSE_LAM :: u64 where [const_defs]: "SCAUSE_LAM = 0x00000004"
definition SCAUSE_LAF :: u64 where [const_defs]: "SCAUSE_LAF = 0x00000005"
definition SCAUSE_SAM :: u64 where [const_defs]: "SCAUSE_SAM = 0x00000006"
definition SCAUSE_SAF :: u64 where [const_defs]: "SCAUSE_SAF = 0x00000007"
definition SCAUSE_ECFU :: u64 where [const_defs]: "SCAUSE_ECFU = 0x00000008"
definition SCAUSE_ECFS :: u64 where [const_defs]: "SCAUSE_ECFS = 0x00000009"
definition SCAUSE_IPF :: u64 where [const_defs]: "SCAUSE_IPF = 0x0000000C"
definition SCAUSE_LPF :: u64 where [const_defs]: "SCAUSE_LPF = 0x0000000D"
definition SCAUSE_SPF :: u64 where [const_defs]: "SCAUSE_SPF = 0x0000000F"

section \<open>Page faults (trap.c)\<close>

definition check_kernel_trap :: "trapframe \<Rightarrow> bool" where
  "check_kernel_trap tf \<longleftrightarrow> tf_sstatus tf AND SSTATUS_SPP \<noteq> 0"

definition print_page_fault :: "trapframe \<Rightarrow> 'z ksched_scheme \<Rightarrow> 'z ksched_scheme" where
  "print_page_fault tf s =
     kput (lit ''page fault at 0x'' @ num_text 16 (unat (tf_stval tf)) @
       lit (if check_kernel_trap tf then ''K'' else ''U'') @ lit ''/'' @
       lit (if tf_scause tf = SCAUSE_SPF then ''W'' else ''R'') @ [10]) s"

text \<open>A process pointer that is null is address 0.\<close>

definition page_fault_handler :: "trapframe \<Rightarrow> 'z ksched_scheme \<Rightarrow> (int \<times> 'z ksched_scheme) exec" where
  "page_fault_handler tf s =
     (let s1 = kput (lit ''paged fault at 0x'' @ num_text 16 (unat (tf_stval tf)) @ [10]) s in
      case test_vmm s1 of
        Some v \<Rightarrow>
          (let s2 = print_page_fault tf s1 in
           assert_then (curr_proc s2 = idle_proc s2) (handle_page_fault (Some v) (tf_stval tf) s2))
      | None \<Rightarrow>
          if curr_proc s1 = 0 then panic
          else handle_page_fault (p_vmm (curr_pcb s1)) (tf_stval tf) s1)"

text \<open>One of the cases of \<open>exception_handler\<close> that call \<open>page_fault_handler\<close>.\<close>

definition fault_case :: "string \<Rightarrow> trapframe \<Rightarrow> 'z ksched_scheme \<Rightarrow> 'z ksched_scheme exec" where
  "fault_case msg tf s =
     bind_exec (page_fault_handler tf (kput (lit msg @ [10]) s)) (\<lambda>(err, s1).
       if err \<noteq> 0 then panic else ret s1)"

section \<open>Memory accesses\<close>

text \<open>
  The Sv39 translation of the hardware for an access in supervisor mode, through the table \<open>satp\<close> names. An entry of the root
  with a permission is a gigapage; the kernel makes no other large pages. \<open>perm\<close> is the permission the access
  needs; a user page also needs \<open>SSTATUS_SUM\<close>. The result is the address in the direct map of the kernel.
\<close>

definition canonical :: "u64 \<Rightarrow> bool" where
  "canonical a \<longleftrightarrow> drop_bit 38 a = 0 \<or> drop_bit 38 a = 0x3FFFFFF"

definition pte_allows :: "u64 \<Rightarrow> u64 \<Rightarrow> 'z ksched_scheme \<Rightarrow> bool" where
  "pte_allows perm e s \<longleftrightarrow> e AND perm \<noteq> 0 \<and> (e AND PTE_U = 0 \<or> sstatus s AND SSTATUS_SUM \<noteq> 0)"

definition mmu :: "u64 \<Rightarrow> u64 \<Rightarrow> 'z ksched_scheme \<Rightarrow> u64 option" where
  "mmu perm a s =
     (let E = ents (mem s); g = unat (satp s AND 0xFFFFFFFFFFF); root = E g (get_gptx a) in
      if \<not> canonical a \<or> \<not> pte_valid root then None
      else if root AND (PTE_R OR PTE_W OR PTE_X) \<noteq> 0 then
        (if pte_allows perm root s
         then Some (push_bit PAGE_SHIFT (pte2ppn root) + (a AND 0x3FFFFFFF) + VA_PA_OFFSET) else None)
      else
        let e = pmap E g (vpn a) in
        if pte_valid e \<and> pte_allows perm e s then Some (page_va (pte_page e) + get_offset a) else None)"

text \<open>Through the boot table, and every copy of it, the kernel's own addresses are translated to themselves.\<close>

lemma mmu_kernel:
  assumes root: "ents (mem s) (unat (satp s AND 0xFFFFFFFFFFF)) 510 = GIGAPAGE" and a: "DRAM_BEGIN_VA \<le> a" "a < DRAM_END_VA"
    and perm: "perm = PTE_R \<or> perm = PTE_W"
  shows "mmu perm a s = Some a"
proof -
  define d where "d = unat a - 0xFFFFFFFF80000000"
  have d: "unat a = 0xFFFFFFFF80000000 + d" "d < 2 ^ 30"
    using a by (auto simp: d_def word_le_nat_alt word_less_nat_alt const_defs)
  have q: "unat a div 2 ^ 30 = 0x3FFFFFFFE" "unat a div 2 ^ 38 = 0x3FFFFFF" "unat a mod 2 ^ 30 = d"
  proof -
    have "unat a = 0x3FFFFFFFE * 2 ^ 30 + d"
      using d(1) by simp
    then have "unat a mod 2 ^ 30 = d mod 2 ^ 30"
      by (simp only: mod_mult_self3)
    then show "unat a mod 2 ^ 30 = d"
      using d(2) by simp
  qed (use d in \<open>simp_all add: div_nat_eqI\<close>)
  have i: "drop_bit 30 a = 0x3FFFFFFFE" "drop_bit 38 a = 0x3FFFFFF"
    using q(1,2) by (simp_all add: word_unat_eq_iff drop_bit_eq_div unat_div)
  have l: "unat (a AND 0x3FFFFFFF) = d"
  proof -
    have "a AND 0x3FFFFFFF = take_bit 30 a"
      by (simp add: take_bit_eq_mask mask_eq_exp_minus_1)
    then show ?thesis
      using q(3) by (simp add: take_bit_eq_mod unat_mod)
  qed
  have "0xFFFFFFFF80000000 + (a AND 0x3FFFFFFF) = a"
    using l d by (simp add: word_unat_eq_iff unat_word_ariths)
  moreover have "get_gptx a = 510"
    by (simp add: get_gptx_def i const_defs)
  ultimately show ?thesis
    using root perm i by (auto simp: mmu_def canonical_def pte_allows_def pte_valid_def GIGAPAGE_def const_defs pte2ppn_def)
qed

text \<open>The part of the frame of a fault in the kernel that the handler looks at.\<close>

definition fault_frame :: "u64 \<Rightarrow> u64 \<Rightarrow> trapframe" where
  "fault_frame cause a =
     \<lparr>tf_gpr = (\<lambda>_. 0), tf_sstatus = SSTATUS_SPP, tf_sepc = 0, tf_stval = a, tf_scause = cause\<rparr>"

partial_function (option) user_load :: "u64 \<Rightarrow> 'z ksched_scheme \<Rightarrow> (u8 \<times> 'z ksched_scheme) exec" where
  "user_load a s =
     (case mmu PTE_R a s of
        Some k \<Rightarrow> ret (mem s k, s)
      | None \<Rightarrow> bind_exec (fault_case ''Load page fault'' (fault_frame SCAUSE_LPF a) s) (\<lambda>s1. user_load a s1))"

partial_function (option) user_store :: "u64 \<Rightarrow> u8 \<Rightarrow> 'z ksched_scheme \<Rightarrow> 'z ksched_scheme exec" where
  "user_store a b s =
     (case mmu PTE_W a s of
        Some k \<Rightarrow> ret (s\<lparr>mem := (mem s)(k := b)\<rparr>)
      | None \<Rightarrow> bind_exec (fault_case ''Store/AMO page fault'' (fault_frame SCAUSE_SPF a) s) (\<lambda>s1. user_store a b s1))"

text \<open>A store of the \<open>n\<close> low bytes of \<open>v\<close>.\<close>

fun user_store_le :: "nat \<Rightarrow> u64 \<Rightarrow> u64 \<Rightarrow> 'z ksched_scheme \<Rightarrow> 'z ksched_scheme exec" where
  "user_store_le 0 a v s = ret s"
| "user_store_le (Suc k) a v s = bind_exec (user_store a (ucast v) s) (user_store_le k (a + 1) (drop_bit 8 v))"

text \<open>\<open>strcpy\<close> from a user pointer into an array of \<open>n\<close> bytes.\<close>

fun user_str :: "nat \<Rightarrow> u64 \<Rightarrow> 'z ksched_scheme \<Rightarrow> (string \<times> 'z ksched_scheme) exec" where
  "user_str 0 a s = overflow"
| "user_str (Suc k) a s =
     bind_exec (user_load a s) (\<lambda>(b, s1).
       if b = 0 then ret ('''', s1)
       else bind_exec (user_str k (a + 1) s1) (\<lambda>(cs, s2). ret (char_of (unat b) # cs, s2)))"

end
