(* ===== verification/Proc_Life.thy ===== *)
theory Proc_Life
  imports User_Access
begin

text \<open>
  The life of a process, \<open>kernel/proc/proc.c\<close>: creation by \<open>do_fork\<close>, waiting for children, exit,
  killing, sleeping. A call that gives up the processor is cut at its call of \<open>schedule\<close>: its
  result is then \<open>Inr\<close> of what it waits for, and the function of the same name ending in
  \<open>_resume\<close> is the rest, run when the process is chosen again.
\<close>

unbundle bit_operations_syntax

section \<open>Allocation of the parts of a process\<close>

text \<open>\<open>sizeof(struct pcb)\<close> and \<open>sizeof(struct trapframe)\<close> on a 64-bit machine.\<close>

definition PCB_SIZE :: u64 where [const_defs]: "PCB_SIZE = 320"
definition TRAPFRAME_SIZE :: u64 where [const_defs]: "TRAPFRAME_SIZE = 288"

definition new_pcb :: "u64 \<Rightarrow> pcb" where
  "new_pcb bpt =
     \<lparr>p_state = PROC_UNINIT, p_wait_state = WAIT_NONE, p_pid = - 1, p_run_times = 0, p_kernel_stack = 0,
      p_need_reschedule = False, p_vmm = None, p_context = \<lparr>ctx_ra = 0, ctx_sp = 0, ctx_s = (\<lambda>_. 0)\<rparr>,
      p_tf = None, p_gpt = bpt, p_flags = 0, p_name = '''', p_exit_code = 0, p_parent = None,
      p_child = None, p_younger = None, p_older = None, p_run_queue = None, p_time_slice = 0,
      p_stride = 0, p_priority = 1\<rparr>"

definition alloc_proc :: "'z ksched_scheme \<Rightarrow> (pcb_ptr option \<times> 'z ksched_scheme) exec" where
  "alloc_proc s =
     bind_exec (malloc PCB_SIZE s) (\<lambda>(p, s1).
       if p = 0 then ret (None, s1)
       else
         let s2 = upd_proc p (\<lambda>_. new_pcb (g_bpt s1)) s1;
             s3 = s2\<lparr>proc_links := init_list (LNode p) (proc_links s2)\<rparr>;
             s4 = s3\<lparr>hash_links := init_list (LNode p) (hash_links s3)\<rparr>;
             s5 = s4\<lparr>run_links := init_list (LNode p) (run_links s4)\<rparr>
         in ret (Some p, s5\<lparr>run_pools := init_skew_heap p (run_pools s5)\<rparr>))"

definition alloc_kernel_stack :: "pcb_ptr \<Rightarrow> 'z ksched_scheme \<Rightarrow> (int \<times> 'z ksched_scheme) exec" where
  "alloc_kernel_stack p s =
     bind_exec (alloc_pages KERNEL_STACK_PAGE s) (\<lambda>(page, s1).
       case page of
         Some q \<Rightarrow> bind_exec (page2va q) (\<lambda>va. ret (0, upd_proc p (\<lambda>r. r\<lparr>p_kernel_stack := va\<rparr>) s1))
       | None \<Rightarrow> ret (- E_NO_MEM, s1))"

definition alloc_gpt :: "u64 \<Rightarrow> 'z ksched_scheme \<Rightarrow> (int \<times> 'z ksched_scheme) exec" where
  "alloc_gpt vmm s =
     bind_exec (alloc_page s) (\<lambda>(page, s1).
       case page of
         None \<Rightarrow> ret (- E_NO_MEM, s1)
       | Some q \<Rightarrow>
           bind_exec (page2va q) (\<lambda>gpt.
             let s2 = s1\<lparr>mem := memcpy (mem s1) gpt (g_bpt s1) PAGE_SIZE\<rparr>
             in ret (0, upd_vmm vmm (\<lambda>v. v\<lparr>vmm_gpt := gpt\<rparr>) s2)))"

definition free_gpt :: "u64 \<Rightarrow> 'z ksched_scheme \<Rightarrow> 'z ksched_scheme exec" where
  "free_gpt vmm s = bind_exec (va2page (vmm_gpt (vmms s vmm))) (\<lambda>q. free_page q s)"

definition free_kernel_stack :: "pcb_ptr \<Rightarrow> 'z ksched_scheme \<Rightarrow> 'z ksched_scheme exec" where
  "free_kernel_stack p s =
     bind_exec (va2page (p_kernel_stack (procs s p))) (\<lambda>q. free_pages q KERNEL_STACK_PAGE s)"

text \<open>\<open>del_vmas\<close>, \<open>free_gpt\<close> and \<open>del_vmm\<close>, which the functions below call in this order.\<close>

definition drop_vmm :: "u64 \<Rightarrow> 'z ksched_scheme \<Rightarrow> 'z ksched_scheme exec" where
  "drop_vmm vmm s =
     bind_exec (del_vmas (Some vmm) s) (\<lambda>s1. bind_exec (free_gpt vmm s1) (\<lambda>s2. del_vmm vmm s2))"

section \<open>Creation\<close>

definition CLONE_VM :: u32 where [const_defs]: "CLONE_VM = 0x00000001"

definition use_vmm :: "pcb_ptr \<Rightarrow> u64 \<Rightarrow> 'z ksched_scheme \<Rightarrow> 'z ksched_scheme" where
  "use_vmm p vmm s =
     (let s1 = upd_vmm vmm (\<lambda>v. v\<lparr>use_count := use_count v + 1\<rparr>) s;
          s2 = upd_proc p (\<lambda>q. q\<lparr>p_vmm := Some vmm\<rparr>) s1
      in upd_proc p (\<lambda>q. q\<lparr>p_gpt := vmm_gpt (vmms s2 vmm)\<rparr>) s2)"

text \<open>\<open>copy_vmm\<close> from the point where it holds the lock of \<open>old\<close>.\<close>

definition copy_vmm_locked :: "pcb_ptr \<Rightarrow> u64 \<Rightarrow> u64 \<Rightarrow> 'z ksched_scheme \<Rightarrow> (int \<times> 'z ksched_scheme) exec" where
  "copy_vmm_locked p old vmm s =
     bind_exec (dup_vmm (Some old) (Some vmm) s) (\<lambda>(r, s1).
     bind_exec (unlock_vmm (Some old) s1) (\<lambda>s2.
       if r \<noteq> 0 then bind_exec (drop_vmm vmm s2) (\<lambda>s3. ret (r, s3))
       else ret (0, use_vmm p vmm s2)))"

text \<open>\<open>Inr vmm\<close>: the process waits for the lock of its manager to copy it into \<open>vmm\<close>.\<close>

definition copy_vmm ::
  "pcb_ptr \<Rightarrow> u32 \<Rightarrow> u64 \<Rightarrow> 'z ksched_scheme \<Rightarrow> ((int + u64) \<times> 'z ksched_scheme) exec" where
  "copy_vmm p clone_flag w s =
     (case p_vmm (curr_pcb s) of
        None \<Rightarrow> ret (Inl 0, s)
      | Some old \<Rightarrow>
          if clone_flag AND CLONE_VM \<noteq> 0 then ret (Inl 0, use_vmm p old s)
          else
            bind_exec (init_vmm s) (\<lambda>(vmm, s1).
              case vmm of
                None \<Rightarrow> ret (Inl (- E_NO_MEM), s1)
              | Some v \<Rightarrow>
                  bind_exec (alloc_gpt v s1) (\<lambda>(err, s2).
                    if err \<noteq> 0 then bind_exec (del_vmm v s2) (\<lambda>s3. ret (Inl (- E_NO_MEM), s3))
                    else
                      bind_exec (lock_vmm (Some old) w s2) (\<lambda>(got, s3).
                        if got then bind_exec (copy_vmm_locked p old v s3) (\<lambda>(r, s4). ret (Inl r, s4))
                        else ret (Inr v, s3)))))"

text \<open>The frame is passed by value: nothing writes to it between the call and the copy.\<close>

definition copy_proc :: "pcb_ptr \<Rightarrow> u64 \<Rightarrow> trapframe \<Rightarrow> 'z ksched_scheme \<Rightarrow> 'z ksched_scheme" where
  "copy_proc p stack tf s =
     (let a = p_kernel_stack (procs s p) + KERNEL_STACK_SIZE - TRAPFRAME_SIZE;
          s1 = upd_proc p (\<lambda>q. q\<lparr>p_tf := Some a\<rparr>) s;
          s2 = s1\<lparr>tfs := (tfs s1)(a := tf\<lparr>tf_gpr := (tf_gpr tf)(A0 := 0, Sp := if stack \<noteq> 0 then stack else a - 4)\<rparr>)\<rparr>
      in upd_proc p (\<lambda>q. q\<lparr>p_context := (p_context q)\<lparr>ctx_ra := sym s2 ''curr_fork_ret'', ctx_sp := a\<rparr>\<rparr>) s2)"

text \<open>\<open>do_fork\<close> after \<open>copy_vmm\<close>.\<close>

definition do_fork_register :: "pcb_ptr \<Rightarrow> 'z ksched_scheme \<Rightarrow> (int \<times> 'z ksched_scheme) exec" where
  "do_fork_register p s =
     (let (intr_flag, s1) = local_intr_save s in
      bind_exec (alloc_pid s1) (\<lambda>(pid, s2).
        let s3 = hash_proc p (upd_proc p (\<lambda>q. q\<lparr>p_pid := pid\<rparr>) s2) in
        bind_exec (set_links p s3) (\<lambda>s4.
        bind_exec (wakeup_proc p (local_intr_restore intr_flag s4)) (\<lambda>s5.
          ret (p_pid (procs s5 p), s5)))))"

definition do_fork_copied :: "pcb_ptr \<Rightarrow> u64 \<Rightarrow> trapframe \<Rightarrow> int \<Rightarrow> 'z ksched_scheme \<Rightarrow> (int \<times> 'z ksched_scheme) exec" where
  "do_fork_copied p stack tf err s =
     (if err = - E_NO_MEM then
        bind_exec (free_kernel_stack p s) (\<lambda>s1.
        bind_exec (free p PCB_SIZE s1) (\<lambda>s2. ret (- E_NO_MEM, s2)))
      else do_fork_register p (copy_proc p stack tf s))"

text \<open>What a process that gave up the processor inside a call waits for.\<close>

datatype blocked =
  InFork pcb_ptr u64 u64 trapframe u64
| InWait int u64
| InSleep u64
| Gone

definition do_fork ::
  "u64 \<Rightarrow> trapframe \<Rightarrow> u32 \<Rightarrow> u64 \<Rightarrow> 'z ksched_scheme \<Rightarrow> ((int + blocked) \<times> 'z ksched_scheme) exec" where
  "do_fork stack tf clone_flag w s =
     (if uint (num_proc s) > MAX_PROCESS then ret (Inl (- E_NO_FREE_PROC), s)
      else
        bind_exec (alloc_proc s) (\<lambda>(proc, s1).
          case proc of
            None \<Rightarrow> ret (Inl (- E_NO_MEM), s1)
          | Some p \<Rightarrow>
              let s2 = upd_proc p (\<lambda>q. q\<lparr>p_parent := Some (curr_proc s1)\<rparr>) s1 in
              assert_then (p_wait_state (curr_pcb s2) = WAIT_NONE)
                (bind_exec (alloc_kernel_stack p s2) (\<lambda>(err, s3).
                   if err = - E_NO_MEM then
                     bind_exec (free p PCB_SIZE s3) (\<lambda>s4. ret (Inl (- E_NO_MEM), s4))
                   else
                     bind_exec (copy_vmm p clone_flag w s3) (\<lambda>(r, s4).
                       case r of
                         Inl err \<Rightarrow> bind_exec (do_fork_copied p stack tf err s4) (\<lambda>(r, s5). ret (Inl r, s5))
                       | Inr vmm \<Rightarrow> ret (Inr (InFork p vmm stack tf w), s4))))))"

definition do_fork_resume ::
  "pcb_ptr \<Rightarrow> u64 \<Rightarrow> u64 \<Rightarrow> trapframe \<Rightarrow> u64 \<Rightarrow> 'z ksched_scheme \<Rightarrow> (int \<times> 'z ksched_scheme) exec" where
  "do_fork_resume p vmm stack tf w s =
     (case p_vmm (curr_pcb s) of
        None \<Rightarrow> null_deref
      | Some old \<Rightarrow>
          bind_exec (lock_vmm_resume old w s) (\<lambda>s1.
          bind_exec (copy_vmm_locked p old vmm s1) (\<lambda>(err, s2). do_fork_copied p stack tf err s2)))"

definition kernel_proc ::
  "u64 \<Rightarrow> u64 \<Rightarrow> u32 \<Rightarrow> u64 \<Rightarrow> 'z ksched_scheme \<Rightarrow> ((int + blocked) \<times> 'z ksched_scheme) exec" where
  "kernel_proc func arg clone_flag w s =
     (let tf = \<lparr>tf_gpr = (\<lambda>_. 0)(S0 := func, S1 := arg),
                tf_sstatus = (sstatus s OR SSTATUS_SPIE OR SSTATUS_SPP) AND NOT SSTATUS_SIE,
                tf_sepc = sym s ''kernel_proc_entry'', tf_stval = 0, tf_scause = 0\<rparr>
      in do_fork 0 tf (clone_flag OR CLONE_VM) w s)"

section \<open>Exit\<close>

text \<open>The part \<open>do_exit\<close> and \<open>do_execve\<close> share: the process leaves its address space.\<close>

definition leave_vmm :: "u64 \<Rightarrow> 'z ksched_scheme \<Rightarrow> 'z ksched_scheme exec" where
  "leave_vmm vmm s =
     bind_exec (va2pa (g_bpt s)) (\<lambda>pa.
       let s1 = write_satp pa s;
           s2 = upd_vmm vmm (\<lambda>v. v\<lparr>use_count := use_count v - 1\<rparr>) s1 in
       bind_exec (if use_count (vmms s2 vmm) = 0 then drop_vmm vmm s2 else ret s2) (\<lambda>s3.
         ret (upd_proc (curr_proc s3) (\<lambda>q. q\<lparr>p_vmm := None\<rparr>) s3)))"

text \<open>The loop of \<open>do_exit\<close> that gives the children of the process to \<open>init\<close>: the links of one
  child \<open>p\<close>, and the loop. The younger neighbour of the next child is reset when its turn comes.\<close>

definition reparent_one :: "pcb_ptr \<Rightarrow> pcb_ptr \<Rightarrow> 'z ksched_scheme \<Rightarrow> 'z ksched_scheme" where
  "reparent_one p i s =
     (let s1 = upd_proc (curr_proc s) (\<lambda>q. q\<lparr>p_child := p_older (procs s p)\<rparr>) s;
          s2 = upd_proc p (\<lambda>q. q\<lparr>p_younger := None\<rparr>) s1;
          s3 = upd_proc p (\<lambda>q. q\<lparr>p_older := p_child (procs s2 i)\<rparr>) s2;
          s4 = (case p_child (procs s3 i) of
                  None \<Rightarrow> s3
                | Some c \<Rightarrow> upd_proc c (\<lambda>q. q\<lparr>p_younger := Some p\<rparr>) s3);
          s5 = upd_proc p (\<lambda>q. q\<lparr>p_parent := Some i\<rparr>) s4
      in upd_proc i (\<lambda>q. q\<lparr>p_child := Some p\<rparr>) s5)"

partial_function (option) reparent_loop :: "'z ksched_scheme \<Rightarrow> 'z ksched_scheme exec" where
  "reparent_loop s =
     (case p_child (curr_pcb s) of
        None \<Rightarrow> ret s
      | Some p \<Rightarrow>
          (case init_proc_ptr s of
             None \<Rightarrow> null_deref
           | Some i \<Rightarrow>
               let s1 = reparent_one p i s in
               bind_exec
                 (if p_state (procs s1 p) = PROC_ZOMBIE \<and> p_wait_state (procs s1 i) = WAIT_CHILD
                  then wakeup_proc i s1 else ret s1)
                 reparent_loop))"

text \<open>The exit up to the call of \<open>schedule\<close>, which must not return to the zombie.\<close>

definition exit_notify :: "'z ksched_scheme \<Rightarrow> 'z ksched_scheme exec" where
  "exit_notify s =
     (let (intr_flag, s1) = local_intr_save s in
      case p_parent (curr_pcb s1) of
        None \<Rightarrow> null_deref
      | Some par \<Rightarrow>
          bind_exec (if p_wait_state (procs s1 par) = WAIT_CHILD then wakeup_proc par s1 else ret s1) (\<lambda>s2.
          bind_exec (reparent_loop s2) (\<lambda>s3. ret (local_intr_restore intr_flag s3))))"

definition do_exit :: "int \<Rightarrow> 'z ksched_scheme \<Rightarrow> 'z ksched_scheme exec" where
  "do_exit errno s =
     (if curr_proc s = idle_proc s then panic
      else
        let s1 = (if Some (curr_proc s) = init_proc_ptr s
                  then kput (lit ''init proc exit.'' @ [10] @ lit ''Bye Bye!'' @ [10, 10]) s else s) in
        bind_exec (case p_vmm (curr_pcb s1) of None \<Rightarrow> ret s1 | Some vmm \<Rightarrow> leave_vmm vmm s1) (\<lambda>s2.
          let s3 = upd_proc (curr_proc s2) (\<lambda>q. q\<lparr>p_state := PROC_ZOMBIE\<rparr>) s2;
              s4 = upd_proc (curr_proc s3) (\<lambda>q. q\<lparr>p_exit_code := errno\<rparr>) s3 in
          bind_exec (exit_notify s4) (\<lambda>s5.
          bind_exec (schedule s5) (\<lambda>s6. if curr_proc s6 = curr_proc s5 then panic else ret s6))))"

section \<open>Waiting for a child\<close>

partial_function (option) zombie_loop :: "pcb_ptr option \<Rightarrow> 'z ksched_scheme \<Rightarrow> pcb_ptr option option" where
  "zombie_loop proc s =
     (case proc of
        None \<Rightarrow> Some None
      | Some p \<Rightarrow> if p_state (procs s p) = PROC_ZOMBIE then Some (Some p) else zombie_loop (p_older (procs s p)) s)"

text \<open>One look at the children: is there a child to wait for, and which one is a zombie.\<close>

definition find_child :: "int \<Rightarrow> 'z ksched_scheme \<Rightarrow> (bool \<times> pcb_ptr option) exec" where
  "find_child pid s =
     (if pid \<noteq> 0 then
        bind_exec (get_proc pid s) (\<lambda>r.
          case r of
            None \<Rightarrow> ret (False, None)
          | Some p \<Rightarrow>
              if p_parent (procs s p) = Some (curr_proc s)
              then ret (True, if p_state (procs s p) = PROC_ZOMBIE then Some p else None)
              else ret (False, None))
      else
        case zombie_loop (p_child (curr_pcb s)) s of
          None \<Rightarrow> None
        | Some z \<Rightarrow> ret (p_child (curr_pcb s) \<noteq> None, z))"

definition reap :: "pcb_ptr \<Rightarrow> u64 \<Rightarrow> 'z ksched_scheme \<Rightarrow> 'z ksched_scheme exec" where
  "reap p exit_code s =
     (if p = idle_proc s \<or> Some p = init_proc_ptr s then panic
      else
        bind_exec
          (if exit_code \<noteq> 0 then user_store_le 4 exit_code (word_of_int (p_exit_code (procs s p))) s else ret s) (\<lambda>s1.
        let (intr_flag, s2) = local_intr_save s1 in
        bind_exec (remove_links p (unhash_proc p s2)) (\<lambda>s3.
        bind_exec (free_kernel_stack p (local_intr_restore intr_flag s3)) (\<lambda>s4. free p PCB_SIZE s4))))"

definition do_wait_loop :: "int \<Rightarrow> u64 \<Rightarrow> 'z ksched_scheme \<Rightarrow> ((int + blocked) \<times> 'z ksched_scheme) exec" where
  "do_wait_loop pid exit_code s =
     bind_exec (find_child pid s) (\<lambda>(has_child, zombie).
       case zombie of
         Some p \<Rightarrow> bind_exec (reap p exit_code s) (\<lambda>s1. ret (Inl 0, s1))
       | None \<Rightarrow>
           if has_child then
             let s1 = upd_proc (curr_proc s) (\<lambda>q. q\<lparr>p_state := PROC_SLEEPING\<rparr>) s;
                 s2 = upd_proc (curr_proc s1) (\<lambda>q. q\<lparr>p_wait_state := WAIT_CHILD\<rparr>) s1
             in bind_exec (schedule s2) (\<lambda>s3. ret (Inr (InWait pid exit_code), s3))
           else ret (Inl (- E_BAD_PROC), s))"

definition do_wait :: "int \<Rightarrow> u64 \<Rightarrow> 'z ksched_scheme \<Rightarrow> ((int + blocked) \<times> 'z ksched_scheme) exec" where
  "do_wait pid exit_code s =
     (if exit_code \<noteq> 0 then
        bind_exec (check_vmm (p_vmm (curr_pcb s)) exit_code 4 True s) (\<lambda>(ok, s1).
          if ok then do_wait_loop pid exit_code s1 else ret (Inl (- E_INVAL), s1))
      else do_wait_loop pid exit_code s)"

definition do_wait_resume :: "int \<Rightarrow> u64 \<Rightarrow> 'z ksched_scheme \<Rightarrow> ((int + blocked) \<times> 'z ksched_scheme) exec" where
  "do_wait_resume pid exit_code s =
     (if p_flags (curr_pcb s) AND PROC_FLAG_EXIT \<noteq> 0
      then bind_exec (do_exit (- E_KILLED) s) (\<lambda>s1. ret (Inr Gone, s1))
      else do_wait_loop pid exit_code s)"

section \<open>Yield, kill, priority and sleep\<close>

definition do_yield :: "'z ksched_scheme \<Rightarrow> int \<times> 'z ksched_scheme" where
  "do_yield s = (0, upd_proc (curr_proc s) (\<lambda>q. q\<lparr>p_need_reschedule := True\<rparr>) s)"

definition do_kill :: "int \<Rightarrow> 'z ksched_scheme \<Rightarrow> (int \<times> 'z ksched_scheme) exec" where
  "do_kill pid s =
     bind_exec (get_proc pid s) (\<lambda>proc.
       case proc of
         None \<Rightarrow> ret (- E_INVAL, s)
       | Some p \<Rightarrow>
           if p_flags (procs s p) AND PROC_FLAG_EXIT = 0 then
             let s1 = upd_proc p (\<lambda>q. q\<lparr>p_flags := p_flags q OR PROC_FLAG_EXIT\<rparr>) s in
             bind_exec (if p_wait_state (procs s1 p) AND WAIT_INT \<noteq> 0 then wakeup_proc p s1 else ret s1) (\<lambda>s2.
               ret (0, s2))
           else ret (- E_KILLED, s))"

definition set_priority :: "u32 \<Rightarrow> 'z ksched_scheme \<Rightarrow> 'z ksched_scheme" where
  "set_priority priority s =
     (let s1 = kput (lit ''set priority to '' @ num_text 10 (unat priority) @ [10]) s
      in upd_proc (curr_proc s1) (\<lambda>q. q\<lparr>p_priority := if priority \<noteq> 0 then priority else 1\<rparr>) s1)"

text \<open>\<open>t\<close> is the address of the \<open>struct timer\<close> on the stack of the caller.\<close>

definition do_sleep :: "u32 \<Rightarrow> u64 \<Rightarrow> 'z ksched_scheme \<Rightarrow> ((int + blocked) \<times> 'z ksched_scheme) exec" where
  "do_sleep time t s =
     (if time = 0 then ret (Inl 0, s)
      else
        let (intr_flag, s1) = local_intr_save s;
            s2 = upd_timer t (\<lambda>m. m\<lparr>tm_proc := Some (curr_proc s1), tm_expires := time\<rparr>) s1;
            s3 = s2\<lparr>timer_links := init_list (LNode t) (timer_links s2)\<rparr>;
            s4 = upd_proc (curr_proc s3) (\<lambda>q. q\<lparr>p_state := PROC_SLEEPING\<rparr>) s3;
            s5 = upd_proc (curr_proc s4) (\<lambda>q. q\<lparr>p_wait_state := WAIT_TIMER\<rparr>) s4 in
        bind_exec (add_timer t s5) (\<lambda>s6.
        bind_exec (schedule (local_intr_restore intr_flag s6)) (\<lambda>s7. ret (Inr (InSleep t), s7))))"

definition do_sleep_resume :: "u64 \<Rightarrow> 'z ksched_scheme \<Rightarrow> int \<times> 'z ksched_scheme" where
  "do_sleep_resume t s = (0, del_timer t s)"

text \<open>One round of the endless loop of the idle process.\<close>

definition run_idle_round :: "'z ksched_scheme \<Rightarrow> 'z ksched_scheme exec" where
  "run_idle_round s = (if p_need_reschedule (curr_pcb s) then schedule s else ret s)"

section \<open>Start\<close>

fun init_hash_lists :: "nat \<Rightarrow> 'z ksched_scheme \<Rightarrow> 'z ksched_scheme" where
  "init_hash_lists 0 s = s"
| "init_hash_lists (Suc k) s = (let s1 = init_hash_lists k s in s1\<lparr>hash_links := init_list (LHead (of_nat k)) (hash_links s1)\<rparr>)"

text \<open>The init process is a kernel thread, so its creation waits for no lock; \<open>w\<close> is unused.\<close>

definition init_proc :: "u64 \<Rightarrow> 'z ksched_scheme \<Rightarrow> 'z ksched_scheme exec" where
  "init_proc w s =
     (let s1 = s\<lparr>proc_links := init_list proc_head (proc_links s)\<rparr>;
          s2 = init_hash_lists HASH_LIST_SIZE s1 in
      bind_exec (alloc_proc s2) (\<lambda>(idle, s3).
        case idle of
          None \<Rightarrow> panic
        | Some d \<Rightarrow>
            let s4 = upd_proc d (\<lambda>q. q\<lparr>p_pid := 0, p_state := PROC_RUNNABLE, p_kernel_stack := sym s3 ''boot_stack'',
                       p_need_reschedule := True, p_name := ''idle''\<rparr>) (s3\<lparr>idle_proc := d\<rparr>);
                s5 = s4\<lparr>num_proc := num_proc s4 + 1, curr_proc := d\<rparr> in
            bind_exec (kernel_proc (sym s5 ''init_main'') (sym s5 ''init_main_arg'') 0 w s5) (\<lambda>(r, s6).
              case r of
                Inr _ \<Rightarrow> None
              | Inl pid \<Rightarrow>
                  if pid \<le> 0 then panic
                  else
                    bind_exec (get_proc pid s6) (\<lambda>i.
                      case i of
                        None \<Rightarrow> null_deref
                      | Some p \<Rightarrow>
                          let s7 = upd_proc p (\<lambda>q. q\<lparr>p_name := ''init''\<rparr>) (s6\<lparr>init_proc_ptr := Some p\<rparr>) in
                          assert_then (p_pid (procs s7 (idle_proc s7)) = 0 \<and> p_pid (curr_pcb s7) = 0 \<and> p_pid (procs s7 p) = 1)
                            (ret (kput (lit ''init process!'' @ [10, 10]) s7))))))"

end
