(* ===== verification/Exec_Load.thy ===== *)
theory Exec_Load
  imports Proc_Life
begin

text \<open>
  Running a program, \<open>load_bin\<close> and \<open>do_execve\<close> of \<open>kernel/proc/proc.c\<close> with the executable file
  format of \<open>lib/elf.h\<close>. The binary lies in kernel memory. The two copying loops of a segment
  are functions of what they still have to fill.
\<close>

unbundle bit_operations_syntax

section \<open>The file format (elf.h)\<close>

definition ELF_MAGIC :: u32 where [const_defs]: "ELF_MAGIC = 0x464C457F"
definition ELF_PT_LOAD :: u32 where [const_defs]: "ELF_PT_LOAD = 1"
definition ELF_PF_X :: u32 where [const_defs]: "ELF_PF_X = 1"
definition ELF_PF_W :: u32 where [const_defs]: "ELF_PF_W = 2"
definition ELF_PF_R :: u32 where [const_defs]: "ELF_PF_R = 4"

text \<open>The fields the loader reads, at their offsets in the C structs.\<close>

record elf_header =
  e_magic :: u32
  e_entry :: u64
  e_phoff :: u64
  e_phnum :: u16

record prog_header =
  ph_type :: u32
  ph_flags :: u32
  ph_offset :: u64
  ph_va :: u64
  ph_file_size :: u64
  ph_mem_size :: u64

definition ELF_HEADER_SIZE :: u64 where [const_defs]: "ELF_HEADER_SIZE = 64"
definition PROG_HEADER_SIZE :: u64 where [const_defs]: "PROG_HEADER_SIZE = 56"

definition read_elf_header :: "bytes \<Rightarrow> u64 \<Rightarrow> elf_header" where
  "read_elf_header m a =
     \<lparr>e_magic = ucast (load_le m a 4), e_entry = load_le m (a + 24) 8, e_phoff = load_le m (a + 32) 8,
      e_phnum = ucast (load_le m (a + 56) 2)\<rparr>"

definition read_prog_header :: "bytes \<Rightarrow> u64 \<Rightarrow> prog_header" where
  "read_prog_header m a =
     \<lparr>ph_type = ucast (load_le m a 4), ph_flags = ucast (load_le m (a + 4) 4), ph_offset = load_le m (a + 8) 8,
      ph_va = load_le m (a + 16) 8, ph_file_size = load_le m (a + 32) 8, ph_mem_size = load_le m (a + 40) 8\<rparr>"

text \<open>An access to the binary outside the memory faults; there is no manager then, so the handler
  stops the machine.\<close>

definition in_dram :: "u64 \<Rightarrow> u64 \<Rightarrow> bool" where
  "in_dram a n \<longleftrightarrow> DRAM_BEGIN_VA \<le> a \<and> a \<le> DRAM_END_VA \<and> n \<le> DRAM_END_VA - a"

section \<open>Segments\<close>

text \<open>How much of the page at \<open>p_va\<close> is to be filled from \<open>to_begin\<close>, and at which offset.\<close>

definition chunk_size :: "u64 \<Rightarrow> u64 \<Rightarrow> u64 \<Rightarrow> u64" where
  "chunk_size to_begin to_end p_va =
     (let size = PAGE_SIZE - (to_begin - p_va); p_next = p_va + PAGE_SIZE
      in if to_end < p_next then size - (p_next - to_end) else size)"

text \<open>
  The loop that copies the file part. It gives \<open>None\<close> when memory runs out and otherwise the
  next address, the next page and the page filled last.
\<close>

partial_function (option) copy_text_loop ::
  "u64 \<Rightarrow> u32 \<Rightarrow> u64 \<Rightarrow> u64 \<Rightarrow> u64 \<Rightarrow> u64 \<Rightarrow> nat option \<Rightarrow> 'z ksched_scheme \<Rightarrow>
     ((u64 \<times> u64 \<times> nat option) option \<times> 'z ksched_scheme) exec" where
  "copy_text_loop gpt flags from_begin to_begin to_end p_va page s =
     (if to_begin < to_end then
        bind_exec (alloc_page_gpte gpt p_va flags s) (\<lambda>(page, s1).
          case page of
            None \<Rightarrow> ret (None, s1)
          | Some q \<Rightarrow>
              let size = chunk_size to_begin to_end p_va in
              bind_exec (page2va q) (\<lambda>va.
                if in_dram from_begin size
                then copy_text_loop gpt flags (from_begin + size) (to_begin + size) to_end (p_va + PAGE_SIZE) (Some q)
                       (s1\<lparr>mem := memcpy (mem s1) (va + (to_begin - p_va)) from_begin size\<rparr>)
                else panic))
      else ret (Some (to_begin, p_va, page), s))"

text \<open>The loop that clears the pages after it; the result tells whether memory sufficed.\<close>

partial_function (option) clear_bss_loop ::
  "u64 \<Rightarrow> u32 \<Rightarrow> u64 \<Rightarrow> u64 \<Rightarrow> u64 \<Rightarrow> 'z ksched_scheme \<Rightarrow> (bool \<times> 'z ksched_scheme) exec" where
  "clear_bss_loop gpt flags to_begin to_end p_va s =
     (if to_begin < to_end then
        bind_exec (alloc_page_gpte gpt p_va flags s) (\<lambda>(page, s1).
          case page of
            None \<Rightarrow> ret (False, s1)
          | Some q \<Rightarrow>
              let size = chunk_size to_begin to_end p_va in
              bind_exec (page2va q) (\<lambda>va.
                clear_bss_loop gpt flags (to_begin + size) to_end (p_va + PAGE_SIZE)
                  (s1\<lparr>mem := memset (mem s1) (va + (to_begin - p_va)) 0 size\<rparr>)))
      else ret (True, s))"

text \<open>The rest of the last file page is cleared; \<open>ASSERT\<close> checks where that ends.\<close>

definition clear_tail ::
  "u64 \<Rightarrow> u64 \<Rightarrow> u64 \<Rightarrow> nat option \<Rightarrow> 'z ksched_scheme \<Rightarrow> (u64 \<times> 'z ksched_scheme) exec" where
  "clear_tail to_begin to_end p_va page s =
     (case page of
        None \<Rightarrow> null_deref
      | Some q \<Rightarrow>
          let p_off = to_begin + PAGE_SIZE - p_va;
              size = (if to_end < p_va then PAGE_SIZE - p_off - (p_va - to_end) else PAGE_SIZE - p_off) in
          bind_exec (page2va q) (\<lambda>va.
            let s1 = s\<lparr>mem := memset (mem s) (va + p_off) 0 size\<rparr>; to_begin' = to_begin + size in
            assert_then ((to_end < p_va \<and> to_begin' = to_end) \<or> (to_end \<ge> p_va \<and> to_begin' = p_va))
              (ret (to_begin', s1))))"

definition load_bss ::
  "u64 \<Rightarrow> u32 \<Rightarrow> u64 \<Rightarrow> u64 \<Rightarrow> u64 \<Rightarrow> nat option \<Rightarrow> 'z ksched_scheme \<Rightarrow> (bool \<times> 'z ksched_scheme) exec" where
  "load_bss gpt flags to_begin to_end p_va page s =
     (if to_begin < p_va then
        if to_begin = to_end then ret (True, s)
        else bind_exec (clear_tail to_begin to_end p_va page s) (\<lambda>(b, s1). clear_bss_loop gpt flags b to_end p_va s1)
      else clear_bss_loop gpt flags to_begin to_end p_va s)"

definition seg_vm_flags :: "u32 \<Rightarrow> prog_header \<Rightarrow> u32" where
  "seg_vm_flags acc ph =
     (let f1 = (if ph_flags ph AND ELF_PF_X \<noteq> 0 then acc OR VMA_EXEC else acc);
          f2 = (if ph_flags ph AND ELF_PF_W \<noteq> 0 then f1 OR VMA_WRITE else f1)
      in if ph_flags ph AND ELF_PF_R \<noteq> 0 then f2 OR VMA_READ else f2)"

definition seg_pte_flags :: "u32 \<Rightarrow> u32" where
  "seg_pte_flags acc =
     (let f0 = ucast (PTE_U OR PTE_V);
          f1 = (if acc AND VMA_READ \<noteq> 0 then f0 OR ucast PTE_R else f0);
          f2 = (if acc AND VMA_WRITE \<noteq> 0 then f1 OR ucast (PTE_W OR PTE_R) else f1)
      in if acc AND VMA_EXEC \<noteq> 0 then f2 OR ucast PTE_X else f2)"

text \<open>One segment; the first result is the error number, 0 for success. The header is passed by value:
  the pages written to are not those of the binary.\<close>

definition load_segment ::
  "u64 \<Rightarrow> u64 \<Rightarrow> prog_header \<Rightarrow> u32 \<Rightarrow> 'z ksched_scheme \<Rightarrow> (int \<times> 'z ksched_scheme) exec" where
  "load_segment vmm bin ph acc s =
     bind_exec (vm_map (Some vmm) (ph_va ph) (ph_mem_size ph) acc s) (\<lambda>(err, _, s1).
       if err \<noteq> 0 then ret (err, s1)
       else
         let gpt = vmm_gpt (vmms s1 vmm); flags = seg_pte_flags acc in
         bind_exec
           (copy_text_loop gpt flags (bin + ph_offset ph) (ph_va ph) (ph_va ph + ph_file_size ph)
              (rounddown (ph_va ph) PAGE_SIZE) None s1) (\<lambda>(r, s2).
           case r of
             None \<Rightarrow> ret (- E_NO_MEM, s2)
           | Some (to_begin, p_va, page) \<Rightarrow>
               bind_exec (load_bss gpt flags to_begin (ph_va ph + ph_mem_size ph) p_va page s2) (\<lambda>(ok, s3).
                 ret (if ok then 0 else - E_NO_MEM, s3))))"

text \<open>The loop over the \<open>n\<close> program headers from \<open>prog\<close> on. \<open>vm_flags\<close> is carried along.\<close>

fun load_segments :: "u64 \<Rightarrow> u64 \<Rightarrow> nat \<Rightarrow> u64 \<Rightarrow> u32 \<Rightarrow> 'z ksched_scheme \<Rightarrow> (int \<times> 'z ksched_scheme) exec" where
  "load_segments vmm bin 0 prog acc s = ret (0, s)"
| "load_segments vmm bin (Suc n) prog acc s =
     (if \<not> in_dram prog PROG_HEADER_SIZE then panic
      else
        let ph = read_prog_header (mem s) prog in
        if ph_type ph \<noteq> ELF_PT_LOAD then load_segments vmm bin n (prog + PROG_HEADER_SIZE) acc s
        else if ph_file_size ph > ph_mem_size ph then ret (- E_INVAL_ELF, s)
        else
          let acc' = seg_vm_flags acc ph in
          bind_exec (load_segment vmm bin ph acc' s) (\<lambda>(err, s1).
            if err \<noteq> 0 then ret (err, s1)
            else load_segments vmm bin n (prog + PROG_HEADER_SIZE) acc' s1))"

section \<open>load_bin and do_execve\<close>

text \<open>The pages for the top of the user stack.\<close>

fun stack_pages :: "u64 \<Rightarrow> nat \<Rightarrow> 'z ksched_scheme \<Rightarrow> 'z ksched_scheme exec" where
  "stack_pages gpt 0 s = ret s"
| "stack_pages gpt (Suc k) s =
     bind_exec (stack_pages gpt k s) (\<lambda>s1.
     bind_exec (alloc_page_gpte gpt (USER_STACK_END - of_nat (Suc k) * PAGE_SIZE) (ucast PTE_USER) s1) (\<lambda>(page, s2).
       assert_then (page \<noteq> None) (ret s2)))"

definition enter_program :: "u64 \<Rightarrow> u64 \<Rightarrow> 'z ksched_scheme \<Rightarrow> 'z ksched_scheme exec" where
  "enter_program vmm entry s =
     (let s1 = use_vmm (curr_proc s) vmm s in
      bind_exec (va2pa (vmm_gpt (vmms s1 vmm))) (\<lambda>pa.
        let s2 = write_satp pa s1 in
        case p_tf (curr_pcb s2) of
          None \<Rightarrow> null_deref
        | Some a \<Rightarrow>
            ret (s2\<lparr>tfs := (tfs s2)(a :=
              \<lparr>tf_gpr = (\<lambda>_. 0)(Sp := USER_STACK_END),
               tf_sstatus = tf_sstatus (tfs s2 a) AND NOT (SSTATUS_SPP OR SSTATUS_SPIE),
               tf_sepc = entry, tf_stval = 0, tf_scause = 0\<rparr>)\<rparr>)))"

definition load_bin :: "u64 \<Rightarrow> 'z ksched_scheme \<Rightarrow> (int \<times> 'z ksched_scheme) exec" where
  "load_bin bin s =
     (if p_vmm (curr_pcb s) \<noteq> None then panic
      else
        bind_exec (init_vmm s) (\<lambda>(vmm, s1).
          case vmm of
            None \<Rightarrow> ret (- E_NO_MEM, s1)
          | Some v \<Rightarrow>
              bind_exec (alloc_gpt v s1) (\<lambda>(err, s2).
                if err \<noteq> 0 then bind_exec (del_vmm v s2) (\<lambda>s3. ret (- E_NO_MEM, s3))
                else if \<not> in_dram bin ELF_HEADER_SIZE then panic
                else
                  let elf = read_elf_header (mem s2) bin in
                  if e_magic elf \<noteq> ELF_MAGIC then
                    bind_exec (free_gpt v s2) (\<lambda>s3. bind_exec (del_vmm v s3) (\<lambda>s4. ret (- E_INVAL_ELF, s4)))
                  else
                    bind_exec (load_segments v bin (unat (e_phnum elf)) (bin + e_phoff elf) 0 s2) (\<lambda>(err, s3).
                      if err \<noteq> 0 then bind_exec (drop_vmm v s3) (\<lambda>s4. ret (err, s4))
                      else
                        bind_exec (vm_map (Some v) USER_STACK_BEGIN USER_STACK_SIZE (VMA_READ OR VMA_WRITE OR VMA_STACK) s3) (\<lambda>(err, _, s4).
                          if err \<noteq> 0 then bind_exec (drop_vmm v s4) (\<lambda>s5. ret (- E_NO_MEM, s5))
                          else
                            bind_exec (stack_pages (vmm_gpt (vmms s4 v)) 4 s4) (\<lambda>s5.
                            bind_exec (enter_program v (e_entry (read_elf_header (mem s5) bin)) s5) (\<lambda>s6. ret (0, s6))))))))"

text \<open>\<open>Inr Gone\<close>: the program could not be loaded and the process has exited.\<close>

definition do_execve :: "u64 \<Rightarrow> u64 \<Rightarrow> u64 \<Rightarrow> 'z ksched_scheme \<Rightarrow> ((int + blocked) \<times> 'z ksched_scheme) exec" where
  "do_execve name len bin s =
     bind_exec (check_vmm (p_vmm (curr_pcb s)) name len False s) (\<lambda>(ok, s1).
       if \<not> ok then ret (Inl (- E_INVAL), s1)
       else
         bind_exec (user_str (PROC_NAME_LEN + 1) name s1) (\<lambda>(temp_name, s2).
         bind_exec
           (case p_vmm (curr_pcb s2) of
              None \<Rightarrow> ret s2
            | Some vmm \<Rightarrow> leave_vmm vmm (kput (lit ''vmm != NULL'' @ [10]) s2)) (\<lambda>s3.
         bind_exec (load_bin bin s3) (\<lambda>(r, s4).
           if r \<noteq> 0 then bind_exec (do_exit r s4) (\<lambda>s5. ret (Inr Gone, s5))
           else if length temp_name \<ge> PROC_NAME_LEN then overflow
           else ret (Inl 0, upd_proc (curr_proc s4) (\<lambda>q. q\<lparr>p_name := temp_name\<rparr>) s4)))))"

end
