(* ===== verification/Syscall_Trap.thy ===== *)
theory Syscall_Trap
  imports Exec_Load
begin

text \<open>
  Traps and system calls: \<open>kernel/trap/trap.c\<close>, \<open>kernel/syscall/syscall.c\<close>, the numbers of
  \<open>lib/unistd.h\<close> and the stubs of \<open>user/lib/syscall.c\<close>. A trap whose system call gives up the
  processor leaves a record of how to go on, and \<open>trap_resume\<close> goes on. Local structs of the
  kernel functions lie at the address \<open>loc\<close> on the kernel stack.
\<close>

unbundle bit_operations_syntax

section \<open>Numbers (unistd.h, trap.h)\<close>

definition SYS_EXIT :: int where [const_defs]: "SYS_EXIT = 1"
definition SYS_FORK :: int where [const_defs]: "SYS_FORK = 2"
definition SYS_WAIT :: int where [const_defs]: "SYS_WAIT = 3"
definition SYS_EXEC :: int where [const_defs]: "SYS_EXEC = 4"
definition SYS_YIELD :: int where [const_defs]: "SYS_YIELD = 10"
definition SYS_SLEEP :: int where [const_defs]: "SYS_SLEEP = 11"
definition SYS_KILL :: int where [const_defs]: "SYS_KILL = 12"
definition SYS_GETTIME :: int where [const_defs]: "SYS_GETTIME = 17"
definition SYS_GETPID :: int where [const_defs]: "SYS_GETPID = 18"
definition SYS_PUTC :: int where [const_defs]: "SYS_PUTC = 30"
definition SYS_SET_PRIORITY :: int where [const_defs]: "SYS_SET_PRIORITY = 31"
definition EBREAK_MAGIC :: u64 where [const_defs]: "EBREAK_MAGIC = 0x7FF"

text \<open>The conversion of a register to \<open>i32\<close>, and of an \<open>i32\<close> to a register.\<close>

definition to_i32 :: "u64 \<Rightarrow> int" where
  "to_i32 x = sint (ucast x :: u32)"

definition of_i32 :: "int \<Rightarrow> u64" where
  "of_i32 i = word_of_int i"

section \<open>System calls (syscall.c)\<close>

type_synonym 'z handler = "u64 \<Rightarrow> (nat \<Rightarrow> u64) \<Rightarrow> 'z ksched_scheme \<Rightarrow> ((int + blocked) \<times> 'z ksched_scheme) exec"

definition sys_exit :: "'z handler" where
  "sys_exit loc arg s = bind_exec (do_exit (to_i32 (arg 0)) s) (\<lambda>s1. ret (Inr Gone, s1))"

definition sys_exec :: "'z handler" where
  "sys_exec loc arg s = do_execve (arg 0) (arg 1) (arg 2) s"

definition sys_fork :: "'z handler" where
  "sys_fork loc arg s =
     (case p_tf (curr_pcb s) of
        None \<Rightarrow> null_deref
      | Some a \<Rightarrow> do_fork (tf_gpr (tfs s a) Sp) (tfs s a) 0 loc s)"

definition sys_wait :: "'z handler" where
  "sys_wait loc arg s = do_wait (to_i32 (arg 0)) (arg 1) s"

definition sys_yield :: "'z handler" where
  "sys_yield loc arg s = (case do_yield s of (r, s1) \<Rightarrow> ret (Inl r, s1))"

definition sys_kill :: "'z handler" where
  "sys_kill loc arg s = bind_exec (do_kill (to_i32 (arg 0)) s) (\<lambda>(r, s1). ret (Inl r, s1))"

definition sys_getpid :: "'z handler" where
  "sys_getpid loc arg s = ret (Inl (p_pid (curr_pcb s)), s)"

definition sys_putc :: "'z handler" where
  "sys_putc loc arg s = ret (Inl 0, kput [ucast (arg 0)] s)"

definition sys_gettime :: "'z handler" where
  "sys_gettime loc arg s = ret (Inl (to_i32 (g_ticks s * 10)), s)"

definition sys_set_priority :: "'z handler" where
  "sys_set_priority loc arg s = ret (Inl 0, set_priority (ucast (arg 0)) s)"

definition sys_sleep :: "'z handler" where
  "sys_sleep loc arg s = do_sleep (ucast (arg 0)) loc s"

text \<open>The initialisers of the table \<open>syscalls\<close>; the entries between them are null.\<close>

definition syscalls :: "int \<Rightarrow> 'z handler option" where
  "syscalls =
     [SYS_EXIT \<mapsto> sys_exit, SYS_FORK \<mapsto> sys_fork, SYS_WAIT \<mapsto> sys_wait, SYS_EXEC \<mapsto> sys_exec,
      SYS_YIELD \<mapsto> sys_yield, SYS_KILL \<mapsto> sys_kill, SYS_GETPID \<mapsto> sys_getpid, SYS_PUTC \<mapsto> sys_putc,
      SYS_GETTIME \<mapsto> sys_gettime, SYS_SET_PRIORITY \<mapsto> sys_set_priority, SYS_SLEEP \<mapsto> sys_sleep]"

text \<open>The length of the table is one more than its largest index; a read outside is undefined.\<close>

definition num_syscalls :: int where
  "num_syscalls =
     fold max [SYS_EXIT, SYS_FORK, SYS_WAIT, SYS_EXEC, SYS_YIELD, SYS_KILL, SYS_GETPID, SYS_PUTC, SYS_GETTIME,
       SYS_SET_PRIORITY, SYS_SLEEP] 0 + 1"

definition syscall_entry :: "int \<Rightarrow> 'z handler option exec" where
  "syscall_entry num = (if 0 \<le> num \<and> num < num_syscalls then ret (syscalls num) else overflow)"

definition syscall_args :: "(gpr \<Rightarrow> u64) \<Rightarrow> nat \<Rightarrow> u64" where
  "syscall_args r i = r ([A1, A2, A3, A4, A5] ! i)"

definition set_a0 :: "u64 \<Rightarrow> int \<Rightarrow> 'z ksched_scheme \<Rightarrow> 'z ksched_scheme" where
  "set_a0 a r s = s\<lparr>tfs := (tfs s)(a := (tfs s a)\<lparr>tf_gpr := (tf_gpr (tfs s a))(A0 := of_i32 r)\<rparr>)\<rparr>"

text \<open>The result: the frame that gets the return value, and what the call still waits for.\<close>

definition syscall :: "u64 \<Rightarrow> 'z ksched_scheme \<Rightarrow> ((u64 \<times> blocked) option \<times> 'z ksched_scheme) exec" where
  "syscall loc s =
     (case p_tf (curr_pcb s) of
        None \<Rightarrow> null_deref
      | Some a \<Rightarrow>
          let r = tf_gpr (tfs s a); num = to_i32 (r A0) in
          if num \<ge> 0 \<and> num < num_syscalls then
            bind_exec (syscall_entry num) (\<lambda>entry.
              case entry of
                None \<Rightarrow> panic
              | Some f \<Rightarrow>
                  bind_exec (f loc (syscall_args r) s) (\<lambda>(res, s1).
                    case res of
                      Inl v \<Rightarrow> ret (None, set_a0 a v s1)
                    | Inr b \<Rightarrow> ret (Some (a, b), s1)))
          else panic)"

definition resume_call :: "blocked \<Rightarrow> 'z ksched_scheme \<Rightarrow> ((int + blocked) \<times> 'z ksched_scheme) exec" where
  "resume_call b s =
     (case b of
        InFork p vmm stack tf w \<Rightarrow> bind_exec (do_fork_resume p vmm stack tf w s) (\<lambda>(r, s1). ret (Inl r, s1))
      | InWait pid code \<Rightarrow> do_wait_resume pid code s
      | InSleep t \<Rightarrow> (case do_sleep_resume t s of (r, s1) \<Rightarrow> ret (Inl r, s1))
      | Gone \<Rightarrow> None)"

section \<open>Printing a frame (trap.c)\<close>

definition reg_line :: "string \<Rightarrow> u64 \<Rightarrow> u8 list" where
  "reg_line name v = 9 # lit name @ 9 # lit ''0x'' @ num_text 16 (unat v) @ [10]"

definition print_registers :: "(gpr \<Rightarrow> u64) \<Rightarrow> 'z ksched_scheme \<Rightarrow> 'z ksched_scheme" where
  "print_registers r s =
     kput (concat (map (\<lambda>(name, g). reg_line name (r g))
       [(''zero'', Zero), (''ra'', Ra), (''sp'', Sp), (''gp'', Gp), (''tp'', Tp), (''t0'', T0), (''t1'', T1),
        (''t2'', T2), (''s0'', S0), (''s1'', S1), (''a0'', A0), (''a1'', A1), (''a2'', A2), (''a3'', A3),
        (''a4'', A4), (''a5'', A5), (''a6'', A6), (''a7'', A7), (''s2'', S2), (''s3'', S3), (''s4'', S4),
        (''s5'', S5), (''s6'', S6), (''s7'', S7), (''s8'', S8), (''s9'', S9), (''s10'', S10), (''s11'', S11),
        (''t3'', T3), (''t4'', T4), (''t5'', T5), (''t6'', T6)]) @ [10]) s"

definition print_trapframe :: "u64 \<Rightarrow> 'z ksched_scheme \<Rightarrow> 'z ksched_scheme" where
  "print_trapframe a s =
     (let tf = tfs s a;
          s1 = kput (lit ''trapframe at 0x'' @ num_text 16 (unat a) @ [10]) s;
          s2 = print_registers (tf_gpr tf) s1
      in kput (reg_line ''sstatus'' (tf_sstatus tf) @ reg_line ''sepc'' (tf_sepc tf) @
               reg_line ''stval'' (tf_stval tf) @ reg_line ''scause'' (tf_scause tf) @ [10]) s2)"

section \<open>Traps (trap.c)\<close>

text \<open>\<open>set_next_timer\<close> only programs the firmware timer.\<close>

definition interrupt_handler :: "u64 \<Rightarrow> 'z ksched_scheme \<Rightarrow> 'z ksched_scheme exec" where
  "interrupt_handler a s =
     (let cause = tf_scause (tfs s a) in
      if cause = SCAUSE_SSI then ret (kput (lit ''Supervisor software interrupt'' @ [10]) s)
      else if cause = SCAUSE_STI then run_timers (s\<lparr>g_ticks := g_ticks s + 1\<rparr>)
      else if cause = SCAUSE_SEI then ret (kput (lit ''Supervisor external interrupt'' @ [10]) s)
      else ret (print_trapframe a s))"

definition skip_insn :: "u64 \<Rightarrow> u64 \<Rightarrow> 'z ksched_scheme \<Rightarrow> 'z ksched_scheme" where
  "skip_insn a n s = s\<lparr>tfs := (tfs s)(a := (tfs s a)\<lparr>tf_sepc := tf_sepc (tfs s a) + n\<rparr>)\<rparr>"

definition report :: "string \<Rightarrow> 'z ksched_scheme \<Rightarrow> ((u64 \<times> blocked) option \<times> 'z ksched_scheme) exec" where
  "report msg s = ret (None, kput (lit msg @ [10]) s)"

definition faulted :: "string \<Rightarrow> u64 \<Rightarrow> 'z ksched_scheme \<Rightarrow> ((u64 \<times> blocked) option \<times> 'z ksched_scheme) exec" where
  "faulted msg a s = bind_exec (fault_case msg (tfs s a) s) (\<lambda>s1. ret (None, s1))"

definition exception_handler ::
  "u64 \<Rightarrow> u64 \<Rightarrow> 'z ksched_scheme \<Rightarrow> ((u64 \<times> blocked) option \<times> 'z ksched_scheme) exec" where
  "exception_handler loc a s =
     (let cause = tf_scause (tfs s a) in
      if cause = SCAUSE_IAM then report ''Instruction address misaligned'' s
      else if cause = SCAUSE_IAF then report ''Instruction access fault'' s
      else if cause = SCAUSE_II then report ''Illegal instruction'' s
      else if cause = SCAUSE_B then
        let s1 = kput (lit ''Breakpoint'' @ [10] @ lit ''ebreak caught at 0x'' @
                   num_text 16 (unat (tf_sepc (tfs s a))) @ [10, 10]) s;
            s2 = skip_insn a 2 s1
        in if tf_gpr (tfs s2 a) A7 = EBREAK_MAGIC then syscall loc s2 else ret (None, s2)
      else if cause = SCAUSE_LAM then report ''Load address misaligned'' s
      else if cause = SCAUSE_LAF then faulted ''Load access fault'' a s
      else if cause = SCAUSE_SAM then report ''Store/AMO address misaligned'' s
      else if cause = SCAUSE_SAF then faulted ''Store/AMO access fault'' a s
      else if cause = SCAUSE_ECFU then syscall loc (skip_insn a 4 s)
      else if cause = SCAUSE_ECFS then
        syscall loc (skip_insn a 4 (kput (lit ''Environment call from S-mode'' @ [10]) s))
      else if cause = SCAUSE_IPF then faulted ''Instruction page fault'' a s
      else if cause = SCAUSE_LPF then faulted ''Load page fault'' a s
      else if cause = SCAUSE_SPF then faulted ''Store/AMO page fault'' a s
      else ret (None, print_trapframe a s))"

definition trap_dispatch ::
  "u64 \<Rightarrow> u64 \<Rightarrow> 'z ksched_scheme \<Rightarrow> ((u64 \<times> blocked) option \<times> 'z ksched_scheme) exec" where
  "trap_dispatch loc a s =
     (if tf_scause (tfs s a) AND 0x8000000000000000 \<noteq> 0
      then bind_exec (interrupt_handler a s) (\<lambda>s1. ret (None, s1))
      else exception_handler loc a s)"

text \<open>A trap that waits inside its system call, and the local variables of \<open>trap\<close>.\<close>

record waiting =
  wt_call :: blocked
  wt_frame :: u64
  wt_old_tf :: "u64 option"
  wt_kernel :: bool

text \<open>\<open>trap\<close> after the dispatch. \<open>do_exit\<close> does not return.\<close>

definition trap_finish :: "u64 option \<Rightarrow> bool \<Rightarrow> 'z ksched_scheme \<Rightarrow> 'z ksched_scheme exec" where
  "trap_finish old_tf is_kernel_trap s =
     (let s1 = upd_proc (curr_proc s) (\<lambda>q. q\<lparr>p_tf := old_tf\<rparr>) s in
      if is_kernel_trap then ret s1
      else if p_flags (curr_pcb s1) AND PROC_FLAG_EXIT \<noteq> 0 then do_exit (- E_KILLED) s1
      else if p_need_reschedule (curr_pcb s1) then schedule s1
      else ret s1)"

definition trap_return ::
  "u64 option \<Rightarrow> bool \<Rightarrow> (u64 \<times> blocked) option \<times> 'z ksched_scheme \<Rightarrow> (waiting option \<times> 'z ksched_scheme) exec" where
  "trap_return old_tf is_kernel_trap r =
     (case r of
        (None, s) \<Rightarrow> bind_exec (trap_finish old_tf is_kernel_trap s) (\<lambda>s1. ret (None, s1))
      | (Some (a, b), s) \<Rightarrow>
          ret (Some \<lparr>wt_call = b, wt_frame = a, wt_old_tf = old_tf, wt_kernel = is_kernel_trap\<rparr>, s))"

definition trap :: "u64 \<Rightarrow> u64 \<Rightarrow> 'z ksched_scheme \<Rightarrow> (waiting option \<times> 'z ksched_scheme) exec" where
  "trap loc a s =
     (if curr_proc s \<noteq> 0 then
        let old_tf = p_tf (curr_pcb s);
            s1 = upd_proc (curr_proc s) (\<lambda>q. q\<lparr>p_tf := Some a\<rparr>) s;
            is_kernel_trap = check_kernel_trap (tfs s1 a)
        in bind_exec (trap_dispatch loc a s1) (trap_return old_tf is_kernel_trap)
      else bind_exec (trap_dispatch loc a s) (\<lambda>(_, s1). ret (None, s1)))"

definition trap_resume :: "waiting \<Rightarrow> 'z ksched_scheme \<Rightarrow> (waiting option \<times> 'z ksched_scheme) exec" where
  "trap_resume w s =
     bind_exec (resume_call (wt_call w) s) (\<lambda>(res, s1).
       trap_return (wt_old_tf w) (wt_kernel w)
         (case res of Inl v \<Rightarrow> (None, set_a0 (wt_frame w) v s1) | Inr b \<Rightarrow> (Some (wt_frame w, b), s1)))"

section \<open>The stubs of user programs (user/lib/syscall.c)\<close>

text \<open>
  The registers at \<open>ecall\<close>. \<open>va_arg\<close> gives the arguments that were passed; what it reads beyond
  them is undefined in C and the parameter \<open>junk\<close> here.
\<close>

definition MAX_SYSCALL_ARGS :: nat where [const_defs]: "MAX_SYSCALL_ARGS = 5"

definition user_syscall :: "(nat \<Rightarrow> u64) \<Rightarrow> int \<Rightarrow> u64 list \<Rightarrow> (gpr \<Rightarrow> u64) \<Rightarrow> gpr \<Rightarrow> u64" where
  "user_syscall junk num args r =
     (let a = (\<lambda>i. if i < length args then args ! i else junk i)
      in r(A0 := of_i32 num, A1 := a 0, A2 := a 1, A3 := a 2, A4 := a 3, A5 := a 4))"

definition user_yield where "user_yield junk = user_syscall junk SYS_YIELD []"
definition user_exit where "user_exit junk status = user_syscall junk SYS_EXIT [status]"
definition user_fork where "user_fork junk = user_syscall junk SYS_FORK []"
definition user_wait where "user_wait junk pid store = user_syscall junk SYS_WAIT [of_i32 pid, store]"
definition user_putc where "user_putc junk c = user_syscall junk SYS_PUTC [c]"
definition user_getpid where "user_getpid junk = user_syscall junk SYS_GETPID []"
definition user_kill where "user_kill junk pid = user_syscall junk SYS_KILL [of_i32 pid]"
definition user_gettime where "user_gettime junk = user_syscall junk SYS_GETTIME []"
definition user_set_priority where "user_set_priority junk p = user_syscall junk SYS_SET_PRIORITY [p]"
definition user_sleep where "user_sleep junk t = user_syscall junk SYS_SLEEP [t]"

end
