(* ===== verification/Monitor.thy ===== *)
theory Monitor
  imports Semaphore Phys_Mem
begin

text \<open>
  The monitors of \<open>kernel/sync/monitor.c\<close> on top of the semaphores. A call that blocks is cut
  there: it returns \<open>False\<close>, and the function ending in \<open>_resume\<close> is the rest of the C function.
  The semaphores are named by their addresses inside the C structs.
\<close>

section \<open>State\<close>

text \<open>\<open>sizeof(struct semaphore)\<close>, \<open>sizeof(struct cond)\<close> on a 64-bit machine.\<close>

definition SEM_SIZE :: u64 where [const_defs]: "SEM_SIZE = 24"
definition COND_SIZE :: u64 where [const_defs]: "COND_SIZE = 40"

record cond_var =
  cv_count :: int
  cv_owner :: u64

record monitor =
  mon_next_count :: int
  mon_cond :: u64

record msched = ssched +
  conds :: "u64 \<Rightarrow> cond_var"
  monitors :: "u64 \<Rightarrow> monitor"

abbreviation mon_mutex :: "u64 \<Rightarrow> u64" where "mon_mutex m \<equiv> m"
abbreviation mon_next :: "u64 \<Rightarrow> u64" where "mon_next m \<equiv> m + SEM_SIZE"
abbreviation cond_sem :: "u64 \<Rightarrow> u64" where "cond_sem c \<equiv> c"

definition upd_cond :: "u64 \<Rightarrow> (cond_var \<Rightarrow> cond_var) \<Rightarrow> 'z msched_scheme \<Rightarrow> 'z msched_scheme" where
  "upd_cond c f s = s\<lparr>conds := (conds s)(c := f (conds s c))\<rparr>"

definition upd_monitor :: "u64 \<Rightarrow> (monitor \<Rightarrow> monitor) \<Rightarrow> 'z msched_scheme \<Rightarrow> 'z msched_scheme" where
  "upd_monitor m f s = s\<lparr>monitors := (monitors s)(m := f (monitors s m))\<rparr>"

definition add_next_count :: "u64 \<Rightarrow> int \<Rightarrow> 'z msched_scheme \<Rightarrow> 'z msched_scheme" where
  "add_next_count m d s = upd_monitor m (\<lambda>x. x\<lparr>mon_next_count := mon_next_count x + d\<rparr>) s"

definition add_cond_count :: "u64 \<Rightarrow> int \<Rightarrow> 'z msched_scheme \<Rightarrow> 'z msched_scheme" where
  "add_cond_count c d s = upd_cond c (\<lambda>x. x\<lparr>cv_count := cv_count x + d\<rparr>) s"

section \<open>Operations\<close>

text \<open>The loop of \<open>init_monitor\<close> over the first \<open>k\<close> condition variables.\<close>

fun init_conds :: "u64 \<Rightarrow> u64 \<Rightarrow> nat \<Rightarrow> 'z msched_scheme \<Rightarrow> 'z msched_scheme" where
  "init_conds m base 0 s = s"
| "init_conds m base (Suc k) s =
     (let c = base + of_nat k * COND_SIZE;
          s1 = upd_cond c (\<lambda>x. x\<lparr>cv_count := 0\<rparr>) (init_conds m base k s);
          s2 = init_sem (cond_sem c) 0 s1
      in upd_cond c (\<lambda>x. x\<lparr>cv_owner := m\<rparr>) s2)"

definition init_monitor :: "u64 \<Rightarrow> u64 \<Rightarrow> 'z msched_scheme \<Rightarrow> 'z msched_scheme exec" where
  "init_monitor m num_cond s =
     assert_then (num_cond > 0)
       (let s1 = upd_monitor m (\<lambda>_. \<lparr>mon_next_count = 0, mon_cond = 0\<rparr>) s;
            s2 = init_sem (mon_next m) 0 (init_sem (mon_mutex m) 1 s1) in
        bind_exec (malloc (COND_SIZE * num_cond) s2) (\<lambda>(base, s3).
          let s4 = upd_monitor m (\<lambda>x. x\<lparr>mon_cond := base\<rparr>) s3
          in assert_then (base \<noteq> 0) (ret (init_conds m base (unat num_cond) s4))))"

definition signal_cond :: "u64 \<Rightarrow> u64 \<Rightarrow> 'z msched_scheme \<Rightarrow> (bool \<times> 'z msched_scheme) exec" where
  "signal_cond c w s =
     (if cv_count (conds s c) > 0 then
        let m = cv_owner (conds s c) in
        bind_exec (up (cond_sem c) (add_next_count m 1 s)) (\<lambda>s1.
        bind_exec (down (mon_next m) w s1) (\<lambda>(got, s2).
          ret (got, if got then add_next_count m (- 1) s2 else s2)))
      else ret (True, s))"

definition signal_cond_resume :: "u64 \<Rightarrow> u64 \<Rightarrow> 'z msched_scheme \<Rightarrow> 'z msched_scheme exec" where
  "signal_cond_resume c w s =
     (let m = cv_owner (conds s c)
      in bind_exec (down_resume (mon_next m) w s) (\<lambda>s1. ret (add_next_count m (- 1) s1)))"

text \<open>Leaving the monitor: a process that gave way in \<open>signal_cond\<close> goes first.\<close>

definition leave_monitor :: "u64 \<Rightarrow> 'z msched_scheme \<Rightarrow> 'z msched_scheme exec" where
  "leave_monitor m s = up (if mon_next_count (monitors s m) > 0 then mon_next m else mon_mutex m) s"

definition wait_cond :: "u64 \<Rightarrow> u64 \<Rightarrow> 'z msched_scheme \<Rightarrow> (bool \<times> 'z msched_scheme) exec" where
  "wait_cond c w s =
     (let s1 = add_cond_count c 1 s in
      bind_exec (leave_monitor (cv_owner (conds s1 c)) s1) (\<lambda>s2.
      bind_exec (down (cond_sem c) w s2) (\<lambda>(got, s3).
        ret (got, if got then add_cond_count c (- 1) s3 else s3))))"

definition wait_cond_resume :: "u64 \<Rightarrow> u64 \<Rightarrow> 'z msched_scheme \<Rightarrow> 'z msched_scheme exec" where
  "wait_cond_resume c w s = bind_exec (down_resume (cond_sem c) w s) (\<lambda>s1. ret (add_cond_count c (- 1) s1))"

end
