(* ===== verification/Proc_Inv.thy ===== *)
theory Proc_Inv
  imports Proc_Life
begin

text \<open>
  What the operations on processes do to the process table and the run queue together. The family
  of a kernel state depends only on the link fields and the process list, so scheduling and waking
  up leave it alone (\<open>same_family\<close>).
\<close>

section \<open>Frames\<close>

text \<open>Two states with the same process table.\<close>

definition same_links :: "pcb \<Rightarrow> pcb \<Rightarrow> bool" where
  "same_links q q' \<longleftrightarrow> p_parent q' = p_parent q \<and> p_child q' = p_child q \<and> p_younger q' = p_younger q \<and>
     p_older q' = p_older q \<and> p_pid q' = p_pid q"

definition same_family :: "'z ksched_scheme \<Rightarrow> 'z ksched_scheme \<Rightarrow> bool" where
  "same_family s s' \<longleftrightarrow> sched.more s' = sched.more s \<and> idle_proc s' = idle_proc s \<and>
     (\<forall>q. same_links (procs s q) (procs s' q))"

lemma same_links_refl [simp]: "same_links q q"
  by (simp add: same_links_def)

lemma same_family_refl [simp]: "same_family s s"
  by (simp add: same_family_def)

lemma same_family_trans: "same_family s s' \<Longrightarrow> same_family s' s'' \<Longrightarrow> same_family s s''"
  by (simp add: same_family_def same_links_def)

lemma ksched_more:
  fixes s s' :: "'z ksched_scheme"
  assumes "sched.more s' = sched.more s"
  shows "proc_links s' = proc_links s" "init_proc_ptr s' = init_proc_ptr s" "num_proc s' = num_proc s"
    "prev_pid s' = prev_pid s" "next_pid s' = next_pid s" "tfs s' = tfs s" "hash_links s' = hash_links s"
    "g_bpt s' = g_bpt s" "sym s' = sym s" "kout s' = kout s"
  using assms by (cases s; cases s'; simp)+

lemma same_familyD:
  assumes "same_family s s'"
  shows "proc_links s' = proc_links s" "init_proc_ptr s' = init_proc_ptr s" "num_proc s' = num_proc s"
    "prev_pid s' = prev_pid s" "next_pid s' = next_pid s" "idle_proc s' = idle_proc s"
    "p_parent (procs s' q) = p_parent (procs s q)" "p_child (procs s' q) = p_child (procs s q)"
    "p_younger (procs s' q) = p_younger (procs s q)" "p_older (procs s' q) = p_older (procs s q)"
    "p_pid (procs s' q) = p_pid (procs s q)"
  using assms ksched_more [of s' s] by (auto simp: same_family_def same_links_def)

lemma same_family_family:
  assumes "same_family s s'"
  shows "family s' ps K = family s ps K"
proof -
  note f = same_familyD [OF assms]
  have "kids (procs s') q xs = kids (procs s) q xs" for q xs
    using sseg_cong [of xs "procs s'" "procs s" None None] by (simp add: kids_def f)
  then show ?thesis
    by (simp add: family_def proc_rep_def f)
qed

lemma same_family_pid_inv: "same_family s s' \<Longrightarrow> pid_inv s' ps = pid_inv s ps"
  by (simp add: pid_inv_def pids_clear_def pids_def same_familyD)

lemma same_links_family: "idle_proc s' = idle_proc s \<Longrightarrow> sched.more s' = sched.more s \<Longrightarrow>
    (\<And>q. same_links (procs s q) (procs s' q)) \<Longrightarrow> same_family s s'"
  by (simp add: same_family_def)

lemma save_family: "local_intr_save s = (flag, s1) \<Longrightarrow> same_family s s1"
  using more_basics(2) [of s] by (auto simp: same_family_def local_intr_save_def intr_disable_def split: if_splits)

lemma restore_family: "same_family s (local_intr_restore flag s)"
  using more_basics(3) [of flag s] by (auto simp: same_family_def local_intr_restore_def intr_enable_def)

lemma wakeup_family:
  assumes "wakeup_proc p s = ret s'"
  shows "same_family s s'"
proof (rule same_links_family)
  obtain flag s1 where i: "local_intr_save s = (flag, s1)"
    by fastforce
  have b: "procs s1 = procs s" "idle_proc s1 = idle_proc s"
    using local_intr_sel(1,3) [of s] by (simp_all add: i)
  show "sched.more s' = sched.more s"
    by (rule wakeup_more [OF assms])
  have "\<And>a r. stride_enqueue p a = ret r \<Longrightarrow> \<exists>ts. procs r = (procs a)(p := (procs a p)\<lparr>p_time_slice := ts, p_run_queue := Some ()\<rparr>)"
    using stride_enqueue_effect(1) by blast
  then show "same_links (procs s q) (procs s' q)" for q
    using assms b by (auto simp: wakeup_proc_def i Let_def same_links_def scheduler_enqueue_def bind_exec_eq_ret
        assert_then_eq_ret split: if_splits) (force split: if_splits)+
  show "idle_proc s' = idle_proc s"
    using assms b by (auto simp: wakeup_proc_def i Let_def scheduler_enqueue_def bind_exec_eq_ret
        assert_then_eq_ret stride_enqueue_effect(4) split: if_splits)
qed

lemma wakeup_flags:
  assumes "wakeup_proc p s = ret s'"
  shows "p_flags (procs s' q) = p_flags (procs s q)"
proof -
  obtain flag s1 where i: "local_intr_save s = (flag, s1)" "procs s1 = procs s"
    using local_intr_cases [of s] by metis
  have "\<And>a r. stride_enqueue p a = ret r \<Longrightarrow> \<exists>ts. procs r = (procs a)(p := (procs a p)\<lparr>p_time_slice := ts, p_run_queue := Some ()\<rparr>)"
    using stride_enqueue_effect(1) by blast
  then show ?thesis
    using assms i(2) by (auto simp: wakeup_proc_def i(1) Let_def scheduler_enqueue_def bind_exec_eq_ret
        assert_then_eq_ret split: if_splits) (force split: if_splits)+
qed

text \<open>A process outside the table is of no concern to it.\<close>

lemma family_outside:
  assumes "family s ps K" "idle_proc s' = idle_proc s" "proc_links s' = proc_links s"
    "\<And>q. q \<in> insert (idle_proc s) (set ps) \<Longrightarrow> same_links (procs s q) (procs s' q)"
  shows "family s' ps K"
proof -
  have "kids (procs s') q (K q)" if "q \<in> insert (idle_proc s) (set ps)" for q
  proof (rule kids_cong [OF familyD(3) [OF assms(1) that]])
    show "p_child (procs s' q) = p_child (procs s q)"
      using assms(4) [OF that] by (simp add: same_links_def)
    show "p_younger (procs s' x) = p_younger (procs s x) \<and> p_older (procs s' x) = p_older (procs s x) \<and>
        p_parent (procs s' x) = p_parent (procs s x)" if x: "x \<in> set (K q)" for x
      using assms(4) [of x] familyD(4) [OF assms(1) \<open>q \<in> insert (idle_proc s) (set ps)\<close>] x
      by (auto simp: same_links_def)
  qed
  then show ?thesis
    using assms(1,2,3) by (simp add: family_def proc_rep_def)
qed

text \<open>The fields that the links are not.\<close>

definition same_data :: "pcb \<Rightarrow> pcb \<Rightarrow> bool" where
  "same_data q q' \<longleftrightarrow> p_state q' = p_state q \<and> p_wait_state q' = p_wait_state q \<and> p_pid q' = p_pid q \<and>
     p_gpt q' = p_gpt q \<and> p_vmm q' = p_vmm q \<and> p_tf q' = p_tf q \<and> p_flags q' = p_flags q \<and>
     p_exit_code q' = p_exit_code q \<and> p_stride q' = p_stride q \<and> p_priority q' = p_priority q \<and>
     p_run_queue q' = p_run_queue q \<and> p_time_slice q' = p_time_slice q"

definition links_only :: "'z ksched_scheme \<Rightarrow> 'z ksched_scheme \<Rightarrow> bool" where
  "links_only s s' \<longleftrightarrow> (\<forall>q. same_data (procs s q) (procs s' q)) \<and> run_pools s' = run_pools s \<and>
     rq_num_proc s' = rq_num_proc s \<and> rq_max_time_slice s' = rq_max_time_slice s \<and>
     rq_run_pool s' = rq_run_pool s \<and> sstatus s' = sstatus s \<and> curr_proc s' = curr_proc s \<and>
     idle_proc s' = idle_proc s \<and> init_proc_ptr s' = init_proc_ptr s \<and> prev_pid s' = prev_pid s \<and>
     next_pid s' = next_pid s"

lemma links_onlyD:
  assumes "links_only s s'"
  shows "same_rq s s'" "curr_proc s' = curr_proc s" "idle_proc s' = idle_proc s" "init_proc_ptr s' = init_proc_ptr s"
    "p_state (procs s' q) = p_state (procs s q)" "p_wait_state (procs s' q) = p_wait_state (procs s q)"
    "p_gpt (procs s' q) = p_gpt (procs s q)" "p_pid (procs s' q) = p_pid (procs s q)" "sstatus s' = sstatus s"
    "prev_pid s' = prev_pid s" "next_pid s' = next_pid s"
  using assms by (auto simp: links_only_def same_data_def same_rq_def)

lemma links_only_sched:
  assumes "links_only s s'" "sched_inv P s"
  shows "sched_inv P s'" "run_set P s' = run_set P s"
proof -
  note l = links_onlyD [OF assms(1)]
  show "sched_inv P s'"
    by (rule sched_inv_cong [OF assms(2) l(1,3,2)]) (simp_all add: l)
  show "run_set P s' = run_set P s"
    by (simp add: run_set_def l)
qed

lemma links_only_window: "links_only s s' \<Longrightarrow> stride_window w b s' A = stride_window w b s A"
  by (simp add: same_rq_window links_onlyD(1))

lemma links_only_pids: "links_only s s' \<Longrightarrow> pid_inv s' ps = pid_inv s ps"
  by (simp add: pid_inv_def pids_clear_def pids_def links_onlyD)

lemma set_links_data: "set_links p s = ret s' \<Longrightarrow> links_only s s'"
  by (auto simp: set_links_def Let_def links_only_def same_data_def upd_proc_def split: option.splits)

lemma hash_proc_sel [simp]:
  "procs (hash_proc p s) = procs s" "proc_links (hash_proc p s) = proc_links s" "idle_proc (hash_proc p s) = idle_proc s"
  "curr_proc (hash_proc p s) = curr_proc s" "num_proc (hash_proc p s) = num_proc s" "links_only s (hash_proc p s)"
  by (simp_all add: hash_proc_def Let_def links_only_def same_data_def)

section \<open>A new process enters the table\<close>

text \<open>A process that is not runnable may join the processes of the scheduler.\<close>

lemma sched_inv_fresh:
  assumes inv: "sched_inv P s" and rq: "same_rq s s'" "idle_proc s' = idle_proc s" "curr_proc s' = curr_proc s"
    and st: "\<And>q. q \<noteq> p \<Longrightarrow> p_state (procs s' q) = p_state (procs s q)" "\<And>q. q \<noteq> p \<Longrightarrow> p_gpt (procs s' q) = p_gpt (procs s q)"
    and p: "p \<notin> insert (idle_proc s) P" "p_state (procs s' p) \<noteq> PROC_RUNNABLE" "proc_ok s' p" "card P + 1 < 2 ^ 32 - 1"
  shows "sched_inv P s'" and "sched_inv (insert p P) s'"
proof -
  have ok: "proc_ok s' q" if "q \<in> insert (idle_proc s) P" for q
  proof -
    have "q \<noteq> p"
      using that p(1) by auto
    then have "proc_ok s' q = proc_ok s q"
      using rq(1) st(2) [of q] by (simp add: proc_ok_def same_rq_def)
    then show ?thesis
      using inv that by (auto simp: sched_inv_def)
  qed
  have idle: "p_state (procs s' (idle_proc s)) = p_state (procs s (idle_proc s))"
    using p(1) st(1) by auto
  have rs: "run_set P s' = run_set P s" "run_set (insert p P) s' = run_set P s"
    using p(1,2) st(1) by (auto simp: run_set_def) metis+
  show "sched_inv P s'" "sched_inv (insert p P) s'"
    using inv ok p(1,3,4) idle unfolding sched_inv_def rs rq(2,3) same_rq_facts [OF rq(1)]
    by (auto simp: card_insert_if)
qed

lemma do_fork_register_ok:
  assumes fam: "family s ps K" and pid: "pid_inv s ps" and room: "int (length ps) < MAX_PID - 1"
    and new: "p \<notin> insert (idle_proc s) (set ps)" and par: "p_parent (procs s p) = Some par" "par \<in> insert (idle_proc s) (set ps)"
    and fresh: "p_child (procs s p) = None" "p_state (procs s p) = PROC_UNINIT"
    and inv: "sched_inv (insert p (set ps)) s"
    and win: "stride_window (Suc (unat BIG_STRIDE)) b s (insert p (run_set (insert p (set ps)) s))"
  shows "\<exists>n s'. do_fork_register p s = ret (n, s') \<and> 1 \<le> n \<and> n < MAX_PID \<and> n \<notin> pids s ps \<and> p_pid (procs s' p) = n \<and>
    family s' (p # ps) (K(par := p # K par, p := [])) \<and> pid_inv s' (p # ps) \<and> sched_inv (insert p (set ps)) s' \<and>
    run_set (insert p (set ps)) s' = insert p (run_set (insert p (set ps)) s) \<and> num_proc s' = num_proc s + 1 \<and>
    sstatus s' = sstatus s"
proof -
  let ?P = "insert p (set ps)" and ?K = "K(par := p # K par, p := [])"
  obtain flag s1 where i: "local_intr_save s = (flag, s1)" "same_rq s s1" "procs s1 = procs s"
      "idle_proc s1 = idle_proc s" "curr_proc s1 = curr_proc s"
    by (rule local_intr_cases [of s])
  note f1 = save_family [OF i(1)]
  obtain n nextp where n: "alloc_pid s1 = ret (n, s1\<lparr>prev_pid := n, next_pid := nextp\<rparr>)" "1 \<le> n" "n < nextp"
      "nextp \<le> MAX_PID" "pids_clear s1 ps n nextp"
    using alloc_pid_ok [of s1 ps] fam pid room
    unfolding same_family_family [OF f1, symmetric] same_family_pid_inv [OF f1, symmetric] by (auto dest: familyD(1))
  define s3 where "s3 = hash_proc p (upd_proc p (\<lambda>q. q\<lparr>p_pid := n\<rparr>) (s1\<lparr>prev_pid := n, next_pid := nextp\<rparr>))"
  have s3: "procs s3 = (procs s)(p := (procs s p)\<lparr>p_pid := n\<rparr>)" "idle_proc s3 = idle_proc s" "curr_proc s3 = curr_proc s"
      "proc_links s3 = proc_links s" "num_proc s3 = num_proc s" "same_rq s s3" "sstatus s3 = sstatus s1"
    using i same_familyD(1,3) [OF f1] by (simp_all add: s3_def upd_proc_def same_rq_def hash_proc_def Let_def)
  have fam3: "family s3 ps K"
    using new by (intro family_outside [OF fam s3(2,4)]) (auto simp: s3(1))
  have pid3: "pid_inv s3 (p # ps)"
    using pid_inv_register [OF n(5,2,4)] new links_only_pids [OF hash_proc_sel(6)] unfolding s3_def by auto
  have inv3: "sched_inv ?P s3" "run_set ?P s3 = run_set ?P s"
    by (rule sched_inv_cong [OF inv s3(6,2,3)]) (auto simp: s3(1) run_set_def)
  obtain s4 where s4: "set_links p s3 = ret s4" "num_proc s4 = num_proc s + 1" "idle_proc s4 = idle_proc s"
      "family s4 (p # ps) ?K"
    using set_links_family_ok [OF fam3, of p par] new par fresh unfolding s3 by auto
  note d4 = set_links_data [OF s4(1)]
  define s4' where "s4' = local_intr_restore flag s4"
  have s4': "same_family s4 s4'" "same_rq s4 s4'" "procs s4' = procs s4" "curr_proc s4' = curr_proc s4" "idle_proc s4' = idle_proc s4"
      "sstatus s4' = sstatus s"
    using restore_family [of s4 flag] local_intr_roundtrip [OF i(1), of s4] links_onlyD(9) [OF d4] s3(7)
    by (simp_all add: s4'_def same_rq_def)
  have inv4: "sched_inv ?P s4'" "run_set ?P s4' = run_set ?P s"
    using sched_inv_more [OF links_only_sched(1) [OF d4 inv3(1)] s4'(3,2,5,4)] links_only_sched(2) [OF d4 inv3(1)] inv3(2)
    by (simp_all add: run_set_def s4'(3))
  have p4: "p_state (procs s4' p) = PROC_UNINIT" "p_pid (procs s4' p) = n"
    using fresh by (simp_all add: s4'(3) links_onlyD [OF d4] s3(1))
  have w4: "stride_window (Suc (unat BIG_STRIDE)) b s4' (insert p (run_set ?P s4'))"
    using win by (simp add: inv4(2) same_rq_window [OF s4'(2)] links_only_window [OF d4] same_rq_window [OF s3(6)])
  have "p_state (procs s4' p) \<noteq> PROC_ZOMBIE" "p_state (procs s4' p) \<noteq> PROC_RUNNABLE"
    using p4(1) by (simp_all add: const_defs)
  from wakeup_proc_sleeping [OF inv4(1) insertI1 this w4] obtain s5 where s5: "wakeup_proc p s4' = ret s5"
      "sched_inv ?P s5" "p_state (procs s5 p) = PROC_RUNNABLE" "sstatus s5 = sstatus s4'"
      "\<forall>q. q \<noteq> p \<longrightarrow> procs s5 q = procs s4' q"
    by blast
  note f5 = wakeup_family [OF s5(1)]
  have rs: "run_set ?P s5 = insert p (run_set ?P s)"
  proof -
    have "x \<in> run_set ?P s5 \<longleftrightarrow> x \<in> insert p (run_set ?P s4')" for x
      using s5(3,5) by (cases "x = p") (auto simp: run_set_def)
    then show ?thesis
      by (auto simp: inv4(2))
  qed
  have r: "do_fork_register p s = ret (n, s5)"
    using s5(1) same_familyD(11) [OF f5, of p] p4(2)
    by (simp add: do_fork_register_def i(1) n(1) s4(1) flip: s3_def s4'_def)
  have "n \<notin> pids s ps"
    using n(3,5) by (auto simp: pids_clear_def pids_def i(3))
  moreover have "family s5 (p # ps) ?K" "num_proc s5 = num_proc s + 1" "pid_inv s5 (p # ps)"
    using s4 pid3 unfolding same_family_family [OF f5] same_family_family [OF s4'(1)] same_family_pid_inv [OF f5]
      same_family_pid_inv [OF s4'(1)] links_only_pids [OF d4] same_familyD(3) [OF f5] same_familyD(3) [OF s4'(1)] by simp_all
  ultimately show ?thesis
    using r n s5(2) rs s5(4) s4'(6) same_familyD(11) [OF f5, of p] p4(2) by auto
qed

section \<open>The children of an exiting process\<close>

text \<open>While \<open>do_exit\<close> gives the children away, the first one left still names a younger sibling.\<close>

definition orphans :: "(pcb_ptr \<Rightarrow> pcb) \<Rightarrow> pcb_ptr \<Rightarrow> pcb_ptr list \<Rightarrow> bool" where
  "orphans P par xs \<longleftrightarrow> p_child (P par) = first_of xs None \<and> distinct xs \<and> (\<exists>y. sseg P y xs None) \<and>
     (\<forall>x\<in>set xs. p_parent (P x) = Some par)"

lemma kids_orphans: "kids P par xs \<Longrightarrow> orphans P par xs"
  by (auto simp: kids_def orphans_def)

lemma reparent_one_sel:
  assumes "curr_proc s \<noteq> i" "p_child (procs s i) \<noteq> Some p"
  shows "p_child (procs (reparent_one p i s) q) =
      (if q = i then Some p else if q = curr_proc s then p_older (procs s p) else p_child (procs s q))"
    and "p_parent (procs (reparent_one p i s) q) = (if q = p then Some i else p_parent (procs s q))"
    and "p_younger (procs (reparent_one p i s) q) =
      (if q = p then None else if p_child (procs s i) = Some q then Some p else p_younger (procs s q))"
    and "p_older (procs (reparent_one p i s) q) = (if q = p then p_child (procs s i) else p_older (procs s q))"
  using assms by (cases "p_child (procs s i)"; auto simp: reparent_one_def upd_proc_def Let_def)+

lemma links_only_upd: "links_only a s \<Longrightarrow> same_data (procs s p) (f (procs s p)) \<Longrightarrow> links_only a (upd_proc p f s)"
  by (auto simp: links_only_def same_data_def upd_proc_def)

lemma links_only_refl [simp]: "links_only s s"
  by (simp add: links_only_def same_data_def)

lemma reparent_one_data: "links_only s (reparent_one p i s)" "sched.more (reparent_one p i s) = sched.more s"
proof -
  have opt: "links_only s (case z of None \<Rightarrow> a | Some c \<Rightarrow> upd_proc c (\<lambda>q. q\<lparr>p_younger := v\<rparr>) a)" if "links_only s a" for z a v
    using that by (cases z) (auto intro!: links_only_upd simp: same_data_def)
  show "links_only s (reparent_one p i s)"
    unfolding reparent_one_def Let_def by (intro links_only_upd opt links_only_refl) (simp_all add: same_data_def)
  show "sched.more (reparent_one p i s) = sched.more s"
    by (simp add: reparent_one_def Let_def split: option.splits)
qed

text \<open>One child moves from the front of \<open>c\<close>'s children to the front of \<open>i\<close>'s.\<close>

lemma reparent_one_kids:
  assumes c: "orphans (procs s) (curr_proc s) (x # xs)" and i: "kids (procs s) i ys"
    and ne: "curr_proc s \<noteq> i"
  shows "orphans (procs (reparent_one x i s)) (curr_proc s) xs" and "kids (procs (reparent_one x i s)) i (x # ys)"
    and "\<And>q zs. kids (procs s) q zs \<Longrightarrow> q \<noteq> curr_proc s \<Longrightarrow> q \<noteq> i \<Longrightarrow> kids (procs (reparent_one x i s)) q zs"
proof -
  let ?P = "procs s" and ?P' = "procs (reparent_one x i s)"
  have par: "p_parent (?P z) = Some (curr_proc s)" if "z \<in> set (x # xs)" for z
    using c that by (auto simp: orphans_def)
  have pari: "p_parent (?P z) = Some i" if "z \<in> set ys" for z
    using kidsD(4) [OF i that] .
  have disj: "z \<notin> set ys" if "z \<in> set (x # xs)" for z
    using par [OF that] pari ne by auto
  have fst: "p_child (?P i) = first_of ys None" "first_of ys None = Some z \<longleftrightarrow> ys \<noteq> [] \<and> z = hd ys" for z
    using kidsD(1) [OF i] by (auto simp: first_of_def split: list.splits)
  have nx: "p_child (?P i) \<noteq> Some x"
    using disj [of x] by (auto simp: fst)
  have nf: "first_of ys None \<noteq> Some z" if "z \<notin> set ys" for z
    using that by (auto simp: first_of_def split: list.splits)
  note sel = reparent_one_sel [OF ne nx]
  obtain y where y: "sseg ?P y (x # xs) None" and d: "distinct (x # xs)"
    using c by (auto simp: orphans_def)
  have "sseg ?P' (Some x) xs None = sseg ?P (Some x) xs None"
    using d disj nf by (intro sseg_cong) (auto simp: sel fst(1))
  then show "orphans ?P' (curr_proc s) xs"
    using y d par ne by (auto simp: orphans_def sel)
  have "sseg ?P' None (x # ys) None"
    using kidsD(3) [OF i] disj [of x] kidsD(2) [OF i] by (intro sseg_link) (auto simp: sel fst)
  then show "kids ?P' i (x # ys)"
    using kidsD(2) [OF i] disj [of x] pari by (simp add: kids_def sel)
  fix q zs
  assume q: "kids ?P q zs" "q \<noteq> curr_proc s" "q \<noteq> i"
  have "z \<noteq> x" "z \<notin> set ys" if "z \<in> set zs" for z
    using kidsD(4) [OF q(1) that] par [of x] pari q(2,3) by auto
  then show "kids ?P' q zs"
    using q(2,3) nf by (intro kids_cong [OF q(1)]) (auto simp: sel fst(1))
qed

text \<open>\<open>init\<close> may be asleep waiting for a child, or not wait for one.\<close>

definition waiter_ok :: "'z ksched_scheme \<Rightarrow> pcb_ptr \<Rightarrow> bool" where
  "waiter_ok s i \<longleftrightarrow> (p_wait_state (procs s i) = WAIT_CHILD \<longrightarrow> p_state (procs s i) = PROC_SLEEPING)"

lemma WAIT_CHILD_NONE [simp]: "WAIT_CHILD \<noteq> WAIT_NONE" "WAIT_NONE \<noteq> WAIT_CHILD"
  by (simp_all add: const_defs)

text \<open>Waking \<open>i\<close> when it waits for a child and \<open>b\<close> holds.\<close>

lemma wake_waiter:
  fixes s :: "'z ksched_scheme"
  assumes inv: "sched_inv P s" and i: "i \<in> P" "waiter_ok s i"
    and win: "stride_window (Suc (unat BIG_STRIDE)) v s (insert i (run_set P s))"
  shows "\<exists>s'. (if b \<and> p_wait_state (procs s i) = WAIT_CHILD then wakeup_proc i s else ret s) = ret s' \<and>
    sched_inv P s' \<and> same_family s s' \<and> curr_proc s' = curr_proc s \<and> sstatus s' = sstatus s \<and> waiter_ok s' i \<and>
    p_wait_state (procs s' i) = (if b \<and> p_wait_state (procs s i) = WAIT_CHILD then WAIT_NONE else p_wait_state (procs s i)) \<and>
    (\<forall>q. q \<noteq> i \<longrightarrow> procs s' q = procs s q) \<and> (\<forall>q. p_stride (procs s' q) = p_stride (procs s q)) \<and>
    run_set P s' = (if b \<and> p_wait_state (procs s i) = WAIT_CHILD then insert i (run_set P s) else run_set P s)"
proof (cases "b \<and> p_wait_state (procs s i) = WAIT_CHILD")
  case True
  then have "p_state (procs s i) \<noteq> PROC_ZOMBIE" "p_state (procs s i) \<noteq> PROC_RUNNABLE"
    using i(2) by (simp_all add: waiter_ok_def const_defs)
  from wakeup_proc_sleeping [OF inv i(1) this win] obtain s' where s': "wakeup_proc i s = ret s'"
      "sched_inv P s'" "p_state (procs s' i) = PROC_RUNNABLE" "p_wait_state (procs s' i) = WAIT_NONE"
      "sstatus s' = sstatus s" "curr_proc s' = curr_proc s" "p_stride (procs s' i) = p_stride (procs s i)"
      "\<forall>q. q \<noteq> i \<longrightarrow> procs s' q = procs s q"
    by blast
  have "x \<in> run_set P s' \<longleftrightarrow> x \<in> insert i (run_set P s)" for x
    using s'(3,8) i(1) by (cases "x = i") (auto simp: run_set_def)
  then have "run_set P s' = insert i (run_set P s)"
    by auto
  moreover have "p_stride (procs s' q) = p_stride (procs s q)" for q
    using s'(7,8) by (cases "q = i") auto
  ultimately show ?thesis
    using True s' wakeup_family [OF s'(1)] by (simp add: waiter_ok_def)
qed (use inv i(2) in auto)

lemma family_kids_same: "same_family s s' \<Longrightarrow> kids (procs s') q zs = kids (procs s) q zs"
  using sseg_cong [of zs "procs s'" "procs s" None None] by (simp add: kids_def same_familyD)

lemma family_orphans_same: "same_family s s' \<Longrightarrow> orphans (procs s') q zs = orphans (procs s) q zs"
  using sseg_cong [of zs "procs s'" "procs s" _ None] by (simp add: orphans_def same_familyD)

lemma reparent_loop_ok:
  fixes s :: "'z ksched_scheme"
  assumes "orphans (procs s) (curr_proc s) xs" and "kids (procs s) i ys" and "curr_proc s \<noteq> i"
    and "init_proc_ptr s = Some i" and "sched_inv P s" and "i \<in> P" and "waiter_ok s i"
    and "stride_window (Suc (unat BIG_STRIDE)) v s (insert i (run_set P s))"
  shows "\<exists>s'. reparent_loop s = ret s' \<and> sched_inv P s' \<and> curr_proc s' = curr_proc s \<and> sstatus s' = sstatus s \<and>
    idle_proc s' = idle_proc s \<and> sched.more s' = sched.more s \<and>
    kids (procs s') (curr_proc s) [] \<and> kids (procs s') i (rev xs @ ys) \<and>
    (\<forall>q zs. q \<noteq> curr_proc s \<longrightarrow> q \<noteq> i \<longrightarrow> kids (procs s) q zs \<longrightarrow> kids (procs s') q zs) \<and>
    (\<forall>q. q \<noteq> i \<longrightarrow> p_state (procs s' q) = p_state (procs s q)) \<and> (\<forall>q. p_pid (procs s' q) = p_pid (procs s q)) \<and>
    run_set P s' = (if (\<exists>x\<in>set xs. p_state (procs s x) = PROC_ZOMBIE) \<and> p_wait_state (procs s i) = WAIT_CHILD
                    then insert i (run_set P s) else run_set P s)"
  using assms
proof (induction xs arbitrary: s ys)
  case Nil
  then have "p_child (curr_pcb s) = None"
    by (simp add: orphans_def)
  with Nil show ?case
    by (subst reparent_loop.simps) (simp add: kids_def)
next
  case (Cons x xs)
  note pre = Cons.prems
  have child: "p_child (curr_pcb s) = Some x"
    using pre(1) by (simp add: orphans_def)
  define s1 where "s1 = reparent_one x i s"
  note d1 = reparent_one_data(1) [of s x i, folded s1_def]
  note l1 = links_onlyD [OF d1]
  note k1 = reparent_one_kids [OF pre(1,2,3), folded s1_def]
  have m1: "sched.more s1 = sched.more s" and i1: "init_proc_ptr s1 = Some i"
    using reparent_one_data(2) [of x i s] l1(4) pre(4) by (simp_all add: s1_def)
  note inv1 = links_only_sched [OF d1 pre(5)]
  have w1: "waiter_ok s1 i" "stride_window (Suc (unat BIG_STRIDE)) v s1 (insert i (run_set P s1))"
    using pre(7,8) by (simp_all add: waiter_ok_def l1 inv1(2) links_only_window [OF d1])
  let ?b = "p_state (procs s1 x) = PROC_ZOMBIE" and ?w = "p_wait_state (procs s i) = WAIT_CHILD"
  obtain s2 where s2: "(if ?b \<and> p_wait_state (procs s1 i) = WAIT_CHILD then wakeup_proc i s1 else ret s1) = ret s2"
      "sched_inv P s2" "same_family s1 s2" "curr_proc s2 = curr_proc s1" "sstatus s2 = sstatus s1" "waiter_ok s2 i"
      "p_wait_state (procs s2 i) = (if ?b \<and> ?w then WAIT_NONE else p_wait_state (procs s i))"
      "\<forall>q. q \<noteq> i \<longrightarrow> procs s2 q = procs s1 q" "\<forall>q. p_stride (procs s2 q) = p_stride (procs s1 q)"
      "run_set P s2 = (if ?b \<and> ?w then insert i (run_set P s) else run_set P s)"
    using wake_waiter [OF inv1(1) pre(6) w1, of ?b] unfolding l1(6) inv1(2) by blast
  note f2 = same_familyD [OF s2(3)]
  have c2: "curr_proc s2 = curr_proc s"
    by (simp add: s2(4) l1)
  have w2: "stride_window (Suc (unat BIG_STRIDE)) v s2 (insert i (run_set P s2))"
    using w1(2) stride_window_cong [of "insert i (run_set P s)" s2 s1] s2(9) by (auto simp: s2(10) inv1(2))
  have "\<exists>s'. reparent_loop s2 = ret s' \<and> sched_inv P s' \<and> curr_proc s' = curr_proc s2 \<and> sstatus s' = sstatus s2 \<and>
    idle_proc s' = idle_proc s2 \<and> sched.more s' = sched.more s2 \<and>
    kids (procs s') (curr_proc s2) [] \<and> kids (procs s') i (rev xs @ x # ys) \<and>
    (\<forall>q zs. q \<noteq> curr_proc s2 \<longrightarrow> q \<noteq> i \<longrightarrow> kids (procs s2) q zs \<longrightarrow> kids (procs s') q zs) \<and>
    (\<forall>q. q \<noteq> i \<longrightarrow> p_state (procs s' q) = p_state (procs s2 q)) \<and> (\<forall>q. p_pid (procs s' q) = p_pid (procs s2 q)) \<and>
    run_set P s' = (if (\<exists>x\<in>set xs. p_state (procs s2 x) = PROC_ZOMBIE) \<and> p_wait_state (procs s2 i) = WAIT_CHILD
                    then insert i (run_set P s2) else run_set P s2)"
    using k1(1,2) pre(3,6) i1 s2(2,6) w2 unfolding family_orphans_same [OF s2(3), symmetric] family_kids_same [OF s2(3), symmetric]
    by (intro Cons.IH) (simp_all add: c2 f2)
  then obtain s' where s': "reparent_loop s2 = ret s'" "sched_inv P s'" "curr_proc s' = curr_proc s" "sstatus s' = sstatus s2"
      "idle_proc s' = idle_proc s2" "sched.more s' = sched.more s2" "kids (procs s') (curr_proc s) []"
      "kids (procs s') i (rev xs @ x # ys)"
      "\<And>q zs. q \<noteq> curr_proc s \<Longrightarrow> q \<noteq> i \<Longrightarrow> kids (procs s2) q zs \<Longrightarrow> kids (procs s') q zs"
      "\<And>q. q \<noteq> i \<Longrightarrow> p_state (procs s' q) = p_state (procs s2 q)" "\<And>q. p_pid (procs s' q) = p_pid (procs s2 q)"
      "run_set P s' = (if (\<exists>x\<in>set xs. p_state (procs s2 x) = PROC_ZOMBIE) \<and> p_wait_state (procs s2 i) = WAIT_CHILD
                    then insert i (run_set P s2) else run_set P s2)"
    unfolding c2 by blast
  have loop: "reparent_loop s = ret s'"
    using s2(1) s'(1) child pre(4) by (subst reparent_loop.simps) (simp add: s1_def [symmetric] Let_def)
  have kids': "kids (procs s') q zs" if "q \<noteq> curr_proc s" "q \<noteq> i" "kids (procs s) q zs" for q zs
    using k1(3) [OF that(3,1,2)] that by (intro s'(9)) (simp_all add: family_kids_same [OF s2(3)])
  have st2: "p_state (procs s2 q) = p_state (procs s q)" if "q \<noteq> i" for q
    using s2(8) that by (simp add: l1)
  have z: "((\<exists>y\<in>set xs. p_state (procs s2 y) = PROC_ZOMBIE) \<and> p_wait_state (procs s2 i) = WAIT_CHILD \<or> ?b \<and> ?w) \<longleftrightarrow>
      (\<exists>y\<in>set (x # xs). p_state (procs s y) = PROC_ZOMBIE) \<and> ?w"
  proof (cases "?b \<and> ?w")
    case True
    then show ?thesis
      by (auto simp: l1)
  next
    case False
    then have "s2 = s1"
      using s2(1) by (simp add: l1 split: if_splits)
    then show ?thesis
      using False by (auto simp: l1)
  qed
  have rs: "run_set P s' = (if (\<exists>y\<in>set (x # xs). p_state (procs s y) = PROC_ZOMBIE) \<and> ?w
      then insert i (run_set P s) else run_set P s)"
    using z unfolding s'(12) s2(10) by auto
  have "idle_proc s' = idle_proc s" "sched.more s' = sched.more s" "sstatus s' = sstatus s"
    using s2(3,5) m1 by (simp_all add: s'(4,5,6) f2 l1 same_family_def)
  then show ?case
    using loop s'(2,3,7,8) kids' s'(10) st2 rs by (simp add: s'(11) f2 l1)
qed

lemma family_reparent:
  assumes fam: "family s ps K" and m: "c \<in> set ps" "i \<in> set ps" "c \<noteq> i"
    and s': "idle_proc s' = idle_proc s" "proc_links s' = proc_links s" "kids (procs s') c []" "kids (procs s') i (rev (K c) @ K i)"
    and k: "\<And>q zs. q \<noteq> c \<Longrightarrow> q \<noteq> i \<Longrightarrow> kids (procs s) q zs \<Longrightarrow> kids (procs s') q zs"
  shows "family s' ps (K(c := [], i := rev (K c) @ K i))"
proof -
  let ?K = "K(c := [], i := rev (K c) @ K i)"
  have "kids (procs s') q (?K q) \<and> set (?K q) \<subseteq> set ps" if q: "q \<in> insert (idle_proc s) (set ps)" for q
  proof -
    consider "q = i" | "q = c" | "q \<noteq> i" "q \<noteq> c"
      by blast
    then show ?thesis
    proof cases
      case 3
      then show ?thesis
        using k [OF 3(2,1) familyD(3) [OF fam q]] familyD(4) [OF fam q] by simp
    qed (use s'(3,4) m familyD(4) [OF fam, of c] familyD(4) [OF fam, of i] in auto)
  qed
  moreover have "\<exists>q\<in>insert (idle_proc s) (set ps). p \<in> set (?K q)" if p: "p \<in> set ps" for p
  proof -
    obtain q where "q \<in> insert (idle_proc s) (set ps)" "p \<in> set (K q)"
      using familyD(5) [OF fam p] by blast
    then show ?thesis
      using m by (intro bexI [of _ "if q = c then i else q"]) auto
  qed
  moreover have "proc_rep s' ps"
    using familyD(1) [OF fam] by (simp add: proc_rep_def s'(2))
  ultimately show ?thesis
    unfolding family_def s'(1) using familyD(2) [OF fam] by blast
qed

lemma exit_notify_ok:
  fixes s :: "'z ksched_scheme"
  assumes fam: "family s ps K" and inv: "sched_inv (set ps) s" and c: "curr_proc s \<in> set ps"
    and par: "p_parent (curr_pcb s) = Some par" "par \<in> set ps" "waiter_ok s par"
    and i: "init_proc_ptr s = Some i" "i \<in> set ps" "curr_proc s \<noteq> i" "waiter_ok s i"
    and win: "stride_window (Suc (unat BIG_STRIDE)) v s (insert par (insert i (run_set (set ps) s)))"
  shows "\<exists>s'. exit_notify s = ret s' \<and> sched_inv (set ps) s' \<and> curr_proc s' = curr_proc s \<and> sstatus s' = sstatus s \<and>
    family s' ps (K(curr_proc s := [], i := rev (K (curr_proc s)) @ K i)) \<and>
    (\<forall>q. q \<noteq> i \<longrightarrow> q \<noteq> par \<longrightarrow> p_state (procs s' q) = p_state (procs s q)) \<and>
    run_set (set ps) s' = run_set (set ps) s \<union> (if p_wait_state (procs s par) = WAIT_CHILD then {par} else {}) \<union>
      (if p_wait_state (procs s i) = WAIT_CHILD \<and> (\<exists>x\<in>set (K (curr_proc s)). p_state (procs s x) = PROC_ZOMBIE) then {i} else {})"
proof -
  let ?P = "set ps" and ?c = "curr_proc s"
  let ?z = "\<exists>x\<in>set (K ?c). p_state (procs s x) = PROC_ZOMBIE"
  obtain flag s1 where i1: "local_intr_save s = (flag, s1)" "same_rq s s1" "procs s1 = procs s"
      "idle_proc s1 = idle_proc s" "curr_proc s1 = ?c"
    by (rule local_intr_cases [of s])
  note f1 = save_family [OF i1(1)]
  have inv1: "sched_inv ?P s1" "run_set ?P s1 = run_set ?P s" "waiter_ok s1 par" "waiter_ok s1 i"
    using sched_inv_more [OF inv i1(3,2,4,5)] par(3) i(4) by (simp_all add: run_set_def i1(3) waiter_ok_def)
  have w1: "stride_window (Suc (unat BIG_STRIDE)) v s1 (insert par (insert i (run_set ?P s)))"
    using win by (simp add: same_rq_window [OF i1(2)])
  obtain s2 where s2: "(if p_wait_state (procs s1 par) = WAIT_CHILD then wakeup_proc par s1 else ret s1) = ret s2"
      "sched_inv ?P s2" "same_family s1 s2" "curr_proc s2 = ?c" "sstatus s2 = sstatus s1" "waiter_ok s2 par"
      "p_wait_state (procs s2 par) = (if p_wait_state (procs s par) = WAIT_CHILD then WAIT_NONE else p_wait_state (procs s par))"
      "\<forall>q. q \<noteq> par \<longrightarrow> procs s2 q = procs s q" "\<forall>q. p_stride (procs s2 q) = p_stride (procs s q)"
      "run_set ?P s2 = (if p_wait_state (procs s par) = WAIT_CHILD then insert par (run_set ?P s) else run_set ?P s)"
    using wake_waiter [OF inv1(1) par(2) inv1(3) stride_window_mono [OF w1 order_refl], of True] unfolding i1(3,5) inv1(2) by auto
  note f2 = same_familyD [OF same_family_trans [OF f1 s2(3)]]
  have k2: "kids (procs s2) q zs = kids (procs s) q zs" for q zs
    by (simp add: family_kids_same [OF same_family_trans [OF f1 s2(3)]])
  have kc: "kids (procs s) ?c (K ?c)" "kids (procs s) i (K i)"
    using familyD(3) [OF fam] c i(2) by auto
  have ok2: "waiter_ok s2 i"
    using s2(6,8) i(4) by (cases "i = par") (simp_all add: waiter_ok_def)
  have w2: "stride_window (Suc (unat BIG_STRIDE)) v s2 (insert i (run_set ?P s2))"
  proof -
    have "insert i (run_set ?P s2) \<subseteq> insert par (insert i (run_set ?P s))"
      using s2(10) by auto
    from stride_window_mono [OF win order_refl this] show ?thesis
      using stride_window_cong [of "insert i (run_set ?P s2)" s2 s] s2(9) by simp
  qed
  obtain s3 where s3: "reparent_loop s2 = ret s3" "sched_inv ?P s3" "curr_proc s3 = ?c" "sstatus s3 = sstatus s2"
      "idle_proc s3 = idle_proc s" "sched.more s3 = sched.more s2" "kids (procs s3) ?c []" "kids (procs s3) i (rev (K ?c) @ K i)"
      "\<And>q zs. q \<noteq> ?c \<Longrightarrow> q \<noteq> i \<Longrightarrow> kids (procs s) q zs \<Longrightarrow> kids (procs s3) q zs"
      "\<And>q. q \<noteq> i \<Longrightarrow> p_state (procs s3 q) = p_state (procs s2 q)"
      "run_set ?P s3 = (if (\<exists>x\<in>set (K ?c). p_state (procs s2 x) = PROC_ZOMBIE) \<and> p_wait_state (procs s2 i) = WAIT_CHILD
                    then insert i (run_set ?P s2) else run_set ?P s2)"
    using reparent_loop_ok [of s2 "K ?c" i "K i" ?P v] kids_orphans [of "procs s2" ?c "K ?c"] kc i(1,2,3) s2(2) ok2 w2
    by (auto simp: k2 f2 s2(4))
  have more: "sched.more s3 = sched.more s"
    using s3(6) s2(3) f1 by (simp add: same_family_def)
  define s4 where "s4 = local_intr_restore flag s3"
  note f4 = restore_family [of s3 flag, folded s4_def]
  have s4: "procs s4 = procs s3" "same_rq s3 s4" "curr_proc s4 = ?c" "idle_proc s4 = idle_proc s" "sstatus s4 = sstatus s"
    using local_intr_roundtrip [OF i1(1), of s3] s3(3,4,5) s2(5) by (simp_all add: s4_def same_rq_def)
  have r: "exit_notify s = ret s4"
    using s2(1) s3(1) par(1) by (simp add: exit_notify_def i1 s4_def)
  have "family s3 ps (K(?c := [], i := rev (K ?c) @ K i))"
    using ksched_more(1) [OF more] s3(5,7,8,9) by (intro family_reparent [OF fam c i(2,3)]) auto
  then have "family s4 ps (K(?c := [], i := rev (K ?c) @ K i))"
    by (simp add: same_family_family [OF f4])
  moreover have "sched_inv ?P s4" "run_set ?P s4 = run_set ?P s3"
    using s3(3,5) by (auto simp: run_set_def s4 intro!: sched_inv_more [OF s3(2) s4(1,2)])
  moreover have "p_state (procs s4 q) = p_state (procs s q)" if "q \<noteq> i" "q \<noteq> par" for q
    using s3(10) [OF that(1)] s2(8) that by (simp add: s4(1))
  moreover have "run_set ?P s3 = run_set ?P s \<union> (if p_wait_state (procs s par) = WAIT_CHILD then {par} else {}) \<union>
      (if p_wait_state (procs s i) = WAIT_CHILD \<and> ?z then {i} else {})"
  proof (cases "i = par \<and> p_wait_state (procs s par) = WAIT_CHILD")
    case True
    then show ?thesis
      using s2(7) by (auto simp: s3(11) s2(10))
  next
    case False
    have "procs s2 i = procs s i \<or> s2 = s1"
      using False s2(1,8) by (auto simp: i1(3) split: if_splits)
    then have "p_wait_state (procs s2 i) = p_wait_state (procs s i)"
      by (auto simp: i1(3))
    moreover have "p_state (procs s2 x) = PROC_ZOMBIE \<longleftrightarrow> p_state (procs s x) = PROC_ZOMBIE" for x
    proof (cases "x = par \<and> p_wait_state (procs s par) = WAIT_CHILD")
      case True
      then have "x \<in> run_set ?P s2"
        using s2(10) by simp
      then show ?thesis
        using True par(3) by (auto simp: run_set_def waiter_ok_def const_defs)
    next
      case False
      then have "procs s2 x = procs s x \<or> s2 = s1"
        using s2(1,8) by (auto simp: i1(3) split: if_splits)
      then show ?thesis
        by (auto simp: i1(3))
    qed
    ultimately show ?thesis
      by (auto simp: s3(11) s2(10))
  qed
  ultimately show ?thesis
    using r s4(3,5) by auto
qed

section \<open>Kill and wait\<close>

text \<open>A process that sleeps in an interruptible way.\<close>

definition sleeper_ok :: "'z ksched_scheme \<Rightarrow> pcb_ptr \<Rightarrow> bool" where
  "sleeper_ok s p \<longleftrightarrow> (p_wait_state (procs s p) AND WAIT_INT \<noteq> 0 \<longrightarrow> p_state (procs s p) = PROC_SLEEPING)"

lemma get_proc_find:
  assumes "proc_rep s ps" "inj_on (\<lambda>p. p_pid (procs s p)) (set ps)" "p \<in> set ps"
    "0 < p_pid (procs s p)" "p_pid (procs s p) < MAX_PID"
  shows "get_proc (p_pid (procs s p)) s = ret (Some p)"
proof -
  have "find (\<lambda>q. p_pid (procs s q) = p_pid (procs s p)) ps \<noteq> None"
    using assms(3) by (auto simp: find_None_iff)
  then obtain q where q: "find (\<lambda>q. p_pid (procs s q) = p_pid (procs s p)) ps = Some q"
    by blast
  then have "q \<in> set ps" "p_pid (procs s q) = p_pid (procs s p)"
    by (auto simp: find_Some_iff)
  then have "q = p"
    using assms(2,3) by (auto dest: inj_onD)
  then show ?thesis
    using q assms(4,5) by (simp add: get_proc_ok [OF assms(1)])
qed

lemma do_kill_none:
  assumes "proc_rep s ps" "n \<notin> pids s ps \<or> n \<le> 0 \<or> MAX_PID \<le> n"
  shows "do_kill n s = ret (- E_INVAL, s)"
proof -
  have "n \<notin> pids s ps \<Longrightarrow> find (\<lambda>p. p_pid (procs s p) = n) ps = None"
    by (auto simp: find_None_iff pids_def)
  then have "get_proc n s = ret None"
    using assms(2) by (auto simp: get_proc_ok [OF assms(1)])
  then show ?thesis
    by (simp add: do_kill_def)
qed

lemma do_kill_one:
  fixes s :: "'z ksched_scheme"
  assumes rep: "proc_rep s ps" "inj_on (\<lambda>p. p_pid (procs s p)) (set ps)" and inv: "sched_inv (set ps) s"
    and p: "p \<in> set ps" "0 < p_pid (procs s p)" "p_pid (procs s p) < MAX_PID" "sleeper_ok s p"
    and win: "stride_window (Suc (unat BIG_STRIDE)) v s (insert p (run_set (set ps) s))"
    and alive: "p_flags (procs s p) AND PROC_FLAG_EXIT = 0"
  shows "\<exists>s'. do_kill (p_pid (procs s p)) s = ret (0, s') \<and> p_flags (procs s' p) AND PROC_FLAG_EXIT \<noteq> 0 \<and>
    sched_inv (set ps) s' \<and> (\<forall>q. q \<noteq> p \<longrightarrow> procs s' q = procs s q) \<and>
    run_set (set ps) s' = (if p_wait_state (procs s p) AND WAIT_INT \<noteq> 0 then insert p (run_set (set ps) s) else run_set (set ps) s)"
proof -
  define s1 where "s1 = upd_proc p (\<lambda>q. q\<lparr>p_flags := p_flags q OR PROC_FLAG_EXIT\<rparr>) s"
  have s1: "same_rq s s1" "procs s1 = (procs s)(p := (procs s p)\<lparr>p_flags := p_flags (procs s p) OR PROC_FLAG_EXIT\<rparr>)"
      "curr_proc s1 = curr_proc s" "idle_proc s1 = idle_proc s"
    by (simp_all add: s1_def same_rq_def)
  have inv1: "sched_inv (set ps) s1" "run_set (set ps) s1 = run_set (set ps) s"
    by (rule sched_inv_cong [OF inv s1(1,4,3)]) (auto simp: s1(2) run_set_def)
  have fl: "p_flags (procs s1 p) AND PROC_FLAG_EXIT \<noteq> 0"
  proof -
    have "(p_flags (procs s p) OR PROC_FLAG_EXIT) AND PROC_FLAG_EXIT = PROC_FLAG_EXIT"
      by (intro bit_word_eqI) (auto simp: bit_simps)
    then show ?thesis
      by (simp add: s1(2) PROC_FLAG_EXIT_def)
  qed
  have w1: "stride_window (Suc (unat BIG_STRIDE)) v s1 (insert p (run_set (set ps) s1))"
    using win by (simp add: inv1(2) same_rq_window [OF s1(1)])
  note g = get_proc_find [OF rep p(1,2,3)]
  show ?thesis
  proof (cases "p_wait_state (procs s p) AND WAIT_INT = 0")
    case True
    then have "do_kill (p_pid (procs s p)) s = ret (0, s1)"
      using alive by (simp add: do_kill_def g Let_def flip: s1_def) (simp add: s1(2))
    then show ?thesis
      using True fl inv1 by (auto simp: s1(2))
  next
    case False
    then have "p_state (procs s1 p) = PROC_SLEEPING"
      using p(4) by (simp add: sleeper_ok_def s1(2))
    then have "p_state (procs s1 p) \<noteq> PROC_ZOMBIE" "p_state (procs s1 p) \<noteq> PROC_RUNNABLE"
      by (simp_all add: const_defs)
    from wakeup_proc_sleeping [OF inv1(1) p(1) this w1] obtain s2 where s2: "wakeup_proc p s1 = ret s2"
        "sched_inv (set ps) s2" "p_state (procs s2 p) = PROC_RUNNABLE" "\<forall>q. q \<noteq> p \<longrightarrow> procs s2 q = procs s1 q"
      by blast
    have "x \<in> run_set (set ps) s2 \<longleftrightarrow> x \<in> insert p (run_set (set ps) s)" for x
      using s2(3,4) p(1) inv1(2) by (cases "x = p") (auto simp: run_set_def s1(2))
    then have rs: "run_set (set ps) s2 = insert p (run_set (set ps) s)"
      by auto
    have "p_flags (procs s2 p) = p_flags (procs s1 p)"
      by (rule wakeup_flags [OF s2(1)])
    moreover have "do_kill (p_pid (procs s p)) s = ret (0, s2)"
      using alive False s2(1) by (simp add: do_kill_def g Let_def flip: s1_def) (simp add: s1(2))
    ultimately show ?thesis
      using False fl s2 rs by (auto simp: s1(2))
  qed
qed

lemma zombie_loop_ok:
  assumes "sseg (procs s) y xs None"
  shows "zombie_loop (first_of xs None) s = Some (find (\<lambda>p. p_state (procs s p) = PROC_ZOMBIE) xs)"
  using assms
proof (induction xs arbitrary: y)
  case Nil
  then show ?case
    by (subst zombie_loop.simps) simp
next
  case (Cons x xs)
  then have "p_older (procs s x) = first_of xs None" "sseg (procs s) (Some x) xs None"
    by simp_all
  then show ?case
    using Cons.IH [of "Some x"] by (subst zombie_loop.simps) simp
qed

lemma find_child_any:
  assumes "kids (procs s) (curr_proc s) xs"
  shows "find_child 0 s = ret (xs \<noteq> [], find (\<lambda>p. p_state (procs s p) = PROC_ZOMBIE) xs)"
  using zombie_loop_ok [OF kidsD(3) [OF assms]] kidsD(1) [OF assms]
  by (cases xs) (simp_all add: find_child_def split: option.splits)

text \<open>A child is found by its number, if it is a child of the caller.\<close>

lemma find_child_one:
  assumes fam: "family s ps K" and inj: "inj_on (\<lambda>p. p_pid (procs s p)) (set ps)"
    and c: "curr_proc s \<in> insert (idle_proc s) (set ps)" and p: "p \<in> set ps" "0 < p_pid (procs s p)" "p_pid (procs s p) < MAX_PID"
  shows "find_child (p_pid (procs s p)) s =
    ret (p \<in> set (K (curr_proc s)), if p \<in> set (K (curr_proc s)) \<and> p_state (procs s p) = PROC_ZOMBIE then Some p else None)"
proof -
  obtain q where q: "q \<in> insert (idle_proc s) (set ps)" "p \<in> set (K q)"
    using familyD(5) [OF fam p(1)] by blast
  have "p \<in> set (K (curr_proc s)) \<longleftrightarrow> p_parent (procs s p) = Some (curr_proc s)"
    using q kidsD(4) [OF familyD(3) [OF fam q(1)] q(2)] kidsD(4) [OF familyD(3) [OF fam c]] by (metis option.inject)
  then show ?thesis
    using get_proc_find [OF familyD(1) [OF fam] inj p] p(2) by (simp add: find_child_def)
qed

lemma same_procs_links: "same_procs s s' \<Longrightarrow> sched.more s' = sched.more s \<Longrightarrow> same_family s s'"
proof (rule same_links_family)
  assume s: "same_procs s s'" "sched.more s' = sched.more s"
  then show "sched.more s' = sched.more s" "idle_proc s' = idle_proc s"
    by (simp_all add: same_procs_def)
  show "same_links (procs s q) (procs s' q)" for q
    using s(1) core_sel [of "procs s' q" "procs s q"] by (simp add: same_procs_def same_links_def)
qed

lemma schedule_family:
  fixes s :: "'z ksched_scheme"
  assumes "sched_inv P s"
  obtains s' where "schedule s = ret s'" "sched_inv P s'" "same_family s s'" "same_procs s s'"
    "if run_set P s = {} then curr_proc s' = idle_proc s else curr_proc s' \<in> run_set P s"
proof -
  obtain s' where s': "schedule s = ret s'" "sched_inv P s'" "same_procs s s'" and
    r: "if run_set P s = {} then curr_proc s' = idle_proc s
        else curr_proc s' \<in> run_set P s \<and> (\<forall>q\<in>run_set P s. stride_le s (curr_proc s') q)"
    using schedule_run [OF assms] by blast
  have s4: "if run_set P s = {} then curr_proc s' = idle_proc s else curr_proc s' \<in> run_set P s"
    using r by (simp split: if_splits)
  show thesis
    by (rule that [OF s'(1,2) same_procs_links [OF s'(3) schedule_more [OF s'(1)]] s'(3) s4])
qed

text \<open>With children but no zombie among them the caller falls asleep and another process runs.\<close>

lemma do_wait_sleep:
  fixes s :: "'z ksched_scheme"
  assumes fam: "family s ps K" and inv: "sched_inv (set ps) s" and c: "curr_proc s \<in> set ps"
    and fc: "find_child n s = ret (True, None)"
  shows "\<exists>s'. do_wait_loop n code s = ret (Inr (InWait n code), s') \<and> family s' ps K \<and> sched_inv (set ps) s' \<and>
    p_state (procs s' (curr_proc s)) = PROC_SLEEPING \<and> p_wait_state (procs s' (curr_proc s)) = WAIT_CHILD \<and>
    run_set (set ps) s' = run_set (set ps) s - {curr_proc s} \<and> curr_proc s' \<noteq> curr_proc s"
proof -
  let ?c = "curr_proc s"
  define s2 where "s2 = upd_proc ?c (\<lambda>q. q\<lparr>p_wait_state := WAIT_CHILD\<rparr>) (upd_proc ?c (\<lambda>q. q\<lparr>p_state := PROC_SLEEPING\<rparr>) s)"
  have s2: "same_rq s s2" "curr_proc s2 = ?c" "idle_proc s2 = idle_proc s" "sched.more s2 = sched.more s"
      "procs s2 = (procs s)(?c := (curr_pcb s)\<lparr>p_state := PROC_SLEEPING, p_wait_state := WAIT_CHILD\<rparr>)"
    by (simp_all add: s2_def same_rq_def)
  have ne: "PROC_SLEEPING \<noteq> PROC_RUNNABLE"
    by (simp add: const_defs)
  note inv2 = sched_inv_sleep_curr [OF inv c ne s2(1,5,2,3)]
  have f2: "same_family s s2"
    using s2(3,4) by (intro same_links_family) (auto simp: s2(5) same_links_def)
  obtain s3 where s3: "schedule s2 = ret s3" "sched_inv (set ps) s3" "same_family s2 s3" "same_procs s2 s3"
    "if run_set (set ps) s2 = {} then curr_proc s3 = idle_proc s2 else curr_proc s3 \<in> run_set (set ps) s2"
    by (rule schedule_family [OF inv2(1)])
  have r: "do_wait_loop n code s = ret (Inr (InWait n code), s3)"
    using fc s3(1) by (simp add: do_wait_loop_def s2_def)
  have "p_state (procs s3 q) = p_state (procs s2 q)" "p_wait_state (procs s3 q) = p_wait_state (procs s2 q)" for q
    using s3(4) core_sel(1,2) [of "procs s3 q" "procs s2 q"] by (auto simp: same_procs_def)
  then have "p_state (procs s3 ?c) = PROC_SLEEPING" "p_wait_state (procs s3 ?c) = WAIT_CHILD"
      "run_set (set ps) s3 = run_set (set ps) s2"
    by (simp_all add: s2(5) run_set_def)
  moreover have "curr_proc s3 \<noteq> ?c"
    using s3(5) inv2(2) inv c by (auto simp: s2(3) sched_inv_def split: if_splits)
  moreover have "family s3 ps K"
    using fam by (simp add: same_family_family [OF s3(3)] same_family_family [OF f2])
  ultimately show ?thesis
    using r s3(2) inv2(2) by simp
qed

end
