(* ===== verification/Proc_Props.thy ===== *)
theory Proc_Props
  imports Proc_Inv
begin

text \<open>
  The properties of processes, with a sample process table: process 1 is \<open>init\<close>, a child of the
  idle process 9, and has the children 3 and 2; 3 runs and has the sleeping child 4. Process 5 is
  being created by 3.
\<close>

section \<open>A sample process table\<close>

definition sample_links :: "pcb_ptr \<Rightarrow> pcb \<Rightarrow> pcb" where
  "sample_links p q = q\<lparr>p_pid := uint p,
     p_parent := (if p = 1 then Some 9 else if p = 4 \<or> p = 5 then Some 3 else Some 1),
     p_child := (if p = 9 then Some 1 else if p = 1 then Some 3 else if p = 3 then Some 4 else None),
     p_younger := (if p = 2 then Some 3 else None), p_older := (if p = 3 then Some 2 else None)\<rparr>"

definition sample_kern :: ksched where
  "sample_kern = ssched.extend
     (sample_sem\<lparr>procs := (\<lambda>p. sample_links p
        (if p = 5 then sample_pcb\<lparr>p_state := PROC_UNINIT\<rparr> else procs sample_sleeper p))\<rparr>)
     \<lparr>init_proc_ptr = Some 1, num_proc = 5,
      proc_links = \<lparr>prv = (\<lambda>x. if x = LHead () then LNode 1 else if x = LNode 4 then LHead () else if x = LNode 3 then LNode 4
          else if x = LNode 2 then LNode 3 else LNode 2),
        nxt = (\<lambda>x. if x = LHead () then LNode 4 else if x = LNode 4 then LNode 3 else if x = LNode 3 then LNode 2
          else if x = LNode 2 then LNode 1 else LHead ())\<rparr>,
      hash_links = \<lparr>prv = id, nxt = id\<rparr>, run_links = \<lparr>prv = id, nxt = id\<rparr>, next_pid = MAX_PID, prev_pid = 4,
      tfs = (\<lambda>_. \<lparr>tf_gpr = (\<lambda>_. 0), tf_sstatus = 0, tf_sepc = 0, tf_stval = 0, tf_scause = 0\<rparr>),
      g_bpt = 0xFFFFFFFF80300000, g_ticks = 0, sym = (\<lambda>_. 0), kout = []\<rparr>"

definition sample_kids :: "pcb_ptr \<Rightarrow> pcb_ptr list" where
  "sample_kids p = (if p = 9 then [1] else if p = 1 then [3, 2] else if p = 3 then [4] else [])"

lemma sample_kern_sel:
  "procs sample_kern = (\<lambda>p. sample_links p
     (if p = 5 then sample_pcb\<lparr>p_state := PROC_UNINIT\<rparr> else procs sample_sleeper p))"
  "idle_proc sample_kern = 9" "curr_proc sample_kern = 3" "init_proc_ptr sample_kern = Some 1"
  "prev_pid sample_kern = 4" "next_pid sample_kern = MAX_PID"
  "run_pools sample_kern = run_pools sample_sleeper" "rq_num_proc sample_kern = rq_num_proc sample_sleeper"
  "rq_max_time_slice sample_kern = rq_max_time_slice sample_sleeper" "rq_run_pool sample_kern = rq_run_pool sample_sleeper"
  by (simp_all add: sample_kern_def ssched.defs sample_sem_def tsched.defs sample_timers_def sched.defs
      sample_sleeper_def sample_sched_def)

lemma sample_kern_rep: "proc_rep sample_kern [4, 3, 2, 1]"
  by (simp add: proc_rep_def sample_kern_def ssched.defs dlist_def)

lemma sample_kern_family: "family sample_kern [4, 3, 2, 1] sample_kids"
  using sample_kern_rep
  by (simp add: family_def sample_kern_sel kids_def sample_kids_def sample_links_def)

lemma sample_kern_pids: "pids sample_kern [4, 3, 2, 1] = {1, 2, 3, 4}" "pid_inv sample_kern [4, 3, 2, 1]"
  by (auto simp: pids_def sample_kern_sel sample_links_def pid_inv_def pids_clear_def)

lemma sample_kern_state:
  "p_state (procs sample_kern 4) = PROC_SLEEPING" "p_wait_state (procs sample_kern 4) = WAIT_TIMER"
  "p_state (procs sample_kern 1) = PROC_RUNNABLE" "p_wait_state (procs sample_kern 1) = WAIT_NONE"
  "p_flags (procs sample_kern 4) = 0" "p_pid (procs sample_kern 4) = 4"
  by (simp_all add: sample_kern_sel sample_links_def sample_sleeper_def sample_sched_def sample_pcb_def WAIT_NONE_def)

lemma sample_kern_inv: "sched_inv {1, 2, 3, 4} sample_kern" "sched_inv {5, 1, 2, 3, 4} sample_kern"
proof -
  let ?t = "sched.truncate sample_kern"
  have t: "procs ?t = procs sample_kern" "curr_proc ?t = curr_proc sample_sleeper"
      "idle_proc ?t = idle_proc sample_sleeper" "run_pools ?t = run_pools sample_sleeper" "rq_num_proc ?t = rq_num_proc sample_sleeper"
      "rq_max_time_slice ?t = rq_max_time_slice sample_sleeper" "rq_run_pool ?t = rq_run_pool sample_sleeper"
    by (simp_all add: sched.defs sample_kern_sel) (simp_all add: sample_sleeper_def sample_sched_def)
  have rq: "same_rq sample_sleeper ?t"
    by (auto simp: same_rq_def t sample_kern_sel(1) sample_links_def sample_sleeper_def sample_sched_def)
  have idle: "idle_proc sample_sleeper = 9"
    by (simp add: sample_sleeper_def sample_sched_def)
  have s5: "p_state (procs ?t 5) \<noteq> PROC_RUNNABLE" "proc_ok ?t 5"
    by (simp_all add: t sample_kern_sel(1) sample_links_def sample_pcb_def const_defs proc_ok_def)
  have "p_state (procs ?t q) = p_state (procs sample_sleeper q)" "p_gpt (procs ?t q) = p_gpt (procs sample_sleeper q)" if "q \<noteq> 5" for q
    using that by (simp_all add: t sample_kern_sel(1) sample_links_def)
  then have "sched_inv {1, 2, 3, 4} ?t" "sched_inv (insert 5 {1, 2, 3, 4}) ?t"
    using sched_inv_fresh [OF sample_sched_inv rq t(3,2), of 5] s5 by (auto simp: idle)
  then show "sched_inv {1, 2, 3, 4} sample_kern" "sched_inv {5, 1, 2, 3, 4} sample_kern"
    by (simp_all add: sched_inv_truncate)
qed

lemma sample_kern_run_set: "run_set {1, 2, 3, 4} sample_kern = {1, 2, 3}" "run_set {5, 1, 2, 3, 4} sample_kern = {1, 2, 3}"
  by (auto simp: run_set_def sample_kern_sel sample_links_def sample_sleeper_def sample_sched_def sample_pcb_def const_defs)

lemma sample_kern_window: "A \<subseteq> {1, 2, 3, 4, 5} \<Longrightarrow> stride_window (Suc (unat BIG_STRIDE)) 0xFFFFFFF0 sample_kern A"
proof (rule stride_window_mono)
  show "stride_window (Suc (unat BIG_STRIDE)) 0xFFFFFFF0 sample_kern {1, 2, 3, 4, 5}"
    by (simp add: stride_window_def sample_kern_sel sample_links_def sample_sleeper_def sample_sched_def sample_pcb_def
        ahead_def BIG_STRIDE_def)
qed auto

lemma sample_kern_inj: "inj_on (\<lambda>p. p_pid (procs sample_kern p)) (set [4, 3, 2, 1])"
  by (auto simp: inj_on_def sample_kern_sel sample_links_def)

section \<open>Properties\<close>

text \<open>C19: as long as fewer than \<open>MAX_PID - 1\<close> processes exist, \<open>alloc_pid\<close> terminates, however often its
  scan of the process list starts over, and returns a number from 1 to \<open>MAX_PID - 1\<close> that no process
  has. A process that takes the number keeps the static variables consistent with the list, so
  the fast path of the next call is right, too.\<close>

theorem alloc_pid_fresh:
  assumes "proc_rep s ps" and "pid_inv s ps" and "int (length ps) < MAX_PID - 1"
  shows "\<exists>pid s'. alloc_pid s = ret (pid, s') \<and> 1 \<le> pid \<and> pid < MAX_PID \<and> pid \<notin> pids s ps \<and>
    (\<forall>p. p \<notin> set ps \<longrightarrow> pid_inv (upd_proc p (\<lambda>q. q\<lparr>p_pid := pid\<rparr>) s') (p # ps))"
proof -
  obtain pid nextp where r: "alloc_pid s = ret (pid, s\<lparr>prev_pid := pid, next_pid := nextp\<rparr>)"
    and b: "1 \<le> pid" "pid < nextp" "nextp \<le> MAX_PID" and c: "pids_clear s ps pid nextp"
    using alloc_pid_ok [OF assms] by blast
  have "pid \<notin> pids s ps"
    using b(2) c by (auto simp: pids_clear_def)
  then show ?thesis
    using r b pid_inv_register [OF c b(1,3)] by auto
qed

theorem alloc_pid_fresh_witness:
  "\<exists>pid s'. alloc_pid sample_kern = ret (pid, s') \<and> 1 \<le> pid \<and> pid < MAX_PID \<and> pid \<notin> {1, 2, 3, 4}"
  using alloc_pid_fresh [OF sample_kern_rep sample_kern_pids(2)] sample_kern_pids(1)
  by (auto simp: MAX_PID_def MAX_PROCESS_def)

text \<open>C2: the last part of \<open>do_fork\<close> enters the new process into all structures at once: it gets a
  fresh number, becomes the youngest child of its parent and the first process of the list, is
  runnable and queued, and the number of processes grows by one; the relations of all other
  processes and the interrupt switch stay as they were.\<close>

theorem fork_registers:
  assumes "family s ps K" and "pid_inv s ps" and "int (length ps) < MAX_PID - 1" and "p \<notin> insert (idle_proc s) (set ps)"
    and "p_parent (procs s p) = Some par" and "par \<in> insert (idle_proc s) (set ps)" and "p_child (procs s p) = None"
    and "p_state (procs s p) = PROC_UNINIT" and "sched_inv (insert p (set ps)) s"
    and "stride_window (Suc (unat BIG_STRIDE)) b s (insert p (run_set (insert p (set ps)) s))"
  shows "\<exists>n s'. do_fork_register p s = ret (n, s') \<and> 1 \<le> n \<and> n < MAX_PID \<and> n \<notin> pids s ps \<and> p_pid (procs s' p) = n \<and>
    family s' (p # ps) (K(par := p # K par, p := [])) \<and> pid_inv s' (p # ps) \<and> sched_inv (insert p (set ps)) s' \<and>
    run_set (insert p (set ps)) s' = insert p (run_set (insert p (set ps)) s) \<and> num_proc s' = num_proc s + 1 \<and>
    sstatus s' = sstatus s"
  by (rule do_fork_register_ok [OF assms])

theorem fork_registers_witness:
  "\<exists>n s'. do_fork_register 5 sample_kern = ret (n, s') \<and> n \<notin> {1, 2, 3, 4} \<and>
    family s' [5, 4, 3, 2, 1] (sample_kids(3 := [5, 4], 5 := [])) \<and> run_set {5, 1, 2, 3, 4} s' = {1, 2, 3, 5}"
proof -
  have 5: "5 \<notin> insert (idle_proc sample_kern) (set [4, 3, 2, 1])" "p_parent (procs sample_kern 5) = Some 3"
      "3 \<in> insert (idle_proc sample_kern) (set [4, 3, 2, 1])" "p_child (procs sample_kern 5) = None"
      "p_state (procs sample_kern 5) = PROC_UNINIT"
    by (simp_all add: sample_kern_sel sample_links_def)
  have P: "insert 5 (set [4, 3, 2, 1]) = {5, 1, 2, 3, 4 :: u64}"
    by auto
  have room: "int (length [4 :: u64, 3, 2, 1]) < MAX_PID - 1"
    by (simp add: MAX_PID_def MAX_PROCESS_def)
  have w: "stride_window (Suc (unat BIG_STRIDE)) 0xFFFFFFF0 sample_kern (insert 5 (run_set {5, 1, 2, 3, 4} sample_kern))"
    by (rule sample_kern_window) (auto simp: sample_kern_run_set)
  show ?thesis
    using fork_registers [OF sample_kern_family sample_kern_pids(2) room 5, unfolded P, OF sample_kern_inv(2) w]
    unfolding sample_kern_run_set sample_kern_pids(1) by (auto simp: sample_kids_def)
qed

text \<open>C9: an exiting process hands all its children to \<open>init\<close>, in front of the children \<open>init\<close> already
  has, and the loop ends. It wakes its parent if that waits for a child, and \<open>init\<close> if that waits
  and one of the new children is a zombie; no other process changes its state.\<close>

theorem exit_reparents:
  fixes s :: "'z ksched_scheme"
  assumes "family s ps K" and "sched_inv (set ps) s" and "curr_proc s \<in> set ps"
    and "p_parent (curr_pcb s) = Some par" and "par \<in> set ps" and "waiter_ok s par"
    and "init_proc_ptr s = Some i" and "i \<in> set ps" and "curr_proc s \<noteq> i" and "waiter_ok s i"
    and "stride_window (Suc (unat BIG_STRIDE)) v s (insert par (insert i (run_set (set ps) s)))"
  shows "\<exists>s'. exit_notify s = ret s' \<and> sched_inv (set ps) s' \<and> curr_proc s' = curr_proc s \<and> sstatus s' = sstatus s \<and>
    family s' ps (K(curr_proc s := [], i := rev (K (curr_proc s)) @ K i)) \<and>
    (\<forall>q. q \<noteq> i \<longrightarrow> q \<noteq> par \<longrightarrow> p_state (procs s' q) = p_state (procs s q)) \<and>
    run_set (set ps) s' = run_set (set ps) s \<union> (if p_wait_state (procs s par) = WAIT_CHILD then {par} else {}) \<union>
      (if p_wait_state (procs s i) = WAIT_CHILD \<and> (\<exists>x\<in>set (K (curr_proc s)). p_state (procs s x) = PROC_ZOMBIE) then {i} else {})"
  by (rule exit_notify_ok [OF assms])

theorem exit_reparents_witness:
  "\<exists>s'. exit_notify sample_kern = ret s' \<and> family s' [4, 3, 2, 1] (sample_kids(3 := [], 1 := [4, 3, 2]))"
proof -
  have c: "curr_proc sample_kern \<in> set [4, 3, 2, 1]" "p_parent (curr_pcb sample_kern) = Some 1" "1 \<in> set [4, 3, 2, 1 :: u64]"
      "curr_proc sample_kern \<noteq> 1" "waiter_ok sample_kern 1"
    by (simp_all add: sample_kern_sel sample_links_def waiter_ok_def sample_kern_state)
      (simp add: sample_sleeper_def sample_sched_def sample_pcb_def const_defs)
  have P: "set [4, 3, 2, 1] = {1, 2, 3, 4 :: u64}"
    by auto
  have w: "stride_window (Suc (unat BIG_STRIDE)) 0xFFFFFFF0 sample_kern (insert 1 (insert 1 (run_set {1, 2, 3, 4} sample_kern)))"
    by (rule sample_kern_window) (auto simp: sample_kern_run_set)
  show ?thesis
    using exit_reparents [OF sample_kern_family _ c(1,2,3,5) sample_kern_sel(4) c(3,4,5), unfolded P, OF sample_kern_inv(1) w]
    by (auto simp: sample_kern_sel sample_kids_def)
qed

text \<open>C20: reaping takes a process without children out of the list and out of the children of its
  parent and closes both gaps; the number of processes falls by one and no other relation changes.\<close>

theorem remove_links_family:
  assumes "family s ps K" and "p \<in> set ps" and "K p = []" and "p_parent (procs s p) = Some par"
  shows "\<exists>s'. remove_links p s = ret s' \<and> num_proc s' = num_proc s - 1 \<and> idle_proc s' = idle_proc s \<and>
    family s' (remove1 p ps) (K(par := remove1 p (K par)))"
  by (rule remove_links_family_ok [OF assms])

theorem remove_links_family_witness:
  "\<exists>s'. remove_links 2 sample_kern = ret s' \<and> family s' [4, 3, 1] (sample_kids(1 := [3]))"
proof -
  have "2 \<in> set [4, 3, 2, 1 :: u64]" "sample_kids 2 = []" "p_parent (procs sample_kern 2) = Some 1"
    by (simp_all add: sample_kids_def sample_kern_sel sample_links_def)
  from remove_links_family [OF sample_kern_family this] show ?thesis
    using sample_kids_def [of 1] by auto
qed

text \<open>C21: \<open>do_kill\<close> with a number that no process has, or that no process may have, reports an error
  and changes nothing. A living process gets the exit flag, and when it sleeps in an interruptible
  way it is woken; nothing else happens to any other process. Killing it again only reports
  \<open>E_KILLED\<close>.\<close>

theorem do_kill_correct:
  fixes s :: "'z ksched_scheme"
  assumes "proc_rep s ps" and "inj_on (\<lambda>p. p_pid (procs s p)) (set ps)" and "sched_inv (set ps) s"
  shows "(n \<notin> pids s ps \<or> n \<le> 0 \<or> MAX_PID \<le> n \<longrightarrow> do_kill n s = ret (- E_INVAL, s)) \<and>
    (\<forall>p\<in>set ps. p_pid (procs s p) = n \<and> 0 < n \<and> n < MAX_PID \<longrightarrow>
      (if p_flags (procs s p) AND PROC_FLAG_EXIT \<noteq> 0 then do_kill n s = ret (- E_KILLED, s)
       else sleeper_ok s p \<longrightarrow> stride_window (Suc (unat BIG_STRIDE)) v s (insert p (run_set (set ps) s)) \<longrightarrow>
         (\<exists>s'. do_kill n s = ret (0, s') \<and> p_flags (procs s' p) AND PROC_FLAG_EXIT \<noteq> 0 \<and> sched_inv (set ps) s' \<and>
           (\<forall>q. q \<noteq> p \<longrightarrow> procs s' q = procs s q) \<and>
           run_set (set ps) s' = (if p_wait_state (procs s p) AND WAIT_INT \<noteq> 0
             then insert p (run_set (set ps) s) else run_set (set ps) s))))"
  (is "_ \<and> (\<forall>p\<in>set ps. ?pid p \<longrightarrow> ?kill p)")
proof -
  have "do_kill (p_pid (procs s p)) s = ret (- E_KILLED, s)"
    if "p \<in> set ps" "0 < p_pid (procs s p)" "p_pid (procs s p) < MAX_PID" "p_flags (procs s p) AND PROC_FLAG_EXIT \<noteq> 0" for p
    using that by (simp add: do_kill_def get_proc_find [OF assms(1,2)])
  note killed = this
  show ?thesis
  proof (intro conjI ballI impI)
    show "do_kill n s = ret (- E_INVAL, s)" if "n \<notin> pids s ps \<or> n \<le> 0 \<or> MAX_PID \<le> n"
      by (rule do_kill_none [OF assms(1) that])
    fix p assume p: "p \<in> set ps" "p_pid (procs s p) = n \<and> 0 < n \<and> n < MAX_PID"
    then have n: "n = p_pid (procs s p)" "0 < p_pid (procs s p)" "p_pid (procs s p) < MAX_PID"
      by auto
    show "?kill p"
      unfolding n(1) using killed [OF p(1) n(2,3)] do_kill_one [OF assms p(1) n(2,3), of v]
      by (cases "p_flags (procs s p) AND PROC_FLAG_EXIT = 0") simp_all
  qed
qed

theorem do_kill_correct_witness:
  "do_kill 7 sample_kern = ret (- E_INVAL, sample_kern) \<and>
   (\<exists>s'. do_kill 4 sample_kern = ret (0, s') \<and> run_set {1, 2, 3, 4} s' = {1, 2, 3, 4})"
proof -
  have P: "set [4, 3, 2, 1] = {1, 2, 3, 4 :: u64}"
    by auto
  note k = do_kill_correct [OF sample_kern_rep sample_kern_inj, unfolded P sample_kern_pids(1), OF sample_kern_inv(1)]
  have w: "stride_window (Suc (unat BIG_STRIDE)) 0xFFFFFFF0 sample_kern (insert 4 (run_set {1, 2, 3, 4} sample_kern))"
    by (rule sample_kern_window) (auto simp: sample_kern_run_set)
  have 4: "sleeper_ok sample_kern 4" "p_flags (procs sample_kern 4) AND PROC_FLAG_EXIT = 0" "(4 :: int) < MAX_PID"
      "p_wait_state (procs sample_kern 4) AND WAIT_INT \<noteq> 0" "4 \<in> {1, 2, 3, 4 :: u64}"
    by (simp_all add: sleeper_ok_def sample_kern_state MAX_PID_def MAX_PROCESS_def WAIT_TIMER_def WAIT_INT_def)
  have "\<exists>s'. do_kill 4 sample_kern = ret (0, s') \<and> run_set {1, 2, 3, 4} s' = insert 4 (run_set {1, 2, 3, 4} sample_kern)"
    using k [of 4 "0xFFFFFFF0"] 4 w sample_kern_state(6) by auto
  moreover have "do_kill 7 sample_kern = ret (- E_INVAL, sample_kern)"
    using k [of 7] by simp
  ultimately show ?thesis
    unfolding sample_kern_run_set by (auto simp: insert_commute)
qed

end
