(* ===== verification/Trap_Props.thy ===== *)
theory Trap_Props
  imports Syscall_Trap Proc_Props
begin

text \<open>
  The path of a system call from the stub of a user program through the trap to its handler and
  back.
\<close>

unbundle bit_operations_syntax

section \<open>Registers and numbers\<close>

lemma to_of_i32: "- (2 ^ 31) \<le> i \<Longrightarrow> i < 2 ^ 31 \<Longrightarrow> to_i32 (of_i32 i) = i"
  by (simp add: to_i32_def of_i32_def unsigned_of_int signed_of_int signed_take_bit_take_bit signed_take_bit_int_eq_self)

text \<open>What the kernel sees of the arguments of a stub.\<close>

definition passed :: "(nat \<Rightarrow> u64) \<Rightarrow> u64 list \<Rightarrow> nat \<Rightarrow> u64" where
  "passed junk args i = (if i < length args then args ! i else junk i)"

lemma syscall_args_user: "i < MAX_SYSCALL_ARGS \<Longrightarrow> syscall_args (user_syscall junk num args r) i = passed junk args i"
proof -
  assume "i < MAX_SYSCALL_ARGS"
  then have "i < 5"
    by (simp add: MAX_SYSCALL_ARGS_def)
  then have "i = 0 \<or> i = 1 \<or> i = 2 \<or> i = 3 \<or> i = 4"
    by presburger
  then show ?thesis
    by (elim disjE) (simp_all add: syscall_args_def user_syscall_def passed_def Let_def)
qed

lemma user_syscall_a0: "user_syscall junk num args r A0 = of_i32 num"
  by (simp add: user_syscall_def Let_def)

lemma num_syscalls: "num_syscalls = 32"
  by (simp add: num_syscalls_def const_defs)

lemma syscalls_range: "syscalls num = Some f \<Longrightarrow> 0 \<le> num \<and> num < num_syscalls"
  by (auto simp: num_syscalls syscalls_def const_defs split: if_splits)

lemma ecall_user: "SCAUSE_ECFU AND 0x8000000000000000 = 0"
  by (simp add: SCAUSE_ECFU_def)

lemma exception_ecall:
  assumes "tf_scause (tfs s a) = SCAUSE_ECFU"
  shows "exception_handler loc a s = syscall loc (skip_insn a 4 s)"
  using assms by (simp add: exception_handler_def SCAUSE_ECFU_def SCAUSE_IAM_def SCAUSE_IAF_def SCAUSE_II_def SCAUSE_B_def
      SCAUSE_LAM_def SCAUSE_LAF_def SCAUSE_SAM_def SCAUSE_SAF_def)

lemma skip_insn_sel [simp]:
  "procs (skip_insn a n s) = procs s" "curr_proc (skip_insn a n s) = curr_proc s"
  "tf_gpr (tfs (skip_insn a n s) a) = tf_gpr (tfs s a)" "tf_sepc (tfs (skip_insn a n s) a) = tf_sepc (tfs s a) + n"
  by (simp_all add: skip_insn_def)

lemma upd_proc_tfs [simp]: "tfs (upd_proc p f s) = tfs s"
  by (simp add: upd_proc_def)

lemma syscall_user:
  fixes s :: "'z ksched_scheme"
  assumes "p_tf (curr_pcb s) = Some a" "tf_gpr (tfs s a) A0 = of_i32 num" "- (2 ^ 31) \<le> num" "num < 2 ^ 31"
  shows "syscall loc s =
    (case syscalls num of
       None \<Rightarrow> panic
     | Some f \<Rightarrow> bind_exec (f loc (syscall_args (tf_gpr (tfs s a))) s) (\<lambda>(res, s1).
         case res of Inl v \<Rightarrow> ret (None, set_a0 a v s1) | Inr b \<Rightarrow> ret (Some (a, b), s1)))"
  using assms syscalls_range [of num] by (auto simp: syscall_def syscall_entry_def to_of_i32 split: option.splits)

section \<open>Properties\<close>

text \<open>The calls of the kernel by number, as the programs know them from \<open>unistd.h\<close>.\<close>

definition call_of_number :: "int \<Rightarrow> 'z handler option" where
  "call_of_number n =
     (if n = 1 then Some sys_exit else if n = 2 then Some sys_fork else if n = 3 then Some sys_wait
      else if n = 4 then Some sys_exec else if n = 10 then Some sys_yield else if n = 11 then Some sys_sleep
      else if n = 12 then Some sys_kill else if n = 17 then Some sys_gettime else if n = 18 then Some sys_getpid
      else if n = 30 then Some sys_putc else if n = 31 then Some sys_set_priority else None)"

lemma syscalls_call_of_number: "syscalls n = call_of_number n"
  by (auto simp: syscalls_def call_of_number_def const_defs)

text \<open>The way back to the program after a call with result \<open>v\<close>: the register \<open>a0\<close> of the frame, the frame pointer of
  the process as it was before, then the end of a killed process or a change of process.\<close>

definition back_to_user :: "u64 \<Rightarrow> u64 option \<Rightarrow> int \<Rightarrow> 'z ksched_scheme \<Rightarrow> (waiting option \<times> 'z ksched_scheme) exec" where
  "back_to_user a old v s =
     (let s1 = s\<lparr>tfs := (tfs s)(a := (tfs s a)\<lparr>tf_gpr := (tf_gpr (tfs s a))(A0 := word_of_int v)\<rparr>)\<rparr>;
          s2 = s1\<lparr>procs := (procs s1)(curr_proc s1 := (procs s1 (curr_proc s1))\<lparr>p_tf := old\<rparr>)\<rparr>;
          q = procs s2 (curr_proc s2)
      in bind_exec (if p_flags q AND PROC_FLAG_EXIT \<noteq> 0 then do_exit (- E_KILLED) s2
           else if p_need_reschedule q then schedule s2 else ret s2) (\<lambda>s3. ret (None, s3)))"

lemma trap_finish_back:
  "bind_exec (trap_finish old False (set_a0 a v s)) (\<lambda>s3. ret (None, s3)) = back_to_user a old v s"
  by (simp add: trap_finish_def back_to_user_def set_a0_def of_i32_def upd_proc_def Let_def)

text \<open>C7: what a user program asks for with a stub of \<open>user/lib/syscall.c\<close> is what the kernel does: the
  trap skips the \<open>ecall\<close> and runs the handler of exactly that number, one of eleven, on exactly the arguments passed;
  it writes the result to the register the stub reads, restores the frame pointer and only then
  ends a killed process with \<open>-E_KILLED\<close> or reschedules; a call that waits keeps all it needs to go on.
  Every other number, negative and large ones included, stops the machine, so any user program can do that.\<close>

theorem user_call_dispatch:
  fixes s :: "'z ksched_scheme"
  assumes "curr_proc s \<noteq> 0" and "tf_gpr (tfs s a) = user_syscall junk num args r"
    and "tf_scause (tfs s a) = SCAUSE_ECFU" and "tf_sstatus (tfs s a) AND SSTATUS_SPP = 0"
    and "- (2 ^ 31) \<le> num" and "num < 2 ^ 31"
  shows "\<exists>arg s1. (\<forall>i < 5. arg i = (if i < length args then args ! i else junk i)) \<and>
    s1 = s\<lparr>procs := (procs s)(curr_proc s := (procs s (curr_proc s))\<lparr>p_tf := Some a\<rparr>),
      tfs := (tfs s)(a := (tfs s a)\<lparr>tf_sepc := tf_sepc (tfs s a) + 4\<rparr>)\<rparr> \<and>
    trap loc a s =
      (case call_of_number num of
         None \<Rightarrow> panic
       | Some f \<Rightarrow> bind_exec (f loc arg s1) (\<lambda>(res, s2).
           case res of
             Inl v \<Rightarrow> back_to_user a (p_tf (procs s (curr_proc s))) v s2
           | Inr b \<Rightarrow> ret (Some \<lparr>wt_call = b, wt_frame = a, wt_old_tf = p_tf (procs s (curr_proc s)), wt_kernel = False\<rparr>, s2)))"
proof -
  define s0 where "s0 = upd_proc (curr_proc s) (\<lambda>q. q\<lparr>p_tf := Some a\<rparr>) s"
  define s1 where "s1 = skip_insn a 4 s0"
  have tf: "p_tf (curr_pcb s1) = Some a" "tf_gpr (tfs s1 a) = user_syscall junk num args r" "tfs s0 = tfs s"
    using assms(2) by (simp_all add: s1_def s0_def)
  have k: "\<not> check_kernel_trap (tfs s0 a)"
    using assms(4) by (simp add: check_kernel_trap_def tf(3))
  have "trap_dispatch loc a s0 = syscall loc s1"
    using exception_ecall [of s0 a loc] assms(3) ecall_user by (simp add: trap_dispatch_def tf(3) s1_def)
  then have "trap loc a s = bind_exec (syscall loc s1) (trap_return (p_tf (curr_pcb s)) False)"
    using assms(1) k by (simp add: trap_def Let_def flip: s0_def)
  then have "trap loc a s =
      (case call_of_number num of
         None \<Rightarrow> panic
       | Some f \<Rightarrow> bind_exec (f loc (syscall_args (tf_gpr (tfs s1 a))) s1) (\<lambda>(res, s2).
           case res of
             Inl v \<Rightarrow> back_to_user a (p_tf (curr_pcb s)) v s2
           | Inr b \<Rightarrow> ret (Some \<lparr>wt_call = b, wt_frame = a, wt_old_tf = p_tf (curr_pcb s), wt_kernel = False\<rparr>, s2)))"
    using syscall_user [OF tf(1), of num loc] assms(5,6) user_syscall_a0 [of junk num args r] tf(2)
    by (auto simp: bind_exec_assoc trap_return_def case_prod_unfold trap_finish_back syscalls_call_of_number split: option.splits sum.splits intro!: bind_exec_cong)
  moreover have "\<forall>i < 5. syscall_args (tf_gpr (tfs s1 a)) i = (if i < length args then args ! i else junk i)"
    using syscall_args_user [of _ junk num args r] by (simp add: tf(2) passed_def MAX_SYSCALL_ARGS_def)
  moreover have "s1 = s\<lparr>procs := (procs s)(curr_proc s := (procs s (curr_proc s))\<lparr>p_tf := Some a\<rparr>),
      tfs := (tfs s)(a := (tfs s a)\<lparr>tf_sepc := tf_sepc (tfs s a) + 4\<rparr>)\<rparr>"
    by (simp add: s1_def s0_def skip_insn_def upd_proc_def)
  ultimately show ?thesis
    by blast
qed

text \<open>A call of process 3 in the sample process table.\<close>

definition sample_call :: "int \<Rightarrow> ksched" where
  "sample_call num = sample_kern\<lparr>tfs := (\<lambda>_. \<lparr>tf_gpr = user_syscall (\<lambda>_. 0) num [] (\<lambda>_. 0), tf_sstatus = 0,
     tf_sepc = 0x800020, tf_stval = 0, tf_scause = SCAUSE_ECFU\<rparr>)\<rparr>"

lemma sample_call_sel:
  "curr_proc (sample_call num) = 3" "p_pid (procs (sample_call num) 3) = 3" "p_flags (procs (sample_call num) 3) = 0"
  "p_need_reschedule (procs (sample_call num) 3) = False"
  "tfs (sample_call num) a = \<lparr>tf_gpr = user_syscall (\<lambda>_. 0) num [] (\<lambda>_. 0), tf_sstatus = 0,
     tf_sepc = 0x800020, tf_stval = 0, tf_scause = SCAUSE_ECFU\<rparr>"
  by (simp_all add: sample_call_def sample_kern_sel sample_links_def sample_sleeper_def sample_sched_def sample_pcb_def)

theorem user_call_dispatch_witness:
  "(\<exists>s'. trap 0 0x1000 (sample_call SYS_GETPID) = ret (None, s') \<and> tf_gpr (tfs s' 0x1000) A0 = 3) \<and>
   trap 0 0x1000 (sample_call 7) = panic \<and> trap 0 0x1000 (sample_call 32) = panic \<and> trap 0 0x1000 (sample_call (- 1)) = panic"
proof -
  have c: "curr_proc (sample_call num) \<noteq> 0" "tf_gpr (tfs (sample_call num) a) = user_syscall (\<lambda>_. 0) num [] (\<lambda>_. 0)"
      "tf_scause (tfs (sample_call num) a) = SCAUSE_ECFU" "tf_sstatus (tfs (sample_call num) a) AND SSTATUS_SPP = 0" for num a
    by (simp_all add: sample_call_sel)
  note u = user_call_dispatch [where loc = 0 and a = "0x1000", OF c]
  have p: "trap 0 0x1000 (sample_call n) = panic" if "n = 7 \<or> n = 32 \<or> n = - 1" for n
    using u [of n] that by (auto simp: call_of_number_def)
  have "call_of_number SYS_GETPID = Some (sys_getpid :: unit handler)"
    by (simp add: call_of_number_def const_defs)
  moreover have "- (2 ^ 31) \<le> SYS_GETPID" "SYS_GETPID < 2 ^ 31"
    by (simp_all add: SYS_GETPID_def)
  ultimately have "\<exists>s'. trap 0 0x1000 (sample_call SYS_GETPID) = ret (None, s') \<and> tf_gpr (tfs s' 0x1000) A0 = 3"
    using u [of SYS_GETPID] by (auto simp: sys_getpid_def back_to_user_def Let_def sample_call_sel)
  with p [of 7] p [of 32] p [of "- 1"] show ?thesis
    by simp
qed

end
