(* ===== verification/Swap_Props.thy ===== *)
theory Swap_Props
  imports Page_Table Vmm
begin

text \<open>
  Swapping a page out and in: what is on the disk in between, what happens to the address space,
  and that the content survives.
\<close>

unbundle bit_operations_syntax

section \<open>Frames\<close>

lemma aspace_cong:
  assumes "same_free s s'" "mem s' = mem s" "\<And>r. page_ref (pages s' r) = page_ref (pages s r)"
  shows "aspace x s' g = aspace x s g"
proof -
  note sf = same_free_inv [OF assms(1)]
  have "data_page s' g q = data_page s g q" for q
    by (simp add: data_page_def sf assms(2))
  moreover have "tabs_ok s' g = tabs_ok s g"
    by (simp add: tabs_ok_def sf assms(2))
  ultimately show ?thesis
    by (simp add: aspace_def assms(2,3))
qed

text \<open>An entry is overwritten by an invalid one and the page it mapped, which had no other
  reference, is freed.\<close>

lemma unmap_free_ok:
  assumes a: "aspace x s g" and va: "va < USER_END" and t: "vpn va = (i, j, k)"
    and p: "leaf_table (ents (mem s)) g i j = Some p" and e: "pte_valid (pmap (ents (mem s)) g (vpn va))" and q: "q = pte_page (pmap (ents (mem s)) g (vpn va))"
    and one: "page_ref (pages s q) = 1" and v: "\<not> pte_valid v"
  shows "\<exists>s'. free_page q (store_pte (entry_at (page_va p) k) v s) = ret s' \<and> aspace x s' g \<and>
    pmm_only (store_pte (entry_at (page_va p) k) v s) s' \<and>
    (\<forall>u\<in>vpages. pmap (ents (mem s')) g u = (if u = vpn va then v else pmap (ents (mem s)) g u)) \<and>
    leaf_table (ents (mem s')) g i j = Some p \<and>
    (\<forall>r. page_ref (pages s' r) = (if r = q then 0 else page_ref (pages s r))) \<and>
    free_pages_of s' = insert q (free_pages_of s) \<and> page_usable s' = page_usable s"
proof -
  define s1 where "s1 = store_pte (entry_at (page_va p) k) v s"
  have tv: "(i, j, k) \<in> vpages"
    using vpn_range [OF va] by (simp add: t)
  note ok = aspaceD(1) [OF a]
  note L = store_leaf(1-3) [OF ok refl tv p, where v = v, folded s1_def, unfolded t [symmetric]]
  have sf: "same_free s s1"
    by (simp add: s1_def)
  note SF = same_free_inv [OF sf]
  have dq: "data_page s g q"
    using aspaceD(2) [OF a vpn_range [OF va] e] by (simp add: q)
  have tq: "vpn va \<in> mappers (ents (mem s)) g q"
    using e vpn_range [OF va] by (simp add: mappers_def q)
  then have "0 < card (mappers (ents (mem s)) g q)"
    by (auto simp: card_gt_0_iff)
  then have one': "card (mappers (ents (mem s)) g q) = 1" "x q = 0"
    using aspaceD(3) [OF a dq] one by auto
  then have mq: "mappers (ents (mem s)) g q = {vpn va}"
    using tq by (metis card_1_singletonE singletonD)
  obtain s2 where s2: "free_page q s1 = ret s2" "bf_inv s2" "free_pages_of s2 = insert q (free_pages_of s)" "pmm_only s1 s2"
      "\<And>r. page_ref (pages s2 r) = (if r = q then 0 else page_ref (pages s1 r))" "page_usable s2 = page_usable s"
    using free_page_ok [of s1 q] dq tabs_okD(1) [OF ok] SF by (auto simp: data_page_def)
  have m2: "mem s2 = mem s1"
    using pmm_only_sel(1) [OF s2(4)] .
  have qt: "q \<notin> tables (ents (mem s)) g"
    using dq by (simp add: data_page_def)
  have ok2: "tabs_ok s2 g"
    using L(1,2) s2(2,3) qt SF(4) by (auto simp: tabs_ok_def m2)
  have pm: "pmap (ents (mem s2)) g u = (if u = vpn va then v else pmap (ents (mem s)) g u)" if "u \<in> vpages" for u
    using L(3) [OF that] by (simp add: m2)
  have dp: "data_page s2 g r \<longleftrightarrow> data_page s g r \<and> r \<noteq> q" for r
    using L(2) s2(3,6) by (auto simp: data_page_def m2)
  have mp: "mappers (ents (mem s2)) g r = mappers (ents (mem s)) g r" if "r \<noteq> q" for r
  proof (rule set_eqI)
    fix u
    show "u \<in> mappers (ents (mem s2)) g r \<longleftrightarrow> u \<in> mappers (ents (mem s)) g r"
      using pm [of u] that v q by (cases "u \<in> vpages"; cases "u = vpn va") (simp_all add: mappers_def)
  qed
  have "aspace x s2 g"
    unfolding aspace_def
  proof (intro conjI ballI impI allI)
    show "tabs_ok s2 g"
      by (rule ok2)
  next
    fix u
    assume u: "u \<in> vpages" "pte_valid (pmap (ents (mem s2)) g u)"
    then have un: "u \<noteq> vpn va" "pmap (ents (mem s2)) g u = pmap (ents (mem s)) g u"
      using pm [of u] v by (auto split: if_splits)
    have "pte_page (pmap (ents (mem s)) g u) \<noteq> q"
    proof
      assume "pte_page (pmap (ents (mem s)) g u) = q"
      then have "u \<in> mappers (ents (mem s)) g q"
        using u un by (simp add: mappers_def)
      with mq un(1) show False
        by simp
    qed
    then show "data_page s2 g (pte_page (pmap (ents (mem s2)) g u))"
      unfolding dp un(2) using aspaceD(2) [OF a u(1)] u(2) un(2) by simp
  next
    fix r
    assume "data_page s2 g r"
    then have "data_page s g r" "r \<noteq> q"
      by (simp_all add: dp)
    then show "unat (page_ref (pages s2 r)) = card (mappers (ents (mem s2)) g r) + x r"
      using aspaceD(3) [OF a] mp [of r] s2(5) [of r] by (simp add: s1_def store_pte_def)
  qed
  moreover have "leaf_table (ents (mem s2)) g i j = Some p"
    using set_leaf_tables(2) [OF tabs_okD(3) [OF ok], of p i k v j] p tv ents_store [of p k "mem s" v]
      tabs_okD(5) [OF ok leavesI [OF _ _ p]] table_page_dram leavesI [OF _ _ p]
    by (auto simp: m2 s1_def store_pte_def vpages_def)
  moreover have "page_ref (pages s2 r) = (if r = q then 0 else page_ref (pages s r))" for r
    using s2(5) by (simp add: s1_def store_pte_def)
  ultimately show ?thesis
    using s2(1,3,4,6) pm by (intro exI [of _ s2]) (simp add: s1_def)
qed

text \<open>Freeing makes no block that starts beyond the others and the page.\<close>

lemma heads_join_next: "fst ` set (join_next x vs) \<subseteq> insert (fst x) (fst ` set vs)"
  by (cases vs) auto

lemma heads_spec_free: "fst ` set (spec_free b n bs) \<subseteq> insert b (fst ` set bs)"
proof -
  have gen: "A \<subseteq> B \<union> insert y C \<Longrightarrow> B \<subseteq> U \<Longrightarrow> y \<in> insert b U \<Longrightarrow> S = U \<union> C \<Longrightarrow> A \<subseteq> insert b S"
    for A B C U S :: "nat set" and y
    by blast
  define us where "us = takeWhile (\<lambda>x. fst x < b) bs"
  define vs where "vs = dropWhile (\<lambda>x. fst x < b) bs"
  have bs: "bs = us @ vs"
    by (simp add: us_def vs_def)
  have sp: "spec_free b n bs = (if us \<noteq> [] \<and> fst (last us) + snd (last us) = b
      then butlast us @ join_next (fst (last us), snd (last us) + n) vs else us @ join_next (b, n) vs)"
    by (simp only: spec_free_def Let_def us_def vs_def)
  show ?thesis
  proof (cases "us \<noteq> [] \<and> fst (last us) + snd (last us) = b")
    case True
    then have "spec_free b n bs = butlast us @ join_next (fst (last us), snd (last us) + n) vs"
      by (simp only: sp simp_thms if_True)
    then have "fst ` set (spec_free b n bs) \<subseteq> fst ` set (butlast us) \<union> insert (fst (last us)) (fst ` set vs)"
      using heads_join_next [of "(fst (last us), snd (last us) + n)" vs] by (simp only: set_append image_Un fst_conv) blast
    moreover have "fst ` set (butlast us) \<subseteq> fst ` set us" "fst (last us) \<in> insert b (fst ` set us)"
      using True by (auto dest: in_set_butlastD)
    moreover have "fst ` set bs = fst ` set us \<union> fst ` set vs"
      by (simp add: bs image_Un)
    ultimately show ?thesis
      by (rule gen)
  next
    case False
    then have "spec_free b n bs = us @ join_next (b, n) vs"
      by (simp only: sp if_False)
    then have "fst ` set (spec_free b n bs) \<subseteq> fst ` set us \<union> insert b (fst ` set vs)"
      using heads_join_next [of "(b, n)" vs] by (simp only: set_append image_Un fst_conv) blast
    moreover have "fst ` set bs = fst ` set us \<union> fst ` set vs"
      by (simp add: bs image_Un)
    ultimately show ?thesis
      by (rule gen [OF _ subset_refl insertI1])
  qed
qed

lemma free_page_low:
  assumes inv: "bf_inv s" and low: "low_blocks 1 s" and q: "page_usable s q" "q \<notin> free_pages_of s" "q < 0x88000"
    and run: "free_page q s = ret s'"
  shows "low_blocks 1 s'"
proof -
  obtain flag s1 where s1: "local_intr_save s = (flag, s1)"
    by fastforce
  note sf = same_free_inv [OF intr_save_free [OF s1]]
  have abs: "bf_abs s1 (blocks_of s)"
    using inv by (simp add: sf bf_inv_def)
  have one: "{q..<q + unat (1 :: u64)} = {q}"
    by auto
  have u: "min_page \<le> q" "q + unat (1 :: u64) \<le> max_page" "page_flags (pages s1 q) AND PAGE_RESERVED = 0"
    using q(1) sf(5) by (auto simp: page_usable_def fun_eq_iff)
  obtain s2 where s2: "best_fit_free_pages q 1 s1 = ret s2" "bf_abs s2 (spec_free q (unat (1 :: u64)) (blocks_of s))"
    using bf_free [OF abs, of 1 q] u q(2) one by (auto simp: free_pages_of_def)
  have "s' = local_intr_restore flag s2"
    using run s1 s2(1) by (simp add: free_page_def free_pages_def)
  then have "blocks_of s' = spec_free q (unat (1 :: u64)) (blocks_of s)"
    using same_free_inv(2) [OF same_free_intr(2), of flag s2] blocks_of_abs [OF s2(2)] by simp
  then show ?thesis
    using heads_spec_free [of q "unat (1 :: u64)" "blocks_of s"] low q(3) by (fastforce simp: low_blocks_def)
qed

text \<open>Where the leaf table exists, \<open>get_pte\<close> allocates nothing.\<close>

lemma get_pte_present:
  assumes ok: "tabs_ok s g" and va: "va < USER_END" and t: "vpn va = (i, j, k)" and p: "leaf_table (ents (mem s)) g i j = Some p"
  shows "get_pte (page_va g) va need s = ret (Some (entry_at (page_va p) k), s)"
proof -
  have b: "i < 2" "j < 512" "k < 512" "i < 512" "get_gptx va = i" "get_mptx va = j" "get_ptx va = k"
    using t vpn_range [OF va] user_index by (auto simp: vpn_def vpages_def)
  obtain r where r: "mid_table (ents (mem s)) g i = Some r" "mid_table (ents (mem s)) r j = Some p"
    using p by (auto simp: leaf_table_def split: option.splits)
  have tr: "table_page r" "table_page p"
    using tabs_okD(4) [OF ok midsI [OF b(1) r(1)]] tabs_okD(5) [OF ok leavesI [OF b(1,2) p]] by simp_all
  have E: "load64 (mem s) (entry_at (page_va g) i) = ents (mem s) g i"
      "load64 (mem s) (entry_at (page_va r) j) = ents (mem s) r j"
    using ents_load [OF tabs_okD(2) [OF ok] b(4), of s] ents_load [OF table_page_dram [OF tr(1)] b(2), of s] by simp_all
  have v: "pte_valid (ents (mem s) g i)" "pte_page (ents (mem s) g i) = r"
      "pte_valid (ents (mem s) r j)" "pte_page (ents (mem s) r j) = p"
    using r by (auto simp: mid_table_def split: if_splits)
  show ?thesis
    using b E v tr pte2va_ok [OF v(1)] pte2va_ok [OF v(3)]
    by (simp add: get_pte_def get_pte_by_def get_table_old Let_def table_page_def)
qed

lemma add_page_fresh:
  assumes a: "aspace x s g" and q: "data_page s g q" "page_ref (pages s q) \<noteq> - 1" and fl: "unat flags < 1024"
    and va: "va < USER_END" and t: "vpn va = (i, j, k)" and p: "leaf_table (ents (mem s)) g i j = Some p"
    and e: "\<not> pte_valid (pmap (ents (mem s)) g (vpn va))"
  defines "s1 \<equiv> upd_page q (\<lambda>r. r\<lparr>page_ref := page_ref r + 1\<rparr>) s"
    and "v \<equiv> ppn2pte (of_nat q) (ucast PTE_V OR flags)"
  shows "add_page (page_va g) q va flags s = ret (0, store_pte (entry_at (page_va p) k) v s1)"
    "aspace x (store_pte (entry_at (page_va p) k) v s1) g"
    "u \<in> vpages \<Longrightarrow> pmap (ents (mem (store_pte (entry_at (page_va p) k) v s1))) g u =
       (if u = vpn va then v else pmap (ents (mem s)) g u)"
proof -
  note A = add_ref [OF a q, folded s1_def]
  have tv: "(i, j, k) \<in> vpages"
    using vpn_range [OF va] by (simp add: t)
  have us: "page_usable s q"
    using q(1) by (simp add: data_page_def)
  have load: "load64 (mem s) (entry_at (page_va p) k) = pmap (ents (mem s)) g (vpn va)"
    using store_leaf(4) [OF aspaceD(1) [OF a] refl tv p] by (simp add: t)
  show "add_page (page_va g) q va flags s = ret (0, store_pte (entry_at (page_va p) k) v s1)"
    using get_pte_present [OF aspaceD(1) [OF a] va t p, of True] load e page_usable_ppn [OF us] A(2)
    by (simp add: add_page_def Let_def pte_valid_def v_def flip: s1_def)
  have p1: "leaf_table (ents (mem s1)) g i j = Some p"
    using p by (simp add: A(2))
  have q1: "data_page s1 g q"
    using q(1) A(5) by simp
  have y: "x(q := x q + 1) = (if pte_valid (pmap (ents (mem s1)) g (i, j, k)) then x else x(q := x q + 1))"
    using e by (simp add: A(2) t)
  have e1: "pte_valid (pmap (ents (mem s1)) g (i, j, k)) \<longrightarrow> pte_page (pmap (ents (mem s1)) g (i, j, k)) = q"
    using e by (simp add: A(2) t)
  note M = store_map [OF A(1) refl tv p1 refl e1 y map_pte [OF us fl, folded v_def] q1]
  show "aspace x (store_pte (entry_at (page_va p) k) v s1) g"
    by (rule M(1))
  show "u \<in> vpages \<Longrightarrow> pmap (ents (mem (store_pte (entry_at (page_va p) k) v s1))) g u =
       (if u = vpn va then v else pmap (ents (mem s)) g u)"
    using M(2) by (simp add: A(2) t)
qed

section \<open>The disk\<close>

text \<open>The pages that have a place on the disk.\<close>

definition on_disk :: "u64 \<Rightarrow> bool" where
  "on_disk va \<longleftrightarrow> va mod PAGE_SIZE = 0 \<and> 0 < va \<and> va < 0x8000"

lemma on_disk_user:
  assumes "on_disk va"
  shows "va < USER_END"
proof -
  have "va < 0x8000"
    using assms by (simp add: on_disk_def)
  also have "0x8000 < USER_END"
    by (simp add: USER_END_def)
  finally show ?thesis .
qed

lemma on_disk_cases:
  assumes "on_disk va"
  shows "va \<in> {0x1000, 0x2000, 0x3000, 0x4000, 0x5000, 0x6000, 0x7000}"
proof -
  have "unat va mod 4096 = 0"
    using assms by (simp add: on_disk_def PAGE_SIZE_def unat_arith_simps)
  moreover have "0 < unat va" "unat va < 8 * 4096"
    using assms by (auto simp: on_disk_def unat_gt_0 word_less_nat_alt)
  ultimately obtain n where "unat va = n * 4096" "0 < n" "n < 8"
    by auto
  moreover from this have "n \<in> {1, 2, 3, 4, 5, 6, 7}"
    by auto
  ultimately have "unat va \<in> {4096, 8192, 12288, 16384, 20480, 24576, 28672}"
    by auto
  then show ?thesis
    by (auto simp: word_unat_eq_iff)
qed

lemma swap_slot:
  assumes "on_disk va"
  shows "swap_offset (addr2swap va) = ret (drop_bit PAGE_SHIFT va)" "addr2swap va AND PTE_V = 0" "addr2swap va \<noteq> 0"
    "ucast (ucast (drop_bit PAGE_SHIFT va * PAGE_SECT) :: u32) * SECTION_SIZE = va"
    "\<not> pte_valid (addr2swap va)"
  using on_disk_cases [OF assms]
  by (auto simp: swap_offset_def addr2swap_def const_defs pte_valid_def)

lemma swap_off_disk:
  assumes "va mod PAGE_SIZE = 0" "\<not> on_disk va"
  shows "swap_offset (addr2swap va) = panic"
proof -
  define y where "y = drop_bit PAGE_SHIFT va"
  have y: "unat y = unat va div 4096"
    by (simp add: y_def PAGE_SHIFT_def drop_bit_eq_div unat_div)
  have "drop_bit SWAP_SHIFT (push_bit SWAP_SHIFT y) = y"
    by (rule bit_word_eqI) (auto simp: SWAP_SHIFT_def PAGE_SHIFT_def y_def bit_simps dest: bit_imp_le_length)
  moreover have "\<not> (0 < y \<and> y < SWAP_MAX_OFFSET)"
  proof
    assume "0 < y \<and> y < SWAP_MAX_OFFSET"
    then have "0 < unat va div 4096" "unat va div 4096 < 8"
      using y by (simp_all add: unat_gt_0 word_less_nat_alt const_defs)
    then have "0 < unat va" "unat va < 8 * 4096"
      by (auto intro!: gr0I)
    then have "0 < va" "va < 0x8000"
      by (simp_all add: unat_gt_0 word_less_nat_alt)
    with assms show False
      by (simp add: on_disk_def)
  qed
  ultimately show ?thesis
    by (simp add: swap_offset_def addr2swap_def assert_then_def flip: y_def)
qed

text \<open>What \<open>write_swap_ide\<close> leaves on the disk and \<open>read_swap_ide\<close> in memory.\<close>

definition same_page :: "bytes \<Rightarrow> u64 \<Rightarrow> bytes \<Rightarrow> u64 \<Rightarrow> bool" where
  "same_page m a m' a' \<longleftrightarrow> (\<forall>i < 4096. m (a + of_nat i) = m' (a' + of_nat i))"

lemma same_page_trans: "same_page m a m' a' \<Longrightarrow> same_page m' a' m'' a'' \<Longrightarrow> same_page m a m'' a''"
  by (simp add: same_page_def)

lemma page_bytes: "unat (PAGE_SECT * SECTION_SIZE) = 4096"
  by (simp add: const_defs)

lemma write_swap_ok:
  assumes "on_disk va" "0x82000 \<le> q" "q < 0x88000"
  shows "\<exists>d. write_swap_ide (addr2swap va) q s = ret (s\<lparr>ide := d\<rparr>) \<and> same_page d va (mem s) (page_va q)"
proof -
  have "va + of_nat i \<in> region va 4096" if "i < 4096" for i
    using that by (rule region_member) simp
  then show ?thesis
    using page2va_ok(3) [OF assms(2,3)]
    by (auto simp: write_swap_ide_def swap_slot [OF assms(1)] write_ide_sects_def page_bytes same_page_def)
qed

lemma read_swap_ok:
  assumes "on_disk va" "0x82000 \<le> q" "q < 0x88000"
  shows "\<exists>m. read_swap_ide (addr2swap va) q s = ret (s\<lparr>mem := m\<rparr>) \<and> same_page m (page_va q) (ide s) va \<and>
    (\<forall>a. a \<notin> region (page_va q) 4096 \<longrightarrow> m a = mem s a)"
proof -
  have "page_va q + of_nat i \<in> region (page_va q) 4096" if "i < 4096" for i
    using that by (rule region_member) simp
  then show ?thesis
    using page2va_ok(3) [OF assms(2,3)]
    by (auto simp: read_swap_ide_def swap_slot [OF assms(1)] read_ide_sects_def page_bytes same_page_def)
qed

section \<open>Swapping out\<close>

text \<open>The queue of the FIFO manager from the youngest to the oldest page.\<close>

definition fifo_rep :: "'z kmem_scheme \<Rightarrow> u64 \<Rightarrow> nat list \<Rightarrow> bool" where
  "fifo_rep s v qs \<longleftrightarrow> pra_list (vmms s v) = Some () \<and> dlist (pra_links s) pra_head (map LNode qs)"

lemma fifo_out_ok:
  assumes "fifo_rep s v (qs @ [q])"
  shows "\<exists>L. fifo_swap_out_page v s = ret (q, s\<lparr>pra_links := L\<rparr>) \<and> dlist L pra_head (map LNode qs)"
proof -
  have d: "dlist (pra_links s) pra_head (map LNode qs @ LNode q # [])"
    using assms by (simp add: fifo_rep_def)
  have "prv (pra_links s) pra_head = LNode q" "\<not> list_empty (pra_links s) pra_head"
    using dlist_prv_head [OF d] dlist_list_empty [OF d] by auto
  then show ?thesis
    using assms dlist_del [OF d] by (auto simp: fifo_swap_out_page_def fifo_rep_def)
qed

lemma swap_out_ok:
  fixes s :: "'z sched_scheme"
  assumes a: "aspace x s g" and g: "vmm_gpt (vmms s v) = page_va g" and f: "fifo_rep s v (qs @ [q])"
    and va: "page_pra_addr (pages s q) = va" "on_disk va" and e: "pte_valid (pmap (ents (mem s)) g (vpn va))"
      "pte_page (pmap (ents (mem s)) g (vpn va)) = q" and one: "page_ref (pages s q) = 1" and q: "q < 0x88000"
  shows "\<exists>s'. swap_out (Some v) 1 s = ret s' \<and> aspace x s' g \<and> vmms s' = vmms s \<and> fifo_rep s' v qs \<and>
    (\<forall>u\<in>vpages. pmap (ents (mem s')) g u = (if u = vpn va then addr2swap va else pmap (ents (mem s)) g u)) \<and>
    (\<exists>p. leaf_table (ents (mem s')) g (fst (vpn va)) (fst (snd (vpn va))) = Some p) \<and>
    free_pages_of s' = insert q (free_pages_of s) \<and> same_page (ide s') va (mem s) (page_va q) \<and>
    vmas s' = vmas s \<and> vma_links s' = vma_links s \<and> swap_init_flag s' = swap_init_flag s \<and>
    (\<forall>r. page_ref (pages s' r) = (if r = q then 0 else page_ref (pages s r))) \<and> (low_blocks 1 s \<longrightarrow> low_blocks 1 s')"
proof -
  obtain i j k where t: "vpn va = (i, j, k)"
    by (metis prod_cases3)
  obtain p where p: "leaf_table (ents (mem s)) g i j = Some p"
    using e by (cases "leaf_table (ents (mem s)) g i j") (auto simp: t pmap_def)
  note us = on_disk_user [OF va(2)]
  note vr = vpn_range [OF us]
  obtain L where L: "fifo_swap_out_page v s = ret (q, s\<lparr>pra_links := L\<rparr>)" "dlist L pra_head (map LNode qs)"
    using fifo_out_ok [OF f] by blast
  let ?s1 = "s\<lparr>pra_links := L\<rparr>"
  have low: "0x82000 \<le> q"
    using aspaceD(2) [OF a vr e(1)] by (simp add: e(2) data_page_def page_usable_def min_page_def)
  obtain d where d: "write_swap_ide (addr2swap va) q ?s1 = ret (?s1\<lparr>ide := d\<rparr>)" "same_page d va (mem s) (page_va q)"
    using write_swap_ok [OF va(2) low q, of ?s1] by auto
  let ?s2 = "?s1\<lparr>ide := d\<rparr>"
  have a1: "aspace x ?s1 g" "aspace x ?s2 g"
    using a aspace_cong [of s ?s1 x g] aspace_cong [of s ?s2 x g] by (simp_all add: same_free_def)
  have load: "load64 (mem s) (entry_at (page_va p) k) = pmap (ents (mem s)) g (vpn va)"
    using store_leaf(4) [OF aspaceD(1) [OF a] refl _ p] vr by (simp add: t)
  have walk: "find_pte (vmm_gpt (vmms ?s1 v)) va ?s1 = ret (Some (entry_at (page_va p) k), ?s1)"
    using get_pte_found [OF aspaceD(1) [OF a1(1)] us t] p by (simp add: find_pte_def g)
  obtain s' where s': "free_page q (store_pte (entry_at (page_va p) k) (addr2swap va) ?s2) = ret s'" "aspace x s' g"
      "pmm_only (store_pte (entry_at (page_va p) k) (addr2swap va) ?s2) s'"
      "\<forall>u\<in>vpages. pmap (ents (mem s')) g u = (if u = vpn va then addr2swap va else pmap (ents (mem s)) g u)"
      "free_pages_of s' = insert q (free_pages_of ?s2)" "leaf_table (ents (mem s')) g i j = Some p"
      "\<forall>r. page_ref (pages s' r) = (if r = q then 0 else page_ref (pages s r))"
    using unmap_free_ok [OF a1(2) us t, of p q "addr2swap va"] p e one swap_slot(5) [OF va(2)] by auto
  have sel: "ide s' = d" "vmms s' = vmms s" "pra_links s' = L" "vmas s' = vmas s" "vma_links s' = vma_links s"
      "swap_init_flag s' = swap_init_flag s"
    using s'(3) unfolding pmm_only_def by (cases s; cases s'; simp add: store_pte_def)+
  have "free_pages_of ?s2 = free_pages_of s"
    by (rule same_free_inv(4)) (simp add: same_free_def)
  moreover have "swap_out (Some v) 1 s = ret s'"
    using L(1) walk load e(1) d(1) s'(1) by (simp add: swap_out_def va(1) pte_valid_def Let_def)
  moreover have "low_blocks 1 s'" if "low_blocks 1 s"
  proof -
    let ?s3 = "store_pte (entry_at (page_va p) k) (addr2swap va) ?s2"
    have sf: "same_free s ?s3"
      by (simp add: same_free_def store_pte_def)
    note SF = same_free_inv [OF sf]
    show ?thesis
      using free_page_low [of ?s3 q s'] that q s'(1) tabs_okD(1) [OF aspaceD(1) [OF a]] aspaceD(2) [OF a vr e(1)]
      by (simp add: SF low_blocks_def e(2) data_page_def)
  qed
  ultimately show ?thesis
    using s' sel d(2) L(2) f by (intro exI [of _ s']) (simp add: fifo_rep_def t)
qed

section \<open>Swapping in\<close>

text \<open>A page that leaves the free list becomes a data page.\<close>

lemma aspace_alloc:
  assumes a: "aspace x s g" and q: "q \<in> free_pages_of s" and f: "free_pages_of s' = free_pages_of s - {q}"
    and inv: "bf_inv s'" and m: "\<And>p. p \<in> tables (ents (mem s)) g \<Longrightarrow> ents (mem s') p = ents (mem s) p"
    and r: "\<And>i. page_ref (pages s' i) = page_ref (pages s i)" and u: "page_usable s' = page_usable s"
  shows "aspace (x(q := unat (page_ref (pages s q)))) s' g" "data_page s' g q"
    "t \<in> vpages \<Longrightarrow> pmap (ents (mem s')) g t = pmap (ents (mem s)) g t"
proof -
  note ok = aspaceD(1) [OF a]
  have T: "tree_ok (ents (mem s')) g = tree_ok (ents (mem s)) g" "tables (ents (mem s')) g = tables (ents (mem s)) g"
      "u \<in> vpages \<Longrightarrow> pmap (ents (mem s')) g u = pmap (ents (mem s)) g u" for u
    using tables_frame [of "ents (mem s)" g "ents (mem s')"] m by blast+
  have qt: "q \<notin> tables (ents (mem s)) g"
    using tabs_okD(6) [OF ok] q by blast
  have qu: "page_usable s q"
    using bf_inv_free_usable [OF tabs_okD(1) [OF ok] q] .
  have d: "data_page s' g p \<longleftrightarrow> data_page s g p \<or> p = q" for p
    using f u qt qu by (auto simp: data_page_def T(2))
  have ok': "tabs_ok s' g"
    using ok inv f by (auto simp: tabs_ok_def T(1,2))
  have nq: "\<not> data_page s g q"
    using q by (simp add: data_page_def)
  have mq: "mappers (ents (mem s)) g q = {}"
    using aspaceD(2) [OF a] nq by (auto simp: mappers_def)
  have mp: "mappers (ents (mem s')) g p = mappers (ents (mem s)) g p" for p
    by (rule mappers_cong [OF T(3)])
  show "aspace (x(q := unat (page_ref (pages s q)))) s' g"
    unfolding aspace_def
  proof (intro conjI ballI impI allI)
    show "tabs_ok s' g"
      by (rule ok')
  next
    fix t
    assume t: "t \<in> vpages" "pte_valid (pmap (ents (mem s')) g t)"
    then show "data_page s' g (pte_page (pmap (ents (mem s')) g t))"
      using aspaceD(2) [OF a t(1)] T(3) [OF t(1)] by (simp add: d)
  next
    fix p
    assume "data_page s' g p"
    then show "unat (page_ref (pages s' p)) = card (mappers (ents (mem s')) g p) + (x(q := unat (page_ref (pages s q)))) p"
      using aspaceD(3) [OF a, of p] r mq by (cases "p = q") (auto simp: mp d)
  qed
  show "data_page s' g q"
    by (simp add: d)
  show "t \<in> vpages \<Longrightarrow> pmap (ents (mem s')) g t = pmap (ents (mem s)) g t"
    by (rule T(3))
qed

lemma swap_in_ok:
  fixes s :: "'z sched_scheme"
  assumes a: "aspace x s g" and g: "vmm_gpt (vmms s v) = page_va g" and ne: "free_pages_of s \<noteq> {}" and low: "low_blocks 1 s"
    and va: "on_disk va" and e: "pmap (ents (mem s)) g (vpn va) = addr2swap va"
  shows "\<exists>q s'. swap_in v va s = ret (q, s') \<and> q \<in> free_pages_of s \<and> q < 0x88000 \<and>
    aspace (x(q := unat (page_ref (pages s q)))) s' g \<and> data_page s' g q \<and>
    (\<forall>t\<in>vpages. pmap (ents (mem s')) g t = pmap (ents (mem s)) g t) \<and> same_page (mem s') (page_va q) (ide s) va \<and>
    page_ref (pages s' q) = page_ref (pages s q) \<and> vmms s' = vmms s \<and> pra_links s' = pra_links s"
proof -
  obtain i j k where t: "vpn va = (i, j, k)"
    by (metis prod_cases3)
  obtain p where p: "leaf_table (ents (mem s)) g i j = Some p"
    using e swap_slot(3) [OF va] by (cases "leaf_table (ents (mem s)) g i j") (auto simp: t pmap_def)
  note us = on_disk_user [OF va]
  obtain q s1 where q: "alloc_page s = ret (Some q, s1)" "q \<in> free_pages_of s" "free_pages_of s1 = free_pages_of s - {q}"
      "bf_inv s1" "0x82000 \<le> q" "q < 0x88000" "pmm_only s s1" "\<And>i. page_ref (pages s1 i) = page_ref (pages s i)"
      "page_usable s1 = page_usable s"
    using alloc_page_ok [of s 0] tabs_okD(1) [OF aspaceD(1) [OF a]] ne low by auto
  have m1: "mem s1 = mem s"
    using pmm_only_sel(1) [OF q(7)] .
  have sel: "vmms s1 = vmms s" "ide s1 = ide s" "pra_links s1 = pra_links s"
    using q(7) unfolding pmm_only_def by (cases s; cases s1; simp)+
  have a1: "aspace (x(q := unat (page_ref (pages s q)))) s1 g"
    by (rule aspace_alloc(1) [OF a q(2,3,4) _ q(8,9)]) (simp add: m1)
  have p1: "leaf_table (ents (mem s1)) g i j = Some p"
    using p by (simp add: m1)
  have load: "load64 (mem s1) (entry_at (page_va p) k) = addr2swap va"
    using store_leaf(4) [OF aspaceD(1) [OF a1] refl _ p1, of k] vpn_range [OF us] e by (simp add: t m1)
  have walk: "get_pte (vmm_gpt (vmms s1 v)) va False s1 = ret (Some (entry_at (page_va p) k), s1)"
    using get_pte_present [OF aspaceD(1) [OF a1] us t p1, of False] by (simp add: sel g)
  obtain m where m: "read_swap_ide (addr2swap va) q s1 = ret (s1\<lparr>mem := m\<rparr>)" "same_page m (page_va q) (ide s1) va"
      "\<And>b. b \<notin> region (page_va q) 4096 \<Longrightarrow> m b = mem s1 b"
    using read_swap_ok [OF va q(5,6), of s1] by blast
  let ?s2 = "s1\<lparr>mem := m\<rparr>"
  have dram: "dram_page q"
    using q(5,6) by (simp add: dram_page_def)
  have E: "ents (mem ?s2) r = ents (mem s) r" if "r \<in> tables (ents (mem s)) g" for r
  proof (cases "dram_page r")
    case True
    have "r \<noteq> q"
      using that tabs_okD(6) [OF aspaceD(1) [OF a]] q(2) by blast
    then have "region (page_va r) 4096 \<inter> region (page_va q) 4096 = {}"
      using page_regions [OF True dram] by simp
    then have "\<And>b. b \<in> region (page_va r) 4096 \<Longrightarrow> m b = mem s b"
      using m(3) m1 by fastforce
    then show ?thesis
      using ents_cong_page [of r m "mem s"] by simp
  qed (simp add: ents_def fun_eq_iff)
  have sf: "same_free s1 ?s2"
    by (simp add: same_free_def)
  note SF = same_free_inv [OF sf]
  have f2: "free_pages_of ?s2 = free_pages_of s - {q}" "bf_inv ?s2" "page_usable ?s2 = page_usable s"
      "\<And>i. page_ref (pages ?s2 i) = page_ref (pages s i)"
    using SF q(3,4,8,9) by simp_all
  note A = aspace_alloc [OF a q(2) f2(1,2) E f2(4,3)]
  have "swap_in v va s = ret (q, ?s2)"
    using q(1) walk load m(1) swap_slot(1,2) [OF va] by (simp add: swap_in_def)
  then show ?thesis
    using q(2,6,8) A m(2) sel by (intro exI [of _ q] exI [of _ ?s2]) simp
qed

section \<open>The page fault\<close>

lemma fifo_in_ok:
  assumes "fifo_rep s v qs" "q \<notin> set qs"
  shows "\<exists>L. swap_set_swappable v q s = ret (s\<lparr>pra_links := L\<rparr>) \<and> dlist L pra_head (map LNode (q # qs))"
  using assms dlist_add_front [of "pra_links s" pra_head "map LNode qs" "LNode q"]
  by (auto simp: swap_set_swappable_def fifo_set_swappable_def fifo_rep_def)

lemma same_page_store:
  assumes "dram_page p" "dram_page q" "p \<noteq> q" "k < 512"
  shows "same_page (store64 m (entry_at (page_va p) k) v) (page_va q) m (page_va q)"
proof -
  have "page_va q + of_nat i \<notin> region (entry_at (page_va p) k) 8" if "i < 4096" for i
    using page_regions [OF assms(1-3)] entry_region [OF assms(1,4)] region_member [of i 4096 "page_va q"] that by auto
  then show ?thesis
    by (simp add: same_page_def store64_other)
qed

text \<open>The state of the address space a page fault leaves alone.\<close>

lemma find_vma_frame:
  assumes "vma_rep s v as"
  shows "\<exists>s'. find_vma (Some v) x s = ret (area_of s as x, s') \<and> vmas s' = vmas s \<and> pages s' = pages s \<and> mem s' = mem s \<and>
    same_free s s' \<and> ide s' = ide s \<and> pra_links s' = pra_links s \<and> swap_init_flag s' = swap_init_flag s \<and>
    vmm_gpt (vmms s' v) = vmm_gpt (vmms s v) \<and> pra_list (vmms s' v) = pra_list (vmms s v)"
proof -
  obtain s' where s': "find_vma (Some v) x s = ret (area_of s as x, s')" "vmas s' = vmas s"
      "s' = s \<or> (\<exists>a. s' = upd_vmm v (\<lambda>x. x\<lparr>vma_curr := Some a\<rparr>) s)"
    using find_vma_ok [OF assms] by blast
  from s'(3) show ?thesis
    using s'(1,2) by (intro exI [of _ s']) (auto simp: same_free_def upd_vmm_def)
qed

lemma fault_swapped:
  fixes s :: "'z sched_scheme"
  assumes a: "aspace x s g" and g: "vmm_gpt (vmms s v) = page_va g" and f: "fifo_rep s v qs" "set qs \<inter> free_pages_of s = {}"
    and ne: "free_pages_of s \<noteq> {}" and zero: "\<forall>r\<in>free_pages_of s. page_ref (pages s r) = 0" and low: "low_blocks 1 s"
    and va: "on_disk va" "rounddown addr PAGE_SIZE = va" and e: "pmap (ents (mem s)) g (vpn va) = addr2swap va"
    and area: "vma_rep s v as" "area_of s as addr = Some b" and on: "swap_init_flag s"
  shows "\<exists>r s'. handle_page_fault (Some v) addr s = ret (0, s') \<and> r \<in> free_pages_of s \<and> aspace (x(r := 0)) s' g \<and>
    fifo_rep s' v (r # qs) \<and> same_page (mem s') (page_va r) (ide s) va \<and> page_pra_addr (pages s' r) = va \<and>
    (\<forall>u\<in>vpages. pmap (ents (mem s')) g u = (if u = vpn va
       then ppn2pte (of_nat r) (ucast PTE_V OR (if vm_flags (vmas s b) AND VMA_WRITE \<noteq> 0 then ucast (PTE_R OR PTE_W) else 0))
       else pmap (ents (mem s)) g u))"
proof -
  obtain i j k where t: "vpn va = (i, j, k)"
    by (metis prod_cases3)
  obtain p where p: "leaf_table (ents (mem s)) g i j = Some p"
    using e swap_slot(3) [OF va(1)] by (cases "leaf_table (ents (mem s)) g i j") (auto simp: t pmap_def)
  note us = on_disk_user [OF va(1)]
  obtain s1 where s1: "find_vma (Some v) addr s = ret (Some b, s1)" "vmas s1 = vmas s" "pages s1 = pages s" "mem s1 = mem s"
      "same_free s s1" "ide s1 = ide s" "pra_links s1 = pra_links s" "swap_init_flag s1" "vmm_gpt (vmms s1 v) = page_va g"
      "pra_list (vmms s1 v) = pra_list (vmms s v)"
    using find_vma_frame [OF area(1), of addr] area(2) g on by auto
  define s2 where "s2 = s1\<lparr>num_page_fault := num_page_fault s1 + 1\<rparr>"
  have sf: "same_free s s2"
    using s1(5) by (simp add: s2_def same_free_def)
  note SF = same_free_inv [OF sf]
  have sel: "vmas s2 = vmas s" "pages s2 = pages s" "mem s2 = mem s" "ide s2 = ide s" "pra_links s2 = pra_links s"
      "swap_init_flag s2" "vmm_gpt (vmms s2 v) = page_va g" "pra_list (vmms s2 v) = pra_list (vmms s v)"
    using s1 by (simp_all add: s2_def)
  have a2: "aspace x s2 g"
    using a aspace_cong [OF sf] sel by simp
  have p2: "leaf_table (ents (mem s2)) g i j = Some p"
    using p by (simp add: sel)
  have low2: "low_blocks 1 s2" and ne2: "free_pages_of s2 \<noteq> {}"
    using low ne by (simp_all add: low_blocks_def SF)
  have start: "\<not> vm_start (vmas s2 b) > addr"
    using area_of_in [OF area(2)] by (simp add: sel in_vma_def not_less)
  define fl :: u32 where "fl = (if vm_flags (vmas s b) AND VMA_WRITE \<noteq> 0 then ucast (PTE_R OR PTE_W) else 0)"
  have fl: "unat fl < 1024"
    by (simp add: fl_def PTE_R_def PTE_W_def)
  have load: "load64 (mem s2) (entry_at (page_va p) k) = addr2swap va"
    using store_leaf(4) [OF aspaceD(1) [OF a2] refl _ p2, of k] vpn_range [OF us] e by (simp add: t sel)
  have walk: "get_pte (vmm_gpt (vmms s2 v)) va True s2 = ret (Some (entry_at (page_va p) k), s2)"
    using get_pte_present [OF aspaceD(1) [OF a2] us t p2, of True] by (simp add: sel)
  have e2: "pmap (ents (mem s2)) g (vpn va) = addr2swap va"
    using e by (simp add: sel)
  obtain r s3 where r: "swap_in v va s2 = ret (r, s3)" "r \<in> free_pages_of s" "r < 0x88000"
      "aspace (x(r := unat (page_ref (pages s r)))) s3 g" "data_page s3 g r"
      "\<forall>t\<in>vpages. pmap (ents (mem s3)) g t = pmap (ents (mem s)) g t" "same_page (mem s3) (page_va r) (ide s) va"
      "page_ref (pages s3 r) = page_ref (pages s r)" "vmms s3 = vmms s2" "pra_links s3 = pra_links s"
    using swap_in_ok [OF a2 sel(7) ne2 low2 va(1) e2] by (auto simp: SF sel)
  have z: "page_ref (pages s r) = 0"
    using zero r(2) by blast
  have a3: "aspace (x(r := 0)) s3 g"
    using r(4) by (simp add: z)
  have e3: "\<not> pte_valid (pmap (ents (mem s3)) g (vpn va))"
    using r(6) vpn_range [OF us] e swap_slot(5) [OF va(1)] by simp
  have "pmap (ents (mem s3)) g (vpn va) \<noteq> 0"
    using r(6) vpn_range [OF us] e swap_slot(3) [OF va(1)] by simp
  then obtain p3 where p3: "leaf_table (ents (mem s3)) g i j = Some p3"
    by (cases "leaf_table (ents (mem s3)) g i j") (auto simp: t pmap_def)
  have ref3: "page_ref (pages s3 r) \<noteq> - 1"
    by (simp add: r(8) z)
  define s4 where "s4 = store_pte (entry_at (page_va p3) k) (ppn2pte (of_nat r) (ucast PTE_V OR fl))
    (upd_page r (\<lambda>q. q\<lparr>page_ref := page_ref q + 1\<rparr>) s3)"
  note A = add_page_fresh [OF a3 r(5) ref3 fl us t p3 e3, folded s4_def]
  have sel4: "vmms s4 = vmms s3" "pra_links s4 = pra_links s3"
    by (simp_all add: s4_def store_pte_def upd_page_def)
  have f4: "fifo_rep s4 v qs" "r \<notin> set qs"
    using f r(2) by (auto simp: fifo_rep_def sel4 r(9,10) sel(8))
  obtain L where L: "swap_set_swappable v r s4 = ret (s4\<lparr>pra_links := L\<rparr>)" "dlist L pra_head (map LNode (r # qs))"
    using fifo_in_ok [OF f4] by blast
  define s5 where "s5 = upd_page r (\<lambda>q. q\<lparr>page_pra_addr := va\<rparr>) (s4\<lparr>pra_links := L\<rparr>)"
  have run: "handle_page_fault (Some v) addr s = ret (0, s5)"
    using s1(1) start walk load swap_slot(3) [OF va(1)] sel(6) r(1) A(1) L(1)
    by (simp add: handle_page_fault_def Let_def va(2) sel s1(2) r(9) sel4 flip: s2_def fl_def s5_def)
  have sel5: "mem s5 = mem s4" "vmms s5 = vmms s4" "pra_links s5 = L" "page_pra_addr (pages s5 r) = va"
      "\<And>q. page_ref (pages s5 q) = page_ref (pages s4 q)" "same_free s4 s5"
    by (simp_all add: s5_def upd_page_def same_free_def)
  have "aspace (x(r := 0)) s5 g"
    using A(2) aspace_cong [OF sel5(6,1,5)] by simp
  moreover have "same_page (mem s5) (page_va r) (ide s) va"
  proof -
    have b: "i < 2" "j < 512" "k < 512"
      using vpn_range [OF us] by (auto simp: t vpages_def)
    note leaf = leavesI [OF b(1,2) p3]
    have "table_page p3" "p3 \<noteq> r"
      using tabs_okD(5) [OF aspaceD(1) [OF a3] leaf] leaf r(5) by (auto simp: data_page_def tables_def)
    moreover have "dram_page r"
      using r(3,5) by (simp add: dram_page_def data_page_def page_usable_def min_page_def)
    ultimately have "same_page (mem s4) (page_va r) (mem s3) (page_va r)"
      using same_page_store [OF table_page_dram, of p3 r k "mem s3"] b(3) by (simp add: s4_def store_pte_def upd_page_def)
    then show ?thesis
      using same_page_trans r(7) sel5(1) by metis
  qed
  moreover have "fifo_rep s5 v (r # qs)"
    using L(2) f4(1) by (simp add: fifo_rep_def sel5(2,3))
  moreover have "pmap (ents (mem s5)) g u = (if u = vpn va then ppn2pte (of_nat r) (ucast PTE_V OR fl)
      else pmap (ents (mem s)) g u)" if "u \<in> vpages" for u
    using A(3) [OF that] r(6) that by (simp add: sel5(1))
  ultimately show ?thesis
    using run r(2) sel5(4) unfolding fl_def by blast
qed

section \<open>A sample address space\<close>

text \<open>The table at page \<open>0x82008\<close>, a copy of the boot table in its upper part, leads over the pages \<open>0x82006\<close> and \<open>0x82007\<close> to page \<open>0x82009\<close>, which is
  mapped at \<open>j * 2 ^ 21 + k * 2 ^ 12\<close>, full of sevens, and the only page of manager 500 that may be swapped out.\<close>

definition swap_mem :: "u64 \<Rightarrow> u64 \<Rightarrow> bytes" where
  "swap_mem j k =
     store64 (store64 (store64 (with_gigapages 0x82008 (\<lambda>a. if a \<in> region (page_va 0x82009) 4096 then 7 else 0))
       (entry_at (page_va 0x82008) 0) (ppn2pte (of_nat 0x82006) (ucast PTE_V)))
       (entry_at (page_va 0x82006) j) (ppn2pte (of_nat 0x82007) (ucast PTE_V)))
       (entry_at (page_va 0x82007) k) (ppn2pte (of_nat 0x82009) (ucast PTE_V OR 6))"

definition sample_swap :: "u64 \<Rightarrow> u64 \<Rightarrow> sched" where
  "sample_swap j k = sample_sched\<lparr>
     pages := (pages sample_pmm)(0x82009 := \<lparr>page_ref = 1, page_flags = 0, page_property = 0, page_pra_addr = (j * 512 + k) * PAGE_SIZE\<rparr>),
     flinks := flinks sample_pmm, num_free := num_free sample_pmm, mem := swap_mem j k,
     pra_links := \<lparr>prv = (\<lambda>x. if x = pra_head then LNode 0x82009 else pra_head),
       nxt = (\<lambda>x. if x = pra_head then LNode 0x82009 else pra_head)\<rparr>,
     vmas := (\<lambda>_. \<lparr>vma_vmm = Some 500, vm_start = 0x1000, vm_end = 0x3000, vm_flags = 3\<rparr>),
     vmms := (\<lambda>_. \<lparr>vma_curr = None, vmm_gpt = page_va 0x82008, vma_count = 1, pra_list = Some (), use_count = 1, owner_pid = 0\<rparr>),
     vma_links := \<lparr>prv = (\<lambda>l. if l = LHead 500 then LNode 501 else LHead 500),
       nxt = (\<lambda>l. if l = LHead 500 then LNode 501 else LHead 500)\<rparr>,
     swap_init_flag := True\<rparr>"

lemma sample_swap_free:
  "bf_inv (sample_swap j k)" "free_pages_of (sample_swap j k) = {0x82000..<0x82005} \<union> {0x82010..<0x82013}" "low_blocks 1 (sample_swap j k)"
proof -
  have "same_free sample_pmm (sample_swap j k)"
    by (simp add: same_free_def sample_swap_def sample_pmm_def)
  then have abs: "bf_abs (sample_swap j k) [(0x82000, 5), (0x82010, 3)]"
    using sample_pmm_abs same_free_inv(1) by blast
  then show "bf_inv (sample_swap j k)"
    by (rule bf_invI)
  show "free_pages_of (sample_swap j k) = {0x82000..<0x82005} \<union> {0x82010..<0x82013}" "low_blocks 1 (sample_swap j k)"
    by (simp_all add: free_pages_of_def low_blocks_def blocks_of_abs [OF abs])
qed

lemma swap_mem_tables:
  assumes k: "j < 512" "k < 512"
  defines "E \<equiv> ents (swap_mem j k)"
  shows "tree_ok E 0x82008" "tables E 0x82008 = {0x82006, 0x82007, 0x82008}"
    "t \<in> vpages \<Longrightarrow> pmap E 0x82008 t = (if t = (0, j, k) then ppn2pte (of_nat 0x82009) (ucast PTE_V OR 6) else 0)"
proof -
  let ?b = "\<lambda>a. if a \<in> region (page_va 0x82009) 4096 then 7 else 0 :: u8"
  let ?E0 = "ents (with_gigapages 0x82008 ?b)"
  let ?E1 = "set_entry ?E0 0x82008 0 (ppn2pte (of_nat 0x82006) (ucast PTE_V))"
  let ?E2 = "set_entry ?E1 0x82006 j (ppn2pte (of_nat 0x82007) (ucast PTE_V))"
  have d: "dram_page 0x82006" "dram_page 0x82007" "dram_page 0x82008" "dram_page 0x82009"
    by (simp_all add: dram_page_def)
  have E: "E = set_entry ?E2 0x82007 k (ppn2pte (of_nat 0x82009) (ucast PTE_V OR 6))"
    using d k by (simp add: E_def swap_mem_def ents_store)
  have zb: "ents ?b p i = 0" if "p \<noteq> 0x82009" for p i
  proof (cases "dram_page p \<and> i < 512")
    case True
    then have "region (entry_at (page_va p) i) 8 \<inter> region (page_va 0x82009) 4096 = {}"
      using entry_region [of p i] page_regions [of p "0x82009"] d(4) that by blast
    then have "load64 ?b (entry_at (page_va p) i) = 0"
      by (intro load64_zero) auto
    then show ?thesis
      by (simp add: ents_def)
  qed (auto simp: ents_def)
  have z: "?E0 0x82008 i = boot_page_table_sv39 i" "p \<noteq> 0x82008 \<Longrightarrow> p \<noteq> 0x82009 \<Longrightarrow> ?E0 p i = 0" for p i
    using zb by (simp_all add: ents_with_gigapages d boot_page_table_sv39_def)
  have n0: "i < 2 \<Longrightarrow> \<not> pte_valid (?E0 0x82008 i)" for i
    by (auto simp: z boot_page_table_sv39_def)
  note T0 = boot_tables [of ?E0 "0x82008", OF n0]
  note v1 = table_pte [of "0x82006"] and v2 = table_pte [of "0x82007"]
  have N1: "tree_ok ?E1 0x82008" "tables ?E1 0x82008 = insert 0x82006 (tables ?E0 0x82008)"
      "t \<in> vpages \<Longrightarrow> pmap ?E1 0x82008 t = pmap ?E0 0x82008 t"
    using new_mid [of ?E0 "0x82008" "0x82006" 0 ?E1 "ppn2pte (of_nat 0x82006) (ucast PTE_V)"] T0(1,2) v1 n0
    by (simp_all add: z)
  have m1: "mid_table ?E1 0x82008 0 = Some 0x82006"
    using v1 by (simp add: mid_table_def)
  have N2: "tree_ok ?E2 0x82008" "tables ?E2 0x82008 = insert 0x82007 (tables ?E1 0x82008)"
      "t \<in> vpages \<Longrightarrow> pmap ?E2 0x82008 t = pmap ?E1 0x82008 t"
    using new_leaf [of ?E1 "0x82008" "0x82007" 0 j "0x82006" ?E2 "ppn2pte (of_nat 0x82007) (ucast PTE_V)"]
      N1(1,2) T0(2) v2 m1 k by (simp_all add: z)
  have l2: "leaf_table ?E2 0x82008 0 j = Some 0x82007"
    using v1 v2 by (simp add: leaf_table_def mid_table_def)
  have t1: "(0, j, k) \<in> vpages"
    using k by (simp add: vpages_def)
  note N3 = set_leaf [OF N2(1) refl t1 l2, where v = "ppn2pte (of_nat 0x82009) (ucast PTE_V OR 6)", folded E]
  show "tree_ok E 0x82008" "tables E 0x82008 = {0x82006, 0x82007, 0x82008}"
    using N3(1,2) N2(2) N1(2) T0(2) by auto
  show "t \<in> vpages \<Longrightarrow> pmap E 0x82008 t = (if t = (0, j, k) then ppn2pte (of_nat 0x82009) (ucast PTE_V OR 6) else 0)"
    using N3(3) N2(3) N1(3) T0(3) by simp
qed

lemma sample_swap_sel:
  "mem (sample_swap j k) = swap_mem j k" "vmm_gpt (vmms (sample_swap j k) 500) = page_va 0x82008" "page_pra_addr (pages (sample_swap j k) 0x82009) = (j * 512 + k) * PAGE_SIZE"
  "page_ref (pages (sample_swap j k) 0x82009) = 1" "i \<noteq> 0x82009 \<Longrightarrow> page_ref (pages (sample_swap j k) i) = 0" "swap_init_flag (sample_swap j k)"
  "vm_flags (vmas (sample_swap j k) 501) = 3"
  by (simp_all add: sample_swap_def sample_pmm_def)

lemma vpn_low: "vpn 0x1000 = (0, 0, 1)" "vpn 0x9000 = (0, 0, 9)" "vpn 0x200000 = (0, 1, 0)"
  by (simp_all add: vpn_def get_gptx_def get_mptx_def get_ptx_def const_defs)

lemma swap_pte: "pte_valid (ppn2pte (of_nat 0x82009) (ucast PTE_V OR 6))" "pte_page (ppn2pte (of_nat 0x82009) (ucast PTE_V OR 6)) = 0x82009"
proof -
  show "pte_valid (ppn2pte (of_nat 0x82009) (ucast PTE_V OR 6))"
    by (rule pte_valid_ppn2pte) (simp add: PTE_V_def)
  show "pte_page (ppn2pte (of_nat 0x82009) (ucast PTE_V OR 6)) = 0x82009"
    by (rule pte_ppn2pte) (simp_all add: PTE_V_def)
qed

lemma sample_swap_aspace:
  assumes k: "j < 512" "k < 512"
  shows "aspace (\<lambda>_. 0) (sample_swap j k) 0x82008"
proof -
  note T = swap_mem_tables [OF k]
  have us: "page_usable (sample_swap j k) 0x82009"
    by (simp add: page_usable_def sample_swap_def sample_pmm_def)
  have dp: "data_page (sample_swap j k) 0x82008 0x82009"
    using us by (simp add: data_page_def sample_swap_free(2) sample_swap_sel T(2))
  have m: "mappers (ents (swap_mem j k)) 0x82008 q = (if q = 0x82009 then {(0, j, k)} else {})" for q
  proof -
    have "(0, j, k) \<in> vpages"
      using k by (simp add: vpages_def)
    then show ?thesis
      using T(3) swap_pte by (auto simp: mappers_def split: if_splits)
  qed
  have "tabs_ok (sample_swap j k) 0x82008"
    using T(1,2) sample_swap_free(1,2) by (auto simp: tabs_ok_def sample_swap_sel dram_page_def table_page_def)
  moreover have "data_page (sample_swap j k) 0x82008 (pte_page (pmap (ents (swap_mem j k)) 0x82008 t))"
    if "t \<in> vpages" "pte_valid (pmap (ents (swap_mem j k)) 0x82008 t)" for t
    using that dp swap_pte(2) T(3) [OF that(1)] by (simp split: if_splits)
  moreover have "unat (page_ref (pages (sample_swap j k) q)) = card (mappers (ents (swap_mem j k)) 0x82008 q)" for q
    by (cases "q = 0x82009") (simp_all add: m sample_swap_sel)
  ultimately show ?thesis
    by (simp add: aspace_def sample_swap_sel)
qed

lemma sample_swap_fifo: "fifo_rep (sample_swap j k) 500 ([] @ [0x82009])"
  by (simp add: fifo_rep_def sample_swap_def dlist_def)

lemma sample_swap_area: "vma_rep (sample_swap j k) 500 [501]" "area_of (sample_swap j k) [501] 0x1234 = Some 501"
  by (simp_all add: vma_rep_def sample_swap_def dlist_def area_of_def in_vma_def)

section \<open>Properties\<close>

text \<open>The only mapping of the page \<open>0x82009\<close> is deleted and the page freed.\<close>

theorem del_page_unmaps_witness:
  "\<exists>s'. del_page (page_va 0x82008) 0x1234 (sample_swap 0 1) = ret s' \<and> 0x82009 \<in> free_pages_of s' \<and>
    0x82009 \<notin> free_pages_of (sample_swap 0 1) \<and> pmap (ents (mem s')) 0x82008 (0, 0, 1) = 0"
proof -
  let ?s = "sample_swap 0 1"
  have v: "0x1234 < USER_END" "vpn 0x1234 = (0, 0, 1)" "(0, 0, 1) \<in> vpages"
    by (simp_all add: USER_END_def vpn_def get_gptx_def get_mptx_def get_ptx_def const_defs vpages_def)
  have a: "aspace (\<lambda>_. 0) ?s 0x82008"
    by (rule sample_swap_aspace) simp_all
  have e: "pte_valid (pmap (ents (mem ?s)) 0x82008 (0, 0, 1))" "pte_page (pmap (ents (mem ?s)) 0x82008 (0, 0, 1)) = 0x82009"
    using swap_mem_tables(3) [OF _ _ v(3), of 0 1] swap_pte by (simp_all add: sample_swap_sel)
  have "0x82009 \<notin> free_pages_of ?s"
    by (simp add: sample_swap_free(2))
  then show ?thesis
    using del_page_unmaps [OF a v(1)] v(2,3) e by (auto simp: Let_def sample_swap_sel(4))
qed

text \<open>C11: swapping a page out and faulting on it brings it back: \<open>swap_out\<close> writes the oldest page of the
  queue to the disk, replaces its entry by the swap entry and frees it; a later access to any address
  of the page makes \<open>handle_page_fault\<close> allocate a page, read the same 4096 bytes into it, map it at
  the old place and queue it as the youngest. No other mapping changes and all counts stay exact.\<close>

theorem swap_roundtrip:
  fixes s :: "'z sched_scheme"
  assumes "aspace x s g" and "vmm_gpt (vmms s v) = page_va g" and "fifo_rep s v (qs @ [q])" and "set qs \<inter> free_pages_of s = {}"
    and "\<forall>r\<in>free_pages_of s. page_ref (pages s r) = 0" and "low_blocks 1 s"
    and "page_pra_addr (pages s q) = va" and "on_disk va" and "pte_valid (pmap (ents (mem s)) g (vpn va))"
    and "pte_page (pmap (ents (mem s)) g (vpn va)) = q" and "page_ref (pages s q) = 1" and "q < 0x88000"
    and "vma_rep s v as" and "area_of s as addr = Some b" and "rounddown addr PAGE_SIZE = va" and "swap_init_flag s"
  shows "\<exists>s1 r s2. swap_out (Some v) 1 s = ret s1 \<and> \<not> pte_valid (pmap (ents (mem s1)) g (vpn va)) \<and>
    free_pages_of s1 = insert q (free_pages_of s) \<and>
    handle_page_fault (Some v) addr s1 = ret (0, s2) \<and> same_page (mem s2) (page_va r) (mem s) (page_va q) \<and>
    aspace (x(r := 0)) s2 g \<and> fifo_rep s2 v (r # qs) \<and>
    (\<forall>u\<in>vpages. pmap (ents (mem s2)) g u = (if u = vpn va
       then ppn2pte (of_nat r) (ucast PTE_V OR (if vm_flags (vmas s b) AND VMA_WRITE \<noteq> 0 then ucast (PTE_R OR PTE_W) else 0))
       else pmap (ents (mem s)) g u))"
proof -
  obtain s1 where o: "swap_out (Some v) 1 s = ret s1" "aspace x s1 g" "vmms s1 = vmms s" "fifo_rep s1 v qs"
      "\<forall>u\<in>vpages. pmap (ents (mem s1)) g u = (if u = vpn va then addr2swap va else pmap (ents (mem s)) g u)"
      "free_pages_of s1 = insert q (free_pages_of s)" "same_page (ide s1) va (mem s) (page_va q)"
      "vmas s1 = vmas s" "vma_links s1 = vma_links s" "swap_init_flag s1 = swap_init_flag s"
      "\<forall>r. page_ref (pages s1 r) = (if r = q then 0 else page_ref (pages s r))" "low_blocks 1 s1"
    using swap_out_ok [OF assms(1-3,7-12)] assms(6) by blast
  have g1: "vmm_gpt (vmms s1 v) = page_va g" "swap_init_flag s1"
    using assms(2,16) o(3,10) by simp_all
  have qs: "set qs \<inter> free_pages_of s1 = {}"
  proof -
    have "distinct (map LNode (qs @ [q]) :: (unit, nat) lnode list)"
      using assms(3) unfolding fifo_rep_def by (blast dest: dlist_distinct)
    then show ?thesis
      using assms(4) by (auto simp: o(6))
  qed
  have e: "pmap (ents (mem s1)) g (vpn va) = addr2swap va"
    using o(5) vpn_range [OF on_disk_user [OF assms(8)]] by simp
  have area: "vma_rep s1 v as" "area_of s1 as addr = Some b"
    using assms(13,14) by (simp_all add: vma_rep_def area_of_def o(3,8,9))
  have free: "free_pages_of s1 \<noteq> {}" "\<forall>r\<in>free_pages_of s1. page_ref (pages s1 r) = 0"
    using assms(5) by (auto simp: o(6,11))
  obtain r s2 where h: "handle_page_fault (Some v) addr s1 = ret (0, s2)" "aspace (x(r := 0)) s2 g" "fifo_rep s2 v (r # qs)"
      "same_page (mem s2) (page_va r) (ide s1) va"
      "\<forall>u\<in>vpages. pmap (ents (mem s2)) g u = (if u = vpn va
       then ppn2pte (of_nat r) (ucast PTE_V OR (if vm_flags (vmas s1 b) AND VMA_WRITE \<noteq> 0 then ucast (PTE_R OR PTE_W) else 0))
       else pmap (ents (mem s1)) g u)"
    using fault_swapped [OF o(2) g1(1) o(4) qs free o(12) assms(8,15) e area g1(2)] by blast
  have "pmap (ents (mem s2)) g u = (if u = vpn va
       then ppn2pte (of_nat r) (ucast PTE_V OR (if vm_flags (vmas s b) AND VMA_WRITE \<noteq> 0 then ucast (PTE_R OR PTE_W) else 0))
       else pmap (ents (mem s)) g u)" if "u \<in> vpages" for u
    using h(5) o(5) that by (simp add: o(8))
  moreover have "\<not> pte_valid (pmap (ents (mem s1)) g (vpn va))"
    using e swap_slot(5) [OF assms(8)] by simp
  ultimately show ?thesis
    using o(1,6) h(1-3) same_page_trans [OF h(4) o(7)] by blast
qed

theorem swap_roundtrip_witness:
  "\<exists>s1 r s2. swap_out (Some 500) 1 (sample_swap 0 1) = ret s1 \<and> 0x82009 \<in> free_pages_of s1 \<and>
    handle_page_fault (Some 500) 0x1234 s1 = ret (0, s2) \<and> same_page (mem s2) (page_va r) (swap_mem 0 1) (page_va 0x82009)"
proof -
  let ?s = "sample_swap 0 1"
  have a: "aspace (\<lambda>_. 0) ?s 0x82008"
    by (rule sample_swap_aspace) simp_all
  have d: "page_pra_addr (pages ?s 0x82009) = 0x1000" "on_disk 0x1000" "rounddown 0x1234 PAGE_SIZE = 0x1000"
    by (simp_all add: sample_swap_sel on_disk_def rounddown_def PAGE_SIZE_def)
  have e: "pte_valid (pmap (ents (mem ?s)) 0x82008 (vpn 0x1000))" "pte_page (pmap (ents (mem ?s)) 0x82008 (vpn 0x1000)) = 0x82009"
    using swap_mem_tables(3) [OF _ _ vpn_range, of 0 1 "0x1000"] swap_pte by (simp_all add: sample_swap_sel vpn_low USER_END_def)
  have z: "set [] \<inter> free_pages_of ?s = {}" "\<forall>r\<in>free_pages_of ?s. page_ref (pages ?s r) = 0" "(0x82009 :: nat) < 0x88000"
    by (auto simp: sample_swap_free(2) sample_swap_sel)
  show ?thesis
    using swap_roundtrip [OF a sample_swap_sel(2) sample_swap_fifo z(1,2) sample_swap_free(3) d(1,2) e sample_swap_sel(4) z(3)
        sample_swap_area d(3) sample_swap_sel(6)]
    unfolding sample_swap_sel(1) by blast
qed

text \<open>C36: the disk has a place for the seven pages from \<open>0x1000\<close> to \<open>0x7000\<close> only. Swapping out any other page,
  every page of a user program among them, stops the machine.\<close>

theorem swap_out_off_disk:
  fixes s :: "'z sched_scheme"
  assumes "aspace x s g" and "vmm_gpt (vmms s v) = page_va g" and "fifo_rep s v (qs @ [q])"
    and "page_pra_addr (pages s q) = va" and "va mod PAGE_SIZE = 0" and "\<not> on_disk va"
    and "pte_valid (pmap (ents (mem s)) g (vpn va))" and "0x82000 \<le> q" and "q < 0x88000" and "va < USER_END"
  shows "swap_out (Some v) 1 s = panic"
proof -
  obtain i j k where t: "vpn va = (i, j, k)"
    by (metis prod_cases3)
  obtain p where p: "leaf_table (ents (mem s)) g i j = Some p"
    using assms(7) by (cases "leaf_table (ents (mem s)) g i j") (auto simp: t pmap_def)
  obtain L where L: "fifo_swap_out_page v s = ret (q, s\<lparr>pra_links := L\<rparr>)"
    using fifo_out_ok [OF assms(3)] by blast
  let ?s1 = "s\<lparr>pra_links := L\<rparr>"
  have a1: "aspace x ?s1 g"
    using assms(1) aspace_cong [of s ?s1 x g] by (simp add: same_free_def)
  have load: "load64 (mem s) (entry_at (page_va p) k) = pmap (ents (mem s)) g (vpn va)"
    using store_leaf(4) [OF aspaceD(1) [OF assms(1)] refl _ p] vpn_range [OF assms(10)] by (simp add: t)
  have walk: "find_pte (page_va g) va ?s1 = ret (Some (entry_at (page_va p) k), ?s1)"
    using get_pte_found [OF aspaceD(1) [OF a1] assms(10) t] p by (simp add: find_pte_def)
  have "write_swap_ide (addr2swap va) q ?s1 = panic"
    using page2va_ok(3) [OF assms(8,9)] swap_off_disk [OF assms(5,6)] by (simp add: write_swap_ide_def)
  then show ?thesis
    using L walk load assms(2,4,7) by (simp add: swap_out_def pte_valid_def Let_def)
qed

theorem swap_out_off_disk_witness: "swap_out (Some 500) 1 (sample_swap 0 9) = panic"
proof -
  let ?s = "sample_swap 0 9"
  have a: "aspace (\<lambda>_. 0) ?s 0x82008"
    by (rule sample_swap_aspace) simp_all
  have d: "page_pra_addr (pages ?s 0x82009) = 0x9000" "0x9000 mod PAGE_SIZE = 0" "\<not> on_disk 0x9000"
    by (simp_all add: sample_swap_sel on_disk_def PAGE_SIZE_def)
  have e: "pte_valid (pmap (ents (mem ?s)) 0x82008 (vpn 0x9000))"
    using swap_mem_tables(3) [OF _ _ vpn_range, of 0 9 "0x9000"] swap_pte by (simp add: sample_swap_sel vpn_low USER_END_def)
  show ?thesis
    using swap_out_off_disk [OF a sample_swap_sel(2) sample_swap_fifo d e] by (simp add: USER_END_def)
qed

end
