(* ===== verification/Range_Props.thy ===== *)
theory Range_Props
  imports Swap_Props
begin

text \<open>
  Unmapping a range of addresses. The loop of \<open>del_range\<close> goes on by one page where a leaf table
  exists and by \<open>PT_SIZE\<close>, an eighth of a page, where it does not.
\<close>

unbundle bit_operations_syntax

section \<open>Addresses of a page\<close>

lemma vpn_page:
  assumes "unat a div 4096 = unat b div 4096"
  shows "vpn a = vpn b"
proof -
  have d: "drop_bit 12 a = drop_bit 12 b"
    using assms by (simp add: word_unat_eq_iff drop_bit_eq_div unat_div)
  have "drop_bit 9 (drop_bit 12 a) = drop_bit 9 (drop_bit 12 b)" "drop_bit 18 (drop_bit 12 a) = drop_bit 18 (drop_bit 12 b)"
    by (simp_all only: d)
  then have "drop_bit 21 a = drop_bit 21 b" "drop_bit 30 a = drop_bit 30 b"
    by simp_all
  then show ?thesis
    using d by (simp add: vpn_def get_ptx_def get_mptx_def get_gptx_def PTX_SHIFT_def MPTX_SHIFT_def GPTX_SHIFT_def
        PT_SHIFT_def PAGE_SHIFT_def)
qed

lemma vpn_same_page: "c mod PAGE_SIZE = 0 \<Longrightarrow> c \<le> a \<Longrightarrow> a < c + PAGE_SIZE \<Longrightarrow> unat c + 4096 < 2 ^ 64 \<Longrightarrow> vpn a = vpn c"
proof (rule vpn_page)
  assume c: "c mod PAGE_SIZE = 0" "c \<le> a" "a < c + PAGE_SIZE" "unat c + 4096 < 2 ^ 64"
  have "unat c mod 4096 = 0"
    using c(1) by (simp add: PAGE_SIZE_def unat_arith_simps)
  moreover have "unat (c + PAGE_SIZE) = unat c + 4096"
    using c(4) by (simp add: PAGE_SIZE_def unat_word_ariths)
  then have "unat c \<le> unat a" "unat a < unat c + 4096"
    using c(2,3) by (simp_all add: word_le_nat_alt word_less_nat_alt)
  moreover have "4096 * (unat c div 4096) + unat c mod 4096 = unat c"
    by simp
  ultimately show "unat a div 4096 = unat c div 4096"
    by (intro div_nat_eqI; simp only: mult_Suc_right; linarith)
qed

section \<open>One step\<close>

lemma del_page_leaf:
  assumes a: "aspace x s g" and va: "va < USER_END" and e: "pte_valid (pmap (ents (mem s)) g (vpn va))" and b: "i < 2" "j < 512"
    and run: "del_page (page_va g) va s = ret s'"
  shows "leaf_table (ents (mem s')) g i j = leaf_table (ents (mem s)) g i j"
proof -
  obtain i' j' k' where t: "vpn va = (i', j', k')" "i' < 2" "j' < 512" "k' < 512"
    using vpn_range [OF va] by (auto simp: vpages_def)
  obtain p where p: "leaf_table (ents (mem s)) g i' j' = Some p" "mem s' = store64 (mem s) (entry_at (page_va p) k') 0"
    using del_page_ok [OF a va refl e] run t by auto
  note leaf = leavesI [OF t(2,3) p(1)]
  have "dram_page p"
    using tabs_okD(5) [OF aspaceD(1) [OF a] leaf] table_page_dram by blast
  then show ?thesis
    using set_leaf_tables(2) [OF tabs_okD(3) [OF aspaceD(1) [OF a]] leaf b(1)] ents_store [of p k' "mem s" 0] t(4)
    by (simp add: p(2))
qed

lemma del_page_invalid:
  assumes "aspace x s g" "va < USER_END" "vpn va = (i, j, k)" "leaf_table (ents (mem s)) g i j = Some p"
    "\<not> pte_valid (pmap (ents (mem s)) g (vpn va))"
  shows "del_page (page_va g) va s = ret s"
proof -
  have "load64 (mem s) (entry_at (page_va p) k) = pmap (ents (mem s)) g (vpn va)"
    using store_leaf(4) [OF aspaceD(1) [OF assms(1)] refl _ assms(4)] vpn_range [OF assms(2)] assms(3) by simp
  then show ?thesis
    using get_pte_present [OF aspaceD(1) [OF assms(1)] assms(2-4), of False] assms(5)
    by (simp add: del_page_def pte_valid_def)
qed

section \<open>The loop\<close>

text \<open>The virtual pages of a range.\<close>

definition in_range :: "u64 \<Rightarrow> u64 \<Rightarrow> vpage \<Rightarrow> bool" where
  "in_range c fin t \<longleftrightarrow> (\<exists>a. c \<le> a \<and> a < fin \<and> vpn a = t)"

lemma in_range_step:
  assumes "c \<le> c'" "\<And>a. c \<le> a \<Longrightarrow> a < c' \<Longrightarrow> vpn a = vpn c"
  shows "in_range c fin t \<Longrightarrow> t = vpn c \<or> in_range c' fin t" "in_range c' fin t \<Longrightarrow> in_range c fin t"
proof -
  show "in_range c fin t \<Longrightarrow> t = vpn c \<or> in_range c' fin t"
    using assms(2) unfolding in_range_def by (metis not_less)
  show "in_range c' fin t \<Longrightarrow> in_range c fin t"
    using order_trans [OF assms(1)] unfolding in_range_def by blast
qed

text \<open>A position of the loop: at the start of a page, or inside one that has no leaf table.\<close>

definition loop_pos :: "table_store \<Rightarrow> nat \<Rightarrow> u64 \<Rightarrow> bool" where
  "loop_pos E g c \<longleftrightarrow> unat c mod 512 = 0 \<and>
     (unat c mod 4096 = 0 \<or> leaf_table E g (fst (vpn c)) (fst (snd (vpn c))) = None)"

definition unmapped :: "nat \<Rightarrow> u64 \<Rightarrow> u64 \<Rightarrow> 'z sched_scheme \<Rightarrow> 'z sched_scheme \<Rightarrow> bool" where
  "unmapped g c fin s s' \<longleftrightarrow> mem_only s s' \<and>
     (\<forall>t\<in>vpages. pmap (ents (mem s')) g t =
        (if pte_valid (pmap (ents (mem s)) g t) \<and> in_range c fin t then 0 else pmap (ents (mem s)) g t))"

lemma next_pos:
  fixes c fin :: u64
  assumes "unat c mod n = 0" "unat fin mod n = 0" "c < fin" "0 < n"
  shows "unat (c + of_nat n) = unat c + n" "c + of_nat n \<le> fin" "c \<le> c + of_nat n" "c + of_nat n \<noteq> 0"
proof -
  have "n dvd unat c" "n dvd unat fin"
    using assms(1,2) by auto
  then obtain x y where xy: "unat c = n * x" "unat fin = n * y"
    by (elim dvdE)
  have lt: "unat c < unat fin"
    using assms(3) by (simp add: word_less_nat_alt)
  then have "x < y"
    using xy by simp
  then have "n * Suc x \<le> n * y"
    by (intro mult_le_mono2) simp
  then have le: "unat c + n \<le> unat fin"
    using xy by simp
  then have small: "n < 2 ^ 64"
    using unat_u64_bound [of fin] by linarith
  show eq: "unat (c + of_nat n) = unat c + n"
    using le unat_u64_bound [of fin] by (simp add: unat_word_ariths unat_of_nat_u64 [OF small])
  show "c + of_nat n \<le> fin" "c \<le> c + of_nat n"
    using le eq by (simp_all add: word_le_nat_alt)
  show "c + of_nat n \<noteq> 0"
    using eq assms(4) by (metis add_eq_0_iff_both_eq_0 less_numeral_extra(3) unat_0)
qed

lemma unmapped_step:
  assumes u: "unmapped g c' fin s2 s'" and m: "mem_only s s2" and r: "c \<le> c'" "\<And>a. c \<le> a \<Longrightarrow> a < c' \<Longrightarrow> vpn a = vpn c" "c < fin"
    and p: "\<And>t. t \<in> vpages \<Longrightarrow> pmap (ents (mem s2)) g t =
        (if t = vpn c \<and> pte_valid (pmap (ents (mem s)) g t) then 0 else pmap (ents (mem s)) g t)"
  shows "unmapped g c fin s s'"
proof -
  have c: "in_range c fin (vpn c)"
    using r(3) by (auto simp: in_range_def)
  have "pmap (ents (mem s')) g t =
        (if pte_valid (pmap (ents (mem s)) g t) \<and> in_range c fin t then 0 else pmap (ents (mem s)) g t)" if t: "t \<in> vpages" for t
    using u p [OF t] t c in_range_step [of c c' fin t, OF r(1,2)] by (cases "t = vpn c") (auto simp: unmapped_def)
  then show ?thesis
    using u m mem_only_trans unfolding unmapped_def by blast
qed

lemma part_of_page:
  fixes a c :: nat
  assumes "c mod n = 0" "c \<le> a" "a < c + n" "4096 = n * m" "0 < n"
  shows "a div 4096 = c div 4096"
proof -
  obtain q where c: "c = n * q"
    using assms(1) by auto
  have "a div n = q"
    using assms(2,3) by (intro div_nat_eqI) (simp_all add: c)
  then show ?thesis
    using assms(5) by (simp only: assms(4) div_mult2_eq c nonzero_mult_div_cancel_left)
qed

lemma next_part:
  fixes c :: nat
  assumes "c mod 512 = 0" "(c + 512) mod 4096 \<noteq> 0"
  shows "(c + 512) div 4096 = c div 4096"
proof -
  obtain q where c: "c = 512 * q"
    using assms(1) by auto
  have e: "c + 512 = 512 * Suc q" "(4096 :: nat) = 512 * 8"
    by (simp_all add: c)
  have "Suc q mod 8 \<noteq> 0"
    using assms(2) unfolding e mult_mod_right [symmetric] by simp
  then have "Suc q div 8 = q div 8"
    by (simp add: div_Suc)
  then show ?thesis
    unfolding e div_mult2_eq by (simp add: c)
qed

lemma del_range_loop_ok:
  assumes "aspace x s g" "loop_pos (ents (mem s)) g c" "c < fin" "unat fin mod 4096 = 0" "fin \<le> USER_END"
  shows "\<exists>s'. del_range_loop (page_va g) c fin s = ret s' \<and> aspace x s' g \<and> unmapped g c fin s s'"
  using assms
proof (induction "unat fin - unat c" arbitrary: c s rule: less_induct)
  case less
  have user: "c < USER_END"
    using less.prems(3,5) by (rule order.strict_trans2)
  obtain i j k where t: "vpn c = (i, j, k)" "i < 2" "j < 512" "k < 512"
    using vpn_range [OF user] by (auto simp: vpages_def)
  note ok = aspaceD(1) [OF less.prems(1)]
  have fin: "unat fin mod 512 = 0"
    using less.prems(4) mod_mod_cancel [of 512 4096 "unat fin"] by simp
  have c: "unat c mod 512 = 0"
    using less.prems(2) by (simp add: loop_pos_def)
  show ?case
  proof (cases "leaf_table (ents (mem s)) g i j")
    case None
    define c' where "c' = c + of_nat 512"
    note N = next_pos [OF c fin less.prems(3), folded c'_def]
    have r: "rounddown (c + PT_SIZE) PT_SIZE = c'"
    proof -
      have "512 dvd unat c + 512"
        using c by (auto intro!: dvd_add)
      then have "unat (rounddown c' 512) = unat c'"
        by (simp add: unat_rounddown N(1))
      then show ?thesis
        by (simp add: word_unat_eq_iff c'_def PT_SIZE_def PT_SHIFT_def)
    qed
    have same: "vpn a = vpn c" if "c \<le> a" "a < c'" for a
    proof (rule vpn_page)
      have "unat c \<le> unat a" "unat a < unat c + 512"
        using that N(1) by (simp_all add: word_le_nat_alt word_less_nat_alt)
      with c show "unat a div 4096 = unat c div 4096"
        by (intro part_of_page [of _ 512 _ 8]) simp_all
    qed
    have p: "pmap (ents (mem s)) g (vpn c) = 0"
      using None t(1) by (simp add: pmap_def)
    have step: "del_range_loop (page_va g) c fin s =
        (if c' < fin then del_range_loop (page_va g) c' fin s else ret s)"
      using N(4) get_pte_found [OF ok user t(1), of alloc_page] None r
      by (subst del_range_loop.simps) (simp add: get_pte_def)
    have u: "unmapped g c fin s s'" if "unmapped g c' fin s s'" for s'
      by (rule unmapped_step [OF that mem_only_refl N(3) same less.prems(3)]) (auto simp: p)
    show ?thesis
    proof (cases "c' < fin")
      case True
      have "loop_pos (ents (mem s)) g c'"
      proof (cases "unat c' mod 4096 = 0")
        case False
        have "unat c' div 4096 = unat c div 4096"
          using False c next_part [of "unat c"] by (simp add: N(1))
        then have "vpn c' = vpn c"
          by (rule vpn_page)
        then show ?thesis
          using N(1) c None t(1) by (simp add: loop_pos_def)
      qed (simp add: loop_pos_def N(1) c)
      moreover have "unat fin - unat c' < unat fin - unat c"
        using N(1) True less.prems(3) by (simp add: word_less_nat_alt)
      ultimately show ?thesis
        using less.hyps [OF _ less.prems(1) _ True less.prems(4,5)] step u True by auto
    next
      case False
      have "unmapped g c' fin s s"
        using False by (auto simp: unmapped_def in_range_def)
      then show ?thesis
        using step u False less.prems(1) by auto
    qed
  next
    case (Some p)
    have c4: "unat c mod 4096 = 0"
      using less.prems(2) Some t(1) by (auto simp: loop_pos_def)
    define c' where "c' = c + of_nat 4096"
    note N = next_pos [OF c4 less.prems(4,3), folded c'_def]
    have same: "vpn a = vpn c" if "c \<le> a" "a < c'" for a
    proof (rule vpn_page)
      have "unat c \<le> unat a" "unat a < unat c + 4096"
        using that N(1) by (simp_all add: word_le_nat_alt word_less_nat_alt)
      with c4 show "unat a div 4096 = unat c div 4096"
        by (intro part_of_page [of _ 4096 _ 1]) simp_all
    qed
    let ?e = "pmap (ents (mem s)) g (vpn c)"
    have load: "load64 (mem s) (entry_at (page_va p) k) = ?e"
      using store_leaf(4) [OF ok refl _ Some] vpn_range [OF user] t(1) by simp
    obtain s2 where s2: "(if ?e \<noteq> 0 then del_page (page_va g) c s else ret s) = ret s2" "aspace x s2 g" "mem_only s s2"
        "\<And>u. u \<in> vpages \<Longrightarrow> pmap (ents (mem s2)) g u = (if u = vpn c \<and> pte_valid ?e then 0 else pmap (ents (mem s)) g u)"
        "\<And>i j. i < 2 \<Longrightarrow> j < 512 \<Longrightarrow> leaf_table (ents (mem s2)) g i j = leaf_table (ents (mem s)) g i j"
    proof (cases "pte_valid ?e")
      case True
      then obtain s2 where d: "del_page (page_va g) c s = ret s2" "aspace x s2 g" "mem_only s s2"
          "\<forall>u\<in>vpages. pmap (ents (mem s2)) g u = (if u = vpn c then 0 else pmap (ents (mem s)) g u)"
        using del_page_ok [OF less.prems(1) user refl True] by blast
      moreover have "?e \<noteq> 0"
        using True by auto
      ultimately show thesis
        using that [of s2] del_page_leaf [OF less.prems(1) user True _ _ d(1)] True by simp
    next
      case False
      then show thesis
        using that [of s] less.prems(1) del_page_invalid [OF less.prems(1) user t(1) Some False] by simp
    qed
    have step: "del_range_loop (page_va g) c fin s =
        (if c' < fin then del_range_loop (page_va g) c' fin s2 else ret s2)"
      using N(4) get_pte_found [OF ok user t(1), of alloc_page] Some s2(1) load
      by (subst del_range_loop.simps) (simp add: get_pte_def PAGE_SIZE_def c'_def)
    have u: "unmapped g c fin s s'" if "unmapped g c' fin s2 s'" for s'
      by (rule unmapped_step [OF that s2(3) N(3) same less.prems(3)]) (auto simp: s2(4))
    show ?thesis
    proof (cases "c' < fin")
      case True
      have "loop_pos (ents (mem s2)) g c'"
        using c4 mod_mod_cancel [of 512 4096 "unat c + 4096"] by (simp add: loop_pos_def N(1))
      moreover have "unat fin - unat c' < unat fin - unat c"
        using N(1) True less.prems(3) by (simp add: word_less_nat_alt)
      ultimately show ?thesis
        using less.hyps [OF _ s2(2) _ True less.prems(4,5)] step u True by auto
    next
      case False
      have "unmapped g c' fin s2 s2"
        using False by (auto simp: unmapped_def in_range_def)
      then show ?thesis
        using step u False s2(2) by auto
    qed
  qed
qed

section \<open>Properties\<close>

text \<open>C12: \<open>del_range\<close> terminates for every range of user addresses and unmaps exactly its pages: a valid
  entry of the range is cleared and its page loses the reference, entries outside and swap entries
  stay as they are, and the tables and reference counts stay exact. Ranges that are not made of
  whole pages of user addresses stop the machine.\<close>

theorem del_range_unmaps:
  assumes "aspace x s g"
  shows "if start mod PAGE_SIZE = 0 \<and> fin mod PAGE_SIZE = 0 \<and> user_access start fin
    then \<exists>s'. del_range (page_va g) start fin s = ret s' \<and> aspace x s' g \<and> mem_only s s' \<and>
      (\<forall>t\<in>vpages. pmap (ents (mem s')) g t =
        (if pte_valid (pmap (ents (mem s)) g t) \<and> (\<exists>a. start \<le> a \<and> a < fin \<and> vpn a = t) then 0 else pmap (ents (mem s)) g t))
    else del_range (page_va g) start fin s = panic"
proof (cases "start mod PAGE_SIZE = 0 \<and> fin mod PAGE_SIZE = 0 \<and> user_access start fin")
  case True
  then have m: "unat start mod 4096 = 0" "unat fin mod 4096 = 0" "start < fin" "fin \<le> USER_END"
    by (simp_all add: PAGE_SIZE_def unat_arith_simps user_access_def)
  then have "loop_pos (ents (mem s)) g start"
    using mod_mod_cancel [of 512 4096 "unat start"] by (simp add: loop_pos_def)
  from del_range_loop_ok [OF assms this m(3,2,4)] show ?thesis
    using True by (simp add: del_range_def unmapped_def in_range_def)
qed (auto simp: del_range_def assert_then_def)

theorem del_range_unmaps_witness:
  "\<exists>s'. del_range (page_va 0x82008) 0x200000 0x202000 (sample_swap 1 0) = ret s' \<and>
    pmap (ents (mem (sample_swap 1 0))) 0x82008 (vpn 0x200000) \<noteq> 0 \<and> pmap (ents (mem s')) 0x82008 (vpn 0x200000) = 0"
proof -
  let ?s = "sample_swap 1 0"
  have a: "aspace (\<lambda>_. 0) ?s 0x82008"
    by (rule sample_swap_aspace) simp_all
  have u: "0x200000 mod PAGE_SIZE = 0" "0x202000 mod PAGE_SIZE = 0" "user_access 0x200000 0x202000"
    by (simp_all add: PAGE_SIZE_def user_access_def USER_BEGIN_def USER_END_def)
  have e: "pte_valid (pmap (ents (mem ?s)) 0x82008 (vpn 0x200000))"
    using swap_mem_tables(3) [OF _ _ vpn_range, of 1 0 "0x200000"] swap_pte by (simp add: sample_swap_sel vpn_low USER_END_def)
  have "\<exists>a. 0x200000 \<le> a \<and> a < 0x202000 \<and> vpn a = vpn 0x200000"
    by (rule exI [of _ "0x200000"]) simp
  with e have "pmap (ents (mem ?s)) 0x82008 (vpn 0x200000) \<noteq> 0" "pte_valid (pmap (ents (mem ?s)) 0x82008 (vpn 0x200000)) \<and>
      (\<exists>a. 0x200000 \<le> a \<and> a < 0x202000 \<and> vpn a = vpn 0x200000)"
    by auto
  then show ?thesis
    using del_range_unmaps [OF a, of "0x200000" "0x202000"] u vpn_range [of "0x200000"] by (auto simp: USER_END_def)
qed

end
