(* ===== verification/Fault_Props.thy ===== *)
theory Fault_Props
  imports Swap_Props
begin

text \<open>
  Demand paging: what \<open>handle_page_fault\<close> does for an address that has no entry yet, inside an area and
  outside all areas.
\<close>

unbundle bit_operations_syntax

lemma find_vma_fault:
  assumes "vma_rep s v as"
  shows "\<exists>s'. find_vma (Some v) x s = ret (area_of s as x, s') \<and> vmas s' = vmas s \<and> pages s' = pages s \<and> mem s' = mem s \<and>
    same_free s s' \<and> swap_init_flag s' = swap_init_flag s \<and> test_vmm s' = test_vmm s \<and>
    vmm_gpt (vmms s' v) = vmm_gpt (vmms s v)"
proof -
  obtain s' where s': "find_vma (Some v) x s = ret (area_of s as x, s')" "vmas s' = vmas s"
      "s' = s \<or> (\<exists>a. s' = upd_vmm v (\<lambda>x. x\<lparr>vma_curr := Some a\<rparr>) s)"
    using find_vma_ok [OF assms] by blast
  from s'(3) show ?thesis
    using s'(1,2) by (intro exI [of _ s']) (auto simp: same_free_def upd_vmm_def)
qed

text \<open>The permissions of an entry that a fault in the area \<open>a\<close> creates.\<close>

definition fault_flags :: "vm_area \<Rightarrow> u32" where
  "fault_flags a = (if vm_flags a AND VMA_WRITE \<noteq> 0 then ucast (PTE_R OR PTE_W) else 0)"

lemma fault_flags_small: "unat (fault_flags a) < 1024"
  by (simp add: fault_flags_def PTE_R_def PTE_W_def)

text \<open>A fresh page is mapped at an address without an entry; \<open>p\<close> is its table.\<close>

lemma alloc_page_gpte_ok:
  assumes a: "aspace x s g" and ne: "free_pages_of s \<noteq> {}" and zero: "\<forall>r\<in>free_pages_of s. page_ref (pages s r) = 0"
    and low: "low_blocks 1 s" and va: "va < USER_END" and t: "vpn va = (i, j, k)" and p: "leaf_table (ents (mem s)) g i j = Some p"
    and e: "\<not> pte_valid (pmap (ents (mem s)) g (vpn va))" and fl: "unat flags < 1024"
    and off: "swap_init_flag s \<longrightarrow> test_vmm s = None"
  shows "\<exists>r s'. alloc_page_gpte (page_va g) va flags s = ret (Some r, s') \<and> r \<in> free_pages_of s \<and> aspace (x(r := 0)) s' g \<and>
    free_pages_of s' = free_pages_of s - {r} \<and> page_ref (pages s' r) = 1 \<and>
    (\<forall>u\<in>vpages. pmap (ents (mem s')) g u =
       (if u = vpn va then ppn2pte (of_nat r) (ucast PTE_V OR flags) else pmap (ents (mem s)) g u))"
proof -
  obtain r s1 where r: "alloc_page s = ret (Some r, s1)" "r \<in> free_pages_of s" "free_pages_of s1 = free_pages_of s - {r}"
      "bf_inv s1" "pmm_only s s1" "\<And>i. page_ref (pages s1 i) = page_ref (pages s i)" "page_usable s1 = page_usable s"
    using alloc_page_ok [of s 0] tabs_okD(1) [OF aspaceD(1) [OF a]] ne low by auto
  have m1: "mem s1 = mem s"
    using pmm_only_sel(1) [OF r(5)] .
  have z: "page_ref (pages s r) = 0"
    using zero r(2) by blast
  have a1: "aspace (x(r := 0)) s1 g" and d1: "data_page s1 g r"
    using aspace_alloc(1,2) [OF a r(2,3,4) _ r(6,7)] z by (simp_all add: m1)
  have p1: "leaf_table (ents (mem s1)) g i j = Some p" and e1: "\<not> pte_valid (pmap (ents (mem s1)) g (vpn va))"
    using p e by (simp_all add: m1)
  have ref1: "page_ref (pages s1 r) \<noteq> - 1"
    by (simp add: r(6) z)
  define s2 where "s2 = store_pte (entry_at (page_va p) k) (ppn2pte (of_nat r) (ucast PTE_V OR flags))
    (upd_page r (\<lambda>q. q\<lparr>page_ref := page_ref q + 1\<rparr>) s1)"
  note A = add_page_fresh [OF a1 d1 ref1 fl va t p1 e1, folded s2_def]
  have sel: "swap_init_flag s2 = swap_init_flag s" "test_vmm s2 = test_vmm s" "page_ref (pages s2 r) = 1" "same_free s1 s2"
    using pmm_only_sel(2,3) [OF r(5)] by (simp_all add: s2_def store_pte_def upd_page_def same_free_def r(6) z)
  have "alloc_page_gpte (page_va g) va flags s = ret (Some r, s2)"
    using r(1) A(1) off by (simp add: alloc_page_gpte_def sel)
  moreover have "pmap (ents (mem s2)) g u =
      (if u = vpn va then ppn2pte (of_nat r) (ucast PTE_V OR flags) else pmap (ents (mem s)) g u)" if "u \<in> vpages" for u
    using A(3) [OF that] by (simp add: m1)
  ultimately show ?thesis
    using A(2) r(2,3) sel(3) same_free_inv(4) [OF sel(4)] by blast
qed

lemma fault_fresh:
  assumes a: "aspace x s g" and g: "vmm_gpt (vmms s v) = page_va g"
    and room: "3 \<le> card (free_pages_of s)" and low: "low_blocks 3 s" and zero: "\<forall>r\<in>free_pages_of s. page_ref (pages s r) = 0"
    and area: "vma_rep s v as" "area_of s as addr = Some b"
    and va: "rounddown addr PAGE_SIZE = va" and user: "va < USER_END" and e: "pmap (ents (mem s)) g (vpn va) = 0"
    and off: "swap_init_flag s \<longrightarrow> test_vmm s = None"
  shows "\<exists>r s'. handle_page_fault (Some v) addr s = ret (0, s') \<and> r \<in> free_pages_of s \<and> r \<notin> free_pages_of s' \<and>
    aspace (x(r := 0)) s' g \<and> page_ref (pages s' r) = 1 \<and>
    (\<forall>u\<in>vpages. pmap (ents (mem s')) g u =
       (if u = vpn va then ppn2pte (of_nat r) (ucast PTE_V OR fault_flags (vmas s b)) else pmap (ents (mem s)) g u))"
proof -
  obtain i j k where t: "vpn va = (i, j, k)"
    by (metis prod_cases3)
  obtain s1 where s1: "find_vma (Some v) addr s = ret (Some b, s1)" "vmas s1 = vmas s" "pages s1 = pages s" "mem s1 = mem s"
      "same_free s s1" "swap_init_flag s1 = swap_init_flag s" "test_vmm s1 = test_vmm s" "vmm_gpt (vmms s1 v) = page_va g"
    using find_vma_fault [OF area(1), of addr] area(2) g by auto
  define s2 where "s2 = s1\<lparr>num_page_fault := num_page_fault s1 + 1\<rparr>"
  have sf: "same_free s s2"
    using s1(5) by (simp add: s2_def same_free_def)
  note SF = same_free_inv [OF sf]
  have sel: "vmas s2 = vmas s" "pages s2 = pages s" "mem s2 = mem s" "swap_init_flag s2 = swap_init_flag s"
      "test_vmm s2 = test_vmm s" "vmm_gpt (vmms s2 v) = page_va g"
    using s1 by (simp_all add: s2_def)
  have a2: "aspace x s2 g"
    using a aspace_cong [OF sf] sel by simp
  have room2: "2 \<le> card (free_pages_of s2)" and low2: "low_blocks (Suc (Suc 1)) s2"
    using room low by (simp_all add: low_blocks_def SF numeral_3_eq_3)
  obtain p s3 where s3: "get_pte (page_va g) va True s2 = ret (Some (entry_at (page_va p) k), s3)" "grown g s2 s3"
      "leaf_table (ents (mem s3)) g i j = Some p" "low_blocks 1 s3" "card (free_pages_of s2) \<le> Suc (Suc (card (free_pages_of s3)))"
    using get_pte_room [OF aspaceD(1) [OF a2] user t room2 low2] by blast
  note a3 = aspace_grown [OF a2 s3(2)]
  have P3: "pmap (ents (mem s3)) g u = pmap (ents (mem s)) g u" if "u \<in> vpages" for u
    using s3(2) that by (simp add: grown_def sel)
  have sub: "free_pages_of s3 \<subseteq> free_pages_of s"
    using s3(2) by (simp add: grown_def SF)
  have zero3: "\<forall>r\<in>free_pages_of s3. page_ref (pages s3 r) = 0"
    using s3(2) zero sub by (auto simp: grown_def sel)
  have ne3: "free_pages_of s3 \<noteq> {}"
    using s3(5) room by (auto simp: SF)
  have e3: "pmap (ents (mem s3)) g (vpn va) = 0"
    using P3 [OF vpn_range [OF user]] e by simp
  then have inv3: "\<not> pte_valid (pmap (ents (mem s3)) g (vpn va))"
    by (simp add: pte_valid_def)
  have m3: "swap_init_flag s3 = swap_init_flag s" "test_vmm s3 = test_vmm s" "vmms s3 = vmms s2" "vmas s3 = vmas s"
    using mem_only_sel [of s2 s3] s3(2) by (simp_all add: grown_def sel)
  then have off3: "swap_init_flag s3 \<longrightarrow> test_vmm s3 = None"
    using off by simp
  obtain r s4 where r: "alloc_page_gpte (page_va g) va (fault_flags (vmas s b)) s3 = ret (Some r, s4)"
      "r \<in> free_pages_of s3" "aspace (x(r := 0)) s4 g" "free_pages_of s4 = free_pages_of s3 - {r}" "page_ref (pages s4 r) = 1"
      "\<forall>u\<in>vpages. pmap (ents (mem s4)) g u =
        (if u = vpn va then ppn2pte (of_nat r) (ucast PTE_V OR fault_flags (vmas s b)) else pmap (ents (mem s3)) g u)"
    using alloc_page_gpte_ok [OF a3 ne3 zero3 s3(4) user t s3(3) inv3 fault_flags_small off3] by blast
  have start: "\<not> vm_start (vmas s2 b) > addr"
    using area_of_in [OF area(2)] by (simp add: sel in_vma_def not_less)
  have load: "load64 (mem s3) (entry_at (page_va p) k) = 0"
    using store_leaf(4) [OF aspaceD(1) [OF a3] refl _ s3(3), of k] vpn_range [OF user] e3 by (simp add: t)
  have "handle_page_fault (Some v) addr s = ret (0, s4)"
    using s1(1) start s3(1) load r(1)
    by (simp add: handle_page_fault_def Let_def va sel s1(2) m3 flip: s2_def fault_flags_def)
  moreover have "pmap (ents (mem s4)) g u =
      (if u = vpn va then ppn2pte (of_nat r) (ucast PTE_V OR fault_flags (vmas s b)) else pmap (ents (mem s)) g u)" if "u \<in> vpages" for u
    using r(6) P3 that by simp
  ultimately show ?thesis
    using r(2-5) sub by blast
qed

lemma fault_outside:
  assumes "vma_rep s v as" "area_of s as addr = None"
  shows "\<exists>s'. handle_page_fault (Some v) addr s = ret (- E_INVAL, s') \<and> mem s' = mem s \<and> pages s' = pages s \<and> same_free s s'"
proof -
  obtain s1 where "find_vma (Some v) addr s = ret (None, s1)" "pages s1 = pages s" "mem s1 = mem s" "same_free s s1"
    using find_vma_fault [OF assms(1), of addr] assms(2) by auto
  then show ?thesis
    by (auto simp: handle_page_fault_def Let_def same_free_def)
qed

lemma ppn2pte_not_user: "ppn2pte ppn (ucast PTE_V OR fault_flags a) AND PTE_U = 0"
proof (rule bit_word_eqI)
  fix n
  assume "n < LENGTH(64)"
  have "bit PTE_U n \<longleftrightarrow> n = 4"
  proof -
    have P: "PTE_U = push_bit 4 1"
      by (simp add: PTE_U_def)
    show ?thesis
      unfolding P by (auto simp only: bit_push_bit_iff bit_1_iff) simp_all
  qed
  moreover have "\<not> bit (ppn2pte ppn (ucast PTE_V OR fault_flags a)) 4"
    by (simp add: ppn2pte_def bit_or_iff bit_push_bit_iff bit_ucast_iff PTE_SHIFT_def fault_flags_def PTE_V_def PTE_R_def PTE_W_def)
  ultimately show "bit (ppn2pte ppn (ucast PTE_V OR fault_flags a) AND PTE_U) n = bit 0 n"
    by (auto simp: bit_and_iff)
qed

text \<open>C8: a page fault at a user address without an entry. Outside all areas \<open>handle_page_fault\<close> returns
  \<open>-E_INVAL\<close> and changes neither memory nor the free pages. Inside an area, with pages free for two tables and
  the page, it maps a page that was free at the address, with one reference and write permission exactly
  when the area has it; no other user page of the address space changes and the counts stay exact. The entry never has the
  bit \<open>PTE_U\<close>, so a program in user mode still cannot use the page.
\<close>

theorem page_fault_demand_maps:
  fixes s :: "'z sched_scheme"
  assumes "aspace x s g" and "vmm_gpt (vmms s v) = page_va g" and "3 \<le> card (free_pages_of s)" and "low_blocks 3 s"
    and "\<forall>r\<in>free_pages_of s. page_ref (pages s r) = 0" and "vma_rep s v as" and "rounddown addr PAGE_SIZE = va"
    and "va < USER_END" and "pmap (ents (mem s)) g (vpn va) = 0" and "swap_init_flag s \<longrightarrow> test_vmm s = None"
  shows "case area_of s as addr of
      None \<Rightarrow> \<exists>s'. handle_page_fault (Some v) addr s = ret (- E_INVAL, s') \<and> mem s' = mem s \<and>
        free_pages_of s' = free_pages_of s
    | Some b \<Rightarrow> \<exists>r s'. handle_page_fault (Some v) addr s = ret (0, s') \<and> r \<in> free_pages_of s \<and> r \<notin> free_pages_of s' \<and>
        aspace (x(r := 0)) s' g \<and> page_ref (pages s' r) = 1 \<and> pmap (ents (mem s')) g (vpn va) AND PTE_U = 0 \<and>
        (\<forall>u\<in>vpages. pmap (ents (mem s')) g u =
           (if u = vpn va then ppn2pte (of_nat r) (ucast PTE_V OR
              (if vm_flags (vmas s b) AND VMA_WRITE \<noteq> 0 then ucast (PTE_R OR PTE_W) else 0))
            else pmap (ents (mem s)) g u))"
proof (cases "area_of s as addr")
  case None
  then show ?thesis
    using fault_outside [OF assms(6) None] same_free_inv(4) by fastforce
next
  case (Some b)
  from fault_fresh [OF assms(1-6) Some assms(7-10)]
  obtain r s' where r: "handle_page_fault (Some v) addr s = ret (0, s')" "r \<in> free_pages_of s" "r \<notin> free_pages_of s'"
      "aspace (x(r := 0)) s' g" "page_ref (pages s' r) = 1"
      "\<forall>u\<in>vpages. pmap (ents (mem s')) g u =
       (if u = vpn va then ppn2pte (of_nat r) (ucast PTE_V OR fault_flags (vmas s b)) else pmap (ents (mem s)) g u)"
    by blast
  have "pmap (ents (mem s')) g (vpn va) AND PTE_U = 0"
    using r(6) vpn_range [OF assms(8)] ppn2pte_not_user by simp
  then show ?thesis
    using Some r unfolding fault_flags_def by auto
qed

theorem page_fault_demand_maps_witness:
  "\<exists>r s'. handle_page_fault (Some 500) 0x2345 (sample_swap 0 1) = ret (0, s') \<and> page_ref (pages s' r) = 1 \<and>
    pmap (ents (mem s')) 0x82008 (vpn 0x2000) = ppn2pte (of_nat r) (ucast PTE_V OR ucast (PTE_R OR PTE_W))"
proof -
  let ?s = "sample_swap 0 1"
  have v: "vpn 0x2000 = (0, 0, 2)"
    by (simp add: vpn_def get_gptx_def get_mptx_def get_ptx_def const_defs)
  have a: "aspace (\<lambda>_. 0) ?s 0x82008"
    by (rule sample_swap_aspace) simp_all
  have c: "3 \<le> card (free_pages_of ?s)"
    by (simp add: sample_swap_free(2) card_Un_disjoint)
  have l: "low_blocks 3 ?s"
  proof -
    have "same_free sample_pmm ?s"
      by (simp add: same_free_def sample_swap_def sample_pmm_def)
    then show ?thesis
      by (simp add: low_blocks_def same_free_inv blocks_of_abs [OF sample_pmm_abs])
  qed
  have z: "\<forall>r\<in>free_pages_of ?s. page_ref (pages ?s r) = 0"
    by (auto simp: sample_swap_free(2) sample_swap_sel)
  have e: "pmap (ents (mem ?s)) 0x82008 (vpn 0x2000) = 0"
    using swap_mem_tables(3) [OF _ _ vpn_range, of 0 1 "0x2000"] by (simp add: sample_swap_sel v USER_END_def)
  have u: "0x2000 < USER_END"
    by (simp add: USER_END_def)
  have d: "rounddown 0x2345 PAGE_SIZE = 0x2000" "swap_init_flag ?s \<longrightarrow> test_vmm ?s = None"
    by (simp_all add: rounddown_def PAGE_SIZE_def sample_swap_def sample_sched_def)
  have b: "area_of ?s [501] 0x2345 = Some 501" "vm_flags (vmas ?s 501) AND VMA_WRITE \<noteq> 0"
    by (simp_all add: area_of_def in_vma_def sample_swap_def VMA_WRITE_def)
  show ?thesis
    using page_fault_demand_maps [OF a sample_swap_sel(2) c l z sample_swap_area(1) d(1) u e d(2)] b vpn_range [OF u] by auto
qed

end
