(* ===== verification/Best_Fit_Test.thy ===== *)
theory Best_Fit_Test
  imports Page_Table
begin

text \<open>
  The self test of the page allocator in \<open>kernel/mm/best_fit_pmm.c\<close>. The test puts the free list
  aside, runs the allocator on an emptied list and puts the list back, so the lemmas follow the
  allocator in a state in which some block heads are hidden: \<open>masked H\<close> clears the flags of the
  hidden pages, and what an operation does on the masked state it does on the state itself.
\<close>

unbundle bit_operations_syntax

section \<open>The test\<close>

text \<open>A copy of the variable \<open>struct free_area\<close>: the links of the list header and the count.\<close>

record free_area =
  fa_prev :: "(unit, nat) lnode"
  fa_next :: "(unit, nat) lnode"
  fa_num_free :: u64

definition save_free_area :: "'z pmm_scheme \<Rightarrow> free_area" where
  "save_free_area s =
     \<lparr>fa_prev = prv (flinks s) free_head, fa_next = nxt (flinks s) free_head, fa_num_free = num_free s\<rparr>"

definition restore_free_area :: "free_area \<Rightarrow> 'z pmm_scheme \<Rightarrow> 'z pmm_scheme" where
  "restore_free_area a s =
     s\<lparr>flinks := \<lparr>prv = (prv (flinks s))(free_head := fa_prev a), nxt = (nxt (flinks s))(free_head := fa_next a)\<rparr>,
       num_free := fa_num_free a\<rparr>"

text \<open>\<open>ASSERT((p = alloc_page()) != NULL)\<close> and \<open>ASSERT(alloc_page() == NULL)\<close>.\<close>

definition must_alloc :: "u64 \<Rightarrow> 'z sched_scheme \<Rightarrow> (nat \<times> 'z sched_scheme) exec" where
  "must_alloc n s =
     bind_exec (alloc_pages n s) (\<lambda>(p, s1). case p of None \<Rightarrow> panic | Some q \<Rightarrow> ret (q, s1))"

definition must_fail :: "u64 \<Rightarrow> 'z sched_scheme \<Rightarrow> 'z sched_scheme exec" where
  "must_fail n s = bind_exec (alloc_pages n s) (\<lambda>(p, s1). assert_then (p = None) (ret s1))"

text \<open>\<open>basic_test\<close> from the point where the free list is emptied up to its restoration; the result
  is the three pages held at the end.\<close>

definition basic_test_empty ::
  "nat \<Rightarrow> nat \<Rightarrow> nat \<Rightarrow> 'z sched_scheme \<Rightarrow> ((nat \<times> nat \<times> nat) \<times> 'z sched_scheme) exec" where
  "basic_test_empty p1 p2 p3 s =
     (let s1 = s\<lparr>flinks := init_list free_head (flinks s)\<rparr> in
      assert_then (list_empty (flinks s1) free_head)
        (bind_exec (must_fail 1 (s1\<lparr>num_free := 0\<rparr>)) (\<lambda>s2.
         bind_exec (free_page p1 s2) (\<lambda>s3.
         bind_exec (free_page p2 s3) (\<lambda>s4.
         bind_exec (free_page p3 s4) (\<lambda>s5.
         assert_then (num_free s5 = 3)
           (bind_exec (must_alloc 1 s5) (\<lambda>(q1, s6).
            bind_exec (must_alloc 1 s6) (\<lambda>(q2, s7).
            bind_exec (must_alloc 1 s7) (\<lambda>(q3, s8).
            bind_exec (must_fail 1 s8) (\<lambda>s9.
            bind_exec (free_page q1 s9) (\<lambda>s10.
            assert_then (\<not> list_empty (flinks s10) free_head)
              (bind_exec (must_alloc 1 s10) (\<lambda>(p0, s11).
               assert_then (p0 = q1)
                 (bind_exec (must_fail 1 s11) (\<lambda>s12.
                  assert_then (num_free s12 = 0) (ret ((p0, q2, q3), s12))))))))))))))))))"

definition basic_test :: "'z sched_scheme \<Rightarrow> 'z sched_scheme exec" where
  "basic_test s =
     bind_exec (must_alloc 1 s) (\<lambda>(p1, s1).
     bind_exec (must_alloc 1 s1) (\<lambda>(p2, s2).
     bind_exec (must_alloc 1 s2) (\<lambda>(p3, s3).
     assert_then (p1 \<noteq> p2 \<and> p2 \<noteq> p3 \<and> p3 \<noteq> p1)
       (assert_then (page_ref (pages s3 p1) = 0 \<and> page_ref (pages s3 p2) = 0 \<and> page_ref (pages s3 p3) = 0)
         (bind_exec (page2pa p1) (\<lambda>a1. assert_then (a1 < DRAM_END_PA)
           (bind_exec (page2pa p2) (\<lambda>a2. assert_then (a2 < DRAM_END_PA)
             (bind_exec (page2pa p3) (\<lambda>a3. assert_then (a3 < DRAM_END_PA)
               (bind_exec (basic_test_empty p1 p2 p3 s3) (\<lambda>((p0, q2, q3), s4).
                bind_exec (free_page p0 (restore_free_area (save_free_area s3) s4)) (\<lambda>s5.
                bind_exec (free_page q2 s5) (\<lambda>s6. free_page q3 s6))))))))))))))"

text \<open>The two loops over the free list, which count blocks and pages up and down again.\<close>

partial_function (option) count_blocks ::
  "'z pmm_scheme \<Rightarrow> (unit, nat) lnode \<Rightarrow> u32 \<Rightarrow> u32 \<Rightarrow> (u32 \<times> u32) exec" where
  "count_blocks s list cnt tot =
     (case nxt (flinks s) list of
        LHead _ \<Rightarrow> ret (cnt, tot)
      | LNode p \<Rightarrow>
          assert_then (page_flags (pages s p) AND PAGE_PROPERTY \<noteq> 0)
            (count_blocks s (LNode p) (cnt + 1) (tot + page_property (pages s p))))"

partial_function (option) uncount_blocks ::
  "'z pmm_scheme \<Rightarrow> (unit, nat) lnode \<Rightarrow> u32 \<Rightarrow> u32 \<Rightarrow> (u32 \<times> u32) exec" where
  "uncount_blocks s list cnt tot =
     (case nxt (flinks s) list of
        LHead _ \<Rightarrow> ret (cnt, tot)
      | LNode p \<Rightarrow> uncount_blocks s (LNode p) (cnt - 1) (tot - page_property (pages s p)))"

text \<open>\<open>test_best_fit\<close> on the emptied list, \<open>p1\<close> being the block of five pages it holds.\<close>

definition test_best_fit_empty :: "nat \<Rightarrow> 'z sched_scheme \<Rightarrow> (nat \<times> 'z sched_scheme) exec" where
  "test_best_fit_empty p1 s =
     (let s1 = s\<lparr>flinks := init_list free_head (flinks s)\<rparr> in
      assert_then (list_empty (flinks s1) free_head)
        (bind_exec (must_fail 1 s1) (\<lambda>s2.
         bind_exec (free_pages (p1 + 2) 3 (s2\<lparr>num_free := 0\<rparr>)) (\<lambda>s3.
         bind_exec (must_fail 4 s3) (\<lambda>s4.
         assert_then (page_flags (pages s4 (p1 + 2)) AND PAGE_PROPERTY \<noteq> 0 \<and> page_property (pages s4 (p1 + 2)) = 3)
           (bind_exec (must_alloc 3 s4) (\<lambda>(p2, s5).
            bind_exec (must_fail 1 s5) (\<lambda>s6.
            assert_then (p1 + 2 = p2)
              (let p3 = p1 + 1 in
               bind_exec (free_page p1 s6) (\<lambda>s7.
               bind_exec (free_pages p2 3 s7) (\<lambda>s8.
               assert_then (page_flags (pages s8 p1) AND PAGE_PROPERTY \<noteq> 0 \<and> page_property (pages s8 p1) = 1)
                 (assert_then (page_flags (pages s8 p2) AND PAGE_PROPERTY \<noteq> 0 \<and> page_property (pages s8 p2) = 3)
                   (bind_exec (must_alloc 1 s8) (\<lambda>(q1, s9).
                    assert_then (Suc q1 = p3)
                      (bind_exec (free_page q1 s9) (\<lambda>s10.
                       bind_exec (must_alloc 2 s10) (\<lambda>(q2, s11).
                       assert_then (q2 = p3 + 1)
                         (bind_exec (free_pages q2 2 s11) (\<lambda>s12.
                          bind_exec (free_page p3 s12) (\<lambda>s13.
                          bind_exec (must_alloc 5 s13) (\<lambda>(q5, s14).
                          bind_exec (must_fail 1 s14) (\<lambda>s15.
                          assert_then (num_free s15 = 0) (ret (q5, s15))))))))))))))))))))))))"

definition test_best_fit :: "'z sched_scheme \<Rightarrow> 'z sched_scheme exec" where
  "test_best_fit s =
     bind_exec (count_blocks s free_head 0 0) (\<lambda>(cnt, total).
     let (free_now, s1) = count_free_pages s in
     assert_then (ucast total = free_now)
       (bind_exec (basic_test s1) (\<lambda>s2.
        bind_exec (must_alloc 5 s2) (\<lambda>(p1, s3).
        assert_then (page_flags (pages s3 p1) AND PAGE_PROPERTY = 0)
          (bind_exec (test_best_fit_empty p1 s3) (\<lambda>(q5, s4).
           bind_exec (free_pages q5 5 (restore_free_area (save_free_area s3) s4)) (\<lambda>s5.
           bind_exec (uncount_blocks s5 free_head cnt total) (\<lambda>(cnt', total').
             assert_then (cnt' = 0 \<and> total' = 0) (ret s5)))))))))"

section \<open>States with hidden block heads\<close>

definition masked :: "nat set \<Rightarrow> 'z pmm_scheme \<Rightarrow> 'z pmm_scheme" where
  "masked H s = s\<lparr>pages := \<lambda>i. if i \<in> H then (pages s i)\<lparr>page_flags := 0\<rparr> else pages s i\<rparr>"

lemma masked_sel [simp]:
  "flinks (masked H s) = flinks s" "num_free (masked H s) = num_free s"
  "page_property (pages (masked H s) i) = page_property (pages s i)"
  "page_ref (pages (masked H s) i) = page_ref (pages s i)"
  "i \<notin> H \<Longrightarrow> pages (masked H s) i = pages s i"
  by (simp_all add: masked_def)

lemma masked_empty [simp]: "masked {} s = s"
  by (simp add: masked_def)

lemma masked_upd:
  "i \<notin> H \<Longrightarrow> upd_page i f (masked H s) = masked H (upd_page i f s)"
  "(masked H s)\<lparr>flinks := L\<rparr> = masked H (s\<lparr>flinks := L\<rparr>)"
  "(masked H s)\<lparr>num_free := k\<rparr> = masked H (s\<lparr>num_free := k\<rparr>)"
  by (auto simp: masked_def upd_page_def fun_eq_iff)

text \<open>An operation works inside \<open>A\<close>: the pages outside and their links stay as they are.\<close>

definition inside :: "nat set \<Rightarrow> 'a pmm_scheme \<Rightarrow> 'b pmm_scheme \<Rightarrow> bool" where
  "inside A s s' \<longleftrightarrow> (\<forall>i. i \<notin> A \<longrightarrow> pages s' i = pages s i \<and>
     nxt (flinks s') (LNode i) = nxt (flinks s) (LNode i) \<and> prv (flinks s') (LNode i) = prv (flinks s) (LNode i))"

lemma inside_refl [simp]: "inside A s s"
  by (simp add: inside_def)

lemma inside_trans: "inside A s s' \<Longrightarrow> inside A s' s'' \<Longrightarrow> inside A s s''"
  by (simp add: inside_def)

lemma inside_mono: "inside A s s' \<Longrightarrow> A \<subseteq> B \<Longrightarrow> inside B s s'"
  by (auto simp: inside_def)

text \<open>A set of nodes of the free list that their links do not leave.\<close>

definition ring :: "nat set \<Rightarrow> (unit, nat) lnode links \<Rightarrow> (unit, nat) lnode set \<Rightarrow> bool" where
  "ring A L R \<longleftrightarrow> free_head \<in> R \<and> R \<subseteq> insert free_head (LNode ` A) \<and> (\<forall>x\<in>R. nxt L x \<in> R \<and> prv L x \<in> R)"

lemma ring_dlist:
  assumes "dlist L free_head (head_links bs)" "fst ` set bs \<subseteq> A"
  shows "ring A L (set (free_head # head_links bs))"
proof -
  let ?xs = "head_links bs"
  have ends: "last (free_head # us) \<in> set (free_head # us)" "hd (vs @ [free_head]) \<in> set (vs @ [free_head])"
    for us vs :: "(unit, nat) lnode list"
    by (rule last_in_set, simp) (rule hd_in_set, simp)
  have "nxt L x \<in> set (free_head # ?xs) \<and> prv L x \<in> set (free_head # ?xs)" if x: "x \<in> set (free_head # ?xs)" for x
  proof (cases "x = free_head")
    case True
    then show ?thesis
      using dlist_nxt_head [OF assms(1)] dlist_prv_head [OF assms(1)] ends(1) [of ?xs] ends(2) [of ?xs]
      by (simp only:) auto
  next
    case False
    then have "x \<in> set ?xs"
      using x by simp
    then obtain us vs where eq: "?xs = us @ x # vs"
      by (meson split_list)
    show ?thesis
      using dlist_nxt [OF assms(1) [unfolded eq]] dlist_prv [OF assms(1) [unfolded eq]] ends(1) [of us] ends(2) [of vs]
      unfolding eq by auto
  qed
  then show ?thesis
    using assms(2) by (auto simp: ring_def)
qed

lemma ring_add:
  assumes "ring A L R" "x \<in> R" "y \<in> R" "b \<in> A" "LNode b \<notin> R"
  shows "ring A (add_list x y (LNode b) L) (insert (LNode b) R)"
  using assms by (auto simp: ring_def add_list_def)

lemma ring_del:
  assumes "ring A L R" "x \<in> R"
  shows "ring A (del_list x L) R"
  using assms by (auto simp: ring_def del_list_def)

lemma inside_links:
  assumes "ring A (flinks s) R" "x \<in> R"
  shows "inside A s (s\<lparr>flinks := del_list x (flinks s)\<rparr>)"
    and "y \<in> R \<Longrightarrow> b \<in> A \<Longrightarrow> inside A s (s\<lparr>flinks := add_list x y (LNode b) (flinks s)\<rparr>)"
  using assms by (auto simp: inside_def ring_def del_list_def add_list_def)

lemma inside_upd: "i \<in> A \<Longrightarrow> inside A s (upd_page i f s)"
  by (auto simp: inside_def)

lemma take_mask:
  assumes "b \<notin> H" "n < ucast (page_property (pages s b)) \<Longrightarrow> b + unat n \<notin> H"
  shows "best_fit_take b n (masked H s) = masked H (best_fit_take b n s)"
  using assms by (auto simp: best_fit_take_def Let_def masked_upd)

lemma take_inside:
  assumes r: "ring A (flinks s) R" and b: "LNode b \<in> R" "b \<in> A"
    and tail: "n < ucast (page_property (pages s b)) \<Longrightarrow> b + unat n \<in> A"
  shows "inside A s (best_fit_take b n s)"
proof -
  define s1 where "s1 = s\<lparr>flinks := del_list (LNode b) (flinks s)\<rparr>"
  have r1: "ring A (flinks s1) R"
    using ring_del [OF r b(1)] by (simp add: s1_def)
  have nodes: "prv (flinks s1) (LNode b) \<in> R" "nxt (flinks s1) (LNode b) \<in> R"
    using r1 b(1) by (auto simp: ring_def)
  have i1: "inside A s s1"
    unfolding s1_def by (rule inside_links(1) [OF r b(1)])
  show ?thesis
  proof (cases "n < ucast (page_property (pages s b))")
    case True
    have "inside A s1 (s1\<lparr>flinks := add_list (prv (flinks s1) (LNode b)) (nxt (flinks s1) (LNode b)) (LNode (b + unat n)) (flinks s1)\<rparr>)"
      by (rule inside_links(2) [OF r1 nodes(1) nodes(2) tail [OF True]])
    with i1 True tail b(2) show ?thesis
      by (auto simp: inside_def best_fit_take_def Let_def s1_def)
  next
    case False
    with i1 b(2) show ?thesis
      by (auto simp: inside_def best_fit_take_def Let_def s1_def)
  qed
qed

lemma walk_ring:
  assumes "free_walk L b x = Some l" "ring A L R" "x \<in> R"
  shows "l \<in> R"
proof -
  have "(\<forall>y\<in>R. nxt L y \<in> R) \<longrightarrow> x \<in> R \<longrightarrow> l \<in> R"
  proof (rule free_walk.raw_induct [where P = "\<lambda>L b x l. (\<forall>y\<in>R. nxt L y \<in> R) \<longrightarrow> x \<in> R \<longrightarrow> l \<in> R", OF _ assms(1)])
    fix walk L b x l
    assume IH: "\<And>L b x l. walk L b x = Some l \<Longrightarrow> (\<forall>y\<in>R. nxt L y \<in> R) \<longrightarrow> x \<in> R \<longrightarrow> l \<in> R"
      and run: "(if nxt L x < LNode b \<and> nxt L x \<noteq> free_head then walk L b (nxt L x) else Some x) = Some l"
    then show "(\<forall>y\<in>R. nxt L y \<in> R) \<longrightarrow> x \<in> R \<longrightarrow> l \<in> R"
      using IH [of L b "nxt L x" l] by (auto split: if_splits)
  qed
  then show ?thesis
    using assms(2,3) by (simp add: ring_def)
qed

lemma merge_prev_mask:
  assumes r: "ring A (flinks s) R" and b: "LNode b \<in> R" and H: "H \<inter> A = {}"
  shows "merge_prev b (masked H s) = (fst (merge_prev b s), masked H (snd (merge_prev b s)))"
    and "inside A s (snd (merge_prev b s))" "LNode (fst (merge_prev b s)) \<in> R" "ring A (flinks (snd (merge_prev b s))) R"
proof -
  have A: "b \<in> A" "b \<notin> H"
    using r b H by (auto simp: ring_def)
  have "merge_prev b (masked H s) = (fst (merge_prev b s), masked H (snd (merge_prev b s))) \<and>
    inside A s (snd (merge_prev b s)) \<and> LNode (fst (merge_prev b s)) \<in> R \<and> ring A (flinks (snd (merge_prev b s))) R"
  proof (cases "prv (flinks s) (LNode b)")
    case (LHead x)
    then show ?thesis
      using b r by (simp add: merge_prev_def)
  next
    case (LNode p)
    then have p: "LNode p \<in> R" "p \<in> A" "p \<notin> H"
      using r b H by (force simp: ring_def)+
    have i: "inside A s (s\<lparr>flinks := del_list (LNode b) (flinks s)\<rparr>)"
      by (rule inside_links(1) [OF r b])
    show ?thesis
      using LNode p A b r ring_del [OF r b] i
      by (auto simp: merge_prev_def Let_def masked_upd inside_def)
  qed
  then show "merge_prev b (masked H s) = (fst (merge_prev b s), masked H (snd (merge_prev b s)))"
    "inside A s (snd (merge_prev b s))" "LNode (fst (merge_prev b s)) \<in> R" "ring A (flinks (snd (merge_prev b s))) R"
    by blast+
qed

lemma merge_next_mask:
  assumes r: "ring A (flinks s) R" and b: "LNode b \<in> R" and H: "H \<inter> A = {}"
  shows "merge_next b (masked H s) = masked H (merge_next b s)" "inside A s (merge_next b s)"
proof -
  have A: "b \<in> A" "b \<notin> H"
    using r b H by (auto simp: ring_def)
  have "merge_next b (masked H s) = masked H (merge_next b s) \<and> inside A s (merge_next b s)"
  proof (cases "nxt (flinks s) (LNode b)")
    case (LHead x)
    then show ?thesis
      by (simp add: merge_next_def)
  next
    case (LNode p)
    then have p: "LNode p \<in> R" "p \<in> A" "p \<notin> H"
      using r b H by (force simp: ring_def)+
    have i: "inside A s (s\<lparr>flinks := del_list (LNode p) (flinks s)\<rparr>)"
      by (rule inside_links(1) [OF r p(1)])
    show ?thesis
      using LNode p A b r i by (auto simp: merge_next_def Let_def masked_upd inside_def)
  qed
  then show "merge_next b (masked H s) = masked H (merge_next b s)" "inside A s (merge_next b s)"
    by blast+
qed

lemma free_mask:
  fixes s :: "'z pmm_scheme"
  assumes r: "ring A (flinks s) R" and b: "LNode b \<notin> R" and A: "{b..<b + unat n} \<subseteq> A" and H: "H \<inter> A = {}" and n: "0 < n"
    and fl: "\<forall>i\<in>{b..<b + unat n}. page_flags (pages s i) AND (PAGE_RESERVED OR PAGE_PROPERTY) = 0"
    and run: "best_fit_free_pages b n (masked H s) = ret t"
  shows "\<exists>s'. best_fit_free_pages b n s = ret s' \<and> t = masked H s' \<and> inside A s s'"
proof -
  define I where "I = {b..<b + unat n}"
  have "b \<in> I"
    using n by (simp add: I_def word_less_nat_alt)
  then have bA: "b \<in> A" "b \<notin> H" and IH: "I \<inter> H = {}"
    using A [folded I_def] H by blast+
  define s1 where "s1 = s\<lparr>pages := \<lambda>i. if i \<in> I then (pages s i)\<lparr>page_ref := 0, page_flags := 0\<rparr> else pages s i\<rparr>"
  have loop: "free_pages_loop b (unat n) s = ret s1"
    unfolding s1_def I_def by (rule free_pages_loop_ok [OF fl])
  have "\<forall>i\<in>{b..<b + unat n}. page_flags (pages (masked H s) i) AND (PAGE_RESERVED OR PAGE_PROPERTY) = 0"
    using fl IH by (simp add: I_def masked_def)
  then have "free_pages_loop b (unat n) (masked H s) = ret ((masked H s)\<lparr>pages := \<lambda>i. if i \<in> I
      then (pages (masked H s) i)\<lparr>page_ref := 0, page_flags := 0\<rparr> else pages (masked H s) i\<rparr>)"
    unfolding I_def by (rule free_pages_loop_ok)
  moreover have "(masked H s)\<lparr>pages := \<lambda>i. if i \<in> I
      then (pages (masked H s) i)\<lparr>page_ref := 0, page_flags := 0\<rparr> else pages (masked H s) i\<rparr> = masked H s1"
    using IH by (auto simp: masked_def s1_def fun_eq_iff)
  ultimately have mloop: "free_pages_loop b (unat n) (masked H s) = ret (masked H s1)"
    by simp
  define s4 where "s4 = (upd_page b (\<lambda>q. q\<lparr>page_flags := page_flags q OR PAGE_PROPERTY\<rparr>)
      (upd_page b (\<lambda>q. q\<lparr>page_property := ucast n\<rparr>) s1))\<lparr>num_free := num_free s1 + n\<rparr>"
  have fl4: "flinks s4 = flinks s"
    by (simp add: s4_def s1_def)
  obtain l where l: "free_walk (flinks s) b free_head = Some l"
    using run n by (cases "free_walk (flinks s) b free_head") (simp_all add: best_fit_free_pages_def mloop s1_def Let_def)
  have lR: "l \<in> R" "nxt (flinks s) l \<in> R"
    using walk_ring [OF l r] r by (auto simp: ring_def)
  define s5 where "s5 = s4\<lparr>flinks := add_list l (nxt (flinks s) l) (LNode b) (flinks s)\<rparr>"
  define R' where "R' = insert (LNode b) R"
  have r5: "ring A (flinks s5) R'" and bR: "LNode b \<in> R'"
    using ring_add [OF r lR bA(1) b] by (simp_all add: s5_def R'_def)
  have i5: "inside A s s5"
    using inside_links(2) [OF r lR bA(1)] A bA(1)
    by (auto simp: inside_def s5_def s4_def s1_def I_def)
  note prev = merge_prev_mask [OF r5 bR H]
  note nxt = merge_next_mask [OF prev(4) prev(3) H]
  have "best_fit_free_pages b n s = ret (merge_next (fst (merge_prev b s5)) (snd (merge_prev b s5)))"
    using n l fl4 by (simp add: best_fit_free_pages_def loop Let_def s5_def s4_def case_prod_unfold)
  moreover have "best_fit_free_pages b n (masked H s) =
      ret (merge_next (fst (merge_prev b (masked H s5))) (snd (merge_prev b (masked H s5))))"
    using n l bA(2) fl4 by (simp add: best_fit_free_pages_def mloop Let_def s5_def s4_def masked_upd case_prod_unfold)
  ultimately show ?thesis
    using run inside_trans [OF i5 inside_trans [OF prev(2) nxt(2)]] by (simp add: prev(1) nxt(1))
qed

section \<open>The allocator on a part of memory\<close>

text \<open>The list represents \<open>bs\<close>, all of it in \<open>A\<close>, when the heads \<open>H\<close> outside \<open>A\<close> are hidden.\<close>

definition in_area :: "nat set \<Rightarrow> nat set \<Rightarrow> 'z sched_scheme \<Rightarrow> block list \<Rightarrow> bool" where
  "in_area H A s bs \<longleftrightarrow> bf_abs (masked H s) bs \<and> H \<inter> A = {} \<and> free_set bs \<subseteq> A \<and>
     (\<forall>i\<in>A. page_usable s i) \<and> \<not> swap_init_flag s"

lemma in_area_ring:
  assumes "in_area H A s bs"
  shows "ring A (flinks s) (set (free_head # head_links bs))" "blocks_in_range bs" "apart bs" "coalesced bs"
    "fst ` set bs \<subseteq> A"
proof -
  have rep: "dlist (flinks s) free_head (head_links bs)" "blocks_in_range bs" "apart bs" "coalesced bs" "free_set bs \<subseteq> A"
    using assms by (auto simp: in_area_def bf_abs_def bf_rep_def)
  then show heads: "fst ` set bs \<subseteq> A" "blocks_in_range bs" "apart bs" "coalesced bs"
    using head_in_free_set [OF rep(2)] by blast+
  show "ring A (flinks s) (set (free_head # head_links bs))"
    by (rule ring_dlist [OF rep(1) heads(1)])
qed

lemma area_best_fit_alloc:
  assumes ar: "in_area H A s bs" and n: "0 < n"
  shows "\<exists>s'. best_fit_alloc_pages n s = ret (fst (spec_alloc (unat n) bs), s') \<and>
    in_area H A s' (snd (spec_alloc (unat n) bs)) \<and> inside A s s' \<and>
    (fst (spec_alloc (unat n) bs) = None \<longrightarrow> s' = s) \<and> pmm.more s' = pmm.more s \<and>
    (\<forall>i. page_ref (pages s' i) = page_ref (pages s i))"
proof -
  let ?r = "spec_alloc (unat n) bs"
  have abs: "bf_abs (masked H s) bs"
    using ar by (simp add: in_area_def)
  note R = in_area_ring [OF ar]
  have "\<exists>t. best_fit_alloc_pages n (masked H s) = ret (fst ?r, t) \<and> bf_abs t (snd ?r) \<and>
      (\<forall>b. fst ?r = Some b \<longrightarrow> t = best_fit_take b n (masked H s))"
    by (rule bf_alloc [OF abs n], intro exI conjI allI impI, assumption+)
  then obtain t where t: "best_fit_alloc_pages n (masked H s) = ret (fst ?r, t)" "bf_abs t (snd ?r)"
      "\<forall>b. fst ?r = Some b \<longrightarrow> t = best_fit_take b n (masked H s)"
    by blast
  have scan: "best_fit_scan s n free_head None 0xFFFFFFFF = Some (map_option fst (pick (unat n) bs None))"
    "best_fit_scan (masked H s) n free_head None 0xFFFFFFFF = Some (map_option fst (pick (unat n) bs None))"
  proof -
    have "bf_rep (masked H s) bs"
      using abs by (simp add: bf_abs_def)
    then show "best_fit_scan (masked H s) n free_head None 0xFFFFFFFF = Some (map_option fst (pick (unat n) bs None))"
      by (rule bf_scan)
    have "\<forall>x\<in>set bs. unat (page_property (pages s (fst x))) = snd x \<and> snd x < 2 ^ 32 - 1"
      using \<open>bf_rep (masked H s) bs\<close> by (fastforce simp: bf_rep_def dest: blocks_in_rangeD)
    moreover have "lseg (flinks s) free_head (head_links bs) free_head"
      using \<open>bf_rep (masked H s) bs\<close> by (simp add: bf_rep_def dlist_def)
    ultimately show "best_fit_scan s n free_head None 0xFFFFFFFF = Some (map_option fst (pick (unat n) bs None))"
      using scan_lseg [of s free_head bs "0xFFFFFFFF" None n] by simp
  qed
  show ?thesis
  proof (cases "fst ?r")
    case None
    then have "best_fit_alloc_pages n s = ret (None, s)"
      using t(1) n scan by (simp add: best_fit_alloc_pages_def split: if_splits option.splits)
    then show ?thesis
      using None ar by (auto simp: spec_alloc_def split: option.splits)
  next
    case (Some b)
    then obtain x where x: "pick (unat n) bs None = Some x" "fst x = b" "snd ?r = take_block b (unat n) bs"
      by (auto simp: spec_alloc_def split: option.splits)
    then have xs: "x \<in> set bs" "unat n \<le> snd x"
      using pick_sound [of "unat n" bs None x] by auto
    have n0: "0 < unat n"
      using n by (simp add: word_less_nat_alt)
    have psize: "unat (page_property (pages s b)) = snd x"
      using abs xs(1) x(2) by (auto simp: bf_abs_def bf_rep_def)
    have blk: "{b..<b + snd x} \<subseteq> A"
      using free_set_member [OF R(2) xs(1)] ar x(2) by (auto simp: in_area_def)
    moreover have "0 < snd x"
      using blocks_in_rangeD [OF R(2) xs(1)] by simp
    ultimately have bA: "b \<in> A"
      by (meson atLeastLessThan_iff le_refl less_add_same_cancel1 subsetD)
    have tail: "b + unat n \<in> A" if "n < ucast (page_property (pages s b))"
    proof -
      have "unat n < snd x"
        using that psize by (simp add: word_less_nat_alt)
      then show ?thesis
        using blk by (meson atLeastLessThan_iff le_add1 nat_add_left_cancel_less subsetD)
    qed
    have H: "H \<inter> A = {}"
      using ar by (simp add: in_area_def)
    have run: "best_fit_alloc_pages n s = ret (Some b, best_fit_take b n s)"
      using t(1) n scan Some x(1,2) by (simp add: best_fit_alloc_pages_def split: if_splits)
    have "best_fit_take b n (masked H s) = masked H (best_fit_take b n s)"
      using bA tail H by (intro take_mask) auto
    then have "bf_abs (masked H (best_fit_take b n s)) (snd ?r)"
      using t(2,3) Some by simp
    moreover have "inside A s (best_fit_take b n s)"
    proof (rule take_inside [OF R(1) _ bA])
      show "LNode b \<in> set (free_head # head_links bs)"
        using xs(1) x(2) by auto
      show "b + unat n \<in> A" if "n < ucast (page_property (pages s b))"
        using that by (rule tail)
    qed
    moreover have "free_set (snd ?r) \<subseteq> A"
      using free_set_take_block(1) [OF R(3,2), of b "snd x" "unat n"] xs x n0 ar
      by (auto simp: in_area_def)
    moreover have "page_usable (best_fit_take b n s) i = page_usable s i" for i
      by (auto simp: page_usable_def best_fit_take_def Let_def page_flag_bits)
    moreover have "swap_init_flag (best_fit_take b n s) = swap_init_flag s"
      using take_more [of b n s] by (cases s, cases "best_fit_take b n s") simp
    ultimately show ?thesis
      using run Some ar take_more [of b n s] take_ref [of b n s] by (simp add: in_area_def)
  qed
qed

lemma intr_same:
  assumes "local_intr_save s = (flag, s1)"
  shows "pages s1 = pages s" "flinks s1 = flinks s" "num_free s1 = num_free s" "swap_init_flag s1 = swap_init_flag s"
  using assms by (auto simp: local_intr_save_def intr_disable_def split: if_splits)

lemma restore_same:
  "pages (local_intr_restore flag s) = pages s" "flinks (local_intr_restore flag s) = flinks s"
  "num_free (local_intr_restore flag s) = num_free s" "swap_init_flag (local_intr_restore flag s) = swap_init_flag s"
  by (simp_all add: local_intr_restore_def intr_enable_def)

lemma in_area_cong:
  assumes "pages s1 = pages s" "flinks s1 = flinks s" "num_free s1 = num_free s" "swap_init_flag s1 = swap_init_flag s"
  shows "in_area H A s1 bs = in_area H A s bs"
proof -
  have "same_free (masked H s) (masked H s1)"
    using assms by (simp add: same_free_def masked_def)
  then have "bf_abs (masked H s1) bs = bf_abs (masked H s) bs"
    by (rule same_free_inv)
  then show ?thesis
    using assms by (simp add: in_area_def page_usable_def)
qed

lemma area_best_fit_free:
  assumes ar: "in_area H A s bs" and n: "0 < n" and b: "{b..<b + unat n} \<subseteq> A" "{b..<b + unat n} \<inter> free_set bs = {}"
  shows "\<exists>s'. best_fit_free_pages b n s = ret s' \<and> in_area H A s' (spec_free b (unat n) bs) \<and> inside A s s' \<and>
    pmm.more s' = pmm.more s"
proof -
  note R = in_area_ring [OF ar]
  have abs: "bf_abs (masked H s) bs" and H: "H \<inter> A = {}" and us: "\<forall>i\<in>A. page_usable s i"
    using ar by (auto simp: in_area_def)
  have n0: "0 < unat n"
    using n by (simp add: word_less_nat_alt)
  then have ends: "b \<in> {b..<b + unat n}" "b + unat n - 1 \<in> {b..<b + unat n}"
    by auto
  have bound: "min_page \<le> b" "b + unat n \<le> max_page"
    using us subsetD [OF b(1) ends(1)] subsetD [OF b(1) ends(2)] n0 by (auto simp: page_usable_def)
  have unres: "\<forall>i\<in>{b..<b + unat n}. page_flags (pages (masked H s) i) AND PAGE_RESERVED = 0"
  proof
    fix i assume "i \<in> {b..<b + unat n}"
    then have "i \<in> A" "i \<notin> H"
      using b(1) H by blast+
    then show "page_flags (pages (masked H s) i) AND PAGE_RESERVED = 0"
      using us by (simp add: page_usable_def)
  qed
  obtain t where t: "best_fit_free_pages b n (masked H s) = ret t" "bf_abs t (spec_free b (unat n) bs)"
    by (rule bf_free [OF abs n bound b(2) unres])
  have clear: "\<forall>i\<in>{b..<b + unat n}. page_flags (pages s i) AND (PAGE_RESERVED OR PAGE_PROPERTY) = 0"
  proof
    fix i assume i: "i \<in> {b..<b + unat n}"
    then have iA: "i \<in> A" "i \<notin> H" "i \<notin> fst ` set bs"
      using b H head_in_free_set [OF R(2)] by blast+
    then have "page_flags (pages s i) AND PAGE_PROPERTY = 0" "page_flags (pages s i) AND PAGE_RESERVED = 0"
      using abs us by (auto simp: bf_abs_def bf_rep_def page_usable_def)
    then show "page_flags (pages s i) AND (PAGE_RESERVED OR PAGE_PROPERTY) = 0"
      by (simp add: page_flag_bits)
  qed
  have "b \<notin> fst ` set bs"
    using ends(1) b(2) head_in_free_set [OF R(2), of b] by blast
  then have nb: "LNode b \<notin> set (free_head # head_links bs)"
    by auto
  obtain s' where s': "best_fit_free_pages b n s = ret s'" "t = masked H s'" "inside A s s'"
    using free_mask [OF R(1) nb b(1) H n clear t(1)] by blast
  have more: "pmm.more s' = pmm.more s"
    by (rule free_frame(1) [OF s'(1)])
  then have "swap_init_flag s' = swap_init_flag s"
    by (cases s, cases s') simp
  moreover have "free_set (spec_free b (unat n) bs) \<subseteq> A"
    using free_set_spec_free [OF R(3,2) b(2) n0] b(1) ar by (auto simp: in_area_def)
  moreover have "page_usable s' = page_usable s"
    using page_usable_free [OF s'(1)] by (simp add: fun_eq_iff)
  ultimately show ?thesis
    using s' t(2) H us ar more by (simp add: in_area_def)
qed

lemma area_alloc:
  assumes ar: "in_area H A s bs" and n: "0 < n"
  shows "\<exists>s'. alloc_pages n s = ret (fst (spec_alloc (unat n) bs), s') \<and>
    in_area H A s' (snd (spec_alloc (unat n) bs)) \<and> inside A s s' \<and> (fst (spec_alloc (unat n) bs) = None \<longrightarrow> s' = s) \<and>
    (\<forall>i. page_ref (pages s' i) = page_ref (pages s i))"
proof -
  obtain flag s1 where s1: "local_intr_save s = (flag, s1)"
    by fastforce
  note same = intr_same [OF s1]
  have "in_area H A s1 bs"
    using ar in_area_cong [OF same] by simp
  then obtain s2 where s2: "best_fit_alloc_pages n s1 = ret (fst (spec_alloc (unat n) bs), s2)"
      "in_area H A s2 (snd (spec_alloc (unat n) bs))" "inside A s1 s2" "fst (spec_alloc (unat n) bs) = None \<longrightarrow> s2 = s1"
      "\<forall>i. page_ref (pages s2 i) = page_ref (pages s1 i)"
    using area_best_fit_alloc [OF _ n] by blast
  let ?s = "local_intr_restore flag s2"
  have "\<not> swap_init_flag ?s"
    using s2(2) by (simp add: in_area_def restore_same)
  then have "alloc_pages n s = ret (fst (spec_alloc (unat n) bs), ?s)"
    by (subst alloc_pages.simps) (simp add: s1 s2(1))
  moreover have "in_area H A ?s (snd (spec_alloc (unat n) bs))"
    using s2(2) in_area_cong [of ?s s2] by (simp add: restore_same)
  moreover have "inside A s ?s"
    using s2(3) by (simp add: inside_def restore_same same)
  ultimately show ?thesis
    using s2(4,5) local_intr_noop [OF s1] by (auto simp: restore_same same)
qed

lemma area_free:
  assumes ar: "in_area H A s bs" and n: "0 < n" and b: "{b..<b + unat n} \<subseteq> A" "{b..<b + unat n} \<inter> free_set bs = {}"
  shows "\<exists>s'. free_pages b n s = ret s' \<and> in_area H A s' (spec_free b (unat n) bs) \<and> inside A s s'"
proof -
  obtain flag s1 where s1: "local_intr_save s = (flag, s1)"
    by fastforce
  note same = intr_same [OF s1]
  have "in_area H A s1 bs"
    using ar in_area_cong [OF same] by simp
  then obtain s2 where s2: "best_fit_free_pages b n s1 = ret s2" "in_area H A s2 (spec_free b (unat n) bs)" "inside A s1 s2"
    using area_best_fit_free [OF _ n b] by blast
  let ?s = "local_intr_restore flag s2"
  have "in_area H A ?s (spec_free b (unat n) bs)"
    using s2(2) in_area_cong [of ?s s2] by (simp add: restore_same)
  moreover have "inside A s ?s"
    using s2(3) by (simp add: inside_def restore_same same)
  ultimately show ?thesis
    using s2(1) by (simp add: free_pages_def s1)
qed

lemma area_must_alloc:
  assumes "in_area H A s bs" "0 < n" "spec_alloc (unat n) bs = (Some b, bs')"
  shows "\<exists>s'. must_alloc n s = ret (b, s') \<and> in_area H A s' bs' \<and> inside A s s' \<and>
    (\<forall>i. page_ref (pages s' i) = page_ref (pages s i))"
proof -
  obtain s' where "alloc_pages n s = ret (Some b, s')" "in_area H A s' bs'" "inside A s s'"
      "\<forall>i. page_ref (pages s' i) = page_ref (pages s i)"
    using area_alloc [OF assms(1,2)] assms(3) by auto
  then show ?thesis
    by (simp add: must_alloc_def)
qed

lemma area_must_fail:
  assumes "in_area H A s bs" "0 < n" "fst (spec_alloc (unat n) bs) = None"
  shows "must_fail n s = ret s"
  using area_alloc [OF assms(1,2)] assms(3) by (auto simp: must_fail_def)

text \<open>Emptying the list and putting it back.\<close>

lemma in_area_whole: "bf_abs s bs \<Longrightarrow> \<not> swap_init_flag s \<Longrightarrow> in_area {} (free_set bs) s bs"
  using bf_inv_free_usable [of s] by (simp add: in_area_def bf_invI free_pages_of_def blocks_of_abs)

lemma in_area_empty:
  assumes abs: "bf_abs s bs" and A: "A \<inter> free_set bs = {}" "\<forall>i\<in>A. page_usable s i" and sw: "\<not> swap_init_flag s"
  shows "in_area (fst ` set bs) A (s\<lparr>flinks := init_list free_head (flinks s), num_free := 0\<rparr>) []"
proof -
  let ?s = "s\<lparr>flinks := init_list free_head (flinks s), num_free := 0\<rparr>"
  have rep: "blocks_in_range bs" "\<forall>i\<in>{min_page..<max_page}. page_flags (pages s i) AND PAGE_PROPERTY \<noteq> 0 \<longleftrightarrow> i \<in> fst ` set bs"
    using abs unfolding bf_abs_def bf_rep_def by blast+
  have "page_flags (pages (masked (fst ` set bs) ?s) i) AND PAGE_PROPERTY = 0" if "i \<in> {min_page..<max_page}" for i
    using bspec [OF rep(2) that] by (cases "i \<in> fst ` set bs") (simp_all add: masked_def)
  then have "bf_abs (masked (fst ` set bs) ?s) []"
    by (simp add: bf_abs_def bf_rep_def dlist_init)
  moreover have "fst ` set bs \<inter> A = {}"
    using head_in_free_set [OF rep(1)] A(1) by blast
  ultimately show ?thesis
    using A(2) sw by (simp add: in_area_def page_usable_def)
qed

lemma restore_area_abs:
  assumes abs: "bf_abs s bs" and A: "A \<inter> free_set bs = {}" "\<forall>i\<in>A. page_usable s i"
    and ar: "in_area (fst ` set bs) A s' []" and ins: "inside A s s'"
  shows "bf_abs (restore_free_area (save_free_area s) s') bs"
proof -
  let ?r = "restore_free_area (save_free_area s) s'"
  have rep: "blocks_in_range bs" "apart bs" "coalesced bs" "dlist (flinks s) free_head (head_links bs)"
      "\<forall>x\<in>set bs. unat (page_property (pages s (fst x))) = snd x"
      "\<forall>i\<in>{min_page..<max_page}. page_flags (pages s i) AND PAGE_PROPERTY \<noteq> 0 \<longleftrightarrow> i \<in> fst ` set bs"
      "\<forall>i\<in>free_set bs. page_flags (pages s i) AND PAGE_RESERVED = 0" "unat (num_free s) = sum_list (map snd bs)"
    using abs unfolding bf_abs_def bf_rep_def by blast+
  have out: "i \<notin> A" if "i \<in> free_set bs" for i
    using that A(1) by blast
  have heads: "i \<notin> A" if "i \<in> fst ` set bs" for i
    using out head_in_free_set [OF rep(1) that] by blast
  have pg: "pages ?r i = pages s i" if "i \<notin> A" for i
    using ins that by (simp add: inside_def restore_free_area_def)
  have links: "nxt (flinks ?r) x = nxt (flinks s) x" "prv (flinks ?r) x = prv (flinks s) x"
    if "x \<in> set (free_head # head_links bs)" for x
  proof -
    have "x = free_head \<or> (\<exists>i\<in>fst ` set bs. x = LNode i)"
      using that by auto
    then have "nxt (flinks ?r) x = nxt (flinks s) x \<and> prv (flinks ?r) x = prv (flinks s) x"
    proof
      assume "x = free_head"
      then show ?thesis
        by (simp add: restore_free_area_def save_free_area_def)
    next
      assume "\<exists>i\<in>fst ` set bs. x = LNode i"
      then show ?thesis
        using ins heads by (auto simp: inside_def restore_free_area_def)
    qed
    then show "nxt (flinks ?r) x = nxt (flinks s) x" "prv (flinks ?r) x = prv (flinks s) x"
      by simp_all
  qed
  have "dlist (flinks ?r) free_head (head_links bs)"
    using rep(4) dlist_cong [of free_head "head_links bs" "flinks ?r" "flinks s", OF links] by simp
  moreover have "\<forall>x\<in>set bs. unat (page_property (pages ?r (fst x))) = snd x"
    using rep(5) pg heads by simp
  moreover have "page_flags (pages ?r i) AND PAGE_PROPERTY \<noteq> 0 \<longleftrightarrow> i \<in> fst ` set bs"
    if i: "i \<in> {min_page..<max_page}" for i
  proof (cases "i \<in> A")
    case True
    then have H: "i \<notin> fst ` set bs"
      using heads by blast
    have "bf_abs (masked (fst ` set bs) s') []"
      using ar by (simp add: in_area_def)
    then have "page_flags (pages (masked (fst ` set bs) s') i) AND PAGE_PROPERTY = 0"
      using i by (simp add: bf_abs_def bf_rep_def)
    then show ?thesis
      using H by (simp add: masked_def restore_free_area_def)
  next
    case False
    then show ?thesis
      using rep(6) i pg by simp
  qed
  moreover have "\<forall>i\<in>free_set bs. page_flags (pages ?r i) AND PAGE_RESERVED = 0"
    using rep(7) pg out by simp
  moreover have "num_free ?r = num_free s"
    by (simp add: restore_free_area_def save_free_area_def)
  ultimately show ?thesis
    using rep(1,2,3,8) by (simp add: bf_abs_def bf_rep_def)
qed

text \<open>A coalesced list is determined by its pages.\<close>

lemma coalesced_unique:
  "coalesced bs \<Longrightarrow> coalesced bs' \<Longrightarrow> blocks_in_range bs \<Longrightarrow> blocks_in_range bs' \<Longrightarrow> free_set bs = free_set bs' \<Longrightarrow> bs = bs'"
proof (induction bs arbitrary: bs')
  case Nil
  then show ?case
    by (cases bs') auto
next
  case (Cons x bs)
  obtain a l where x: "x = (a, l)" by fastforce
  obtain a' l' cs where bs': "bs' = (a', l') # cs"
    using Cons.prems x by (cases bs') auto
  have l: "0 < l" "0 < l'"
    using Cons.prems x bs' by auto
  have above: "a + l < i" if "i \<in> free_set bs" for i
    using Cons.prems(1) that free_set_above [of bs "Suc (a + l)" i] by (auto simp: x Suc_le_eq)
  have above': "a' + l' < i" if "i \<in> free_set cs" for i
    using Cons.prems(2) that free_set_above [of cs "Suc (a' + l')" i] by (auto simp: bs' Suc_le_eq)
  have eq: "i \<in> {a..<a + l} \<or> i \<in> free_set bs \<longleftrightarrow> i \<in> {a'..<a' + l'} \<or> i \<in> free_set cs" for i
    using Cons.prems(5) by (simp add: x bs' set_eq_iff)
  have "a' \<le> a"
    using eq [of a] l above' [of a] by fastforce
  moreover have "a \<le> a'"
    using eq [of a'] l above [of a'] by fastforce
  ultimately have a: "a' = a"
    by simp
  have "\<not> l < l'"
    using eq [of "a + l"] above [of "a + l"] a by auto
  moreover have "\<not> l' < l"
    using eq [of "a' + l'"] above' [of "a' + l'"] a by auto
  ultimately have ll: "l' = l"
    by simp
  have "free_set bs = free_set cs"
  proof (rule set_eqI)
    fix i
    show "i \<in> free_set bs \<longleftrightarrow> i \<in> free_set cs"
      using eq [of i] above [of i] above' [of i] a ll by (cases "i < a + l") auto
  qed
  then show ?case
    using Cons.IH [of cs] Cons.prems by (simp add: x bs' a ll)
qed

text \<open>One page at a time, in terms of the set of free pages.\<close>

lemma area_facts:
  assumes "in_area H A s bs"
  shows "unat (num_free s) = card (free_set bs)" "list_empty (flinks s) free_head \<longleftrightarrow> free_set bs = {}" "bs = [] \<longleftrightarrow> free_set bs = {}"
proof -
  note R = in_area_ring [OF assms]
  have rep: "dlist (flinks s) free_head (head_links bs)" "unat (num_free s) = sum_list (map snd bs)"
    using assms by (auto simp: in_area_def bf_abs_def bf_rep_def)
  show "unat (num_free s) = card (free_set bs)"
    using rep(2) card_free_set [OF R(3)] by simp
  show "bs = [] \<longleftrightarrow> free_set bs = {}"
    using R(2) by (cases bs) auto
  then show "list_empty (flinks s) free_head \<longleftrightarrow> free_set bs = {}"
    using dlist_list_empty [OF rep(1)] by simp
qed

lemma area_take1:
  assumes ar: "in_area H A s bs" and ne: "free_set bs \<noteq> {}"
  shows "\<exists>p bs' s'. must_alloc 1 s = ret (p, s') \<and> in_area H A s' bs' \<and> inside A s s' \<and>
    (\<forall>i. page_ref (pages s' i) = page_ref (pages s i)) \<and> p \<in> free_set bs \<and> free_set bs' = free_set bs - {p} \<and>
    (\<exists>l. (p, l) \<in> set bs \<and> bs' = take_block p 1 bs)"
proof -
  note R = in_area_ring [OF ar]
  have "bs \<noteq> []"
    using ne by auto
  then have "pick 1 bs None \<noteq> None"
    using pick_none [of 1 bs None] R(2) by (metis blocks_in_rangeD last_in_set less_one not_gr_zero)
  then obtain x where x: "pick 1 bs None = Some x" "x \<in> set bs"
    using pick_sound by fastforce
  have sp: "spec_alloc (unat (1 :: u64)) bs = (Some (fst x), take_block (fst x) 1 bs)"
    using x(1) by (simp add: spec_alloc_def)
  obtain s' where s': "must_alloc 1 s = ret (fst x, s')" "in_area H A s' (take_block (fst x) 1 bs)" "inside A s s'"
      "\<forall>i. page_ref (pages s' i) = page_ref (pages s i)"
    using area_must_alloc [OF ar _ sp] by auto
  have l: "0 < snd x"
    using blocks_in_rangeD [OF R(2) x(2)] by simp
  have "free_set (take_block (fst x) 1 bs) = free_set bs - {fst x}" "fst x \<in> free_set bs"
    using free_set_take_block [OF R(3,2), of "fst x" "snd x" 1] x(2) l by auto
  then show ?thesis
    using s' x(2) by (metis prod.collapse)
qed

lemma area_none1: "in_area H A s bs \<Longrightarrow> free_set bs = {} \<Longrightarrow> must_fail 1 s = ret s"
  using area_must_fail [of H A s bs 1] area_facts(3) [of H A s bs] by (simp add: spec_alloc_def)

lemma area_put1:
  assumes "in_area H A s bs" "p \<in> A" "p \<notin> free_set bs"
  shows "\<exists>bs' s'. free_page p s = ret s' \<and> in_area H A s' bs' \<and> inside A s s' \<and> free_set bs' = insert p (free_set bs)"
proof -
  note R = in_area_ring [OF assms(1)]
  have one: "{p..<p + unat (1 :: u64)} = {p}"
    by auto
  have "free_set (spec_free p (unat (1 :: u64)) bs) = insert p (free_set bs)"
    using free_set_spec_free [OF R(3,2), of p "unat (1 :: u64)"] assms(3) unfolding one by simp
  then show ?thesis
    using area_free [OF assms(1), of 1 p] assms(2,3) unfolding one free_page_def by auto
qed

section \<open>The test passes\<close>

lemma basic_test_empty_ok:
  fixes s :: "'z sched_scheme"
  assumes ar: "in_area H A (s\<lparr>flinks := init_list free_head (flinks s), num_free := 0\<rparr>) []"
    and A: "A = {p1, p2, p3}" and d: "distinct [p1, p2, p3]"
  shows "\<exists>q1 q2 q3 s'. basic_test_empty p1 p2 p3 s = ret ((q1, q2, q3), s') \<and> in_area H A s' [] \<and> inside A s s' \<and>
    {q1, q2, q3} = A \<and> distinct [q1, q2, q3]"
proof -
  let ?s = "s\<lparr>flinks := init_list free_head (flinks s), num_free := 0\<rparr>"
  have i0: "inside A s ?s"
    by (simp add: inside_def init_list_def)
  have fail: "must_fail 1 ?s = ret ?s"
    by (rule area_none1 [OF ar]) simp
  obtain b3 s3 where s3: "free_page p1 ?s = ret s3" "in_area H A s3 b3" "inside A ?s s3" "free_set b3 = {p1}"
    using area_put1 [OF ar, of p1] A by auto
  obtain b4 s4 where s4: "free_page p2 s3 = ret s4" "in_area H A s4 b4" "inside A s3 s4" "free_set b4 = {p2, p1}"
    using area_put1 [OF s3(2), of p2] A d s3(4) by auto
  obtain b5 s5 where s5: "free_page p3 s4 = ret s5" "in_area H A s5 b5" "inside A s4 s5" "free_set b5 = {p3, p2, p1}"
    using area_put1 [OF s4(2), of p3] A d s4(4) by auto
  have "unat (num_free s5) = 3"
    using area_facts(1) [OF s5(2)] s5(4) d by simp
  then have three: "num_free s5 = 3"
    by (simp add: word_unat_eq_iff)
  obtain q1 b6 s6 where s6: "must_alloc 1 s5 = ret (q1, s6)" "in_area H A s6 b6" "inside A s5 s6" "q1 \<in> A" "free_set b6 = A - {q1}"
    using area_take1 [OF s5(2)] s5(4) A by (auto simp: insert_commute)
  have "A - {q1} \<noteq> {}"
    using A d by auto
  then obtain q2 b7 s7 where s7: "must_alloc 1 s6 = ret (q2, s7)" "in_area H A s7 b7" "inside A s6 s7" "q2 \<in> A - {q1}"
      "free_set b7 = A - {q1} - {q2}"
    using area_take1 [OF s6(2)] s6(5) by auto
  have "A - {q1} - {q2} \<noteq> {}"
    using A d by auto
  then obtain q3 b8 s8 where s8: "must_alloc 1 s7 = ret (q3, s8)" "in_area H A s8 b8" "inside A s7 s8" "q3 \<in> A - {q1} - {q2}"
      "free_set b8 = A - {q1} - {q2} - {q3}"
    using area_take1 [OF s7(2)] s7(5) by auto
  have qs: "distinct [q1, q2, q3]" "{q1, q2, q3} = A"
    using s6(4) s7(4) s8(4) d by (auto simp: A)
  then have none: "free_set b8 = {}"
    using s8(5) by auto
  have fail8: "must_fail 1 s8 = ret s8"
    by (rule area_none1 [OF s8(2) none])
  obtain b10 s10 where s10: "free_page q1 s8 = ret s10" "in_area H A s10 b10" "inside A s8 s10" "free_set b10 = {q1}"
    using area_put1 [OF s8(2), of q1] s6(4) none by auto
  have ne: "\<not> list_empty (flinks s10) free_head"
    using area_facts(2) [OF s10(2)] s10(4) by simp
  obtain b11 s11 where s11: "must_alloc 1 s10 = ret (q1, s11)" "in_area H A s11 b11" "inside A s10 s11" "free_set b11 = {}"
    using area_take1 [OF s10(2)] s10(4) by auto
  have b11: "b11 = []"
    using area_facts(3) [OF s11(2)] s11(4) by simp
  have "unat (num_free s11) = 0"
    using area_facts(1) [OF s11(2)] s11(4) by simp
  then have zero: "num_free s11 = 0"
    by (simp add: word_unat_eq_iff)
  have fail11: "must_fail 1 s11 = ret s11"
    by (rule area_none1 [OF s11(2,4)])
  have "list_empty (init_list free_head (flinks s)) free_head"
    by (simp add: list_empty_def init_list_def)
  then have "basic_test_empty p1 p2 p3 s = ret ((q1, q2, q3), s11)"
    by (simp add: basic_test_empty_def fail s3(1) s4(1) s5(1) three s6(1) s7(1) s8(1) fail8 s10(1) ne s11(1) fail11 zero)
  moreover have "inside A s s11"
    using i0 s3(3) s4(3) s5(3) s6(3) s7(3) s8(3) s10(3) s11(3) by (meson inside_trans)
  ultimately show ?thesis
    using s11(2) b11 qs by blast
qed

lemma page2pa_low:
  assumes "0x82000 \<le> p" "p < 0x88000"
  shows "\<exists>a. page2pa p = ret a \<and> a < DRAM_END_PA"
proof -
  have u: "unat (of_nat p :: u64) = p"
    using assms by (intro unat_of_nat_u64) simp
  then have "ppn_managed (of_nat p)"
    using assms by (simp add: ppn_managed_def word_le_nat_alt word_less_nat_alt)
  moreover have "unat (push_bit 12 (of_nat p :: u64)) = p * 4096"
    using assms by (intro push_page) simp
  then have "push_bit 12 (of_nat p :: u64) < DRAM_END_PA"
    using assms by (simp add: word_less_nat_alt DRAM_END_PA_def)
  ultimately show ?thesis
    by (simp add: page2pa_def page2ppn_def PAGE_SHIFT_def)
qed

lemma in_area_abs: "in_area {} A s bs \<Longrightarrow> bf_abs s bs"
  by (simp add: in_area_def)

lemma in_area_restore:
  fixes s s' :: "'z sched_scheme"
  assumes ar: "in_area {} A s bs" and B: "B \<inter> free_set bs = {}" "A = B \<union> free_set bs"
    and e: "in_area (fst ` set bs) B s' []" and ins: "inside B s s'"
  shows "in_area {} A (restore_free_area (save_free_area s) s') bs"
proof -
  let ?r = "restore_free_area (save_free_area s) s'"
  have abs: "bf_abs s bs" and us: "\<forall>i\<in>A. page_usable s i"
    using ar by (simp_all add: in_area_def)
  have "\<forall>i\<in>B. page_usable s i"
    using us B(2) by blast
  then have "bf_abs ?r bs"
    by (rule restore_area_abs [OF abs B(1) _ e ins])
  moreover have "page_usable ?r i" if i: "i \<in> A" for i
  proof (cases "i \<in> B")
    case True
    then show ?thesis
      using e by (simp add: in_area_def page_usable_def restore_free_area_def)
  next
    case False
    then show ?thesis
      using bspec [OF us i] ins by (simp add: inside_def page_usable_def restore_free_area_def)
  qed
  moreover have "swap_init_flag ?r = swap_init_flag s'"
    by (simp add: restore_free_area_def)
  ultimately show ?thesis
    using e B(2) by (simp add: in_area_def)
qed

lemma basic_test_ok:
  fixes s :: "'z sched_scheme"
  assumes ar: "in_area {} A s bs" and A: "A = free_set bs" and size: "3 \<le> card (free_set bs)"
    and low: "\<forall>x\<in>set bs. fst x + 3 \<le> 0x88000" and refs: "\<forall>i\<in>A. page_ref (pages s i) = 0"
  shows "\<exists>s'. basic_test s = ret s' \<and> in_area {} A s' bs"
proof -
  have fin: "finite A"
    by (simp add: A)
  have low0: "\<forall>x\<in>set bs. fst x + Suc 2 \<le> 0x88000"
    using low by simp
  have high: "0x82000 \<le> p" if "(p, l) \<in> set bs'" "in_area {} A s' bs'" for p l bs' and s' :: "'z sched_scheme"
    using blocks_in_rangeD [OF in_area_ring(2) [OF that(2)] that(1)] by simp
  have "free_set bs \<noteq> {}"
    using size by auto
  then obtain p1 b1 s1 l1 where s1: "must_alloc 1 s = ret (p1, s1)" "in_area {} A s1 b1" "inside A s s1"
      "\<forall>i. page_ref (pages s1 i) = page_ref (pages s i)" "p1 \<in> A" "free_set b1 = A - {p1}" "(p1, l1) \<in> set bs" "b1 = take_block p1 1 bs"
    using area_take1 [OF ar] A by auto
  have low1: "\<forall>x\<in>set b1. fst x + Suc 1 \<le> 0x88000"
    using low_take_block [OF low0] s1(8) by simp
  have c1: "card (A - {p1}) \<ge> 2"
    using size s1(5) fin A by (simp add: card_Diff_singleton)
  then have "free_set b1 \<noteq> {}"
    using s1(6) by (metis card.empty not_numeral_le_zero)
  then obtain p2 b2 s2 l2 where s2: "must_alloc 1 s1 = ret (p2, s2)" "in_area {} A s2 b2" "inside A s1 s2"
      "\<forall>i. page_ref (pages s2 i) = page_ref (pages s1 i)" "p2 \<in> A - {p1}" "free_set b2 = A - {p1} - {p2}" "(p2, l2) \<in> set b1" "b2 = take_block p2 1 b1"
    using area_take1 [OF s1(2)] s1(6) by auto
  have low2: "\<forall>x\<in>set b2. fst x + 1 \<le> 0x88000"
    using low_take_block [OF low1] s2(8) by simp
  have "card (A - {p1} - {p2}) \<ge> 1"
    using c1 s2(5) fin by (simp add: card_Diff_singleton)
  then have "free_set b2 \<noteq> {}"
    using s2(6) by (metis card.empty not_one_le_zero)
  then obtain p3 b3 s3 l3 where s3: "must_alloc 1 s2 = ret (p3, s3)" "in_area {} A s3 b3" "inside A s2 s3"
      "\<forall>i. page_ref (pages s3 i) = page_ref (pages s2 i)" "p3 \<in> A - {p1} - {p2}" "free_set b3 = A - {p1} - {p2} - {p3}" "(p3, l3) \<in> set b2"
    using area_take1 [OF s2(2)] s2(6) by auto
  have dist: "p1 \<noteq> p2 \<and> p2 \<noteq> p3 \<and> p3 \<noteq> p1"
    using s2(5) s3(5) by blast
  have ref: "page_ref (pages s3 p1) = 0 \<and> page_ref (pages s3 p2) = 0 \<and> page_ref (pages s3 p3) = 0"
    using refs s1(4,5) s2(4,5) s3(4,5) by simp
  have "p1 < 0x88000" "p2 < 0x88000" "p3 < 0x88000"
    using bspec [OF low0 s1(7)] bspec [OF low1 s2(7)] bspec [OF low2 s3(7)] by simp_all
  then obtain a1 a2 a3 where pa: "page2pa p1 = ret a1" "a1 < DRAM_END_PA" "page2pa p2 = ret a2" "a2 < DRAM_END_PA"
      "page2pa p3 = ret a3" "a3 < DRAM_END_PA"
    using page2pa_low high [OF s1(7) ar] high [OF s2(7) s1(2)] high [OF s3(7) s2(2)] by blast
  define B where "B = {p1, p2, p3}"
  have BA: "B \<subseteq> A" "B \<inter> free_set b3 = {}" "A = B \<union> free_set b3"
    using s1(5) s2(5) s3(5,6) by (auto simp: B_def)
  have abs3: "bf_abs s3 b3" and us3: "\<forall>i\<in>A. page_usable s3 i" and sw3: "\<not> swap_init_flag s3"
    using s3(2) by (simp_all add: in_area_def)
  have usB: "\<forall>i\<in>B. page_usable s3 i"
    using us3 BA(1) by blast
  obtain q1 q2 q3 s4 where s4: "basic_test_empty p1 p2 p3 s3 = ret ((q1, q2, q3), s4)" "in_area (fst ` set b3) B s4 []"
      "inside B s3 s4" "{q1, q2, q3} = B" "distinct [q1, q2, q3]"
    using basic_test_empty_ok [OF in_area_empty [OF abs3 BA(2) usB sw3] B_def] dist by auto
  define r where "r = restore_free_area (save_free_area s3) s4"
  have r: "in_area {} A r b3"
    unfolding r_def by (rule in_area_restore [OF s3(2) BA(2,3) s4(2,3)])
  have q: "q1 \<in> B" "q2 \<in> B" "q3 \<in> B"
    using s4(4) by auto
  obtain b5 s5 where s5: "free_page q1 r = ret s5" "in_area {} A s5 b5" "free_set b5 = insert q1 (free_set b3)"
    using area_put1 [OF r, of q1] q BA by blast
  obtain b6 s6 where s6: "free_page q2 s5 = ret s6" "in_area {} A s6 b6" "free_set b6 = insert q2 (insert q1 (free_set b3))"
    using area_put1 [OF s5(2), of q2] q BA s4(5) s5(3) by auto
  have "q3 \<notin> free_set b6"
    using q BA(2) s4(5) s6(3) by auto
  then obtain b7 s7 where s7: "free_page q3 s6 = ret s7" "in_area {} A s7 b7" "free_set b7 = insert q3 (free_set b6)"
    using area_put1 [OF s6(2), of q3] q BA(1) by blast
  have "insert q3 (insert q2 (insert q1 (free_set b3))) = A"
    using BA(3) s4(4) by blast
  then have "b7 = bs"
    using coalesced_unique [OF in_area_ring(4) [OF s7(2)] in_area_ring(4) [OF ar] in_area_ring(2) [OF s7(2)] in_area_ring(2) [OF ar]]
      s7(3) s6(3) A by simp
  moreover have "basic_test s = ret s7"
    using s5(1) by (simp add: basic_test_def s1(1) s2(1) s3(1) dist ref pa s4(1) s6(1) s7(1) r_def)
  ultimately show ?thesis
    using s7(2) by blast
qed

lemma area_block:
  assumes ar: "in_area H A s bs" and i: "i \<in> A"
  shows "page_flags (pages s i) AND PAGE_PROPERTY \<noteq> 0 \<longleftrightarrow> i \<in> fst ` set bs"
    and "(i, l) \<in> set bs \<Longrightarrow> unat (page_property (pages s i)) = l"
proof -
  have iH: "i \<notin> H" and u: "page_usable s i" and abs: "bf_abs (masked H s) bs"
    using ar i by (auto simp: in_area_def)
  then have r: "i \<in> {min_page..<max_page}"
    by (simp add: page_usable_def)
  have "\<forall>i\<in>{min_page..<max_page}. page_flags (pages (masked H s) i) AND PAGE_PROPERTY \<noteq> 0 \<longleftrightarrow> i \<in> fst ` set bs"
    using abs unfolding bf_abs_def bf_rep_def by blast
  from bspec [OF this r] iH show "page_flags (pages s i) AND PAGE_PROPERTY \<noteq> 0 \<longleftrightarrow> i \<in> fst ` set bs"
    by simp
  show "unat (page_property (pages s i)) = l" if m: "(i, l) \<in> set bs"
  proof -
    have "\<forall>x\<in>set bs. unat (page_property (pages (masked H s) (fst x))) = snd x"
      using abs unfolding bf_abs_def bf_rep_def by blast
    from bspec [OF this m] show ?thesis by simp
  qed
qed

lemma must_fail_empty:
  assumes "nxt (flinks s) free_head = free_head" "\<not> swap_init_flag s" "0 < n"
  shows "must_fail n s = ret s"
proof -
  obtain flag s1 where s1: "local_intr_save s = (flag, s1)"
    by fastforce
  have "nxt (flinks s1) free_head = free_head"
    using assms(1) intr_same [OF s1] by simp
  then have "best_fit_alloc_pages n s1 = ret (None, s1)"
    using assms(3) best_fit_scan.simps [of s1 n free_head None "0xFFFFFFFF"] by (simp add: best_fit_alloc_pages_def)
  then have "alloc_pages n s = ret (None, s)"
    using assms(2) local_intr_noop [OF s1] by (subst alloc_pages.simps) (simp add: s1)
  then show ?thesis
    by (simp add: must_fail_def)
qed

lemma test_best_fit_empty_ok:
  fixes s :: "'z sched_scheme"
  assumes ar: "in_area H A (s\<lparr>flinks := init_list free_head (flinks s), num_free := 0\<rparr>) []"
    and A: "A = {p..<p + 5}"
  shows "\<exists>s'. test_best_fit_empty p s = ret (p, s') \<and> in_area H A s' [] \<and> inside A s s'"
proof -
  let ?s = "s\<lparr>flinks := init_list free_head (flinks s), num_free := 0\<rparr>"
  have i0: "inside A s ?s"
    by (simp add: inside_def init_list_def)
  have sub: "{p + 2..<p + 2 + unat (3 :: u64)} \<subseteq> A" "{p..<p + unat (1 :: u64)} \<subseteq> A" "{p + 2..<p + 2 + unat (2 :: u64)} \<subseteq> A"
    "{p + 1..<p + 1 + unat (1 :: u64)} \<subseteq> A"
    by (auto simp: A)
  have e0: "must_fail 1 (s\<lparr>flinks := init_list free_head (flinks s)\<rparr>) = ret (s\<lparr>flinks := init_list free_head (flinks s)\<rparr>)"
    using ar by (intro must_fail_empty) (simp_all add: init_list_def in_area_def)
  obtain s3 where s3: "free_pages (p + 2) 3 ?s = ret s3" "in_area H A s3 [(p + 2, 3)]" "inside A ?s s3"
    using area_free [OF ar _ sub(1)] by (auto simp: spec_free_def)
  have f3: "must_fail 4 s3 = ret s3"
    by (rule area_must_fail [OF s3(2)]) (simp_all add: spec_alloc_def)
  have "unat (page_property (pages s3 (p + 2))) = 3"
    by (rule area_block(2) [OF s3(2)]) (simp_all add: A)
  then have p3: "page_flags (pages s3 (p + 2)) AND PAGE_PROPERTY \<noteq> 0 \<and> page_property (pages s3 (p + 2)) = 3"
    using area_block(1) [OF s3(2), of "p + 2"] by (simp add: A word_unat_eq_iff)
  obtain s5 where s5: "must_alloc 3 s3 = ret (p + 2, s5)" "in_area H A s5 []" "inside A s3 s5"
    using area_must_alloc [OF s3(2), of 3 "p + 2" "[]"] by (auto simp: spec_alloc_def)
  have f5: "must_fail 1 s5 = ret s5"
    by (rule area_must_fail [OF s5(2)]) (simp_all add: spec_alloc_def)
  obtain s7 where s7: "free_page p s5 = ret s7" "in_area H A s7 [(p, 1)]" "inside A s5 s7"
    using area_free [OF s5(2) _ sub(2)] by (auto simp: spec_free_def free_page_def)
  have gap: "{p + 2..<p + 2 + unat (3 :: u64)} \<inter> free_set [(p, 1)] = {}"
    by auto
  obtain s8 where s8: "free_pages (p + 2) 3 s7 = ret s8" "in_area H A s8 [(p, 1), (p + 2, 3)]" "inside A s7 s8"
    using area_free [OF s7(2) _ sub(1) gap] by (auto simp: spec_free_def)
  have "unat (page_property (pages s8 p)) = 1" "unat (page_property (pages s8 (p + 2))) = 3"
    by (rule area_block(2) [OF s8(2)]; simp add: A)+
  then have p8: "page_flags (pages s8 p) AND PAGE_PROPERTY \<noteq> 0 \<and> page_property (pages s8 p) = 1"
    "page_flags (pages s8 (p + 2)) AND PAGE_PROPERTY \<noteq> 0 \<and> page_property (pages s8 (p + 2)) = 3"
    using area_block(1) [OF s8(2), of p] area_block(1) [OF s8(2), of "p + 2"] by (simp_all add: A word_unat_eq_iff)
  obtain s9 where s9: "must_alloc 1 s8 = ret (p, s9)" "in_area H A s9 [(p + 2, 3)]" "inside A s8 s9"
    using area_must_alloc [OF s8(2), of 1 p "[(p + 2, 3)]"] by (auto simp: spec_alloc_def)
  have gap9: "{p..<p + unat (1 :: u64)} \<inter> free_set [(p + 2, 3)] = {}"
    by auto
  obtain s10 where s10: "free_page p s9 = ret s10" "in_area H A s10 [(p, 1), (p + 2, 3)]" "inside A s9 s10"
    using area_free [OF s9(2) _ sub(2) gap9] by (auto simp: spec_free_def free_page_def)
  obtain s11 where s11: "must_alloc 2 s10 = ret (p + 2, s11)" "in_area H A s11 [(p, 1), (p + 4, 1)]" "inside A s10 s11"
    using area_must_alloc [OF s10(2), of 2 "p + 2" "[(p, 1), (p + 4, 1)]"] by (auto simp: spec_alloc_def)
  have gap11: "{p + 2..<p + 2 + unat (2 :: u64)} \<inter> free_set [(p, 1), (p + 4, 1)] = {}"
    by auto
  obtain s12 where s12: "free_pages (p + 2) 2 s11 = ret s12" "in_area H A s12 [(p, 1), (p + 2, 3)]" "inside A s11 s12"
    using area_free [OF s11(2) _ sub(3) gap11] by (auto simp: spec_free_def)
  have gap12: "{p + 1..<p + 1 + unat (1 :: u64)} \<inter> free_set [(p, 1), (p + 2, 3)] = {}"
    by auto
  obtain s13 where s13: "free_page (p + 1) s12 = ret s13" "in_area H A s13 [(p, 5)]" "inside A s12 s13"
    using area_free [OF s12(2) _ sub(4) gap12] by (auto simp: spec_free_def free_page_def)
  obtain s14 where s14: "must_alloc 5 s13 = ret (p, s14)" "in_area H A s14 []" "inside A s13 s14"
    using area_must_alloc [OF s13(2), of 5 p "[]"] by (auto simp: spec_alloc_def)
  have f14: "must_fail 1 s14 = ret s14"
    by (rule area_must_fail [OF s14(2)]) (simp_all add: spec_alloc_def)
  have zero: "num_free s14 = 0"
    using area_facts(1) [OF s14(2)] by (simp add: word_unat_eq_iff)
  have "list_empty (init_list free_head (flinks s)) free_head"
    by (simp add: list_empty_def init_list_def)
  then have "test_best_fit_empty p s = ret (p, s14)"
    using e0 s3(1) f3 p3 s5(1) f5 s7(1) s8(1) p8 s9(1) s10(1) s11(1) s12(1) s13(1) s14(1) f14 zero
    by (simp add: test_best_fit_empty_def)
  moreover have "inside A s s14"
    using i0 s3(3) s5(3) s7(3) s8(3) s9(3) s10(3) s11(3) s12(3) s13(3) s14(3) by (meson inside_trans)
  ultimately show ?thesis
    using s14(2) by blast
qed

text \<open>The counting loops.\<close>

lemma count_blocks_lseg:
  "lseg (flinks s) a (head_links bs) free_head \<Longrightarrow> \<forall>x\<in>set bs. page_flags (pages s (fst x)) AND PAGE_PROPERTY \<noteq> 0 \<Longrightarrow>
   count_blocks s a c t = ret (c + of_nat (length bs), t + sum_list (map (\<lambda>x. page_property (pages s (fst x))) bs))"
proof (induction bs arbitrary: a c t)
  case Nil
  then show ?case
    by (subst count_blocks.simps) simp
next
  case (Cons x bs)
  then show ?case
    by (subst count_blocks.simps) (simp add: ac_simps)
qed

lemma uncount_blocks_lseg:
  "lseg (flinks s) a (head_links bs) free_head \<Longrightarrow>
   uncount_blocks s a c t = ret (c - of_nat (length bs), t - sum_list (map (\<lambda>x. page_property (pages s (fst x))) bs))"
proof (induction bs arbitrary: a c t)
  case Nil
  then show ?case
    by (subst uncount_blocks.simps) simp
next
  case (Cons x bs)
  then show ?case
    by (subst uncount_blocks.simps) (simp add: diff_diff_eq)
qed

lemma sum_properties:
  assumes "bf_abs s bs"
  shows "sum_list (map (\<lambda>x. page_property (pages s (fst x))) bs) = of_nat (sum_list (map snd bs))"
proof -
  have "\<forall>x\<in>set bs. unat (page_property (pages s (fst x))) = snd x"
    using assms unfolding bf_abs_def bf_rep_def by blast
  then show ?thesis
    by (induction bs) auto
qed

lemma test_best_fit_ok:
  fixes s :: "'z sched_scheme"
  assumes abs: "bf_abs s bs" and sw: "\<not> swap_init_flag s"
    and five: "\<exists>x\<in>set bs. 5 \<le> snd x"
    and low: "\<forall>x\<in>set bs. fst x + 3 \<le> 0x88000" and refs: "\<forall>i\<in>free_set bs. page_ref (pages s i) = 0"
  shows "\<exists>s'. test_best_fit s = ret s' \<and> bf_abs s' bs \<and> \<not> swap_init_flag s'"
proof -
  define A where "A = free_set bs"
  have ar: "in_area {} A s bs"
    unfolding A_def by (rule in_area_whole [OF abs sw])
  note R = in_area_ring [OF ar]
  have seg: "lseg (flinks t) free_head (head_links bs) free_head"
    and heads: "\<forall>x\<in>set bs. page_flags (pages t (fst x)) AND PAGE_PROPERTY \<noteq> 0"
    if "in_area {} A t bs" for t :: "'z sched_scheme"
  proof -
    have "bf_abs t bs"
      using that by (rule in_area_abs)
    then show "lseg (flinks t) free_head (head_links bs) free_head"
      by (simp add: bf_abs_def bf_rep_def dlist_def)
    show "\<forall>x\<in>set bs. page_flags (pages t (fst x)) AND PAGE_PROPERTY \<noteq> 0"
      using area_block(1) [OF that] in_area_ring(5) [OF that] by blast
  qed
  define c where "c = (of_nat (length bs) :: u32)"
  define t where "t = (of_nat (sum_list (map snd bs)) :: u32)"
  have count: "count_blocks s free_head 0 0 = ret (c, t)"
    using count_blocks_lseg [OF seg [OF ar] heads [OF ar], of 0 0] sum_properties [OF abs] by (simp add: c_def t_def)
  have bound: "sum_list (map snd bs) \<le> max_page"
    by (rule sum_blocks_bound [OF R(3,2)])
  have num: "unat (num_free s) = sum_list (map snd bs)"
    using abs unfolding bf_abs_def bf_rep_def by blast
  have "unat t = sum_list (map snd bs)"
    unfolding t_def using bound by (intro unat_of_nat_u32) simp
  then have total: "ucast t = num_free s"
    using num by (simp add: word_unat_eq_iff)
  obtain flag s1 where s1: "local_intr_save s = (flag, s1)"
    by fastforce
  have now: "count_free_pages s = (num_free s, s)"
    using local_intr_noop [OF s1] intr_same(3) [OF s1] by (simp add: count_free_pages_def s1 best_fit_count_free_pages_def)
  have "3 \<le> card (free_set bs)"
  proof -
    obtain x where x: "x \<in> set bs" "5 \<le> snd x"
      using five by blast
    then have "snd x \<le> sum_list (map snd bs)"
      by (simp add: member_le_sum_list)
    then show ?thesis
      using x(2) card_free_set [OF R(3)] by simp
  qed
  then obtain s2 where s2: "basic_test s = ret s2" "in_area {} A s2 bs"
    using basic_test_ok [OF ar A_def _ low] refs A_def by blast
  have "pick 5 bs None \<noteq> None"
    using pick_none [of 5 bs None] five by force
  then obtain x where x: "pick 5 bs None = Some x" "x \<in> set bs" "5 \<le> snd x"
    using pick_sound [of 5 bs None] by fastforce
  define p where "p = fst x"
  define bs3 where "bs3 = take_block p 5 bs"
  obtain s3 where s3: "must_alloc 5 s2 = ret (p, s3)" "in_area {} A s3 bs3" "inside A s2 s3"
    using area_must_alloc [OF s2(2), of 5 p bs3] x(1) by (auto simp: spec_alloc_def p_def bs3_def)
  define B where "B = {p..<p + 5}"
  have fs: "free_set bs3 = A - B" "B \<subseteq> A"
    using free_set_take_block [OF R(3,2), of p "snd x" 5] x(2,3) by (simp_all add: p_def B_def bs3_def A_def)
  then have BA: "B \<inter> free_set bs3 = {}" "A = B \<union> free_set bs3" and pB: "p \<in> B"
    by (auto simp: B_def)
  have abs3: "bf_abs s3 bs3" and us3: "\<forall>i\<in>A. page_usable s3 i" and sw3: "\<not> swap_init_flag s3"
    using s3(2) by (simp_all add: in_area_def)
  have usB: "\<forall>i\<in>B. page_usable s3 i"
    using us3 fs(2) by blast
  have pA: "p \<in> A" "p \<notin> fst ` set bs3"
    using pB BA fs(2) head_in_free_set [OF in_area_ring(2) [OF s3(2)], of p] by blast+
  then have prop3: "page_flags (pages s3 p) AND PAGE_PROPERTY = 0"
    using area_block(1) [OF s3(2), of p] by blast
  obtain s4 where s4: "test_best_fit_empty p s3 = ret (p, s4)" "in_area (fst ` set bs3) B s4 []" "inside B s3 s4"
    using test_best_fit_empty_ok [OF in_area_empty [OF abs3 BA(1) usB sw3] B_def] by blast
  define r where "r = restore_free_area (save_free_area s3) s4"
  have r: "in_area {} A r bs3"
    unfolding r_def by (rule in_area_restore [OF s3(2) BA s4(2,3)])
  have blk: "{p..<p + unat (5 :: u64)} = B"
    by (simp add: B_def)
  obtain s5 where s5: "free_pages p 5 r = ret s5" "in_area {} A s5 (spec_free p 5 bs3)"
    using area_free [OF r, of 5 p] BA fs(2) unfolding blk by auto
  have "free_set (spec_free p 5 bs3) = free_set bs3 \<union> B"
    using free_set_spec_free [OF in_area_ring(3,2) [OF s3(2)], of p 5] BA(1) by (simp add: B_def)
  then have same: "spec_free p 5 bs3 = bs"
    using coalesced_unique [OF in_area_ring(4) [OF s5(2)] R(4) in_area_ring(2) [OF s5(2)] R(2)] BA(2) by (simp add: A_def Un_commute)
  have s5': "in_area {} A s5 bs"
    using s5(2) unfolding same .
  have "uncount_blocks s5 free_head c t = ret (0, 0)"
    using uncount_blocks_lseg [OF seg [OF s5'], of c t] sum_properties [OF in_area_abs [OF s5']] by (simp add: c_def t_def)
  then have "test_best_fit s = ret s5"
    using s5(1) by (simp add: test_best_fit_def count now total s2(1) s3(1) prop3 s4(1) r_def)
  then show ?thesis
    using s5' by (simp add: in_area_def)
qed

section \<open>Properties\<close>

text \<open>C38: the self test of the allocator passes and leaves the free list as it found it: on every list with a
  block of five pages, blocks that begin in DRAM and free pages without references, as long as
  swapping is off. This covers every assertion of \<open>test_best_fit\<close> and \<open>basic_test\<close>, the return of all their loops,
  and the restoration of the list header they put aside.\<close>

theorem best_fit_test_passes:
  assumes "bf_abs s bs" and "\<not> swap_init_flag s" and "\<exists>x\<in>set bs. 5 \<le> snd x"
    and "\<forall>x\<in>set bs. fst x + 3 \<le> 0x88000" and "\<forall>i\<in>free_set bs. page_ref (pages s i) = 0"
  shows "\<exists>s'. test_best_fit s = ret s' \<and> bf_abs s' bs"
  using test_best_fit_ok [OF assms] by blast

theorem best_fit_test_passes_witness:
  "\<exists>s'. test_best_fit sample_space = ret s' \<and> bf_abs s' [(0x82000, 5), (0x82010, 3)]"
proof (rule best_fit_test_passes)
  show "bf_abs sample_space [(0x82000, 5), (0x82010, 3)]"
    using sample_space_blocks by (simp add: bf_inv_def)
qed (simp_all add: sample_space_def sample_pmm_def sample_sched_def)

end
