(* ===== verification/Self_Test.thy ===== *)
theory Self_Test
  imports Best_Fit_Test User_Access
begin

text \<open>
  The self tests of the memory subsystem, run once at boot: \<open>test_page\<close> of \<open>kernel/mm/pmm.c\<close>,
  \<open>test_swap\<close> of \<open>kernel/mm/swap.c\<close> with \<open>test_fifo\<close> of \<open>kernel/mm/fifo_swap.c\<close>, and \<open>test_vma_struct\<close> and
  \<open>test_page_fault\<close> of \<open>kernel/mm/vmm.c\<close>. Their accesses to low addresses go through the boot page table
  and the page fault path.
\<close>

unbundle bit_operations_syntax

section \<open>Strings at virtual addresses\<close>

text \<open>\<open>strcpy\<close> of a literal, \<open>strcmp\<close> and \<open>strlen\<close> on addresses that the page table translates.\<close>

fun put_chars :: "u64 \<Rightarrow> u8 list \<Rightarrow> 'z ksched_scheme \<Rightarrow> 'z ksched_scheme exec" where
  "put_chars a [] s = user_store a 0 s"
| "put_chars a (c # cs) s = bind_exec (user_store a c s) (put_chars (a + 1) cs)"

partial_function (option) user_strcmp :: "u64 \<Rightarrow> u64 \<Rightarrow> 'z ksched_scheme \<Rightarrow> (int \<times> 'z ksched_scheme) exec" where
  "user_strcmp a b s =
     bind_exec (user_load a s) (\<lambda>(x, s1).
     bind_exec (user_load b s1) (\<lambda>(y, s2).
       if x \<noteq> 0 \<and> x = y then user_strcmp (a + 1) (b + 1) s2 else ret (uint x - uint y, s2)))"

partial_function (option) user_strlen :: "u64 \<Rightarrow> u64 \<Rightarrow> 'z ksched_scheme \<Rightarrow> (u64 \<times> 'z ksched_scheme) exec" where
  "user_strlen a cnt s =
     bind_exec (user_load a s) (\<lambda>(x, s1). if x = 0 then ret (cnt, s1) else user_strlen (a + 1) (cnt + 1) s1)"

section \<open>test_page (pmm.c)\<close>

text \<open>\<open>ASSERT((p_pte = get_pte(gpt, addr, 0)) != NULL)\<close>: the address of the entry and the entry.\<close>

definition must_pte :: "u64 \<Rightarrow> u64 \<Rightarrow> 'z sched_scheme \<Rightarrow> (u64 \<times> u64) exec" where
  "must_pte gpt addr s =
     bind_exec (get_pte gpt addr False s) (\<lambda>(q, s1). case q of None \<Rightarrow> panic | Some a \<Rightarrow> ret (a, load64 (mem s1) a))"

text \<open>\<open>ASSERT(add_page(gpt, page, addr, flags) == 0)\<close>, and the same for a page just allocated, which a failed
  allocation leaves null: the table is looked up before the null page is written.\<close>

definition must_add :: "u64 \<Rightarrow> nat \<Rightarrow> u64 \<Rightarrow> u32 \<Rightarrow> 'z sched_scheme \<Rightarrow> 'z sched_scheme exec" where
  "must_add gpt page addr flags s =
     bind_exec (add_page gpt page addr flags s) (\<lambda>(err, s1). assert_then (err = 0) (ret s1))"

definition alloc_add :: "u64 \<Rightarrow> u64 \<Rightarrow> u32 \<Rightarrow> 'z sched_scheme \<Rightarrow> (nat \<times> 'z sched_scheme) exec" where
  "alloc_add gpt addr flags s =
     bind_exec (alloc_page s) (\<lambda>(page, s1).
       case page of
         Some p \<Rightarrow> bind_exec (must_add gpt p addr flags s1) (\<lambda>s2. ret (p, s2))
       | None \<Rightarrow> bind_exec (get_pte gpt addr True s1) (\<lambda>(q, _). if q = None then panic else null_deref))"

text \<open>The end of both halves: the two tables below entry 0 are freed, and the entry cleared.\<close>

definition drop_first_tables :: "u64 \<Rightarrow> u64 \<Rightarrow> 'z sched_scheme \<Rightarrow> 'z sched_scheme exec" where
  "drop_first_tables gpt1 gpt2 s =
     bind_exec (pte2page (load64 (mem s) (entry_at gpt1 0))) (\<lambda>t1.
     bind_exec (free_page t1 s) (\<lambda>s1.
     bind_exec (pte2page (load64 (mem s1) (entry_at gpt2 0))) (\<lambda>t2.
     bind_exec (free_page t2 s1) (\<lambda>s2. ret (store_pte (entry_at gpt1 0) 0 s2)))))"

definition test_page_map :: "'z ksched_scheme \<Rightarrow> 'z ksched_scheme exec" where
  "test_page_map s =
     (let (num_free_pages, s0) = count_free_pages s; gpt = g_bpt s0 in
      assert_then (gpt \<noteq> 0 \<and> get_offset gpt = 0)
        (bind_exec (get_page gpt 0 s0) (\<lambda>(page, stored).
         if stored \<noteq> None then null_deref
         else assert_then (page = None)
           (bind_exec (alloc_add gpt 0 0 s0) (\<lambda>(p1, s1).
            bind_exec (must_pte gpt 0 s1) (\<lambda>(_, e).
            bind_exec (pte2page e) (\<lambda>q. assert_then (q = p1 \<and> page_ref (pages s1 p1) = 1)
              (bind_exec (pte2va (load64 (mem s1) (entry_at gpt 0))) (\<lambda>mpt.
               bind_exec (pte2va (load64 (mem s1) (entry_at mpt 0))) (\<lambda>pt.
               bind_exec (get_pte gpt PAGE_SIZE False s1) (\<lambda>(a, _). assert_then (a = Some (pt + 8))
                 (bind_exec (alloc_add gpt PAGE_SIZE (ucast (PTE_W OR PTE_V)) s1) (\<lambda>(p2, s2).
                  bind_exec (must_pte gpt PAGE_SIZE s2) (\<lambda>(_, e).
                  assert_then (e AND PTE_W \<noteq> 0 \<and> page_ref (pages s2 p2) = 1)
                    (bind_exec (must_add gpt p1 PAGE_SIZE 0 s2) (\<lambda>s3.
                     assert_then (page_ref (pages s3 p1) = 2 \<and> page_ref (pages s3 p2) = 0)
                       (bind_exec (must_pte gpt PAGE_SIZE s3) (\<lambda>(_, e).
                        bind_exec (pte2page e) (\<lambda>q. assert_then (q = p1)
                          (bind_exec (del_page gpt 0 s3) (\<lambda>s4.
                           assert_then (page_ref (pages s4 p1) = 1 \<and> page_ref (pages s4 p2) = 0)
                             (bind_exec (del_page gpt PAGE_SIZE s4) (\<lambda>s5.
                              assert_then (page_ref (pages s5 p1) = 0 \<and> page_ref (pages s5 p2) = 0)
                                (bind_exec (pte2page (load64 (mem s5) (entry_at gpt 0))) (\<lambda>t.
                                 assert_then (page_ref (pages s5 t) = 1)
                                   (bind_exec (page2va t) (\<lambda>gpt2.
                                    bind_exec (drop_first_tables gpt gpt2 s5) (\<lambda>s6.
                                    let (num, s7) = count_free_pages s6
                                    in assert_then (num_free_pages = num) (ret s7)))))))))))))))))))))))))))))"

text \<open>The loop over the mappings of the kernel; the assertions as in the source.\<close>

partial_function (option) check_kernel_map :: "u64 \<Rightarrow> 'z ksched_scheme \<Rightarrow> unit exec" where
  "check_kernel_map i s =
     (if i < push_bit PAGE_SHIFT g_num_kernel_pages then
        bind_exec (must_pte (g_bpt s) i s) (\<lambda>(_, e).
        bind_exec (pte2va e) (\<lambda>va. assert_then (va = i) (check_kernel_map (i + PAGE_SIZE) s)))
      else ret ())"

text \<open>\<open>*t_pte1\<close> and \<open>*t_pte2\<close> are read through pointers that are not tested for null.\<close>

definition read_pte :: "u64 \<Rightarrow> u64 \<Rightarrow> 'z sched_scheme \<Rightarrow> u64 exec" where
  "read_pte gpt addr s =
     bind_exec (get_pte gpt addr False s) (\<lambda>(q, s1). case q of None \<Rightarrow> null_deref | Some a \<Rightarrow> ret (load64 (mem s1) a))"

definition test_page_alias :: "'z ksched_scheme \<Rightarrow> 'z ksched_scheme exec" where
  "test_page_alias s =
     (let (num_free_pages, s0) = count_free_pages s; gpt = g_bpt s0; flags = ucast (PTE_W OR PTE_R OR PTE_V) in
      bind_exec (check_kernel_map (rounddown KERNEL_BEGIN_VA PAGE_SIZE) s0) (\<lambda>_.
      assert_then (load64 (mem s0) (entry_at gpt 0) = 0)
        (bind_exec (alloc_add gpt 0x100 flags s0) (\<lambda>(p, s1).
         assert_then (page_ref (pages s1 p) = 1)
           (bind_exec (must_add gpt p (0x100 + PAGE_SIZE) flags s1) (\<lambda>s2.
            assert_then (page_ref (pages s2 p) = 2)
              (bind_exec (read_pte gpt 0x100 s2) (\<lambda>e1.
               bind_exec (read_pte gpt (0x100 + PAGE_SIZE) s2) (\<lambda>e2.
               bind_exec (pte2va e1) (\<lambda>_.
               bind_exec (pte2va e2) (\<lambda>_.
               bind_exec (put_chars 0x100 (lit ''ucore: Hello world!!'') s2) (\<lambda>s3.
               bind_exec (user_strcmp 0x100 (0x100 + PAGE_SIZE) s3) (\<lambda>(r, s4).
               assert_then (r = 0)
                 (bind_exec (page2va p) (\<lambda>va.
                  bind_exec (user_strlen 0x100 0 (s4\<lparr>mem := (mem s4)(va + 0x100 := 0)\<rparr>)) (\<lambda>(n, s5).
                  assert_then (n = 0)
                    (bind_exec (pte2page (load64 (mem s5) (entry_at gpt 0))) (\<lambda>t.
                     bind_exec (page2va t) (\<lambda>gpt2.
                     bind_exec (free_page p s5) (\<lambda>s6.
                     bind_exec (drop_first_tables gpt gpt2 s6) (\<lambda>s7.
                     let (num, s8) = count_free_pages s7
                     in assert_then (num_free_pages = num) (ret (kput (lit ''test_page() succeed!'' @ [10, 10]) s8)))))))))))))))))))))))"

definition test_page :: "'z ksched_scheme \<Rightarrow> 'z ksched_scheme exec" where
  "test_page s = bind_exec (test_page_map s) test_page_alias"

section \<open>test_vma_struct and test_page_fault (vmm.c)\<close>

fun add_test_areas :: "u64 \<Rightarrow> nat list \<Rightarrow> 'z sched_scheme \<Rightarrow> 'z sched_scheme exec" where
  "add_test_areas vmm [] s = ret s"
| "add_test_areas vmm (i # is) s =
     bind_exec (init_vma (of_nat (i * 5)) (of_nat (i * 5 + 2)) 0 s) (\<lambda>(vma, s1).
       case vma of
         None \<Rightarrow> panic
       | Some a \<Rightarrow> bind_exec (add_vma vmm a s1) (add_test_areas vmm is))"

fun check_test_areas :: "nat list \<Rightarrow> (u64, u64) lnode \<Rightarrow> 'z sched_scheme \<Rightarrow> unit exec" where
  "check_test_areas [] list s = ret ()"
| "check_test_areas (i # is) list s =
     (case list of
        LHead _ \<Rightarrow> panic
      | LNode a \<Rightarrow>
          assert_then (vm_start (vmas s a) = of_nat (i * 5) \<and> vm_end (vmas s a) = of_nat (i * 5 + 2))
            (check_test_areas is (nxt (vma_links s) list) s))"

text \<open>\<open>ASSERT(find_vma(vmm, addr) != NULL)\<close> and \<open>ASSERT(find_vma(vmm, addr) == NULL)\<close>.\<close>

definition must_find :: "u64 \<Rightarrow> u64 \<Rightarrow> 'z kmem_scheme \<Rightarrow> (u64 \<times> 'z kmem_scheme) exec" where
  "must_find vmm addr s =
     bind_exec (find_vma (Some vmm) addr s) (\<lambda>(v, s1). case v of None \<Rightarrow> panic | Some a \<Rightarrow> ret (a, s1))"

definition must_miss :: "u64 \<Rightarrow> u64 \<Rightarrow> 'z kmem_scheme \<Rightarrow> 'z kmem_scheme exec" where
  "must_miss vmm addr s = bind_exec (find_vma (Some vmm) addr s) (\<lambda>(v, s1). assert_then (v = None) (ret s1))"

fun find_test_areas :: "u64 \<Rightarrow> nat list \<Rightarrow> 'z kmem_scheme \<Rightarrow> 'z kmem_scheme exec" where
  "find_test_areas vmm [] s = ret s"
| "find_test_areas vmm (i # is) s =
     (let a = of_nat i :: u64 in
      bind_exec (must_find vmm a s) (\<lambda>(vma1, s1).
      bind_exec (must_find vmm (a + 1) s1) (\<lambda>(vma2, s2).
      bind_exec (must_miss vmm (a + 2) s2) (\<lambda>s3.
      bind_exec (must_miss vmm (a + 3) s3) (\<lambda>s4.
      bind_exec (must_miss vmm (a + 4) s4) (\<lambda>s5.
      assert_then (vm_start (vmas s5 vma1) = a \<and> vm_end (vmas s5 vma1) = a + 2)
        (assert_then (vm_start (vmas s5 vma2) = a \<and> vm_end (vmas s5 vma2) = a + 2)
          (find_test_areas vmm is s5))))))))"

text \<open>The lookups below the first area; what is printed before a failing assertion is left out.\<close>

fun miss_test_areas :: "u64 \<Rightarrow> nat list \<Rightarrow> 'z kmem_scheme \<Rightarrow> 'z kmem_scheme exec" where
  "miss_test_areas vmm [] s = ret s"
| "miss_test_areas vmm (i # is) s = bind_exec (must_miss vmm (of_nat i) s) (miss_test_areas vmm is)"

definition test_vma_struct :: "'z ksched_scheme \<Rightarrow> 'z ksched_scheme exec" where
  "test_vma_struct s =
     (let (num_free_pages, s0) = count_free_pages s in
      bind_exec (init_vmm s0) (\<lambda>(v, s1).
        case v of
          None \<Rightarrow> panic
        | Some vmm \<Rightarrow>
            bind_exec (add_test_areas vmm (rev [1..<11]) s1) (\<lambda>s2.
            bind_exec (add_test_areas vmm [11..<101] s2) (\<lambda>s3.
            bind_exec (check_test_areas [1..<101] (nxt (vma_links s3) (LHead vmm)) s3) (\<lambda>_.
            bind_exec (find_test_areas vmm (map (\<lambda>k. k * 5) [1..<101]) s3) (\<lambda>s4.
            bind_exec (miss_test_areas vmm (rev [0..<5]) s4) (\<lambda>s5.
            bind_exec (del_vmm vmm s5) (\<lambda>s6.
            let (num, s7) = count_free_pages s6
            in assert_then (num_free_pages = num) (ret (kput (lit ''test_vma_struct() succeed!'' @ [10, 10]) s7))))))))))"

definition MP_SIZE :: u64 where [const_defs]: "MP_SIZE = push_bit PT_SHIFT PAGE_SIZE"

fun store_test_bytes :: "nat list \<Rightarrow> u64 \<Rightarrow> int \<Rightarrow> 'z ksched_scheme \<Rightarrow> (int \<times> 'z ksched_scheme) exec" where
  "store_test_bytes [] addr acc s = ret (acc, s)"
| "store_test_bytes (i # is) addr acc s =
     bind_exec (user_store (addr + of_nat i) (of_nat i) s) (store_test_bytes is addr (acc + int i))"

fun load_test_bytes :: "nat list \<Rightarrow> u64 \<Rightarrow> int \<Rightarrow> 'z ksched_scheme \<Rightarrow> (int \<times> 'z ksched_scheme) exec" where
  "load_test_bytes [] addr acc s = ret (acc, s)"
| "load_test_bytes (i # is) addr acc s =
     bind_exec (user_load (addr + of_nat i) s) (\<lambda>(b, s1). load_test_bytes is addr (acc - uint b) s1)"

definition test_page_fault :: "'z ksched_scheme \<Rightarrow> 'z ksched_scheme exec" where
  "test_page_fault s =
     (let (num_free_pages, s0) = count_free_pages s in
      bind_exec (init_vmm s0) (\<lambda>(v, s1).
        case v of
          None \<Rightarrow> panic
        | Some vmm \<Rightarrow>
            let gpt = g_bpt s1; s2 = upd_vmm vmm (\<lambda>m. m\<lparr>vmm_gpt := gpt\<rparr>) (s1\<lparr>test_vmm := Some vmm\<rparr>) in
            assert_then (load64 (mem s2) (entry_at gpt 0) = 0)
              (bind_exec (init_vma 0 MP_SIZE VMA_WRITE s2) (\<lambda>(vma, s3).
                 case vma of
                   None \<Rightarrow> panic
                 | Some a \<Rightarrow>
                     bind_exec (add_vma vmm a s3) (\<lambda>s4.
                     bind_exec (find_vma (Some vmm) 0x100 s4) (\<lambda>(found, s5).
                     assert_then (found = Some a)
                       (bind_exec (store_test_bytes [0..<100] 0x100 0 s5) (\<lambda>(sum1, s6).
                        bind_exec (load_test_bytes [0..<100] 0x100 sum1 s6) (\<lambda>(sum2, s7).
                        assert_then (sum2 = 0)
                          (bind_exec (del_page gpt (rounddown 0x100 PAGE_SIZE) s7) (\<lambda>s8.
                           bind_exec (pte2page (load64 (mem s8) (entry_at gpt 0))) (\<lambda>t.
                           bind_exec (free_page t s8) (\<lambda>s9.
                           let s10 = upd_vmm vmm (\<lambda>m. m\<lparr>vmm_gpt := 0\<rparr>) (store_pte (entry_at gpt 0) 0 s9) in
                           bind_exec (del_vmm vmm s10) (\<lambda>s11.
                           let (num, s12) = count_free_pages (s11\<lparr>test_vmm := None\<rparr>) in
                           assert_then (num_free_pages - 1 = num)
                             (ret (kput ([10] @ lit ''test_page_fault() succeed!'' @ [10, 10]) s12))))))))))))))))"

definition test_vmm_all :: "'z ksched_scheme \<Rightarrow> 'z ksched_scheme exec" where
  "test_vmm_all s =
     (let (num_free_pages, s0) = count_free_pages s in
      bind_exec (test_vma_struct s0) (\<lambda>s1.
      bind_exec (test_page_fault s1) (\<lambda>s2.
      let (num, s3) = count_free_pages s2
      in assert_then (num_free_pages - 1 = num) (ret (kput (lit ''test_vmm succeed!'' @ [10, 10]) s3)))))"

section \<open>test_swap (swap.c) and test_fifo (fifo_swap.c)\<close>

text \<open>A store of one byte and the assertion on the number of page faults behind it.\<close>

definition store_counted :: "u64 \<Rightarrow> u8 \<Rightarrow> u32 \<Rightarrow> 'z ksched_scheme \<Rightarrow> 'z ksched_scheme exec" where
  "store_counted a b k s = bind_exec (user_store a b s) (\<lambda>s1. assert_then (num_page_fault s1 = k) (ret s1))"

fun stores_counted :: "(string \<times> u64 \<times> u8 \<times> u32) list \<Rightarrow> 'z ksched_scheme \<Rightarrow> 'z ksched_scheme exec" where
  "stores_counted [] s = ret s"
| "stores_counted ((msg, a, b, k) # xs) s =
     bind_exec (store_counted a b k (kput (lit msg) s)) (stores_counted xs)"

definition test_content_set :: "'z ksched_scheme \<Rightarrow> 'z ksched_scheme exec" where
  "test_content_set =
     stores_counted
       [([], 0x1000, 0x0A, 1), ([], 0x1010, 0x0A, 1), ([], 0x2000, 0x0B, 2), ([], 0x2010, 0x0B, 2),
        ([], 0x3000, 0x0C, 3), ([], 0x3010, 0x0C, 3), ([], 0x4000, 0x0D, 4), ([], 0x4010, 0x0D, 4),
        ([], 0x5000, 0x0E, 5), ([], 0x5010, 0x0E, 5)]"

definition fifo_line :: "string \<Rightarrow> string" where
  "fifo_line msg = ''write Virt Page '' @ msg @ [char_of (10 :: nat)]"

definition fifo_gap_line :: "string \<Rightarrow> string" where
  "fifo_gap_line msg = char_of (10 :: nat) # fifo_line msg"

definition test_fifo :: "'z ksched_scheme \<Rightarrow> 'z ksched_scheme exec" where
  "test_fifo s =
     bind_exec (stores_counted
       [(fifo_line ''c in test_fifo'', 0x3000, 0x0C, 5),
        (fifo_line ''a in test_fifo'', 0x1000, 0x0A, 5),
        (fifo_line ''d in test_fifo'', 0x4000, 0x0D, 5),
        (fifo_line ''b in test_fifo'', 0x2000, 0x0B, 5),
        (fifo_line ''e in test_fifo'', 0x5000, 0x0E, 5),
        (fifo_gap_line ''f in test_fifo (swap out a)'', 0x6000, 0x0F, 6),
        (fifo_gap_line ''b in test_fifo'', 0x2000, 0x0B, 6),
        (fifo_gap_line ''a in test_fifo (swap out b)'', 0x1000, 0x0A, 7),
        (fifo_gap_line ''b in test_fifo (swap out c)'', 0x2000, 0x0B, 8),
        (fifo_gap_line ''c in testfo (swap out d)'', 0x3000, 0x0C, 9),
        (fifo_gap_line ''d in testifo (swap out e)'', 0x4000, 0x0D, 10),
        (fifo_gap_line ''e in test_fifo (swap out f)'', 0x5000, 0x0E, 11),
        (fifo_gap_line ''f in test_fifo (swap out a)'', 0x6000, 0x0F, 12)] s) (\<lambda>s1.
     bind_exec (user_load 0x1000 (kput (lit (fifo_gap_line ''a in test_fifo (swap out b)'')) s1)) (\<lambda>(b, s2).
       assert_then (b = 0x0A) (store_counted 0x1000 0x0A 13 s2)))"

definition NUM_CHECK_PAGES :: nat where [const_defs]: "NUM_CHECK_PAGES = 6"
definition CHECK_VA_BEGIN :: u64 where [const_defs]: "CHECK_VA_BEGIN = 0x1000"
definition CHECK_VA_END :: u64 where
  [const_defs]: "CHECK_VA_END = CHECK_VA_BEGIN + push_bit PAGE_SHIFT (of_nat NUM_CHECK_PAGES)"

fun alloc_test_pages :: "nat \<Rightarrow> 'z sched_scheme \<Rightarrow> (nat list \<times> 'z sched_scheme) exec" where
  "alloc_test_pages 0 s = ret ([], s)"
| "alloc_test_pages (Suc k) s =
     bind_exec (must_alloc 1 s) (\<lambda>(p, s1).
     assert_then (page_flags (pages s1 p) AND PAGE_PROPERTY = 0)
       (bind_exec (alloc_test_pages k s1) (\<lambda>(ps, s2). ret (p # ps, s2))))"

fun free_test_pages :: "nat list \<Rightarrow> 'z sched_scheme \<Rightarrow> 'z sched_scheme exec" where
  "free_test_pages [] s = ret s"
| "free_test_pages (p # ps) s = bind_exec (free_page p s) (free_test_pages ps)"

fun check_test_ptes :: "u64 \<Rightarrow> nat \<Rightarrow> nat list \<Rightarrow> 'z sched_scheme \<Rightarrow> unit exec" where
  "check_test_ptes gpt i [] s = ret ()"
| "check_test_ptes gpt i (p # ps) s =
     bind_exec (must_pte gpt (push_bit PAGE_SHIFT (of_nat (i + 1))) s) (\<lambda>(_, e).
     bind_exec (pte2page e) (\<lambda>q.
     assert_then (q = p) (assert_then (e AND PTE_V \<noteq> 0) (check_test_ptes gpt (i + 1) ps s))))"

text \<open>From the emptied free list to its restoration; the pages freed at the end go to the list that the
  restoration throws away.\<close>

definition test_swap_empty :: "u64 \<Rightarrow> nat list \<Rightarrow> 'z ksched_scheme \<Rightarrow> 'z ksched_scheme exec" where
  "test_swap_empty vmm test_pages s =
     (let s1 = s\<lparr>flinks := init_list free_head (flinks s), num_free := 0\<rparr> in
      bind_exec (free_test_pages test_pages s1) (\<lambda>s2.
      assert_then (num_free s2 = of_nat (NUM_CHECK_PAGES - 1))
        (let s3 = (kput (lit ''set up init env for test begin: '' @ [10, 10]) s2)\<lparr>num_page_fault := 0\<rparr> in
         bind_exec (test_content_set s3) (\<lambda>s4.
         assert_then (num_free s4 = 0)
           (bind_exec (check_test_ptes (vmm_gpt (vmms s4 vmm)) 0 test_pages s4) (\<lambda>_.
            bind_exec (test_fifo (kput ([10] @ lit ''set up init env for test over!'' @ [10, 10]) s4)) (\<lambda>s5.
            bind_exec (free_test_pages test_pages s5) (\<lambda>s6.
            let e = entry_at (vmm_gpt (vmms s6 vmm)) 0 in
            bind_exec (pte2page (load64 (mem s6) e)) (\<lambda>t.
            bind_exec (free_page t s6) (\<lambda>s7.
            bind_exec (del_vmm vmm (upd_vmm vmm (\<lambda>m. m\<lparr>vmm_gpt := 0\<rparr>) (store_pte e 0 s7))) (\<lambda>s8.
              ret (s8\<lparr>test_vmm := None\<rparr>))))))))))))"

definition test_swap :: "'z ksched_scheme \<Rightarrow> 'z ksched_scheme exec" where
  "test_swap s =
     bind_exec (count_blocks s free_head 0 0) (\<lambda>(cnt, tot).
     let (free_now, s0) = count_free_pages s in
     assert_then (ucast tot = free_now)
       (let s1 = kput (lit ''begin test swap: count '' @ num_text 10 (unat cnt) @ lit '', total '' @
                   num_text 10 (unat tot) @ [10, 10]) s0 in
        bind_exec (init_vmm s1) (\<lambda>(v, s2).
          case v of
            None \<Rightarrow> panic
          | Some vmm \<Rightarrow>
              assert_then (test_vmm s2 = None)
                (let gpt = g_bpt s2; s3 = upd_vmm vmm (\<lambda>m. m\<lparr>vmm_gpt := gpt\<rparr>) (s2\<lparr>test_vmm := Some vmm\<rparr>) in
                 assert_then (load64 (mem s3) (entry_at gpt 0) = 0)
                   (bind_exec (init_vma CHECK_VA_BEGIN CHECK_VA_END (VMA_WRITE OR VMA_READ) s3) (\<lambda>(vma, s4).
                      case vma of
                        None \<Rightarrow> panic
                      | Some a \<Rightarrow>
                          bind_exec (add_vma vmm a s4) (\<lambda>s5.
                          let s6 = kput (lit ''setup Page Table for va 0x1000 ~ 0x6000, so alloc a page'' @ [10]) s5 in
                          bind_exec (get_pte gpt CHECK_VA_BEGIN True s6) (\<lambda>(q, s7).
                          assert_then (q \<noteq> None)
                            (bind_exec (alloc_test_pages (NUM_CHECK_PAGES - 1)
                               (kput (lit ''setup Page Table va 0x1000 ~ 0x6000 OVER!'' @ [10, 10]) s7)) (\<lambda>(ps, s8).
                             bind_exec (test_swap_empty vmm ps s8) (\<lambda>s9.
                             let s10 = restore_free_area (save_free_area s8) s9 in
                             bind_exec (uncount_blocks s10 free_head cnt tot) (\<lambda>(cnt', tot').
                             let s11 = kput (lit ''end test swap: count '' @ num_text 10 (unat cnt') @ lit '', total '' @
                                         num_text 10 (unat tot') @ [10, 10]) s10
                             in ret (kput (lit ''test_swap() succeed!'' @ [10, 10]) (store_pte (entry_at (g_bpt s11) 0) 0 s11))))))))))))))"

end
