(* ===== verification/Boot.thy ===== *)
theory Boot
  imports Self_Test Syscall_Trap
begin

text \<open>
  Booting, \<open>kernel/init/init.c\<close>, with the initialisers it calls that no component theory holds:
  \<open>init_pmm\<close>, \<open>init_swap\<close>, \<open>init_idt\<close>, \<open>init_timer\<close>; the firmware calls of \<open>kernel/driver/sbi.c\<close>, the
  messages of \<open>kernel/debug/debug.c\<close> and \<open>kernel/lib/assert.c\<close>, and the first programs of \<open>kernel/proc/proc.c\<close>.
  The firmware is a parameter: \<open>sbi_result\<close> is its answer to a call and \<open>sbi_calls\<close> records the calls.
\<close>

unbundle bit_operations_syntax

section \<open>The rest of the machine\<close>

record machine = ksched +
  csr_sscratch :: u64
  csr_stvec :: u64
  csr_sie :: u64
  sbi_calls :: "(u64 \<times> u64 \<times> u64 \<times> u64) list"
  sbi_result :: "u64 \<times> u64 \<times> u64 \<times> u64 \<Rightarrow> u64"
  is_panic :: bool

section \<open>Firmware calls (sbi.c)\<close>

definition SBI_SET_TIMER :: u16 where [const_defs]: "SBI_SET_TIMER = 0"
definition SBI_CONSOLE_PUTCHAR :: u16 where [const_defs]: "SBI_CONSOLE_PUTCHAR = 1"
definition SBI_CONSOLE_GETCHAR :: u16 where [const_defs]: "SBI_CONSOLE_GETCHAR = 2"
definition SBI_CLEAR_IPI :: u16 where [const_defs]: "SBI_CLEAR_IPI = 3"
definition SBI_SEND_IPI :: u16 where [const_defs]: "SBI_SEND_IPI = 4"
definition SBI_REMOTE_FENCE_I :: u16 where [const_defs]: "SBI_REMOTE_FENCE_I = 5"
definition SBI_REMOTE_SFENCE_VMA :: u16 where [const_defs]: "SBI_REMOTE_SFENCE_VMA = 6"
definition SBI_REMOTE_SFENCE_VMA_ASID :: u16 where [const_defs]: "SBI_REMOTE_SFENCE_VMA_ASID = 7"
definition SBI_SHUTDOWN :: u16 where [const_defs]: "SBI_SHUTDOWN = 8"

definition sbi_call :: "u64 \<Rightarrow> u64 \<Rightarrow> u64 \<Rightarrow> u64 \<Rightarrow> 'z machine_scheme \<Rightarrow> u64 \<times> 'z machine_scheme" where
  "sbi_call t a0 a1 a2 s = (sbi_result s (t, a0, a1, a2), s\<lparr>sbi_calls := sbi_calls s @ [(t, a0, a1, a2)]\<rparr>)"

definition sbi_console_putchar :: "u64 \<Rightarrow> 'z machine_scheme \<Rightarrow> 'z machine_scheme" where
  "sbi_console_putchar ch s = snd (sbi_call (ucast SBI_CONSOLE_PUTCHAR) ch 0 0 s)"

definition sbi_console_getchar :: "'z machine_scheme \<Rightarrow> u64 \<times> 'z machine_scheme" where
  "sbi_console_getchar s = sbi_call (ucast SBI_CONSOLE_GETCHAR) 0 0 0 s"

definition sbi_set_timer :: "u64 \<Rightarrow> 'z machine_scheme \<Rightarrow> 'z machine_scheme" where
  "sbi_set_timer stime s = snd (sbi_call (ucast SBI_SET_TIMER) stime 0 0 s)"

definition sbi_shutdown :: "'z machine_scheme \<Rightarrow> 'z machine_scheme" where
  "sbi_shutdown s = snd (sbi_call (ucast SBI_SHUTDOWN) 0 0 0 s)"

definition sbi_clear_ipi :: "'z machine_scheme \<Rightarrow> 'z machine_scheme" where
  "sbi_clear_ipi s = snd (sbi_call (ucast SBI_CLEAR_IPI) 0 0 0 s)"

definition sbi_send_ipi :: "u64 \<Rightarrow> 'z machine_scheme \<Rightarrow> 'z machine_scheme" where
  "sbi_send_ipi hart_mask s = snd (sbi_call (ucast SBI_SEND_IPI) hart_mask 0 0 s)"

definition sbi_remote_fenci_i :: "u64 \<Rightarrow> 'z machine_scheme \<Rightarrow> 'z machine_scheme" where
  "sbi_remote_fenci_i hart_mask s = snd (sbi_call (ucast SBI_REMOTE_FENCE_I) hart_mask 0 0 s)"

definition sbi_remote_sfence_vma :: "u64 \<Rightarrow> 'z machine_scheme \<Rightarrow> 'z machine_scheme" where
  "sbi_remote_sfence_vma hart_mask s = snd (sbi_call (ucast SBI_REMOTE_SFENCE_VMA) hart_mask 0 0 s)"

definition sbi_remote_sfence_vma_asid :: "u64 \<Rightarrow> 'z machine_scheme \<Rightarrow> 'z machine_scheme" where
  "sbi_remote_sfence_vma_asid hart_mask s = snd (sbi_call (ucast SBI_REMOTE_SFENCE_VMA_ASID) hart_mask 0 0 s)"

section \<open>Reports (assert.c)\<close>

text \<open>The digits in the order the loop of \<open>putline\<close> stores them, the lowest first.\<close>

function line_digits :: "u32 \<Rightarrow> u8 list" where
  "line_digits line = (if line = 0 then [] else (ucast (line mod 10) + 48) # line_digits (line div 10))"
  by pat_completeness auto
termination
proof (relation "measure unat")
  fix line :: u32
  assume "line \<noteq> 0"
  then have "0 < unat line"
    by (simp add: unat_gt_0)
  then show "(line div 10, line) \<in> measure unat"
    by (simp add: unat_div)
qed simp

definition putline :: "u32 \<Rightarrow> 'z ksched_scheme \<Rightarrow> 'z ksched_scheme" where
  "putline line s = (if line = 0 then s else kput (rev (line_digits line)) s)"

definition report_at :: "string \<Rightarrow> u8 list \<Rightarrow> u8 list \<Rightarrow> u32 \<Rightarrow> u8 list \<Rightarrow> 'z ksched_scheme \<Rightarrow> 'z ksched_scheme" where
  "report_at head file func line msg s =
     (let s1 = kput (lit head @ file @ lit '', func: '' @ func @ lit '', line: '') s
      in kput (lit ''.'' @ [10] @ msg @ [10, 10]) (putline line s1))"

definition warn :: "u8 list \<Rightarrow> u8 list \<Rightarrow> u32 \<Rightarrow> u8 list \<Rightarrow> 'z ksched_scheme \<Rightarrow> 'z ksched_scheme" where
  "warn file func line msg s = report_at ''kernel warning at file: '' file func line msg s"

text \<open>\<open>panic\<close> up to the endless loop of \<open>panic_dead\<close>; nothing sets \<open>is_panic\<close>.\<close>

definition panic_dead :: "'z machine_scheme \<Rightarrow> 'z machine_scheme" where
  "panic_dead s = intr_disable (sbi_shutdown s)"

definition panic_report :: "u8 list \<Rightarrow> u8 list \<Rightarrow> u32 \<Rightarrow> u8 list \<Rightarrow> 'z machine_scheme \<Rightarrow> 'z machine_scheme" where
  "panic_report file func line msg s =
     panic_dead (if \<not> is_panic s then report_at ''kernel panic at file: '' file func line msg s else s)"

section \<open>Messages (debug.c)\<close>

definition symbol_line :: "string \<Rightarrow> u8 list \<Rightarrow> u64 \<Rightarrow> u8 list" where
  "symbol_line name tabs a = 9 # lit name @ tabs @ lit ''0x'' @ num_text 16 (unat a) @ 9 # lit ''(virtual)'' @ [10]"

definition print_kernel_info :: "'z ksched_scheme \<Rightarrow> 'z ksched_scheme" where
  "print_kernel_info s =
     kput (lit ''Special kernel symbols:'' @ [10] @ symbol_line ''entry'' [9, 9] (sym s ''init_kernel'') @
       symbol_line ''etext'' [9, 9] (sym s ''etext'') @ symbol_line ''edata'' [9, 9] (sym s ''edata'') @
       symbol_line ''end'' [9, 9] (sym s ''end'') @ [10]) s"

definition layout_line :: "string \<Rightarrow> string \<Rightarrow> u8 list" where
  "layout_line name a = 9 # lit name @ 9 # lit a @ [10]"

definition print_memory_info :: "'z ksched_scheme \<Rightarrow> 'z ksched_scheme" where
  "print_memory_info s =
     kput (lit ''Memory layout:'' @ [10] @
       layout_line ''DRAM_BEGIN_PA'' ''0x80000000'' @ layout_line ''DRAM_BEGIN_VA'' ''0xFFFFFFFFC0000000'' @
       layout_line ''DRAM_END_PA'' ''0x88000000'' @ layout_line ''DRAM_END_VA'' ''0xFFFFFFFFC8000000'' @
       layout_line ''KERNEL_BEGIN_PA'' ''0x80200000'' @ layout_line ''KERNEL_BEGIN_VA'' ''0xFFFFFFFFC0200000'' @
       layout_line ''KERNEL_END_PA'' ''0x82000000'' @ layout_line ''KERNEL_END_VA'' ''0xFFFFFFFFC2000000'' @
       layout_line ''USER_BEGIN_PA'' ''0x82000000'' @ layout_line ''USER_BEGIN_VA'' ''0xFFFFFFFFC2000000'' @
       layout_line ''USER_END_PA'' ''0x88000000'' @ layout_line ''USER_END_VA'' ''0xFFFFFFFFC8000000'' @ [10]) s"

text \<open>\<open>g_pages\<close> as \<open>init_page\<close> sets it, and \<open>sizeof(struct page)\<close>.\<close>

definition g_pages :: "'z ksched_scheme \<Rightarrow> u64" where
  "g_pages s = roundup (sym s ''end'') PAGE_SIZE"

definition PAGE_STRUCT_SIZE :: u64 where [const_defs]: "PAGE_STRUCT_SIZE = 56"

definition print_pages_info :: "'z ksched_scheme \<Rightarrow> 'z ksched_scheme" where
  "print_pages_info s =
     (let pages_end = g_pages s + (g_num_qemu_pages + g_num_kernel_pages + g_num_free_pages) * PAGE_STRUCT_SIZE;
          hex = (\<lambda>a. [9, 9, 9] @ lit ''0x'' @ num_text 16 (unat a) @ 9 # lit ''(virtual)'' @ [10]);
          dec = (\<lambda>n. [9, 9, 9] @ num_text 10 (unat n) @ [10])
      in kput (lit ''Pages infomation:'' @ [10] @
           9 # lit ''g_pages begin'' @ [10] @ hex (g_pages s) @ 9 # lit ''g_pages end'' @ [10] @ hex pages_end @
           9 # lit ''number of qemu-reserved pages (0 ~ DRAM_BEGIN)'' @ [10] @ dec g_num_qemu_pages @
           9 # lit ''number of kernel-reserved pages (DRAM_BEGIN ~ KERNEL_END)'' @ [10] @ dec g_num_kernel_pages @
           9 # lit ''number of free pages (USER_BEGIN ~ USER_END)'' @ [10] @ dec g_num_free_pages @ [10]) s)"

section \<open>Initialisers\<close>

definition init_pm_manager :: "'z ksched_scheme \<Rightarrow> 'z ksched_scheme" where
  "init_pm_manager s =
     best_fit_init (kput (lit ''physical memory menager: '' @ lit ''best_fit_pm_manager'' @ [10, 10]) s)"

definition init_pmm :: "'z ksched_scheme \<Rightarrow> 'z ksched_scheme exec" where
  "init_pmm s =
     bind_exec (init_page (init_pm_manager s)) (\<lambda>s1.
     bind_exec (test_best_fit (s1\<lparr>g_bpt := sym s1 ''boot_page_table_sv39''\<rparr>)) (\<lambda>s2.
       test_page (kput (lit ''pmm test succeed!'' @ [10, 10]) s2)))"

definition init_swap :: "'z ksched_scheme \<Rightarrow> 'z ksched_scheme exec" where
  "init_swap s =
     test_swap ((kput (lit ''swap manager: '' @ lit ''fifo_swap_manager'' @ [10, 10]) s)\<lparr>swap_init_flag := True\<rparr>)"

definition SIR_STI :: u64 where [const_defs]: "SIR_STI = push_bit (unat (SCAUSE_STI AND NOT SCAUSE_INTR)) 1"

definition init_idt :: "'z machine_scheme \<Rightarrow> 'z machine_scheme" where
  "init_idt s =
     (let s1 = s\<lparr>csr_sscratch := 0\<rparr>;
          s2 = s1\<lparr>csr_stvec := sym s1 ''all_traps''\<rparr>;
          s3 = s2\<lparr>sstatus := sstatus s2 OR SSTATUS_SUM\<rparr>
      in kput (lit ''init idt'' @ [10, 10]) (intr_enable s3))"

text \<open>\<open>now\<close> is what \<open>get_cycles\<close> reads.\<close>

definition timebase :: u64 where [const_defs]: "timebase = 100000"

definition set_next_timer :: "u64 \<Rightarrow> 'z machine_scheme \<Rightarrow> 'z machine_scheme" where
  "set_next_timer now s = sbi_set_timer (now + timebase) s"

definition init_timer :: "u64 \<Rightarrow> 'z machine_scheme \<Rightarrow> 'z machine_scheme" where
  "init_timer now s =
     (let s1 = set_next_timer now (s\<lparr>csr_sie := csr_sie s OR SIR_STI\<rparr>)
      in kput (lit ''setup timer interrupts'' @ [10, 10]) (s1\<lparr>g_ticks := 0\<rparr>))"

definition TICKS_NUM :: nat where [const_defs]: "TICKS_NUM = 100"

definition print_ticks :: "'z ksched_scheme \<Rightarrow> 'z ksched_scheme" where
  "print_ticks s = kput (num_text 10 TICKS_NUM @ lit '' ticks'' @ [10]) s"

text \<open>\<open>memset(edata, 0, end - edata)\<close>: the bytes, and the variables of the model that live there.\<close>

definition clear_bss :: "'z machine_scheme \<Rightarrow> 'z machine_scheme" where
  "clear_bss s =
     s\<lparr>mem := memset (mem s) (sym s ''edata'') 0 (sym s ''end'' - sym s ''edata''),
       num_free := 0, ide := (\<lambda>_. 0), swap_init_flag := False, test_vmm := None, num_page_fault := 0,
       idle_proc := 0, curr_proc := 0, rq_num_proc := 0, rq_max_time_slice := 0, rq_run_pool := None,
       init_proc_ptr := None, num_proc := 0, g_bpt := 0, g_ticks := 0, is_panic := False\<rparr>"

text \<open>A trap in the kernel: the processor stores the interrupt enable bit and the mode in \<open>sstatus\<close>, and
  \<open>trap_entry.S\<close> saves the registers \<open>r\<close> in a frame at \<open>a\<close>.\<close>

definition kernel_trap_entry ::
  "u64 \<Rightarrow> (gpr \<Rightarrow> u64) \<Rightarrow> u64 \<Rightarrow> u64 \<Rightarrow> 'z ksched_scheme \<Rightarrow> 'z ksched_scheme" where
  "kernel_trap_entry a r pc cause s =
     (let pie = (if sstatus s AND SSTATUS_SIE \<noteq> 0 then sstatus s OR SSTATUS_SPIE else sstatus s AND NOT SSTATUS_SPIE);
          st = (pie OR SSTATUS_SPP) AND NOT SSTATUS_SIE
      in s\<lparr>sstatus := st, tfs := (tfs s)(a := \<lparr>tf_gpr = r, tf_sstatus = st, tf_sepc = pc, tf_stval = 0, tf_scause = cause\<rparr>)\<rparr>)"

text \<open>\<open>init_kernel\<close> up to \<open>run_idle\<close>. The breakpoint traps with the registers \<open>r\<close> at \<open>pc\<close>.\<close>

definition init_kernel ::
  "u64 \<Rightarrow> u64 \<Rightarrow> u64 \<Rightarrow> (gpr \<Rightarrow> u64) \<Rightarrow> u64 \<Rightarrow> 'z machine_scheme \<Rightarrow> 'z machine_scheme exec" where
  "init_kernel now loc a r pc s =
     (let s1 = kput ([10, 10] @ lit ''---Garret-OS is loading...---'' @ [10] @
                 lit ''Github:'' @ 9 # lit ''https://github.com/Flamel-NW/Garret-OS'' @ [10] @
                 lit ''Email:'' @ 9 # lit ''flamel.nw@qq.com'' @ [10, 10, 10]) (clear_bss s);
          s2 = print_kernel_info (print_memory_info s1) in
      bind_exec (init_pmm s2) (\<lambda>s3.
      bind_exec (init_swap (init_idt (print_pages_info s3))) (\<lambda>s4.
      bind_exec (test_vmm_all s4) (\<lambda>s5.
      bind_exec (init_proc 0 (init_scheduler s5)) (\<lambda>s6.
      bind_exec (trap loc a (kernel_trap_entry a r pc SCAUSE_B (init_timer now s6))) (\<lambda>(_, s7). ret s7))))))"

section \<open>The first programs (proc.c)\<close>

partial_function (option) putstr_at :: "u64 \<Rightarrow> 'z ksched_scheme \<Rightarrow> 'z ksched_scheme exec" where
  "putstr_at a s =
     bind_exec (user_load a s) (\<lambda>(b, s1). if b = 0 then ret s1 else putstr_at (a + 1) (kput [b] s1))"

text \<open>\<open>kernel_execve\<close>: the breakpoint becomes the system call \<open>SYS_EXEC\<close>. When it succeeds the frame
  is one of user mode and the function does not return; the first result is false then. A system call that
  waits gives the second result.\<close>

definition kernel_execve ::
  "u64 \<Rightarrow> u64 \<Rightarrow> (gpr \<Rightarrow> u64) \<Rightarrow> u64 \<Rightarrow> u64 \<Rightarrow> u64 \<Rightarrow> u64 \<Rightarrow> 'z ksched_scheme \<Rightarrow>
   (bool \<times> waiting option \<times> 'z ksched_scheme) exec" where
  "kernel_execve loc a r pc name bin len_bin s =
     (let s1 = kput (lit ''kernel_execve: pid = '' @ int_text 10 (p_pid (curr_pcb s)) @ lit '', name = '' @ [34]) s in
      bind_exec (putstr_at name s1) (\<lambda>s2.
      bind_exec (user_strlen name 0 (kput [34, 10] s2)) (\<lambda>(len, s3).
      let regs = r(A0 := of_i32 SYS_EXEC, A1 := name, A2 := len, A3 := bin, A4 := len_bin, A7 := EBREAK_MAGIC) in
      bind_exec (trap loc a (kernel_trap_entry a regs pc SCAUSE_B s3)) (\<lambda>(w, s4).
        if w = None \<and> tf_sstatus (tfs s4 a) AND SSTATUS_SPP \<noteq> 0
        then ret (True, None, kput (lit ''ret = '' @ num_text 10 (unat (tf_gpr (tfs s4 a) A0)) @ [10]) s4)
        else ret (False, w, s4)))))"

definition user_main ::
  "u64 \<Rightarrow> u64 \<Rightarrow> (gpr \<Rightarrow> u64) \<Rightarrow> u64 \<Rightarrow> 'z ksched_scheme \<Rightarrow> (waiting option \<times> 'z ksched_scheme) exec" where
  "user_main loc a r pc s =
     bind_exec (kernel_execve loc a r pc (sym s ''hello'') (sym s ''_binary_user_hello_out_start'')
        (sym s ''_binary_user_hello_out_size'') s) (\<lambda>(back, w, s1). if back then panic else ret (w, s1))"

text \<open>\<open>init_main\<close> around its tests: the creation of the user process, one round of the loop that waits for
  children, and the final assertions.\<close>

definition init_main_spawn :: "u64 \<Rightarrow> 'z ksched_scheme \<Rightarrow> 'z ksched_scheme exec" where
  "init_main_spawn w s =
     bind_exec (kernel_proc (sym s ''user_main'') 0 0 w s) (\<lambda>(r, s1).
       case r of
         Inr _ \<Rightarrow> None
       | Inl pid \<Rightarrow>
           if pid \<le> 0 then panic
           else case p_child (curr_pcb s1) of
             None \<Rightarrow> ret s1
           | Some p \<Rightarrow> ret (if p_pid (procs s1 p) = pid then upd_proc p (\<lambda>q. q\<lparr>p_name := ''user_main''\<rparr>) s1 else s1))"

definition init_main_wait :: "'z ksched_scheme \<Rightarrow> ((bool + blocked) \<times> 'z ksched_scheme) exec" where
  "init_main_wait s =
     bind_exec (do_wait 0 0 s) (\<lambda>(r, s1).
       case r of
         Inr b \<Rightarrow> ret (Inr b, s1)
       | Inl v \<Rightarrow> if v = 0 then bind_exec (schedule s1) (\<lambda>s2. ret (Inl True, s2)) else ret (Inl False, s1))"

definition init_main_check :: "'z ksched_scheme \<Rightarrow> 'z ksched_scheme exec" where
  "init_main_check s =
     (let s1 = kput (lit ''all user-mode processes have quit.'' @ [10]) s in
      case init_proc_ptr s1 of
        None \<Rightarrow> null_deref
      | Some i \<Rightarrow>
          assert_then (p_child (procs s1 i) = None \<and> p_younger (procs s1 i) = None \<and> p_older (procs s1 i) = None)
            (assert_then (num_proc s1 = 2)
              (assert_then (nxt (proc_links s1) proc_head = LNode i)
                (assert_then (prv (proc_links s1) proc_head = LNode i)
                  (ret (kput (lit ''init check memory pass.'' @ [10]) s1))))))"

end
