(* ===== verification/Boot_Props.thy ===== *)
theory Boot_Props
  imports Boot Proc_Props
begin

text \<open>
  What the start of the kernel establishes: \<open>init_proc\<close> of \<open>kernel/proc/proc.c\<close>, run on an empty run
  queue and enough free memory, leaves the process table, the process numbers and the run queue in the
  state that the operations on processes require.
\<close>

unbundle bit_operations_syntax

section \<open>Allocation from a memory with a large block\<close>

text \<open>All free blocks lie at least \<open>k\<close> pages below the end of DRAM and one of them has \<open>m\<close> pages.\<close>

definition roomy :: "nat \<Rightarrow> nat \<Rightarrow> 'z pmm_scheme \<Rightarrow> bool" where
  "roomy k m s \<longleftrightarrow> bf_inv s \<and> low_blocks k s \<and> (\<exists>x\<in>set (blocks_of s). m \<le> snd x)"

lemma roomy_cong: "same_free s s' \<Longrightarrow> roomy k m s' = roomy k m s"
  by (simp add: roomy_def low_blocks_def same_free_inv)

lemma low_take_blocks: "\<forall>x\<in>set bs. fst x + (k + n) \<le> m \<Longrightarrow> \<forall>x\<in>set (take_block b n bs). fst x + k \<le> m"
  by (induction b n bs rule: take_block.induct) (auto split: if_splits)

text \<open>Taking \<open>n\<close> pages leaves at least \<open>m\<close> pages of a block of \<open>n + m\<close>.\<close>

lemma take_keeps_large:
  assumes "x \<in> set bs" "n + m \<le> snd x" "0 < m"
  shows "\<exists>y\<in>set (take_block b n bs). m \<le> snd y"
  using assms
proof (induction bs)
  case (Cons z zs)
  then show ?case
    by (cases "x = z") (auto intro: bexI [of _ x])
qed simp

lemma alloc_roomy:
  assumes r: "roomy (k + unat n) (unat n + m) s" and n: "0 < n"
  obtains p s' where "alloc_pages n s = ret (Some p, s')" "0 < m \<Longrightarrow> roomy k m s'" "pmm_only s s'"
    "0x82000 \<le> p" "p < 0x88000" "p \<in> free_pages_of s" "free_pages_of s' = free_pages_of s - {p..<p + unat n}"
proof -
  let ?bs = "blocks_of s" and ?n = "unat n"
  have n': "0 < ?n"
    using n by (simp add: word_less_nat_alt)
  have inv: "bf_inv s" "low_blocks (k + ?n) s"
    using r by (auto simp: roomy_def)
  have abs: "apart ?bs" "blocks_in_range ?bs"
    using inv(1) by (auto simp: bf_inv_def bf_abs_def bf_rep_def)
  obtain x where x: "x \<in> set ?bs" "?n + m \<le> snd x"
    using r by (auto simp: roomy_def)
  then have "pick ?n ?bs None \<noteq> None"
    by (auto simp: pick_none not_less intro!: bexI [of _ x])
  then obtain p l where p: "pick ?n ?bs None = Some (p, l)"
    by (cases "pick ?n ?bs None") auto
  then have b: "(p, l) \<in> set ?bs" "?n \<le> l"
    using pick_sound [OF p] by auto
  have sp: "spec_alloc ?n ?bs = (Some p, take_block p ?n ?bs)"
    by (simp add: spec_alloc_def p)
  obtain s' where s': "alloc_pages n s = ret (Some p, s')" "bf_abs s' (take_block p ?n ?bs)" "pmm_only s s'"
    using alloc_pages_found [OF inv(1) n sp] by auto
  note bl = blocks_of_abs [OF s'(2)]
  have fs: "free_pages_of s' = free_pages_of s - {p..<p + ?n}" "p \<in> free_pages_of s"
    using free_set_take_block [OF abs b(1) n' b(2)] n' by (auto simp: free_pages_of_def bl)
  have pb: "0x82000 \<le> p" "p < 0x88000"
    using blocks_in_rangeD [OF abs(2) b(1)] inv(2) b(1) n' by (auto simp: low_blocks_def)
  have "low_blocks k s'"
    using low_take_blocks [where bs = ?bs and k = k and n = ?n and m = "0x88000" and b = p] inv(2) by (simp add: low_blocks_def bl)
  then have "roomy k m s'" if "0 < m"
    using take_keeps_large [OF x that, where b = p] bf_invI [OF s'(2)] by (simp add: roomy_def bl)
  then show thesis
    using that s'(1,3) pb fs(2,1) by blast
qed

text \<open>What fits into one page, a process control block among others.\<close>

lemma malloc_page:
  assumes r: "roomy (Suc k) (Suc m) s" "0 < m" and n: "drop_bit PAGE_SHIFT (roundup n PAGE_SIZE) = 1"
  obtains p s' where "malloc n s = ret (page_va p, s')" "roomy k m s'" "pmm_only s s'"
    "0x82000 \<le> p" "p < 0x88000" "p \<in> free_pages_of s" "p \<notin> free_pages_of s'" "free_pages_of s' \<subseteq> free_pages_of s"
proof -
  have one: "(1 :: u64) < g_num_free_pages"
    by (simp add: const_defs g_num_free_pages_def)
  obtain p s' where s': "alloc_pages 1 s = ret (Some p, s')" "roomy k m s'" "pmm_only s s'"
      "0x82000 \<le> p" "p < 0x88000" "p \<in> free_pages_of s" "free_pages_of s' = free_pages_of s - {p..<p + unat (1::u64)}"
    by (rule alloc_roomy [of k 1 m s]) (use r in auto)
  show thesis
    by (rule that [of p s']) (use s' one in \<open>auto simp: malloc_def n page2va_ok\<close>)
qed

lemma pcb_page: "drop_bit PAGE_SHIFT (roundup PCB_SIZE PAGE_SIZE) = 1"
  by (simp add: PAGE_SHIFT_def roundup_def PCB_SIZE_def PAGE_SIZE_def)

lemmas malloc_pcb = malloc_page [OF _ _ pcb_page]

section \<open>Allocation of a process\<close>

lemma pmm_only_kern:
  fixes s s' :: "'z ksched_scheme"
  assumes "pmm_only s s'"
  shows "procs s' = procs s" "curr_proc s' = curr_proc s" "idle_proc s' = idle_proc s" "run_pools s' = run_pools s"
    "rq_num_proc s' = rq_num_proc s" "rq_max_time_slice s' = rq_max_time_slice s" "rq_run_pool s' = rq_run_pool s"
    "proc_links s' = proc_links s" "num_proc s' = num_proc s" "prev_pid s' = prev_pid s" "next_pid s' = next_pid s"
    "g_bpt s' = g_bpt s"
  using assms unfolding pmm_only_def by (cases s; cases s'; simp)+

text \<open>What the allocations during a fork leave alone.\<close>

definition fork_frame :: "'z ksched_scheme \<Rightarrow> 'z ksched_scheme \<Rightarrow> bool" where
  "fork_frame s s' \<longleftrightarrow> curr_proc s' = curr_proc s \<and> idle_proc s' = idle_proc s \<and> rq_num_proc s' = rq_num_proc s \<and>
     rq_max_time_slice s' = rq_max_time_slice s \<and> rq_run_pool s' = rq_run_pool s \<and> num_proc s' = num_proc s \<and>
     prev_pid s' = prev_pid s \<and> next_pid s' = next_pid s \<and> g_bpt s' = g_bpt s \<and>
     prv (proc_links s') proc_head = prv (proc_links s) proc_head \<and> nxt (proc_links s') proc_head = nxt (proc_links s) proc_head"

lemma fork_frame_trans: "fork_frame s t \<Longrightarrow> fork_frame t u \<Longrightarrow> fork_frame s u"
  by (simp add: fork_frame_def)

lemma pmm_only_frame: "pmm_only s s' \<Longrightarrow> fork_frame s s'"
  by (simp add: fork_frame_def pmm_only_kern)

lemma upd_proc_frame: "fork_frame s (upd_proc p f s)"
  by (simp add: fork_frame_def upd_proc_def)

lemma same_free_procs: "same_free s (upd_proc p f s)"
  by (simp add: same_free_def upd_proc_def)

lemma page_va_ne_0: "0x82000 \<le> p \<Longrightarrow> p < 0x88000 \<Longrightarrow> page_va p \<noteq> 0"
  using unat_page_va [of p] by (auto simp: dram_page_def simp flip: unat_eq_zero)

lemma page_va_eq: "0x82000 \<le> p \<Longrightarrow> p < 0x88000 \<Longrightarrow> 0x82000 \<le> q \<Longrightarrow> q < 0x88000 \<Longrightarrow> page_va p = page_va q \<longleftrightarrow> p = q"
  using unat_page_va [of p] unat_page_va [of q] by (simp add: word_unat_eq_iff dram_page_def)

lemma alloc_proc_ok:
  assumes "roomy (Suc k) (Suc m) s" "0 < m"
  obtains p s' where "alloc_proc s = ret (Some (page_va p), s')" "roomy k m s'" "fork_frame s s'"
    "procs s' = (procs s)(page_va p := new_pcb (g_bpt s))"
    "0x82000 \<le> p" "p < 0x88000" "p \<in> free_pages_of s" "p \<notin> free_pages_of s'" "free_pages_of s' \<subseteq> free_pages_of s"
proof -
  obtain p s1 where m: "malloc PCB_SIZE s = ret (page_va p, s1)" "roomy k m s1" "pmm_only s s1"
      "0x82000 \<le> p" "p < 0x88000" "p \<in> free_pages_of s" "p \<notin> free_pages_of s1" "free_pages_of s1 \<subseteq> free_pages_of s"
    by (rule malloc_pcb [OF assms])
  obtain s' where a: "alloc_proc s = ret (Some (page_va p), s')" and s': "fork_frame s1 s'" "same_free s1 s'"
      "procs s' = (procs s1)(page_va p := new_pcb (g_bpt s1))"
    using m(1) page_va_ne_0 [OF m(4,5)]
    by (simp add: alloc_proc_def Let_def fork_frame_def same_free_def init_list_def upd_proc_def)
  show thesis
    by (rule that [OF a])
      (use m s' pmm_only_kern [OF m(3)] fork_frame_trans [OF pmm_only_frame [OF m(3)] s'(1)]
        in \<open>simp_all add: roomy_cong same_free_inv\<close>)
qed

lemma alloc_kernel_stack_ok:
  assumes "roomy 2 2 s"
  obtains s' va where "alloc_kernel_stack p s = ret (0, s')" "fork_frame s s'"
    "procs s' = (procs s)(p := (procs s p)\<lparr>p_kernel_stack := va\<rparr>)"
proof -
  have n: "unat KERNEL_STACK_PAGE = 2" "0 < KERNEL_STACK_PAGE"
    by (simp_all add: KERNEL_STACK_PAGE_def)
  obtain q s1 where a: "alloc_pages KERNEL_STACK_PAGE s = ret (Some q, s1)" "pmm_only s s1" "0x82000 \<le> q" "q < 0x88000"
    by (rule alloc_roomy [of 0 KERNEL_STACK_PAGE 0 s, unfolded n(1) add_0_left add_0_right, OF assms n(2)])
  show thesis
    by (rule that [of "upd_proc p (\<lambda>r. r\<lparr>p_kernel_stack := page_va q\<rparr>) s1" "page_va q"])
      (use a in \<open>simp_all add: alloc_kernel_stack_def page2va_ok pmm_only_kern
        fork_frame_trans [OF pmm_only_frame upd_proc_frame]\<close>)
qed

section \<open>The first process\<close>

lemma wakeup_curr: "wakeup_proc p s = ret s' \<Longrightarrow> curr_proc s' = curr_proc s"
proof -
  assume w: "wakeup_proc p s = ret s'"
  obtain flag s1 where i: "local_intr_save s = (flag, s1)" "curr_proc s1 = curr_proc s"
    by (rule local_intr_cases [of s])
  show ?thesis
    using w i(2) by (auto simp: wakeup_proc_def i(1) Let_def scheduler_enqueue_def bind_exec_eq_ret
        assert_then_eq_ret stride_enqueue_effect(5) split: if_splits)
qed

lemma fork_first:
  assumes r: "do_fork_register p s = ret (n, s')" and first: "proc_rep s []" "prev_pid s = MAX_PID"
  shows "n = 1" "p_pid (procs s' p) = 1" "curr_proc s' = curr_proc s" "idle_proc s' = idle_proc s"
    "q \<noteq> p \<Longrightarrow> p_pid (procs s' q) = p_pid (procs s q)"
proof -
  obtain flag s1 where i: "local_intr_save s = (flag, s1)" "same_rq s s1" "procs s1 = procs s"
      "idle_proc s1 = idle_proc s" "curr_proc s1 = curr_proc s"
    by (rule local_intr_cases [of s])
  note f1 = same_familyD [OF save_family [OF i(1)]]
  have "nxt (proc_links s1) proc_head = proc_head"
    using first(1) by (simp add: f1 proc_rep_def dlist_def)
  then have "alloc_pid s1 = ret (1, s1\<lparr>prev_pid := 1, next_pid := MAX_PID\<rparr>)"
    using first(2) by (simp add: alloc_pid_def f1 alloc_pid_loop.simps)
  then obtain s4 s5 where s4: "set_links p (hash_proc p (upd_proc p (\<lambda>q. q\<lparr>p_pid := 1\<rparr>)
        (s1\<lparr>prev_pid := 1, next_pid := MAX_PID\<rparr>))) = ret s4"
      and s5: "wakeup_proc p (local_intr_restore flag s4) = ret s'" and n: "n = p_pid (procs s' p)"
    using r by (auto simp: do_fork_register_def i(1) Let_def bind_exec_eq_ret)
  note l = links_onlyD [OF set_links_data [OF s4]]
  note f = same_familyD [OF wakeup_family [OF s5]] same_familyD [OF restore_family]
  show "p_pid (procs s' p) = 1" "idle_proc s' = idle_proc s" "q \<noteq> p \<Longrightarrow> p_pid (procs s' q) = p_pid (procs s q)"
    by (simp_all add: f l i)
  then show "n = 1"
    by (simp add: n)
  show "curr_proc s' = curr_proc s"
    using wakeup_curr [OF s5] l i(5) by simp
qed

lemma hash_lists_frame:
  "fork_frame s (init_hash_lists k s)" "same_free s (init_hash_lists k s)" "procs (init_hash_lists k s) = procs s"
proof (induction k)
  case (Suc k)
  {
    case 1
    then show ?case
      using Suc.IH(1) by (simp add: Let_def fork_frame_def)
  next
    case 2
    then show ?case
      using Suc.IH(2) by (simp add: Let_def same_free_def)
  next
    case 3
    then show ?case
      using Suc.IH(3) by (simp add: Let_def)
  }
qed (simp_all add: fork_frame_def same_free_def)

lemma empty_queue:
  assumes "rq_run_pool s = None" "rq_num_proc s = 0" "0 < rq_max_time_slice s"
  shows "stride_inv s" "stride_queue s = {}"
proof -
  have "rq_rep s Leaf"
    using assms by (simp add: rq_rep_def stride_window_def)
  then show "stride_inv s" "stride_queue s = {}"
    by (auto simp: stride_inv_def rq_rep_queue)
qed

text \<open>The state of \<open>do_fork\<close> before the new process is registered.\<close>

definition first_fork :: "pcb_ptr \<Rightarrow> pcb_ptr \<Rightarrow> 'z ksched_scheme \<Rightarrow> bool" where
  "first_fork d p s \<longleftrightarrow> p \<noteq> d \<and> idle_proc s = d \<and> curr_proc s = d \<and> proc_rep s [] \<and>
     prev_pid s = MAX_PID \<and> next_pid s = MAX_PID \<and> rq_run_pool s = None \<and> rq_num_proc s = 0 \<and> 0 < rq_max_time_slice s \<and>
     p_state (procs s d) = PROC_RUNNABLE \<and> p_child (procs s d) = None \<and> proc_ok s d \<and>
     p_state (procs s p) = PROC_UNINIT \<and> p_child (procs s p) = None \<and> p_parent (procs s p) = Some d \<and> proc_ok s p \<and>
     p_stride (procs s p) = 0"

lemma first_register:
  assumes "first_fork d p s"
  shows "\<exists>s'. do_fork_register p s = ret (1, s') \<and> family s' [p] (\<lambda>q. if q = d then [p] else []) \<and> pid_inv s' [p] \<and>
    sched_inv {p} s' \<and> run_set {p} s' = {p} \<and> num_proc s' = num_proc s + 1 \<and> curr_proc s' = d \<and> idle_proc s' = d \<and>
    p_pid (procs s' p) = 1 \<and> p_pid (procs s' d) = p_pid (procs s d)"
proof -
  note f = assms [unfolded first_fork_def]
  have st: "p_state (procs s p) \<noteq> PROC_RUNNABLE"
    using f by (simp add: const_defs)
  then have rs: "run_set {p} s = {}"
    by (auto simp: run_set_def)
  have fam: "family s [] (\<lambda>_. [])"
    using f by (simp add: family_def kids_def)
  have pid: "pid_inv s []"
    using f by (simp add: pid_inv_def MAX_PID_def MAX_PROCESS_def)
  have w: "stride_window (Suc (unat BIG_STRIDE)) 0 s (insert p (run_set {p} s))"
    using f by (simp add: rs stride_window_def ahead_def)
  have inv: "sched_inv {p} s"
    using f rs empty_queue [of s] by (auto simp: sched_inv_def stride_window_def)
  obtain n s' where r: "do_fork_register p s = ret (n, s')" "family s' [p] ((\<lambda>_. [])(d := [p], p := []))" "pid_inv s' [p]"
      "sched_inv {p} s'" "run_set {p} s' = {p}" "num_proc s' = num_proc s + 1"
    using do_fork_register_ok [OF fam pid, of p d 0] f inv w rs by (auto simp: MAX_PID_def MAX_PROCESS_def)
  have "(\<lambda>_. [])(d := [p], p := []) = (\<lambda>q. if q = d then [p] else [])"
    using f by auto
  then show ?thesis
    using r f fork_first [OF r(1)] by auto
qed

text \<open>A fork by the idle process, which has no user memory.\<close>

lemma first_do_fork:
  assumes room: "roomy 3 3 s" and few: "num_proc s = 1" and d: "idle_proc s = d" "curr_proc s = d" "p_vmm (procs s d) = None"
      "p_wait_state (procs s d) = WAIT_NONE" "p_state (procs s d) = PROC_RUNNABLE" "p_child (procs s d) = None" "proc_ok s d"
    and first: "proc_rep s []" "prev_pid s = MAX_PID" "next_pid s = MAX_PID"
    and rq: "rq_run_pool s = None" "rq_num_proc s = 0" "0 < rq_max_time_slice s"
    and gpt: "DRAM_BEGIN_VA < g_bpt s" "g_bpt s < DRAM_END_VA"
    and apart: "\<And>q. q \<in> free_pages_of s \<Longrightarrow> 0x82000 \<le> q \<Longrightarrow> q < 0x88000 \<Longrightarrow> page_va q \<noteq> d"
  shows "\<exists>p s4 s'. do_fork stack tf flags w s = ret (Inl 1, s') \<and> first_fork d p s4 \<and> do_fork_register p s4 = ret (1, s') \<and>
    p_pid (procs s4 d) = p_pid (procs s d) \<and> num_proc s4 = 1"
proof -
  obtain q s1 where a: "alloc_proc s = ret (Some (page_va q), s1)" "roomy 2 2 s1" "fork_frame s s1"
      "procs s1 = (procs s)(page_va q := new_pcb (g_bpt s))" "0x82000 \<le> q" "q < 0x88000" "q \<in> free_pages_of s"
    by (rule alloc_proc_ok [of 2 2 s]) (use room in simp_all)
  let ?p = "page_va q"
  define s2 where "s2 = upd_proc ?p (\<lambda>q. q\<lparr>p_parent := Some (curr_proc s1)\<rparr>) s1"
  have room2: "roomy 2 2 s2"
    using a(2) by (simp add: s2_def roomy_cong [OF same_free_procs])
  obtain s3 va where k: "alloc_kernel_stack ?p s2 = ret (0, s3)" "fork_frame s2 s3"
      "procs s3 = (procs s2)(?p := (procs s2 ?p)\<lparr>p_kernel_stack := va\<rparr>)"
    by (rule alloc_kernel_stack_ok [OF room2])
  define s4 where "s4 = copy_proc ?p stack tf s3"
  have ne: "?p \<noteq> d"
    by (rule apart [OF a(7,5,6)])
  have "fork_frame s3 s4"
    by (simp add: s4_def copy_proc_def Let_def fork_frame_def upd_proc_def)
  then have fr: "fork_frame s s4"
    using a(3) k(2) upd_proc_frame unfolding s2_def by (blast intro: fork_frame_trans)
  have c1: "curr_proc s1 = d" "curr_proc s2 = d" "curr_proc s3 = d"
    using a(3) k(2) d(2) by (simp_all add: fork_frame_def s2_def)
  have P2: "procs s2 = (procs s)(?p := (new_pcb (g_bpt s))\<lparr>p_parent := Some d\<rparr>)"
    by (simp add: s2_def a(4) c1)
  have P4: "procs s4 = (procs s3)(?p := (procs s3 ?p)\<lparr>p_tf := p_tf (procs s4 ?p), p_context := p_context (procs s4 ?p)\<rparr>)"
    by (simp add: s4_def copy_proc_def Let_def)
  have pd: "procs s4 d = procs s d" "procs s3 d = procs s d" "procs s2 d = procs s d"
    by (subst P4) (use ne in \<open>simp_all add: k(3) P2\<close>)
  have pp: "p_state (procs s4 ?p) = PROC_UNINIT" "p_child (procs s4 ?p) = None" "p_parent (procs s4 ?p) = Some d"
      "p_stride (procs s4 ?p) = 0" "p_gpt (procs s4 ?p) = g_bpt s" "p_priority (procs s4 ?p) = 1" "p_time_slice (procs s4 ?p) = 0"
    by (subst P4, simp add: k(3) P2 new_pcb_def)+
  have ff: "first_fork d ?p s4"
    using fr ne d(1,2,5-7) first rq gpt
    by (simp add: first_fork_def fork_frame_def pp pd proc_ok_def proc_rep_def dlist_def)
  then obtain s' where s': "do_fork_register ?p s4 = ret (1, s')"
    using first_register [OF ff] by blast
  have "do_fork stack tf flags w s = ret (Inl 1, s')"
    using few d(3,4)
    by (simp add: do_fork_def a(1) copy_vmm_def do_fork_copied_def c1(2,3) pd k(1) s' MAX_PROCESS_def E_NO_MEM_def
        del: upd_proc_sel flip: s2_def s4_def)
  then show ?thesis
    using ff s' fr few pd(1) by (intro exI [of _ ?p] exI [of _ s4] exI [of _ s']) (simp add: fork_frame_def)
qed

lemma final_frame:
  fixes s :: "'z ksched_scheme"
  assumes "s' = kput cs (upd_proc p (\<lambda>q. q\<lparr>p_name := n\<rparr>) (s\<lparr>init_proc_ptr := i\<rparr>))"
  shows "family s' ps K = family s ps K" "pid_inv s' ps = pid_inv s ps" "sched_inv P s \<Longrightarrow> sched_inv P s'"
    "run_set P s' = run_set P s" "num_proc s' = num_proc s" "curr_proc s' = curr_proc s" "idle_proc s' = idle_proc s"
    "p_pid (procs s' q) = p_pid (procs s q)" "init_proc_ptr s' = i"
proof -
  have kids: "kids (procs s') q xs = kids (procs s) q xs" for q xs
  proof -
    have "p_child (procs s' x) = p_child (procs s x)" "p_younger (procs s' x) = p_younger (procs s x)"
        "p_older (procs s' x) = p_older (procs s x)" "p_parent (procs s' x) = p_parent (procs s x)" for x
      by (simp_all add: assms kput_def)
    then show ?thesis
      using sseg_cong [of xs "procs s'" "procs s" None None] by (simp add: kids_def)
  qed
  have proj: "proc_links s' = proc_links s" "prev_pid s' = prev_pid s" "next_pid s' = next_pid s"
    by (simp_all add: assms kput_def upd_proc_def)
  show "family s' ps K = family s ps K"
    unfolding family_def proc_rep_def kids proj by (simp add: assms kput_def upd_proc_def)
  show "pid_inv s' ps = pid_inv s ps"
  proof -
    have "p_pid (procs s' x) = p_pid (procs s x)" for x
      by (simp add: assms kput_def)
    then show ?thesis
      by (simp add: pid_inv_def pids_clear_def pids_def proj)
  qed
  show "sched_inv P s \<Longrightarrow> sched_inv P s'"
    by (rule sched_inv_cong) (auto simp: assms kput_def upd_proc_def same_rq_def)
  show "run_set P s' = run_set P s"
    by (auto simp: run_set_def assms kput_def upd_proc_def)
qed (simp_all add: assms kput_def upd_proc_def)

lemma init_proc_ok:
  assumes room: "roomy 4 4 s" and few: "num_proc s = 0" and first: "prev_pid s = MAX_PID" "next_pid s = MAX_PID"
    and rq: "rq_run_pool s = None" "rq_num_proc s = 0" "0 < rq_max_time_slice s"
    and gpt: "DRAM_BEGIN_VA < g_bpt s" "g_bpt s < DRAM_END_VA"
  shows "\<exists>d i s'. init_proc w s = ret s' \<and> idle_proc s' = d \<and> curr_proc s' = d \<and> init_proc_ptr s' = Some i \<and>
    p_pid (procs s' d) = 0 \<and> p_pid (procs s' i) = 1 \<and> num_proc s' = 2 \<and>
    family s' [i] (\<lambda>q. if q = d then [i] else []) \<and> pid_inv s' [i] \<and> sched_inv {i} s' \<and> run_set {i} s' = {i}"
proof -
  define s2 where "s2 = init_hash_lists HASH_LIST_SIZE (s\<lparr>proc_links := init_list proc_head (proc_links s)\<rparr>)"
  have fr2: "fork_frame (s\<lparr>proc_links := init_list proc_head (proc_links s)\<rparr>) s2" and sf2: "same_free s s2"
    using hash_lists_frame(1,2) [where k = HASH_LIST_SIZE and s = "s\<lparr>proc_links := init_list proc_head (proc_links s)\<rparr>"]
    by (simp_all add: s2_def same_free_def)
  have room2: "roomy (Suc 3) (Suc 3) s2"
    using room by (simp add: roomy_cong [OF sf2])
  obtain q s3 where a: "alloc_proc s2 = ret (Some (page_va q), s3)" "roomy 3 3 s3" "fork_frame s2 s3"
      "procs s3 = (procs s2)(page_va q := new_pcb (g_bpt s2))"
      "0x82000 \<le> q" "q < 0x88000" "q \<in> free_pages_of s2" "q \<notin> free_pages_of s3"
    by (rule alloc_proc_ok [OF room2]) auto
  let ?d = "page_va q"
  define s4 where "s4 = upd_proc ?d (\<lambda>q. q\<lparr>p_pid := 0, p_state := PROC_RUNNABLE, p_kernel_stack := sym s3 ''boot_stack'',
                       p_need_reschedule := True, p_name := ''idle''\<rparr>) (s3\<lparr>idle_proc := ?d\<rparr>)"
  define s5 where "s5 = s4\<lparr>num_proc := num_proc s4 + 1, curr_proc := ?d\<rparr>"
  have sf5: "same_free s3 s5"
    by (simp add: s5_def s4_def same_free_def upd_proc_def)
  have P5: "procs s5 ?d = (new_pcb (g_bpt s))\<lparr>p_pid := 0, p_state := PROC_RUNNABLE, p_kernel_stack := sym s3 ''boot_stack'',
                       p_need_reschedule := True, p_name := ''idle''\<rparr>"
    using fr2 by (simp add: s5_def s4_def a(4) fork_frame_def)
  have sel5: "idle_proc s5 = ?d" "curr_proc s5 = ?d" "num_proc s5 = 1" "proc_rep s5 []" "prev_pid s5 = MAX_PID"
      "next_pid s5 = MAX_PID" "rq_run_pool s5 = None" "rq_num_proc s5 = 0" "0 < rq_max_time_slice s5" "g_bpt s5 = g_bpt s"
    using fr2 a(3) few first rq
    by (simp_all add: s5_def s4_def fork_frame_def upd_proc_def proc_rep_def dlist_def init_list_def)
  have room5: "roomy 3 3 s5"
    using a(2) by (simp add: roomy_cong [OF sf5])
  have apart: "page_va x \<noteq> ?d" if "x \<in> free_pages_of s5" "0x82000 \<le> x" "x < 0x88000" for x
    using that a(5,6,8) by (auto simp: page_va_eq same_free_inv(4) [OF sf5])
  have d5: "p_vmm (procs s5 ?d) = None" "p_wait_state (procs s5 ?d) = WAIT_NONE" "p_state (procs s5 ?d) = PROC_RUNNABLE"
      "p_child (procs s5 ?d) = None" "proc_ok s5 ?d" "p_pid (procs s5 ?d) = 0"
    using gpt by (simp_all add: P5 proc_ok_def new_pcb_def)
  have gpt5: "DRAM_BEGIN_VA < g_bpt s5" "g_bpt s5 < DRAM_END_VA"
    using gpt by (simp_all add: sel5)
  define tf where "tf = \<lparr>tf_gpr = (\<lambda>_. 0)(S0 := sym s5 ''init_main'', S1 := sym s5 ''init_main_arg''),
                tf_sstatus = (sstatus s5 OR SSTATUS_SPIE OR SSTATUS_SPP) AND NOT SSTATUS_SIE,
                tf_sepc = sym s5 ''kernel_proc_entry'', tf_stval = 0, tf_scause = 0\<rparr>"
  obtain p t s6 where f: "do_fork 0 tf (0 OR CLONE_VM) w s5 = ret (Inl 1, s6)" "first_fork ?d p t"
      "do_fork_register p t = ret (1, s6)" "p_pid (procs t ?d) = p_pid (procs s5 ?d)" "num_proc t = 1"
    using first_do_fork [OF room5 sel5(3,1,2) d5(1-5) sel5(4-9) gpt5 apart] by blast
  have k: "kernel_proc (sym s5 ''init_main'') (sym s5 ''init_main_arg'') 0 w s5 = ret (Inl 1, s6)"
    using f(1) by (simp add: kernel_proc_def tf_def)
  have r: "family s6 [p] (\<lambda>q. if q = ?d then [p] else [])" "pid_inv s6 [p]" "sched_inv {p} s6" "run_set {p} s6 = {p}"
      "num_proc s6 = 2" "curr_proc s6 = ?d" "idle_proc s6 = ?d" "p_pid (procs s6 p) = 1" "p_pid (procs s6 ?d) = 0"
    using first_register [OF f(2)] f(3-5) d5(6) by auto
  have g: "get_proc 1 s6 = ret (Some p)"
    using get_proc_ok [OF familyD(1) [OF r(1)], of 1] r(8) by (simp add: MAX_PID_def MAX_PROCESS_def)
  define s' where "s' = kput (lit ''init process!'' @ [10, 10]) (upd_proc p (\<lambda>q. q\<lparr>p_name := ''init''\<rparr>) (s6\<lparr>init_proc_ptr := Some p\<rparr>))"
  note ff = final_frame [OF s'_def]
  have sym5: "ksched.sym s5 = ksched.sym s4"
    by (simp add: s5_def)
  have "?d \<noteq> p"
    using f(2) by (auto simp: first_fork_def)
  then have "init_proc w s = ret s'"
    using k [unfolded sym5] r(6-9) g by (simp add: init_proc_def Let_def a(1) s'_def flip: s2_def s4_def s5_def)
  then show ?thesis
    using r ff by (intro exI [of _ ?d] exI [of _ p] exI [of _ s']) simp
qed

section \<open>Free memory after the start\<close>

text \<open>\<open>init_page\<close> does not clear the page descriptors: it relies on the memory behind \<open>end\<close> being zero.\<close>

lemma reserve_loop_flags:
  "pages (reserve_loop k s) i =
     (if i < k then (pages s i)\<lparr>page_flags := page_flags (pages s i) OR PAGE_RESERVED\<rparr> else pages s i)"
  by (induction k) (auto simp: upd_page_def less_Suc_eq)

lemma reserve_loop_more: "pmm.more (reserve_loop k s) = pmm.more s"
  by (induction k) (simp_all add: upd_page_def)

lemma reserve_loop_init: "reserve_loop k (best_fit_init s) = best_fit_init (reserve_loop k s)"
  by (induction k) (simp_all add: best_fit_init_def upd_page_def)

lemma init_memmap_loop_more: "init_memmap_loop p k s = ret s' \<Longrightarrow> pmm.more s' = pmm.more s"
  by (induction p k s rule: init_memmap_loop.induct) (auto simp: assert_then_eq_ret upd_page_def)

lemma init_memmap_more: "best_fit_init_memmap b n s = ret s' \<Longrightarrow> pmm.more s' = pmm.more s"
  by (auto simp: best_fit_init_memmap_def exec_elims Let_def upd_page_def dest!: init_memmap_loop_more)

lemma init_page_roomy:
  fixes s :: "'z sched_scheme"
  assumes zero: "\<And>i. min_page \<le> i \<Longrightarrow> i < max_page \<Longrightarrow> page_flags (pages s i) AND PAGE_RESERVED = 0"
    and k: "k \<le> 0x6000" and m: "m \<le> unat g_num_free_pages"
  obtains s' where "init_page (best_fit_init s) = ret s'" "roomy k m s'" "pmm_only s s'"
    "free_pages_of s' = {min_page..<max_page}"
proof -
  let ?r = "reserve_loop min_page s"
  have "page_usable ?r i" if "min_page \<le> i" "i < max_page" for i
    using zero that by (simp add: page_usable_def reserve_loop_flags)
  then obtain s' where s': "best_fit_init_memmap min_page g_num_free_pages (best_fit_init ?r) = ret s'"
      "bf_abs s' [(min_page, unat g_num_free_pages)]"
    by (rule bf_boot)
  have "init_page (best_fit_init s) = ret s'"
    using s'(1) by (simp only: init_page_def init_memmap_def reserve_loop_init flip: min_page_def)
  moreover have "roomy k m s'"
    using k m by (simp add: roomy_def low_blocks_def bf_invI [OF s'(2)] blocks_of_abs [OF s'(2)])
  moreover have "pmm.more s' = pmm.more s"
    using init_memmap_more [OF s'(1)] by (simp add: best_fit_init_def reserve_loop_more)
  moreover have "free_pages_of s' = {min_page..<max_page}"
    by (auto simp: free_pages_of_def blocks_of_abs [OF s'(2)])
  ultimately show thesis
    using that by (simp add: pmm_only_def)
qed

text \<open>The memory that \<open>init_page\<close> hands out is enough for \<open>init_proc\<close>.\<close>

lemma boot_processes:
  assumes zero: "\<And>i. min_page \<le> i \<Longrightarrow> i < max_page \<Longrightarrow> page_flags (pages s i) AND PAGE_RESERVED = 0"
    and st: "num_proc s = 0" "prev_pid s = MAX_PID" "next_pid s = MAX_PID"
      "DRAM_BEGIN_VA < g_bpt s" "g_bpt s < DRAM_END_VA"
  shows "\<exists>i s'. bind_exec (init_page (init_pm_manager s)) (\<lambda>s1. init_proc w (init_scheduler s1)) = ret s' \<and>
    init_proc_ptr s' = Some i \<and> num_proc s' = 2 \<and> pid_inv s' [i] \<and> sched_inv {i} s' \<and> run_set {i} s' = {i}"
proof -
  let ?t = "kput (lit ''physical memory menager: '' @ lit ''best_fit_pm_manager'' @ [10, 10]) s"
  have "page_flags (pages ?t i) AND PAGE_RESERVED = 0" if "min_page \<le> i" "i < max_page" for i
    using zero [OF that] by (simp add: kput_def)
  then obtain s1 where s1: "init_page (best_fit_init ?t) = ret s1" "roomy 4 4 s1" "pmm_only ?t s1"
    by (rule init_page_roomy [of ?t 4 4]) simp_all
  let ?u = "init_scheduler s1"
  have "same_free s1 ?u"
    by (simp add: init_scheduler_def stride_init_def same_free_def Let_def)
  then have "roomy 4 4 ?u"
    using s1(2) by (simp add: roomy_cong)
  moreover have "num_proc ?u = 0" "prev_pid ?u = MAX_PID" "next_pid ?u = MAX_PID" "g_bpt ?u = g_bpt s"
    using st pmm_only_kern [OF s1(3)] by (simp_all add: init_scheduler_def stride_init_def Let_def kput_def)
  moreover have "rq_run_pool ?u = None" "rq_num_proc ?u = 0" "0 < rq_max_time_slice ?u"
    by (simp_all add: init_scheduler_def stride_init_def Let_def MAX_TIME_SLICE_def)
  ultimately obtain i s' where "init_proc w ?u = ret s'" "init_proc_ptr s' = Some i" "num_proc s' = 2"
      "pid_inv s' [i]" "sched_inv {i} s'" "run_set {i} s' = {i}"
    using init_proc_ok [of ?u w] st(4,5) by force
  then show ?thesis
    by (intro exI [of _ i] exI [of _ s']) (simp add: init_pm_manager_def s1(1))
qed

text \<open>The boot state of the process data on the memory of \<open>sample_pmm\<close>.\<close>

definition sample_boot :: ksched where
  "sample_boot = sample_kern\<lparr>pages := pages sample_pmm, flinks := flinks sample_pmm, num_free := num_free sample_pmm,
     num_proc := 0, prev_pid := MAX_PID\<rparr>"

lemma sample_boot_roomy: "roomy 4 4 sample_boot"
proof -
  have "same_free sample_pmm sample_boot"
    by (simp add: same_free_def sample_boot_def)
  moreover have "roomy 4 4 sample_pmm"
    by (simp add: roomy_def low_blocks_def bf_invI [OF sample_pmm_abs] blocks_of_abs [OF sample_pmm_abs])
  ultimately show ?thesis
    by (simp add: roomy_cong)
qed

text \<open>C3: the start of the process system. From an empty table, an unused scheduler and free memory
  with a block of four pages, \<open>init_scheduler\<close> and \<open>init_proc\<close> do not panic: they make the
  idle process, which has the number 0 and runs, and its only child \<open>init\<close>, which has the number 1 and is in
  the run queue, and establish the invariants of the process table, of the numbers and of the scheduler that every later
  operation on processes relies on.
\<close>

theorem init_proc_establishes:
  assumes "roomy 4 4 s" "num_proc s = 0" "prev_pid s = MAX_PID" "next_pid s = MAX_PID"
    and "DRAM_BEGIN_VA < g_bpt s" "g_bpt s < DRAM_END_VA"
  shows "\<exists>d i s'. init_proc w (init_scheduler s) = ret s' \<and> idle_proc s' = d \<and> curr_proc s' = d \<and>
    init_proc_ptr s' = Some i \<and> p_pid (procs s' d) = 0 \<and> p_pid (procs s' i) = 1 \<and> num_proc s' = 2 \<and>
    family s' [i] (\<lambda>q. if q = d then [i] else []) \<and> pid_inv s' [i] \<and> sched_inv {i} s' \<and> run_set {i} s' = {i}"
proof (rule init_proc_ok)
  have "same_free s (init_scheduler s)"
    by (simp add: init_scheduler_def stride_init_def same_free_def Let_def)
  then show "roomy 4 4 (init_scheduler s)"
    using assms(1) by (simp add: roomy_cong)
qed (use assms in \<open>simp_all add: init_scheduler_def stride_init_def Let_def MAX_TIME_SLICE_def\<close>)

theorem init_proc_establishes_witness:
  "\<exists>d i s'. init_proc 0 (init_scheduler sample_boot) = ret s' \<and> idle_proc s' = d \<and> init_proc_ptr s' = Some i \<and>
    p_pid (procs s' i) = 1 \<and> family s' [i] (\<lambda>q. if q = d then [i] else []) \<and> sched_inv {i} s'"
proof -
  have "num_proc sample_boot = 0" "prev_pid sample_boot = MAX_PID" "next_pid sample_boot = MAX_PID"
      "DRAM_BEGIN_VA < g_bpt sample_boot" "g_bpt sample_boot < DRAM_END_VA"
    by (simp_all add: sample_boot_def sample_kern_sel) (simp_all add: sample_kern_def ssched.defs const_defs)
  from init_proc_establishes [OF sample_boot_roomy this, of 0] show ?thesis
    by blast
qed

end
