(* ===== verification/User_Prog.thy ===== *)
theory User_Prog
  imports Syscall_Trap
begin

text \<open>
  The programs of \<open>src/user\<close> and their library \<open>src/user/lib\<close>. A program is a tree of its interactions
  with the machine: \<open>Ecall\<close> lists the registers \<open>a0, a1, ...\<close> it sets and continues with the value
  of \<open>a0\<close> after the call, \<open>ULoad n a\<close> and \<open>UStore n a v\<close> access \<open>n\<close> bytes of user memory, and \<open>Tick\<close>
  is computation without effect, for loops that may not end. Only variables whose address a
  program passes on live in memory, at the addresses that are parameters here; a copy made by a fork continues
  with the same tree. \<open>file\<close> is what \<open>__FILE__\<close> stands for.
\<close>

unbundle bit_operations_syntax

section \<open>Programs\<close>

codatatype uprog =
  Ecall "u64 list" "u64 \<Rightarrow> uprog"
| ULoad nat u64 "u64 \<Rightarrow> uprog"
| UStore nat u64 u64 uprog
| Tick uprog

primcorec uspin :: uprog where
  "uspin = Tick uspin"

text \<open>A loop that counts through \<open>xs\<close>.\<close>

definition ufor :: "'a list \<Rightarrow> ('a \<Rightarrow> uprog \<Rightarrow> uprog) \<Rightarrow> uprog \<Rightarrow> uprog" where
  "ufor xs body k = foldr body xs k"

section \<open>System calls (syscall.c) and output (stdio.c)\<close>

text \<open>The result is an \<open>i32\<close>, the lower half of the register.\<close>

definition ucall :: "int \<Rightarrow> u64 list \<Rightarrow> (int \<Rightarrow> uprog) \<Rightarrow> uprog" where
  "ucall num args k = Ecall (of_i32 num # args) (\<lambda>a0. k (to_i32 a0))"

definition u_yield :: "uprog \<Rightarrow> uprog" where "u_yield k = ucall SYS_YIELD [] (\<lambda>_. k)"
definition u_fork :: "(int \<Rightarrow> uprog) \<Rightarrow> uprog" where "u_fork k = ucall SYS_FORK [] k"
definition u_wait :: "int \<Rightarrow> u64 \<Rightarrow> (int \<Rightarrow> uprog) \<Rightarrow> uprog" where "u_wait pid status k = ucall SYS_WAIT [of_i32 pid, status] k"
definition u_putc :: "u64 \<Rightarrow> uprog \<Rightarrow> uprog" where "u_putc c k = ucall SYS_PUTC [c] (\<lambda>_. k)"
definition u_getpid :: "(int \<Rightarrow> uprog) \<Rightarrow> uprog" where "u_getpid k = ucall SYS_GETPID [] k"
definition u_kill :: "int \<Rightarrow> (int \<Rightarrow> uprog) \<Rightarrow> uprog" where "u_kill pid k = ucall SYS_KILL [of_i32 pid] k"
definition u_gettime :: "(int \<Rightarrow> uprog) \<Rightarrow> uprog" where "u_gettime k = ucall SYS_GETTIME [] k"
definition u_set_priority :: "u64 \<Rightarrow> uprog \<Rightarrow> uprog" where "u_set_priority p k = ucall SYS_SET_PRIORITY [p] (\<lambda>_. k)"
definition u_sleep :: "u64 \<Rightarrow> uprog \<Rightarrow> uprog" where "u_sleep t k = ucall SYS_SLEEP [t] (\<lambda>_. k)"

definition uputch :: "u8 \<Rightarrow> uprog \<Rightarrow> uprog" where
  "uputch c k = u_putc (ucast c) k"

text \<open>The string is given by its characters before the terminating zero.\<close>

fun uputstr :: "u8 list \<Rightarrow> uprog \<Rightarrow> uprog" where
  "uputstr [] k = k"
| "uputstr (c # cs) k = uputch c (uputstr cs k)"

text \<open>The buffer of 128 bytes holds every number, so the text is the one \<open>u64toa\<close> and \<open>i64toa\<close> write.\<close>

definition uput_u64 :: "u64 \<Rightarrow> u8 \<Rightarrow> uprog \<Rightarrow> uprog" where
  "uput_u64 v base k =
     uputstr (if 2 \<le> base \<and> base \<le> 36 then num_text (unat base) (unat v) else lit ''u64toa error'' @ [10]) k"

definition uput_i64 :: "int \<Rightarrow> u8 \<Rightarrow> uprog \<Rightarrow> uprog" where
  "uput_i64 v base k =
     uputstr (if 2 \<le> base \<and> base \<le> 36 then int_text (unat base) v else lit ''i64toa error'' @ [10]) k"

text \<open>\<open>sys_exit\<close> does not return; neither does what follows it.\<close>

definition u_exit :: "u64 \<Rightarrow> uprog" where
  "u_exit status = ucall SYS_EXIT [status] (\<lambda>_. uputstr (lit ''BUG: exit failed.'' @ [10]) uspin)"

definition user_main_prog :: "((int \<Rightarrow> uprog) \<Rightarrow> uprog) \<Rightarrow> uprog" where
  "user_main_prog main = main (\<lambda>r. u_exit (of_i32 r))"

section \<open>Assertions (assert.c)\<close>

definition E_PANIC :: int where [const_defs]: "E_PANIC = 10"

definition ureport :: "string \<Rightarrow> string \<Rightarrow> string \<Rightarrow> nat \<Rightarrow> u8 list \<Rightarrow> uprog \<Rightarrow> uprog" where
  "ureport head file func line str k =
     uputstr (lit head @ lit file @ lit '', func: '' @ lit func @ lit '', line: '')
       (uput_u64 (of_nat line) 10 (uputstr (lit ''.'' @ [10] @ str @ [10, 10]) k))"

definition uwarn :: "string \<Rightarrow> string \<Rightarrow> nat \<Rightarrow> u8 list \<Rightarrow> uprog \<Rightarrow> uprog" where
  "uwarn file func line str k = ureport ''user warning at file: '' file func line str k"

definition upanic_dead :: uprog where
  "upanic_dead = u_exit (of_i32 (- E_PANIC))"

text \<open>Nothing sets \<open>is_panic\<close>, so the report is always printed.\<close>

definition upanic :: "string \<Rightarrow> string \<Rightarrow> nat \<Rightarrow> u8 list \<Rightarrow> uprog" where
  "upanic file func line str = ureport ''user panic at file: '' file func line str upanic_dead"

definition uassert :: "string \<Rightarrow> string \<Rightarrow> nat \<Rightarrow> string \<Rightarrow> bool \<Rightarrow> uprog \<Rightarrow> uprog" where
  "uassert file func line txt ok k =
     (if ok then k else upanic file func line (lit ''assertion failed: '' @ lit txt))"

text \<open>The text most programs give to \<open>PANIC\<close>.\<close>

definition fail_text :: "u8 list" where
  "fail_text = lit ''FAIL: T.T'' @ [10]"

section \<open>Small programs\<close>

definition hello_main :: "(int \<Rightarrow> uprog) \<Rightarrow> uprog" where
  "hello_main k =
     uputstr (lit ''Hello world!.'' @ [10]) (uputstr (lit ''I am process '')
       (u_getpid (\<lambda>pid. uput_i64 pid 10 (uputstr (lit ''.'' @ [10] @ lit ''hello pass.'' @ [10]) (k 0)))))"

definition yield_main :: "(int \<Rightarrow> uprog) \<Rightarrow> uprog" where
  "yield_main k =
     uputstr (lit ''Hello, I am process '') (u_getpid (\<lambda>pid. uput_i64 pid 10 (uputstr (lit ''.'' @ [10])
       (ufor [0..<5] (\<lambda>i k1. u_yield (uputstr (lit ''Back in process '') (u_getpid (\<lambda>pid. uput_i64 pid 10
            (uputstr (lit '', iteration '') (uput_i64 (int i) 10 (uputstr (lit ''.'' @ [10]) k1)))))))
       (uputstr (lit ''All done in process '') (u_getpid (\<lambda>pid. uput_i64 pid 10 (uputstr (lit ''.'' @ [10])
          (uputstr (lit ''yield pass.'' @ [10]) (k 0))))))))))"

text \<open>The division of the processor, which does not trap.\<close>

definition riscv_div :: "int \<Rightarrow> int \<Rightarrow> int" where
  "riscv_div a b = (if b = 0 then - 1 else sgn a * sgn b * (\<bar>a\<bar> div \<bar>b\<bar>))"

definition divzero_main :: "(int \<Rightarrow> uprog) \<Rightarrow> uprog" where
  "divzero_main k =
     (let zero = 0 in
      uputstr (lit ''value is '') (uput_i64 (riscv_div 1 zero) 16
        (uputstr (lit '' (should be -1 in RISC-V).'' @ [10]) (uputstr (lit ''divzero pass.'' @ [10]) (k 0)))))"

definition faultread_main :: "string \<Rightarrow> (int \<Rightarrow> uprog) \<Rightarrow> uprog" where
  "faultread_main file k =
     uputstr (lit ''I will read from 0.'' @ [10]) (ULoad 4 0 (\<lambda>v. uput_u64 v 16 (upanic file ''main'' 7 fail_text)))"

definition faultreadkernel_main :: "string \<Rightarrow> (int \<Rightarrow> uprog) \<Rightarrow> uprog" where
  "faultreadkernel_main file k =
     uputstr (lit ''I will read from 0xfac00000.'' @ [10])
       (ULoad 4 0xfac00000 (\<lambda>v. uput_u64 v 16 (upanic file ''main'' 7 fail_text)))"

definition ARRAYSIZE :: nat where [const_defs]: "ARRAYSIZE = 1024 * 1024"

definition testbss_main :: "string \<Rightarrow> u64 \<Rightarrow> (int \<Rightarrow> uprog) \<Rightarrow> uprog" where
  "testbss_main file bigarray k =
     (let elem = (\<lambda>i. bigarray + 4 * of_nat i) in
      uputstr (lit ''Making sure bss works right...'' @ [10])
        (ufor [0..<ARRAYSIZE] (\<lambda>i k1. ULoad 4 (elem i) (\<lambda>v. uassert file ''main'' 12 ''bigarray[i] == 0'' (v = 0) k1))
        (ufor [0..<ARRAYSIZE] (\<lambda>i k1. UStore 4 (elem i) (of_nat i) k1)
        (ufor [0..<ARRAYSIZE] (\<lambda>i k1. ULoad 4 (elem i) (\<lambda>v. uassert file ''main'' 18 ''bigarray[i] == i'' (v = of_nat i) k1))
        (uputstr (lit ''Yes, good.  Now doing a wild write off the end...'' @ [10])
        (uputstr (lit ''testbss pass.'' @ [10])
        (UStore 4 (elem (ARRAYSIZE + 1024)) 0 (upanic file ''main'' 25 fail_text))))))))"

section \<open>Parents and children\<close>

definition uyields :: "nat \<Rightarrow> uprog \<Rightarrow> uprog" where
  "uyields n k = ufor [0..<n] (\<lambda>_ k1. u_yield k1) k"

definition MAGIC :: u64 where [const_defs]: "MAGIC = 0x10384"

text \<open>\<open>code\<close> is the address of the variable of that name, which \<open>sys_wait\<close> gets; it has eight bytes.\<close>

definition exit_main :: "string \<Rightarrow> u64 \<Rightarrow> (int \<Rightarrow> uprog) \<Rightarrow> uprog" where
  "exit_main file code k =
     uputstr (lit ''I am the parent. Forking the child...'' @ [10]) (u_fork (\<lambda>pid.
       if pid = 0 then uputstr (lit ''I am the child.'' @ [10]) (uyields 7 (u_exit MAGIC))
       else
         uputstr (lit ''I am parent, fork a child pid '') (uput_i64 pid 10 (uputstr [10]
         (uassert file ''main'' 24 ''pid > 0'' (pid > 0)
         (uputstr (lit ''I am the parent, waiting now..'' @ [10])
         (UStore 8 code 0 (u_wait pid code (\<lambda>r1.
         let fail1 = uassert file ''main'' 28 ''sys_wait(pid, &code) == 0 && code == MAGIC'' in
         if r1 \<noteq> 0 then fail1 False uspin
         else ULoad 8 code (\<lambda>c. fail1 (c = MAGIC) (u_wait pid code (\<lambda>r2.
         let fail2 = uassert file ''main'' 29 ''sys_wait(pid, &code) != 0 && sys_wait(0, NULL) != 0'' in
         if r2 = 0 then fail2 False uspin
         else u_wait 0 0 (\<lambda>r3. fail2 (r3 \<noteq> 0)
           (uputstr (lit ''waitpid '') (uput_i64 pid 10 (uputstr (lit '' ok.'' @ [10])
           (uputstr (lit ''exit pass.'' @ [10]) (k 0))))))))))))))))))"

definition spin_main :: "string \<Rightarrow> (int \<Rightarrow> uprog) \<Rightarrow> uprog" where
  "spin_main file k =
     uputstr (lit ''I am the parent. Forking the child...'' @ [10]) (u_fork (\<lambda>pid.
       if pid = 0 then uputstr (lit ''I am the child. spinning ...'' @ [10]) uspin
       else
         uputstr (lit ''I am the parent. Running the child...'' @ [10]) (uyields 3
         (uputstr (lit ''I am the parent.  Killing the child...'' @ [10]) (u_kill pid (\<lambda>r.
         uassert file ''main'' 23 ''(ret = sys_kill(pid)) == 0'' (r = 0)
         (uputstr (lit ''sys_kill returns '') (uput_i64 r 10 (uputstr [10] (u_wait pid 0 (\<lambda>r.
         uassert file ''main'' 26 ''(ret = sys_wait(pid, NULL)) == 0'' (r = 0)
         (uputstr (lit ''wait returns '') (uput_i64 r 10 (uputstr [10]
         (uputstr (lit ''spin pass.'' @ [10]) (k 0))))))))))))))))"

definition MAX_CHILD :: nat where [const_defs]: "MAX_CHILD = 32"

definition forktest_main :: "string \<Rightarrow> (int \<Rightarrow> uprog) \<Rightarrow> uprog" where
  "forktest_main file k =
     ufor [0..<MAX_CHILD] (\<lambda>n k1. u_fork (\<lambda>pid.
         if pid = 0 then uputstr (lit ''I am child '') (uput_i64 (int n) 10 (uputstr [10] (u_exit 0)))
         else uassert file ''main'' 15 ''pid > 0'' (pid > 0) k1))
       (let n = MAX_CHILD in
        if n > MAX_CHILD then
          uputstr (lit ''fork claimed to work '') (uput_i64 (int n) 10
            (uputstr (lit ''times!'' @ [10]) (upanic file ''main'' 20 [])))
        else
          ufor [0..<n] (\<lambda>_ k1. u_wait 0 0 (\<lambda>r.
              if r \<noteq> 0 then upanic file ''main'' 25 (lit ''wait stopped early'' @ [10]) else k1))
            (u_wait 0 0 (\<lambda>r.
              if r = 0 then upanic file ''main'' 28 (lit ''wait got too many'' @ [10])
              else uputstr (lit ''forktest pass.'' @ [10]) (k 0))))"

definition sleep_child :: uprog where
  "sleep_child =
     ufor [0..<10] (\<lambda>i k. u_sleep 100 (uputstr (lit ''sleep '') (uput_i64 (int i + 1) 10
       (uputstr (lit '' * 100 slices.'' @ [10]) k)))) (u_exit 0)"

definition sleep_main :: "string \<Rightarrow> u64 \<Rightarrow> (int \<Rightarrow> uprog) \<Rightarrow> uprog" where
  "sleep_main file code k =
     u_gettime (\<lambda>time. u_fork (\<lambda>pid.
       if pid = 0 then sleep_child
       else u_wait pid code (\<lambda>r.
         let check = uassert file ''main'' 22 ''sys_wait(pid, &code) == 0 && code == 0'' in
         if r \<noteq> 0 then check False uspin
         else ULoad 8 code (\<lambda>c. check (c = 0)
           (uputstr (lit ''use '') (u_gettime (\<lambda>now. uput_i64 (now - time) 10
           (uputstr (lit '' msecs.'' @ [10]) (uputstr (lit ''sleep pass.'' @ [10]) (k 0))))))))))"

definition sleepkill_main :: "string \<Rightarrow> (int \<Rightarrow> uprog) \<Rightarrow> uprog" where
  "sleepkill_main file k =
     u_fork (\<lambda>pid.
       if pid = 0 then u_sleep (- 1) (upanic file ''main'' 9 fail_text)
       else uassert file ''main'' 11 ''pid > 0'' (pid > 0)
         (u_sleep 100 (u_kill pid (\<lambda>r. uassert file ''main'' 13 ''sys_kill(pid) == 0'' (r = 0)
         (uputstr (lit ''sleepkill pass.'' @ [10]) (k 0))))))"

definition badarg_main :: "string \<Rightarrow> u64 \<Rightarrow> (int \<Rightarrow> uprog) \<Rightarrow> uprog" where
  "badarg_main file code k =
     (let magic = 0xbeaf in
      u_fork (\<lambda>pid.
        if pid = 0 then uputstr (lit ''fork ok.'' @ [10]) (uyields 10 (u_exit magic))
        else uassert file ''main'' 18 ''pid > 0'' (pid > 0) (u_wait (- 1) 0 (\<lambda>r.
          uassert file ''main'' 19 ''sys_wait(-1, NULL) != 0'' (r \<noteq> 0) (u_wait pid 0xC0000000 (\<lambda>r.
          uassert file ''main'' 20 ''sys_wait(pid, (void*) 0xC0000000) != 0'' (r \<noteq> 0) (u_wait pid code (\<lambda>r.
          let check = uassert file ''main'' 21 ''sys_wait(pid, &code) == 0 && code == magic'' in
          if r \<noteq> 0 then check False uspin
          else ULoad 8 code (\<lambda>c. check (c = magic) (uputstr (lit ''badarg pass.'' @ [10]) (k 0)))))))))))"

definition waitkill_work :: "int \<Rightarrow> int \<Rightarrow> uprog" where
  "waitkill_work parent pid1 =
     uputstr (lit ''child 2.'' @ [10]) (uyields 6 (u_kill parent (\<lambda>r.
       if r = 0 then
         uputstr (lit ''waitkill parent pass.'' @ [10]) (uyields 6 (u_kill pid1 (\<lambda>r.
           if r = 0 then uputstr (lit ''waitkill child1 pass.'' @ [10]) (u_exit 0)
           else u_exit (of_i32 (- 1)))))
       else u_exit (of_i32 (- 1)))))"

definition waitkill_main :: "string \<Rightarrow> (int \<Rightarrow> uprog) \<Rightarrow> uprog" where
  "waitkill_main file k =
     u_getpid (\<lambda>parent. u_fork (\<lambda>pid1.
       if pid1 = 0 then uputstr (lit ''child 1.'' @ [10]) uspin
       else uassert file ''main'' 42 ''pid1 > 0'' (pid1 > 0) (u_fork (\<lambda>pid2.
         if pid2 = 0 then waitkill_work parent pid1
         else if pid2 > 0 then
           uputstr (lit ''wait child 1.'' @ [10]) (u_wait pid1 0 (\<lambda>_.
             uputstr (lit ''pid1 = '') (uput_i64 pid1 10 (uputch 10
               (upanic file ''main'' 51 (lit ''sys_wait returns'' @ [10]))))))
         else u_kill pid1 (\<lambda>_. upanic file ''main'' 56 fail_text)))))"

section \<open>A tree of processes (forktree.c)\<close>

definition DEPTH :: nat where [const_defs]: "DEPTH = 4"

function forktree :: "u8 list \<Rightarrow> uprog \<Rightarrow> uprog" and forkchild :: "u8 list \<Rightarrow> u8 \<Rightarrow> uprog \<Rightarrow> uprog" where
  "forktree cur k =
     uputstr (lit ''PID = '') (u_getpid (\<lambda>pid. uput_i64 pid 10
       (uputstr (lit '': I am '' @ [39]) (uputstr cur (uputstr [39, 10]
         (forkchild cur 48 (forkchild cur 49 k)))))))"
| "forkchild cur branch k =
     (if length cur \<ge> DEPTH then k
      else u_fork (\<lambda>pid. if pid = 0 then forktree (cur @ [branch]) (u_yield (u_exit 0)) else k))"
  by pat_completeness auto
termination
  by (relation "measure (\<lambda>x. case x of Inl (cur, _) \<Rightarrow> 2 * (DEPTH - length cur) + 1 | Inr (cur, _, _) \<Rightarrow> 2 * (DEPTH - length cur))")
    auto

definition forktree_main :: "(int \<Rightarrow> uprog) \<Rightarrow> uprog" where
  "forktree_main k = forktree [] (uputstr (lit ''forktree pass.'' @ [10]) (k 0))"

section \<open>Matrix products (matrix.c)\<close>

text \<open>
  The matrices are \<open>mat i j\<close>. The products and sums of \<open>i32\<close> values wrap around here, as the
  machine instructions do; C leaves their overflow undefined.
\<close>

definition MATSIZE :: nat where [const_defs]: "MATSIZE = 10"
definition MAT_TOTAL :: nat where [const_defs]: "MAT_TOTAL = 21"

type_synonym matrix = "nat \<Rightarrow> nat \<Rightarrow> u32"

definition mat_set :: "nat \<Rightarrow> nat \<Rightarrow> u32 \<Rightarrow> matrix \<Rightarrow> matrix" where
  "mat_set i j v m = m(i := (m i)(j := v))"

definition mat_loop :: "(nat \<Rightarrow> nat \<Rightarrow> 'a \<Rightarrow> 'a) \<Rightarrow> 'a \<Rightarrow> 'a" where
  "mat_loop body = fold (\<lambda>i. fold (\<lambda>j. body i j) [0..<MATSIZE]) [0..<MATSIZE]"

definition matrix_ones :: "matrix \<times> matrix \<Rightarrow> matrix \<times> matrix" where
  "matrix_ones = mat_loop (\<lambda>i j (a, b). (mat_set i j 1 a, mat_set i j 1 b))"

definition mat_product :: "matrix \<Rightarrow> matrix \<Rightarrow> matrix \<Rightarrow> matrix" where
  "mat_product a b =
     mat_loop (\<lambda>i j c. fold (\<lambda>k c. mat_set i j (c i j + a i k * b k j) c) [0..<MATSIZE] (mat_set i j 0 c))"

text \<open>One round of the loop of \<open>work\<close> on \<open>mata\<close>, \<open>matb\<close> and \<open>matc\<close>.\<close>

definition matrix_round :: "matrix \<times> matrix \<times> matrix \<Rightarrow> matrix \<times> matrix \<times> matrix" where
  "matrix_round = (\<lambda>(a, b, c).
     let c1 = mat_product a b c;
         (a1, b1) = mat_loop (\<lambda>i j (a, b). (mat_set i j (c1 i j) a, mat_set i j (c1 i j) b)) (a, b)
     in (a1, b1, c1))"

definition matrix_rounds :: "nat \<Rightarrow> matrix \<times> matrix \<times> matrix \<Rightarrow> matrix \<times> matrix \<times> matrix" where
  "matrix_rounds n = (matrix_round ^^ n)"

text \<open>The rounds have no effect outside the process: they are one tick of \<open>matrix_work\<close>.\<close>

definition matrix_work :: "u32 \<Rightarrow> uprog" where
  "matrix_work n =
     u_yield (uputstr (lit ''pid '') (u_getpid (\<lambda>pid. uput_i64 pid 10
       (uputstr (lit '' is running ('') (uput_i64 (uint n) 10 (uputstr (lit '' times)!.'' @ [10])
       (Tick (uputstr (lit ''pid '') (u_getpid (\<lambda>pid. uput_i64 pid 10 (uputstr (lit '' done!.'' @ [10]) (u_exit 0))))))))))))"

definition matrix_times :: "nat \<Rightarrow> u32" where
  "matrix_times i =
     (let n = fst (rand (srand (of_nat (i * i)))) mod of_nat MAT_TOTAL in (n * n + 10) * 100)"

definition kill_children :: "int list \<Rightarrow> uprog \<Rightarrow> uprog" where
  "kill_children ps k = ufor ps (\<lambda>pid k1. if pid > 0 then u_kill pid (\<lambda>_. k1) else k1) k"

text \<open>\<open>pids\<close> holds the entries assigned so far; the others are still 0.\<close>

fun matrix_fork :: "string \<Rightarrow> nat \<Rightarrow> int list \<Rightarrow> (int list \<Rightarrow> uprog) \<Rightarrow> uprog" where
  "matrix_fork file 0 ps k = k ps"
| "matrix_fork file (Suc n) ps k =
     u_fork (\<lambda>pid.
       if pid = 0 then matrix_work (matrix_times (length ps))
       else if pid < 0 then kill_children (ps @ [pid]) (upanic file ''main'' 61 fail_text)
       else matrix_fork file n (ps @ [pid]) k)"

definition matrix_main :: "string \<Rightarrow> (int \<Rightarrow> uprog) \<Rightarrow> uprog" where
  "matrix_main file k =
     matrix_fork file MAT_TOTAL [] (\<lambda>ps.
       uputstr (lit ''sys_fork ok.'' @ [10])
         (ufor [0..<MAT_TOTAL] (\<lambda>i k1. u_wait 0 0 (\<lambda>r.
             if r \<noteq> 0 then uputstr (lit ''sys_wait failed.'' @ [10]) (kill_children ps (upanic file ''main'' 71 fail_text))
             else k1))
           (uputstr (lit ''matrix pass.'' @ [10]) (k 0))))"

section \<open>Priorities (priority.c)\<close>

definition PRI_TOTAL :: nat where [const_defs]: "PRI_TOTAL = 5"
definition MAX_TIME :: int where [const_defs]: "MAX_TIME = 10000"

text \<open>The endless loop of a child: it counts in \<open>acc[i]\<close>, and asks for the time after every 4000 rounds.\<close>

primcorec priority_child :: "bool \<Rightarrow> u32 \<Rightarrow> uprog" where
  "priority_child ask acc =
     (if ask then
        Ecall [of_i32 SYS_GETTIME] (\<lambda>a0.
          let time = to_i32 a0 in
          if time > MAX_TIME then
            uputstr (lit ''child pid '') (u_getpid (\<lambda>pid. uput_i64 pid 10
              (uputstr (lit '', acc '') (uput_i64 (uint acc) 10
              (uputstr (lit '', time '') (uput_i64 time 10 (uputch 10 (u_exit (ucast acc)))))))))
          else priority_child False acc)
      else Tick (priority_child ((acc + 1) mod 4000 = 0) (acc + 1)))"

fun priority_fork :: "string \<Rightarrow> nat \<Rightarrow> int list \<Rightarrow> (int list \<Rightarrow> uprog) \<Rightarrow> uprog" where
  "priority_fork file 0 ps k = k ps"
| "priority_fork file (Suc n) ps k =
     u_fork (\<lambda>pid.
       if pid = 0 then u_set_priority (of_nat (length ps) + 1) (priority_child False 0)
       else if pid < 0 then kill_children (ps @ [pid]) (upanic file ''main'' 48 fail_text)
       else priority_fork file n (ps @ [pid]) k)"

text \<open>The unsigned division of the processor gives the largest number for the divisor 0.\<close>

definition riscv_divu :: "u64 \<Rightarrow> u64 \<Rightarrow> u64" where
  "riscv_divu a b = (if b = 0 then - 1 else a div b)"

text \<open>\<open>status\<close> is the address of the array of that name.\<close>

definition priority_main :: "string \<Rightarrow> u64 \<Rightarrow> (int \<Rightarrow> uprog) \<Rightarrow> uprog" where
  "priority_main file status k =
     (let elem = (\<lambda>i. status + 8 * of_nat i) in
      u_set_priority (of_nat PRI_TOTAL + 1)
        (priority_fork file PRI_TOTAL [] (\<lambda>ps.
          uputstr (lit ''main: sys_fork ok,now need to wait ps.'' @ [10])
            (ufor [0..<PRI_TOTAL] (\<lambda>i k1.
                UStore 8 (elem i) 0 (u_wait (ps ! i) (elem i) (\<lambda>_.
                  uputstr (lit ''main: pid '') (uput_i64 (ps ! i) 10
                  (uputstr (lit '', acc '') (ULoad 8 (elem i) (\<lambda>v. uput_i64 (sint v) 10
                  (uputstr (lit '', time '') (u_gettime (\<lambda>t. uput_i64 t 10 (uputch 10 k1)))))))))))
            (uputstr (lit ''main: wait ps over'' @ [10])
            (uputstr (lit ''stride sched correct result:'')
            (ufor [0..<PRI_TOTAL] (\<lambda>i k1.
                uputch 32 (ULoad 8 (elem i) (\<lambda>v. ULoad 8 (elem 0) (\<lambda>v0.
                  uput_i64 (sint (riscv_divu (riscv_divu (v * 2) v0 + 1) 2)) 10 k1))))
            (uputch 10 (uputstr (lit ''priority pass.'' @ [10]) (k 0))))))))))"

end
