(* ===== verification/User_Props.thy ===== *)
theory User_Props
  imports User_Prog Trap_Props
begin

text \<open>
  Properties of the user programs. Whatever the kernel answers, a program issues only system calls of
  the kernel's table (\<open>well_called\<close>); \<open>urun\<close> runs one process against a kernel that
  answers its calls, and \<open>family_run\<close> a process together with everything it forks.
\<close>

unbundle bit_operations_syntax

section \<open>Calls that the kernel knows\<close>

definition known_call :: "u64 list \<Rightarrow> bool" where
  "known_call args \<longleftrightarrow> args \<noteq> [] \<and> length args \<le> Suc MAX_SYSCALL_ARGS \<and>
     0 \<le> to_i32 (hd args) \<and> to_i32 (hd args) < SYS_SET_PRIORITY + 1 \<and>
     (syscalls :: int \<Rightarrow> unit handler option) (to_i32 (hd args)) \<noteq> None"

coinductive well_called :: "uprog \<Rightarrow> bool" where
  wc_ecall: "known_call args \<Longrightarrow> (\<And>v. well_called (k v)) \<Longrightarrow> well_called (Ecall args k)"
| wc_load: "(\<And>v. well_called (k v)) \<Longrightarrow> well_called (ULoad n a k)"
| wc_store: "well_called p \<Longrightarrow> well_called (UStore n a v p)"
| wc_tick: "well_called p \<Longrightarrow> well_called (Tick p)"

text \<open>The list of an \<open>Ecall\<close> is what the stub of \<open>syscall.c\<close> puts into the registers.\<close>

lemma ucall_registers:
  assumes "length args \<le> MAX_SYSCALL_ARGS"
  shows "map (user_syscall junk num args r) (take (Suc (length args)) [A0, A1, A2, A3, A4, A5]) = of_i32 num # args"
proof (rule nth_equalityI)
  show "map (user_syscall junk num args r) (take (Suc (length args)) [A0, A1, A2, A3, A4, A5]) ! i = (of_i32 num # args) ! i"
    if "i < length (map (user_syscall junk num args r) (take (Suc (length args)) [A0, A1, A2, A3, A4, A5]))" for i
  proof -
    have "i < 6" "i \<le> length args"
      using that assms by (auto simp: MAX_SYSCALL_ARGS_def)
    then show ?thesis
      by (auto simp: user_syscall_def Let_def less_Suc_eq numeral_eq_Suc nth_Cons')
  qed
qed (use assms in \<open>simp add: MAX_SYSCALL_ARGS_def\<close>)

named_theorems wc_rules

lemmas [wc_rules] = wc_load wc_store wc_tick

lemma known_numbers:
  assumes "num \<in> {SYS_EXIT, SYS_FORK, SYS_WAIT, SYS_YIELD, SYS_SLEEP, SYS_KILL, SYS_GETTIME, SYS_GETPID, SYS_PUTC, SYS_SET_PRIORITY}"
    and "length args \<le> MAX_SYSCALL_ARGS"
  shows "known_call (of_i32 num # args)"
  using assms by (auto simp: known_call_def syscalls_def to_i32_def of_i32_def const_defs)

lemma wc_ucall:
  assumes "num \<in> {SYS_EXIT, SYS_FORK, SYS_WAIT, SYS_YIELD, SYS_SLEEP, SYS_KILL, SYS_GETTIME, SYS_GETPID, SYS_PUTC, SYS_SET_PRIORITY}"
    and "length args \<le> MAX_SYSCALL_ARGS" and "\<And>r. well_called (k r)"
  shows "well_called (ucall num args k)"
  using assms known_numbers [OF assms(1,2)] by (auto simp: ucall_def intro: wc_ecall)

lemma wc_calls [wc_rules]:
  "well_called p \<Longrightarrow> well_called (u_yield p)" "(\<And>r. well_called (k r)) \<Longrightarrow> well_called (u_fork k)"
  "(\<And>r. well_called (k r)) \<Longrightarrow> well_called (u_wait i a k)" "well_called p \<Longrightarrow> well_called (u_putc c p)"
  "(\<And>r. well_called (k r)) \<Longrightarrow> well_called (u_getpid k)" "(\<And>r. well_called (k r)) \<Longrightarrow> well_called (u_kill i k)"
  "(\<And>r. well_called (k r)) \<Longrightarrow> well_called (u_gettime k)" "well_called p \<Longrightarrow> well_called (u_set_priority v p)"
  "well_called p \<Longrightarrow> well_called (u_sleep v p)"
  by (auto simp: u_yield_def u_fork_def u_wait_def u_putc_def u_getpid_def u_kill_def u_gettime_def
      u_set_priority_def u_sleep_def MAX_SYSCALL_ARGS_def intro!: wc_ucall)

lemma wc_spin [wc_rules]: "well_called uspin"
proof (coinduction)
  case well_called
  then show ?case
    using uspin.ctr by metis
qed

lemma wc_putch [wc_rules]: "well_called p \<Longrightarrow> well_called (uputch c p)"
  by (simp add: uputch_def wc_rules)

lemma wc_putstr [wc_rules]: "well_called p \<Longrightarrow> well_called (uputstr cs p)"
  by (induction cs) (simp_all add: wc_rules)

lemma wc_put [wc_rules]: "well_called p \<Longrightarrow> well_called (uput_u64 v b p)" "well_called p \<Longrightarrow> well_called (uput_i64 i b p)"
  by (simp_all add: uput_u64_def uput_i64_def wc_rules)

lemma wc_exit [wc_rules]: "well_called (u_exit st)"
  unfolding u_exit_def by (rule wc_ucall) (simp_all add: MAX_SYSCALL_ARGS_def wc_rules)

lemma wc_panic [wc_rules]: "well_called (upanic file func n str)"
  by (simp add: upanic_def ureport_def upanic_dead_def wc_rules)

lemma wc_assert [wc_rules]: "(ok \<Longrightarrow> well_called p) \<Longrightarrow> well_called (uassert file func n txt ok p)"
  by (simp add: uassert_def wc_rules)

lemma wc_for [wc_rules]:
  assumes "well_called p" "\<And>x q. x \<in> set xs \<Longrightarrow> well_called q \<Longrightarrow> well_called (body x q)"
  shows "well_called (ufor xs body p)"
  using assms by (induction xs) (auto simp: ufor_def)

lemma wc_yields [wc_rules]: "well_called p \<Longrightarrow> well_called (uyields n p)"
  by (auto simp: uyields_def intro!: wc_rules)

lemma wc_if [wc_rules]: "(b \<Longrightarrow> well_called p) \<Longrightarrow> (\<not> b \<Longrightarrow> well_called q) \<Longrightarrow> well_called (if b then p else q)"
  by simp

lemma wc_forktree [wc_rules]:
  "well_called k \<Longrightarrow> well_called (forktree cur k)" "well_called k \<Longrightarrow> well_called (forkchild cur branch k)"
proof (induction cur k and cur branch k rule: forktree_forkchild.induct)
  case (1 cur k)
  then show ?case
    by (subst forktree.simps) (intro wc_rules; blast)
next
  case (2 cur branch k)
  then show ?case
    by (subst forkchild.simps) (intro wc_rules; (blast intro: wc_rules)?)
qed

lemma wc_small_programs:
  assumes k: "\<And>r. well_called (k r)"
  shows "well_called (hello_main k)" "well_called (yield_main k)" "well_called (divzero_main k)"
    "well_called (faultread_main file k)" "well_called (faultreadkernel_main file k)" "well_called (testbss_main file a k)"
    "well_called (forktree_main k)"
  unfolding hello_main_def yield_main_def divzero_main_def faultread_main_def faultreadkernel_main_def testbss_main_def
    forktree_main_def Let_def
  by (intro wc_rules k; assumption?)+

lemma wc_parents:
  assumes k: "\<And>r. well_called (k r)"
  shows "well_called (exit_main file a k)" "well_called (spin_main file k)" "well_called (forktest_main file k)"
    "well_called (sleep_main file a k)" "well_called (sleepkill_main file k)" "well_called (badarg_main file a k)"
    "well_called (waitkill_main file k)"
  unfolding exit_main_def spin_main_def forktest_main_def sleep_main_def sleep_child_def sleepkill_main_def badarg_main_def
    waitkill_main_def waitkill_work_def Let_def
  by (intro wc_rules k; assumption?)+

lemma wc_kill_children [wc_rules]: "well_called k \<Longrightarrow> well_called (kill_children ps k)"
  unfolding kill_children_def by (intro wc_rules; assumption?)

lemma wc_matrix_fork [wc_rules]: "(\<And>ps. well_called (k ps)) \<Longrightarrow> well_called (matrix_fork file n ps k)"
  by (induction n arbitrary: ps) (auto simp: matrix_work_def intro!: wc_rules)

lemma wc_priority_child [wc_rules]: "well_called (priority_child ask acc)"
proof (coinduction arbitrary: ask acc)
  case well_called
  show ?case
  proof (cases ask)
    case True
    have "\<exists>args k. priority_child ask acc = Ecall args k \<and> known_call args \<and>
        (\<forall>v. (\<exists>ask acc. k v = priority_child ask acc) \<or> well_called (k v))"
      using True known_numbers [of SYS_GETTIME "[]"]
      by (subst priority_child.code) (auto simp: Let_def intro!: wc_rules)
    then show ?thesis
      by blast
  next
    case False
    then have "priority_child ask acc = Tick (priority_child ((acc + 1) mod 4000 = 0) (acc + 1))"
      by (subst priority_child.code) simp
    then show ?thesis
      by blast
  qed
qed

lemma wc_priority_fork [wc_rules]: "(\<And>ps. well_called (k ps)) \<Longrightarrow> well_called (priority_fork file n ps k)"
  by (induction n arbitrary: ps) (auto intro!: wc_rules)

lemma wc_arrays:
  assumes k: "\<And>r. well_called (k r)"
  shows "well_called (matrix_main file k)" "well_called (priority_main file a k)"
  unfolding matrix_main_def priority_main_def Let_def
  by (intro wc_rules k; assumption?)+

text \<open>C23: every call that a program of \<open>src/user\<close> can issue, whatever the kernel answers to the earlier
  ones and whatever its memory holds, has a number that the kernel's table defines and at
  most as many arguments as \<open>syscall\<close> passes on. So none of these programs reaches the panic of the kernel
  for an undefined call.
\<close>

theorem user_programs_well_called:
  "well_called (user_main_prog hello_main) \<and> well_called (user_main_prog yield_main) \<and>
   well_called (user_main_prog divzero_main) \<and> well_called (user_main_prog (faultread_main file)) \<and>
   well_called (user_main_prog (faultreadkernel_main file)) \<and> well_called (user_main_prog (testbss_main file a)) \<and>
   well_called (user_main_prog (exit_main file a)) \<and> well_called (user_main_prog (spin_main file)) \<and>
   well_called (user_main_prog (forktest_main file)) \<and> well_called (user_main_prog (sleep_main file a)) \<and>
   well_called (user_main_prog (sleepkill_main file)) \<and> well_called (user_main_prog (badarg_main file a)) \<and>
   well_called (user_main_prog (waitkill_main file)) \<and> well_called (user_main_prog forktree_main) \<and>
   well_called (user_main_prog (matrix_main file)) \<and> well_called (user_main_prog (priority_main file a))"
  unfolding user_main_prog_def by (intro conjI wc_small_programs wc_parents wc_arrays wc_exit)

section \<open>One process\<close>

text \<open>The lower \<open>n\<close> bytes of \<open>v\<close> are stored at \<open>a\<close>.\<close>

definition put_le :: "nat \<Rightarrow> u64 \<Rightarrow> u64 \<Rightarrow> bytes \<Rightarrow> bytes" where
  "put_le n a v m = (\<lambda>x. if unat (x - a) < n then ucast (drop_bit (8 * unat (x - a)) v) else m x)"

text \<open>
  \<open>h\<close> answers the calls from a state of its own and the memory. The result is what the process printed
  and the status it exits with.
\<close>

partial_function (option) urun ::
  "(u64 list \<Rightarrow> 'e \<Rightarrow> bytes \<Rightarrow> u64 \<times> 'e \<times> bytes) \<Rightarrow> 'e \<Rightarrow> bytes \<Rightarrow> u8 list \<Rightarrow> uprog \<Rightarrow> (u8 list \<times> u64) option" where
  "urun h e m out p =
     (case p of
        Ecall args k \<Rightarrow>
          if to_i32 (args ! 0) = SYS_EXIT then Some (out, args ! 1)
          else if to_i32 (args ! 0) = SYS_PUTC then urun h e m (out @ [ucast (args ! 1)]) (k 0)
          else (case h args e m of (a0, e', m') \<Rightarrow> urun h e' m' out (k a0))
      | ULoad n a k \<Rightarrow> urun h e m out (k (load_le m a n))
      | UStore n a v q \<Rightarrow> urun h e (put_le n a v m) out q
      | Tick q \<Rightarrow> urun h e m out q)"

text \<open>A kernel with one child of the process, \<open>pid\<close>, that will have exited with \<open>status\<close>: what \<open>do_fork\<close>
  returns to the parent, and \<open>do_wait\<close> as far as the caller sees it. \<open>live\<close>: the child is still there.\<close>

definition one_child :: "int \<Rightarrow> u64 \<Rightarrow> u64 list \<Rightarrow> bool \<Rightarrow> bytes \<Rightarrow> u64 \<times> bool \<times> bytes" where
  "one_child pid status args live m =
     (let num = to_i32 (args ! 0) in
      if num = SYS_FORK then (of_i32 pid, True, m)
      else if num = SYS_WAIT then
        (if live \<and> (to_i32 (args ! 1) = pid \<or> to_i32 (args ! 1) = 0)
         then (0, False, if args ! 2 \<noteq> 0 then put_le 4 (args ! 2) status m else m)
         else (of_i32 (- E_BAD_PROC), live, m))
      else (0, live, m))"

lemma urun_mem [simp]:
  "urun h e m out (ULoad n a k) = urun h e m out (k (load_le m a n))"
  "urun h e m out (UStore n a v q) = urun h e (put_le n a v m) out q"
  "urun h e m out (Tick q) = urun h e m out q"
  by (simp_all add: urun.simps)

lemma sys_numbers [simp]:
  "to_i32 (of_i32 SYS_EXIT) = SYS_EXIT" "to_i32 (of_i32 SYS_PUTC) = SYS_PUTC" "to_i32 (of_i32 SYS_FORK) = SYS_FORK"
  "to_i32 (of_i32 SYS_WAIT) = SYS_WAIT" "to_i32 (of_i32 SYS_YIELD) = SYS_YIELD" "to_i32 (of_i32 SYS_GETPID) = SYS_GETPID"
  "to_i32 (of_i32 SYS_GETTIME) = SYS_GETTIME" "to_i32 0 = 0"
  by (simp_all add: to_i32_def of_i32_def const_defs)

lemma ucast_char [simp]: "(ucast (ucast (c :: u8) :: u64) :: u8) = c"
  by (rule bit_word_eqI) (simp add: bit_ucast_iff)

lemma urun_out [simp]:
  "urun h e m out (u_exit st) = Some (out, st)"
  "urun h e m out (uputch c k) = urun h e m (out @ [c]) k"
  by (simp_all add: u_exit_def uputch_def u_putc_def ucall_def urun.simps [of h e m out "Ecall _ _"])
    (simp_all add: SYS_PUTC_def SYS_EXIT_def)

lemma urun_putstr [simp]: "urun h e m out (uputstr cs k) = urun h e m (out @ cs) k"
  by (induction cs arbitrary: out) simp_all

lemma urun_put [simp]: "\<exists>cs. urun h e m out (uput_i64 i b k) = urun h e m (out @ cs) k"
  by (auto simp: uput_i64_def)

lemma urun_panic: "\<exists>cs. urun h e m out (upanic file func n str) = Some (out @ cs, of_i32 (- E_PANIC))"
  by (simp add: upanic_def ureport_def upanic_dead_def uput_u64_def)

lemma urun_call:
  assumes "to_i32 (of_i32 num) = num" "num \<noteq> SYS_EXIT" "num \<noteq> SYS_PUTC"
  shows "urun h e m out (ucall num args k) = (case h (of_i32 num # args) e m of (a0, e', m') \<Rightarrow> urun h e' m' out (k (to_i32 a0)))"
  using assms by (simp add: ucall_def urun.simps [of h e m out "Ecall _ _"] split: prod.split)

lemma of_i32_zero: "of_i32 0 = 0"
  by (simp add: of_i32_def)

lemma one_child_calls:
  assumes "0 < pid" "pid < 2 ^ 31"
  shows "urun (one_child pid st) live m out (u_fork k) = urun (one_child pid st) True m out (k pid)"
    "urun (one_child pid st) live m out (u_wait i a k) =
      (if live \<and> (to_i32 (of_i32 i) = pid \<or> to_i32 (of_i32 i) = 0)
       then urun (one_child pid st) False (if a \<noteq> 0 then put_le 4 a st m else m) out (k 0)
       else urun (one_child pid st) live m out (k (- E_BAD_PROC)))"
    "urun (one_child pid st) live m out (u_gettime k) = urun (one_child pid st) live m out (k 0)"
    "to_i32 (of_i32 pid) = pid"
proof -
  show p: "to_i32 (of_i32 pid) = pid"
    using assms by (intro to_of_i32) auto
  have ne: "to_i32 (of_i32 (- E_BAD_PROC)) = - E_BAD_PROC"
    by (simp add: to_i32_def of_i32_def E_BAD_PROC_def)
  show "urun (one_child pid st) live m out (u_fork k) = urun (one_child pid st) True m out (k pid)"
    unfolding u_fork_def by (subst urun_call) (simp_all add: one_child_def p, simp_all add: const_defs)
  show "urun (one_child pid st) live m out (u_gettime k) = urun (one_child pid st) live m out (k 0)"
    unfolding u_gettime_def by (subst urun_call) (simp_all add: one_child_def p, simp_all add: const_defs)
  have sys: "SYS_WAIT \<noteq> SYS_EXIT" "SYS_WAIT \<noteq> SYS_PUTC" "SYS_WAIT \<noteq> SYS_FORK"
    by (simp_all add: const_defs)
  show "urun (one_child pid st) live m out (u_wait i a k) =
      (if live \<and> (to_i32 (of_i32 i) = pid \<or> to_i32 (of_i32 i) = 0)
       then urun (one_child pid st) False (if a \<noteq> 0 then put_le 4 a st m else m) out (k 0)
       else urun (one_child pid st) live m out (k (- E_BAD_PROC)))"
    unfolding u_wait_def by (subst urun_call) (auto simp: one_child_def p ne sys)
qed

text \<open>The bytes that a load of eight bytes sees.\<close>

lemma load_zero_iff:
  "load_le m a 8 = 0 \<longleftrightarrow> m a = 0 \<and> m (a + 1) = 0 \<and> m (a + 2) = 0 \<and> m (a + 3) = 0 \<and>
     m (a + 4) = 0 \<and> m (a + 5) = 0 \<and> m (a + 6) = 0 \<and> m (a + 7) = 0" (is "?l \<longleftrightarrow> ?r")
proof
  assume l: ?l
  have "m (a + of_nat i) = 0" if "i < 8" for i
  proof (rule bit_word_eqI)
    fix n
    assume n: "n < LENGTH(8)"
    then have "bit (load_le m a 8) (8 * i + n) \<longleftrightarrow> bit (m (a + of_nat i)) n"
      using that by (simp add: bit_load_le)
    then show "bit (m (a + of_nat i)) n = bit 0 n"
      using l by simp
  qed
  from this [of 0] this [of 1] this [of 2] this [of 3] this [of 4] this [of 5] this [of 6] this [of 7] show ?r
    by simp
next
  assume ?r
  then show ?l
    by (simp add: numeral_eq_Suc add.assoc)
qed

text \<open>C39: the test program \<open>sleep\<close> reads a variable that is only half written. \<open>sys_wait\<close>
  stores four bytes, the variable \<open>code\<close> has eight and no initial value. With a child that exits with 0 the
  program passes exactly when the upper four bytes happen to be zero on its stack; otherwise its assertion fails and
  it exits with \<open>-E_PANIC\<close>.
\<close>

theorem sleep_reads_uninitialised:
  assumes "0 < pid" and "pid < 2 ^ 31" and "code \<noteq> 0"
  shows "\<exists>out. urun (one_child pid 0) live m [] (user_main_prog (sleep_main file code)) =
    Some (out, if m (code + 4) = 0 \<and> m (code + 5) = 0 \<and> m (code + 6) = 0 \<and> m (code + 7) = 0
               then 0 else of_i32 (- E_PANIC))"
proof -
  have z: "load_le (put_le 4 code 0 m) code 8 = 0 \<longleftrightarrow>
      m (code + 4) = 0 \<and> m (code + 5) = 0 \<and> m (code + 6) = 0 \<and> m (code + 7) = 0"
    by (subst load_zero_iff) (simp add: put_le_def)
  note c = one_child_calls [OF assms(1,2)]
  obtain cs where "urun (one_child pid 0) False (put_le 4 code 0 m) []
      (upanic file ''main'' 22 (lit ''assertion failed: '' @ lit ''sys_wait(pid, &code) == 0 && code == 0'')) =
      Some (cs, of_i32 (- E_PANIC))"
    using urun_panic by fastforce
  then show ?thesis
    using assms z by (simp add: user_main_prog_def sleep_main_def Let_def c uassert_def uput_i64_def of_i32_zero)
qed

theorem sleep_reads_uninitialised_witness:
  "\<exists>out. urun (one_child 3 0) True (\<lambda>_. 1) [] (user_main_prog (sleep_main ''sleep.c'' 0x1000)) =
    Some (out, of_i32 (- E_PANIC))"
  using sleep_reads_uninitialised [of 3 "0x1000" True "\<lambda>_. 1" "''sleep.c''"] by simp

text \<open>The test program \<open>exit\<close> passes whatever its memory holds before, because it clears
  the variable: it exits with 0 after a first wait that reports the status of its child and two that fail.
\<close>

theorem exit_program_passes:
  assumes "0 < pid" and "pid < 2 ^ 31" and "code \<noteq> 0"
  shows "\<exists>out. urun (one_child pid MAGIC) live m [] (user_main_prog (exit_main file code)) = Some (out, 0)"
proof -
  have z: "load_le (put_le 4 code MAGIC (put_le 8 code 0 m)) code 8 = MAGIC"
  proof (rule bit_word_eqI)
    fix n
    assume "n < LENGTH(64)"
    then have n: "n < 64" "unat (of_nat (n div 8) :: u64) = n div 8"
      by (auto intro!: unat_of_nat_u64)
    have "take_bit 32 MAGIC = MAGIC"
      by (simp add: MAGIC_def)
    then have hi: "bit MAGIC n \<Longrightarrow> n < 32"
      by (metis bit_take_bit_iff)
    show "bit (load_le (put_le 4 code MAGIC (put_le 8 code 0 m)) code 8) n = bit MAGIC n"
      using n hi by (auto simp: bit_load_le put_le_def bit_ucast_iff bit_drop_bit_eq)
  qed
  note c = one_child_calls [OF assms(1,2)]
  show ?thesis
    using assms z by (simp add: user_main_prog_def exit_main_def Let_def c uassert_def uput_i64_def of_i32_zero
        E_BAD_PROC_def)
qed

theorem exit_program_passes_witness:
  "\<exists>out. urun (one_child 7 MAGIC) True (\<lambda>_. 9) [] (user_main_prog (exit_main ''exit.c'' 0x1000)) = Some (out, 0)"
  by (rule exit_program_passes) simp_all

section \<open>The matrices\<close>

lemma fold_mat_set:
  "fold (\<lambda>j. mat_set i j (f j)) [0..<n] m = m(i := \<lambda>j. if j < n then f j else m i j)"
  by (induction n) (auto simp: mat_set_def fun_eq_iff less_Suc_eq)

lemma mat_loop_set:
  "mat_loop (\<lambda>i j. mat_set i j (f i j)) m = (\<lambda>i j. if i < MATSIZE \<and> j < MATSIZE then f i j else m i j)"
proof -
  have "fold (\<lambda>i. fold (\<lambda>j. mat_set i j (f i j)) [0..<MATSIZE]) [0..<n] m =
      (\<lambda>i j. if i < n \<and> j < MATSIZE then f i j else m i j)" for n
    by (induction n) (auto simp: fold_mat_set fun_eq_iff less_Suc_eq)
  then show ?thesis
    by (simp add: mat_loop_def)
qed

lemma fold_pair: "fold (\<lambda>x (a, b). (f x a, g x b)) xs (a, b) = (fold f xs a, fold g xs b)"
  by (induction xs arbitrary: a b) auto

lemma mat_loop_pair: "mat_loop (\<lambda>i j (a, b). (f i j a, g i j b)) (a, b) = (mat_loop f a, mat_loop g b)"
proof -
  have "fold (\<lambda>j (a, b). (f i j a, g i j b)) [0..<MATSIZE] =
      (\<lambda>(a, b). (fold (f i) [0..<MATSIZE] a, fold (g i) [0..<MATSIZE] b))" for i
    by (auto simp: fun_eq_iff fold_pair)
  then show ?thesis
    by (simp add: mat_loop_def fold_pair)
qed

lemma mat_entry:
  "fold (\<lambda>k c. mat_set i j (c i j + a i k * b k j) c) [0..<n] (mat_set i j 0 c) = mat_set i j (\<Sum>k<n. a i k * b k j) c"
  by (induction n) (simp_all add: mat_set_def fun_eq_iff)

lemma mat_product_eq:
  "mat_product a b c = (\<lambda>i j. if i < MATSIZE \<and> j < MATSIZE then \<Sum>k<MATSIZE. a i k * b k j else c i j)"
  by (simp add: mat_product_def mat_entry mat_loop_set)

text \<open>All entries of a matrix are \<open>v\<close>.\<close>

definition uniform :: "u32 \<Rightarrow> matrix \<Rightarrow> bool" where
  "uniform v m \<longleftrightarrow> (\<forall>i<MATSIZE. \<forall>j<MATSIZE. m i j = v)"

lemma uniform_ones: "uniform 1 (fst (matrix_ones (a, b)))" "uniform 1 (snd (matrix_ones (a, b)))"
  by (simp_all add: matrix_ones_def mat_loop_pair mat_loop_set uniform_def)

lemma uniform_round:
  assumes "uniform v a" "uniform v b"
  shows "case matrix_round (a, b, c) of (a', b', c') \<Rightarrow> uniform (10 * v ^ 2) a' \<and> uniform (10 * v ^ 2) b' \<and> uniform (10 * v ^ 2) c'"
proof -
  have "mat_product a b c i j = 10 * v ^ 2" if "i < MATSIZE" "j < MATSIZE" for i j
  proof -
    have "mat_product a b c i j = (\<Sum>k<MATSIZE. v * v)"
      using assms that by (simp add: mat_product_eq uniform_def)
    then show ?thesis
      by (simp add: MATSIZE_def power2_eq_square)
  qed
  then show ?thesis
    by (auto simp: matrix_round_def Let_def mat_loop_pair mat_loop_set uniform_def)
qed

lemma uniform_rounds:
  assumes "uniform 1 a" "uniform 1 b"
  shows "case matrix_rounds n (a, b, c) of (a', b', c') \<Rightarrow> uniform (10 ^ (2 ^ n - 1)) a' \<and> uniform (10 ^ (2 ^ n - 1)) b'"
proof (induction n)
  case (Suc n)
  obtain a1 b1 c1 where r: "matrix_rounds n (a, b, c) = (a1, b1, c1)"
    by (metis prod_cases3)
  have "2 * (2 ^ n - 1) + 1 = (2 :: nat) ^ Suc n - 1"
  proof -
    have "(0 :: nat) < 2 ^ n"
      by simp
    then show ?thesis
      unfolding power_Suc by arith
  qed
  then have x: "Suc ((2 ^ n - 1) * 2) = (2 :: nat) ^ Suc n - 1"
    by (simp only: mult.commute Suc_eq_plus1)
  have e: "10 * (10 ^ (2 ^ n - 1)) ^ 2 = (10 :: u32) ^ (2 ^ Suc n - 1)"
  proof -
    have "(10 :: u32) ^ Suc ((2 ^ n - 1) * 2) = 10 * (10 ^ (2 ^ n - 1)) ^ 2"
      unfolding power_Suc power_mult ..
    then show ?thesis
      unfolding x ..
  qed
  have u: "uniform (10 ^ (2 ^ n - 1)) a1" "uniform (10 ^ (2 ^ n - 1)) b1"
    using Suc by (simp_all add: r)
  have "matrix_rounds (Suc n) (a, b, c) = matrix_round (a1, b1, c1)"
    using r by (simp add: matrix_rounds_def)
  then show ?case
    using uniform_round [OF u, of c1] unfolding e by auto
qed (use assms in \<open>simp add: matrix_rounds_def\<close>)

text \<open>C40: what the test program \<open>matrix\<close> computes. After \<open>n\<close> rounds every entry of the matrix is
  \<open>10 ^ (2 ^ n - 1)\<close> modulo \<open>2 ^ 32\<close>, so the entries leave the range of \<open>i32\<close> in the fourth round.
\<close>

theorem matrix_entries:
  assumes "i < MATSIZE" and "j < MATSIZE"
  shows "case matrix_ones (a, b) of (a1, b1) \<Rightarrow> fst (matrix_rounds n (a1, b1, c)) i j = 10 ^ (2 ^ n - 1)"
proof -
  obtain a1 b1 where o: "matrix_ones (a, b) = (a1, b1)"
    by fastforce
  then have "uniform 1 a1" "uniform 1 b1"
    using uniform_ones [of a b] by simp_all
  from uniform_rounds [OF this, of n c] show ?thesis
    using assms by (auto simp: o uniform_def)
qed

theorem matrix_entries_witness:
  "case matrix_ones (\<lambda>_ _. 0, \<lambda>_ _. 0) of (a1, b1) \<Rightarrow> fst (matrix_rounds 2 (a1, b1, \<lambda>_ _. 0)) 3 4 = 1000"
  using matrix_entries [where i = 3 and j = 4 and n = 2 and a = "\<lambda>_ _. 0" and b = "\<lambda>_ _. 0" and c = "\<lambda>_ _. 0"]
  by (simp add: MATSIZE_def)

text \<open>Every child runs at least a thousand rounds, so all of them end with zero matrices.\<close>

lemma matrix_times_large: "1000 \<le> unat (matrix_times n)"
proof -
  define x :: u32 where "x = fst (rand (srand (of_nat (n * n)))) mod of_nat MAT_TOTAL"
  have "x < 21"
    unfolding x_def MAT_TOTAL_def using word_mod_less_divisor [of "21 :: u32"] by simp
  then have "unat x < 21"
    by (simp add: word_less_nat_alt)
  then have "unat x * unat x \<le> 20 * 20"
    by (intro mult_le_mono) simp_all
  then have "unat ((x * x + 10) * 100) = (unat x * unat x + 10) * 100"
    by (simp add: unat_word_ariths)
  then show ?thesis
    unfolding matrix_times_def Let_def x_def [symmetric] by simp
qed

lemma matrix_power_zero: "6 \<le> n \<Longrightarrow> (10 :: u32) ^ (2 ^ n - 1) = 0"
proof -
  assume "6 \<le> n"
  then have "(2 :: nat) ^ 6 \<le> 2 ^ n"
    by (intro power_increasing) simp_all
  then have "(32 :: nat) \<le> 2 ^ n - 1"
    by simp
  then obtain r where "2 ^ n - 1 = 32 + (r :: nat)"
    using le_Suc_ex by blast
  moreover have "(10 :: u32) ^ 32 = 0"
    using word_of_nat_eq_0_iff [where ?'a = 32, of "10 ^ 32"] by simp
  ultimately show ?thesis
    by (simp only: power_add mult_zero_left)
qed

lemma matrix_children_zero:
  assumes "i < MATSIZE" "j < MATSIZE"
  shows "fst (matrix_rounds (unat (matrix_times n)) (fst (matrix_ones (a, b)), snd (matrix_ones (a, b)), c)) i j = 0"
  using uniform_rounds [OF uniform_ones, of "unat (matrix_times n)" a b a b c] assms
    matrix_power_zero [of "unat (matrix_times n)"] matrix_times_large [of n]
  by (auto simp: uniform_def split: prod.splits)

section \<open>A family of processes\<close>

text \<open>
  The process \<open>pid\<close> and all it forks, each run to its exit: the numbers and outputs of the
  processes, and the next free number. The children get the numbers from \<open>n\<close> on, in the order of the forks.
\<close>

partial_function (option) family_run :: "uprog \<Rightarrow> int \<Rightarrow> int \<Rightarrow> u8 list \<Rightarrow> ((int \<times> u8 list) list \<times> int) option" where
  "family_run p pid n out =
     (case p of
        Ecall args k \<Rightarrow>
          if to_i32 (args ! 0) = SYS_EXIT then Some ([(pid, out)], n)
          else if to_i32 (args ! 0) = SYS_PUTC then family_run (k 0) pid n (out @ [ucast (args ! 1)])
          else if to_i32 (args ! 0) = SYS_FORK then
            Option.bind (family_run (k 0) n (n + 1) []) (\<lambda>r1.
            Option.bind (family_run (k (of_i32 n)) pid (snd r1) out) (\<lambda>r2. Some (fst r2 @ fst r1, snd r2)))
          else if to_i32 (args ! 0) = SYS_GETPID then family_run (k (of_i32 pid)) pid n out
          else family_run (k 0) pid n out
      | ULoad _ _ k \<Rightarrow> family_run (k 0) pid n out
      | UStore _ _ _ q \<Rightarrow> family_run q pid n out
      | Tick q \<Rightarrow> family_run q pid n out)"

lemma family_simps:
  "family_run (u_exit st) pid n out = Some ([(pid, out)], n)"
  "family_run (uputch c q) pid n out = family_run q pid n (out @ [c])"
  "family_run (u_yield q) pid n out = family_run q pid n out"
  "0 < pid \<Longrightarrow> pid < 2 ^ 31 \<Longrightarrow> family_run (u_getpid k) pid n out = family_run (k pid) pid n out"
  "0 < n \<Longrightarrow> n < 2 ^ 31 \<Longrightarrow> family_run (u_fork k) pid n out =
     Option.bind (family_run (k 0) n (n + 1) []) (\<lambda>r1.
     Option.bind (family_run (k n) pid (snd r1) out) (\<lambda>r2. Some (fst r2 @ fst r1, snd r2)))"
proof -
  have ne: "SYS_PUTC \<noteq> SYS_EXIT" "SYS_YIELD \<noteq> SYS_EXIT" "SYS_YIELD \<noteq> SYS_PUTC" "SYS_YIELD \<noteq> SYS_FORK" "SYS_YIELD \<noteq> SYS_GETPID"
      "SYS_GETPID \<noteq> SYS_EXIT" "SYS_GETPID \<noteq> SYS_PUTC" "SYS_GETPID \<noteq> SYS_FORK" "SYS_FORK \<noteq> SYS_EXIT" "SYS_FORK \<noteq> SYS_PUTC"
    by (simp_all add: const_defs)
  have i: "to_i32 (of_i32 i) = i" if "0 < i" "i < 2 ^ 31" for i
    using that by (intro to_of_i32) auto
  note r = family_run.simps [of "Ecall _ _"] ucall_def ne
  show "family_run (u_exit st) pid n out = Some ([(pid, out)], n)" "family_run (uputch c q) pid n out = family_run q pid n (out @ [c])"
      "family_run (u_yield q) pid n out = family_run q pid n out"
    by (simp_all add: u_exit_def uputch_def u_putc_def u_yield_def r)
  show "0 < pid \<Longrightarrow> pid < 2 ^ 31 \<Longrightarrow> family_run (u_getpid k) pid n out = family_run (k pid) pid n out"
    by (simp add: u_getpid_def r i)
  show "0 < n \<Longrightarrow> n < 2 ^ 31 \<Longrightarrow> family_run (u_fork k) pid n out =
     Option.bind (family_run (k 0) n (n + 1) []) (\<lambda>r1.
     Option.bind (family_run (k n) pid (snd r1) out) (\<lambda>r2. Some (fst r2 @ fst r1, snd r2)))"
    by (simp add: u_fork_def r i)
qed

lemma family_put:
  "family_run (uputstr cs q) pid n out = family_run q pid n (out @ cs)"
  "family_run (uput_i64 v 10 q) pid n out = family_run q pid n (out @ int_text 10 v)"
proof -
  show p: "family_run (uputstr cs q) pid n out = family_run q pid n (out @ cs)" for cs
    by (induction cs arbitrary: out) (simp_all add: family_simps)
  show "family_run (uput_i64 v 10 q) pid n out = family_run q pid n (out @ int_text 10 v)"
    by (simp add: uput_i64_def p)
qed

text \<open>What the process \<open>pid\<close> with the name \<open>w\<close> prints.\<close>

definition tree_line :: "int \<Rightarrow> u8 list \<Rightarrow> u8 list" where
  "tree_line pid w = lit ''PID = '' @ int_text 10 pid @ lit '': I am '' @ [39] @ w @ [39, 10]"

text \<open>The numbers and names of the processes up to \<open>d\<close> levels below \<open>w\<close>, from the number \<open>n\<close> on.\<close>

fun tree_kids :: "nat \<Rightarrow> u8 list \<Rightarrow> int \<Rightarrow> (int \<times> u8 list) list" where
  "tree_kids 0 w n = []"
| "tree_kids (Suc d) w n =
     (let n1 = n + (2 ^ Suc d - 1) in
      (n1, w @ [49]) # tree_kids d (w @ [49]) (n1 + 1) @ (n, w @ [48]) # tree_kids d (w @ [48]) (n + 1))"

abbreviation tree_out :: "(int \<times> u8 list) list \<Rightarrow> (int \<times> u8 list) list" where
  "tree_out xs \<equiv> map (\<lambda>(c, w). (c, tree_line c w)) xs"

lemma forkchild_run:
  assumes sub: "\<And>pid n out k. 0 < pid \<Longrightarrow> pid < 2 ^ 31 \<Longrightarrow> 0 < n \<Longrightarrow> n + 2 ^ Suc d < 2 ^ 31 \<Longrightarrow>
      family_run (forktree (w @ [b]) k) pid n out =
      map_option (\<lambda>(ps, m). (ps @ tree_out (tree_kids d (w @ [b]) n), m))
        (family_run k pid (n + (2 ^ Suc d - 2)) (out @ tree_line pid (w @ [b])))"
    and w: "length w < DEPTH" and n: "0 < n" "n + 1 + 2 ^ Suc d < 2 ^ 31"
  shows "family_run (forkchild w b k) pid n out =
    map_option (\<lambda>(ps, m). (ps @ tree_out ((n, w @ [b]) # tree_kids d (w @ [b]) (n + 1)), m))
      (family_run k pid (n + (2 ^ Suc d - 1)) out)"
proof -
  have p: "(0 :: int) < 2 ^ Suc d"
    by (rule zero_less_power) simp
  have n': "n < 2 ^ 31" "0 < n + 1" "n + 1 + (2 ^ Suc d - 2) = n + (2 ^ Suc d - 1)"
    using n p by linarith+
  have child: "family_run (forktree (w @ [b]) (u_yield (u_exit 0))) n (n + 1) [] =
      Some ((n, tree_line n (w @ [b])) # tree_out (tree_kids d (w @ [b]) (n + 1)), n + (2 ^ Suc d - 1))"
    by (subst sub [OF n(1) n'(1,2) n(2)]) (simp only: family_simps n'(3), simp)
  have "family_run (forkchild w b k) pid n out =
      family_run (u_fork (\<lambda>pid. if pid = 0 then forktree (w @ [b]) (u_yield (u_exit 0)) else k)) pid n out"
    using w by (subst forkchild.simps) simp
  also have "\<dots> = map_option (\<lambda>(ps, m). (ps @ tree_out ((n, w @ [b]) # tree_kids d (w @ [b]) (n + 1)), m))
      (family_run k pid (n + (2 ^ Suc d - 1)) out)"
    unfolding family_simps(5) [OF n(1) n'(1)] if_P [OF refl] child
    using n(1) by (cases "family_run k pid (n + (2 ^ Suc d - 1)) out") auto
  finally show ?thesis .
qed

lemma forktree_run:
  assumes "length w + d = DEPTH" "0 < pid" "pid < 2 ^ 31" "0 < n" "n + 2 ^ Suc d < 2 ^ 31"
  shows "family_run (forktree w k) pid n out =
    map_option (\<lambda>(ps, m). (ps @ tree_out (tree_kids d w n), m))
      (family_run k pid (n + (2 ^ Suc d - 2)) (out @ tree_line pid w))"
  using assms
proof (induction d arbitrary: w pid n out k)
  case 0
  have "forkchild w 48 (forkchild w 49 k) = k"
    using 0(1) by (simp add: forkchild.simps)
  then show ?case
    using 0 by (subst forktree.simps) (simp add: family_put family_simps tree_line_def option.map_ident_strong
        del: forkchild.simps split: prod.split)
next
  case (Suc d)
  let ?n1 = "n + (2 ^ Suc d - 1)"
  have p: "(2 :: int) ^ Suc (Suc d) = 2 * 2 ^ Suc d" "(0 :: int) < 2 ^ Suc d"
    by simp_all
  have w: "length w < DEPTH" "\<And>b. length (w @ [b]) + d = DEPTH"
    using Suc.prems(1) by simp_all
  note sub = Suc.IH [OF w(2)]
  have b: "n + 1 + 2 ^ Suc d < 2 ^ 31" "0 < ?n1" "?n1 + 1 + 2 ^ Suc d < 2 ^ 31" "?n1 + (2 ^ Suc d - 1) = n + (2 ^ Suc (Suc d) - 2)"
    using Suc.prems(4,5) p by linarith+
  have "family_run (forktree w k) pid n out = family_run (forkchild w 48 (forkchild w 49 k)) pid n (out @ tree_line pid w)"
    using Suc.prems(2,3) by (subst forktree.simps) (simp add: family_put family_simps tree_line_def del: forkchild.simps)
  also have "\<dots> = map_option (\<lambda>(ps, m). (ps @ tree_out (tree_kids (Suc d) w n), m))
      (family_run k pid (n + (2 ^ Suc (Suc d) - 2)) (out @ tree_line pid w))"
    apply (subst forkchild_run [OF sub w(1) Suc.prems(4) b(1)])
    apply assumption+
    apply (subst forkchild_run [OF sub w(1) b(2,3)])
    apply assumption+
    unfolding b(4)
    by (cases "family_run k pid (n + (2 ^ Suc (Suc d) - 2)) (out @ tree_line pid w)") (auto simp: Let_def)
  finally show ?case .
qed

lemma tree_kids_length: "length (tree_kids d w n) + 2 = 2 ^ Suc d"
  by (induction d w n rule: tree_kids.induct) (simp_all add: Let_def)

lemma tree_kids_ids: "fst ` set (tree_kids d w n) = {n..<n + (2 ^ Suc d - 2)}"
proof (induction d arbitrary: w n)
  case (Suc d)
  define q :: int where "q = 2 ^ d"
  have q: "0 < q" "2 ^ Suc d = 2 * q" "2 ^ Suc (Suc d) = 4 * q"
    by (simp_all add: q_def)
  let ?n1 = "n + (2 ^ Suc d - 1)"
  have "fst ` set (tree_kids (Suc d) w n) =
      insert ?n1 ({?n1 + 1..<?n1 + 1 + (2 ^ Suc d - 2)} \<union> insert n {n + 1..<n + 1 + (2 ^ Suc d - 2)})"
    by (simp only: tree_kids.simps Let_def list.set set_append image_Un image_insert fst_conv Suc)
  also have "\<dots> = {n..<n + (2 ^ Suc (Suc d) - 2)}"
    using q(1) unfolding q(2,3) by auto
  finally show ?case .
qed simp

lemma tree_kids_names: "snd ` set (tree_kids d w n) = {w @ v | v. v \<noteq> [] \<and> length v \<le> d \<and> set v \<subseteq> {48, 49}}"
proof (induction d arbitrary: w n)
  case (Suc d)
  have step: "x \<in> {w @ v | v. v \<noteq> [] \<and> length v \<le> Suc d \<and> set v \<subseteq> {48, 49}} \<longleftrightarrow>
      x = w @ [49] \<or> x \<in> {(w @ [49]) @ v | v. v \<noteq> [] \<and> length v \<le> d \<and> set v \<subseteq> {48, 49}} \<or>
      x = w @ [48] \<or> x \<in> {(w @ [48]) @ v | v. v \<noteq> [] \<and> length v \<le> d \<and> set v \<subseteq> {48, 49}}" for x
  proof
    assume "x \<in> {w @ v | v. v \<noteq> [] \<and> length v \<le> Suc d \<and> set v \<subseteq> {48, 49}}"
    then obtain c v where v: "x = w @ c # v" "c = 48 \<or> c = 49" "length v \<le> d" "set v \<subseteq> {48, 49}"
      by (auto simp: neq_Nil_conv)
    then show "x = w @ [49] \<or> x \<in> {(w @ [49]) @ v | v. v \<noteq> [] \<and> length v \<le> d \<and> set v \<subseteq> {48, 49}} \<or>
        x = w @ [48] \<or> x \<in> {(w @ [48]) @ v | v. v \<noteq> [] \<and> length v \<le> d \<and> set v \<subseteq> {48, 49}}"
      by (cases "v = []") auto
  qed auto
  show ?case
    by (intro set_eqI)
      (simp only: step tree_kids.simps Let_def list.set set_append image_Un image_insert snd_conv Suc insert_iff Un_iff)
qed auto

lemma tree_kids_distinct: "distinct (map fst (tree_kids d w n))" "distinct (map snd (tree_kids d w n))"
proof -
  have "int (length (tree_kids d w n)) + 2 = 2 ^ Suc d"
    using arg_cong [OF tree_kids_length [of d w n], of int] by simp
  then have "nat (2 ^ Suc d - 2) = length (tree_kids d w n)"
    by linarith
  then have "card (set (map fst (tree_kids d w n))) = length (map fst (tree_kids d w n))"
    using tree_kids_ids [of d w n] by simp
  then show "distinct (map fst (tree_kids d w n))"
    by (rule card_distinct)
  show "distinct (map snd (tree_kids d w n))"
  proof (induction d arbitrary: w n)
    case (Suc d)
    then show ?case
      by (auto simp: Let_def tree_kids_names)
  qed simp
qed

text \<open>C24: the test program \<open>forktree\<close> makes the whole binary tree. Run to the exit of all its
  processes, with free numbers from \<open>n\<close> on, it is 31 processes with different numbers: the first one, without a
  name, and one for each string of at most \<open>DEPTH\<close> binary digits. Each prints its number and name once,
  and only the first one reports success.
\<close>

theorem forktree_all_names:
  assumes "0 < pid" and "pid < 2 ^ 31" and "0 < n" and "n + 32 < 2 ^ 31"
  shows "\<exists>ps. family_run (user_main_prog forktree_main) pid n [] =
      Some ((pid, tree_line pid [] @ lit ''forktree pass.'' @ [10]) # map (\<lambda>(c, w). (c, tree_line c w)) ps, n + 30) \<and>
    distinct (map fst ps) \<and> fst ` set ps = {n..<n + 30} \<and>
    distinct (map snd ps) \<and> snd ` set ps = {w. w \<noteq> [] \<and> length w \<le> DEPTH \<and> set w \<subseteq> {48, 49}}"
proof -
  have "family_run (forktree [] (uputstr (lit ''forktree pass.'' @ [10]) (u_exit (of_i32 0)))) pid n [] =
      Some ((pid, tree_line pid [] @ lit ''forktree pass.'' @ [10]) # tree_out (tree_kids DEPTH [] n), n + 30)"
    by (subst forktree_run [of "[]" DEPTH]) (use assms in \<open>simp_all add: DEPTH_def family_put family_simps\<close>)
  then show ?thesis
    using tree_kids_distinct [of DEPTH "[]" n] tree_kids_ids [of DEPTH "[]" n] tree_kids_names [of DEPTH "[]" n]
    by (intro exI [of _ "tree_kids DEPTH [] n"]) (simp add: user_main_prog_def forktree_main_def DEPTH_def)
qed

theorem forktree_all_names_witness:
  "\<exists>ps. family_run (user_main_prog forktree_main) 2 3 [] =
      Some ((2, tree_line 2 [] @ lit ''forktree pass.'' @ [10]) # map (\<lambda>(c, w). (c, tree_line c w)) ps, 33) \<and>
    fst ` set ps = {3..<33}"
  using forktree_all_names [of 2 3] by auto

end
