(* ===== verification/Space_Props.thy ===== *)
theory Space_Props
  imports Swap_Props Boot_Props
begin

text \<open>
  Where the invariant of address spaces comes from: it holds of the boot table when the page manager starts,
  and \<open>alloc_gpt\<close> of \<open>kernel/proc/proc.c\<close> establishes it for the table of a new process without touching the others.
\<close>

unbundle bit_operations_syntax

text \<open>A root table with the contents of \<open>boot_page_table_sv39\<close>.\<close>

definition boot_root :: "'z sched_scheme \<Rightarrow> nat \<Rightarrow> bool" where
  "boot_root s g \<longleftrightarrow> dram_page g \<and> (\<forall>i<512. ents (mem s) g i = boot_page_table_sv39 i)"

lemma boot_root_tables:
  assumes "boot_root s g"
  shows "tree_ok (ents (mem s)) g" "tables (ents (mem s)) g = {g}" "t \<in> vpages \<Longrightarrow> pmap (ents (mem s)) g t = 0"
proof -
  have n: "\<not> pte_valid (ents (mem s) g i)" if "i < 2" for i
    using assms user_index [OF that] that by (auto simp: boot_root_def boot_page_table_sv39_def)
  show "tree_ok (ents (mem s)) g" "tables (ents (mem s)) g = {g}" "t \<in> vpages \<Longrightarrow> pmap (ents (mem s)) g t = 0"
    using boot_tables [of "ents (mem s)" g] n by blast+
qed

lemma boot_root_aspace:
  assumes "boot_root s g" "bf_inv s" "g \<notin> free_pages_of s"
    and "\<And>q. data_page s g q \<Longrightarrow> x q = unat (page_ref (pages s q))"
  shows "aspace x s g"
proof -
  note B = boot_root_tables [OF assms(1)]
  have "mappers (ents (mem s)) g q = {}" for q
    using B(3) by (auto simp: mappers_def)
  moreover have "tabs_ok s g"
    using assms(1-3) B(1,2) by (simp add: tabs_ok_def boot_root_def)
  ultimately show ?thesis
    using assms(4) B(3) by (simp add: aspace_def)
qed

text \<open>After \<open>init_page\<close>, when no page is in use yet, the boot table is an address space.\<close>

lemma init_page_space:
  fixes s :: "'z sched_scheme"
  assumes zero: "\<And>i. min_page \<le> i \<Longrightarrow> i < max_page \<Longrightarrow> page_flags (pages s i) AND PAGE_RESERVED = 0"
    and boot: "boot_root s g" "g < min_page"
  obtains s' where "init_page (best_fit_init s) = ret s'" "aspace x s' g"
proof -
  obtain s' where s': "init_page (best_fit_init s) = ret s'" "roomy 4 4 s'" "pmm_only s s'"
      "free_pages_of s' = {min_page..<max_page}"
    by (rule init_page_roomy [of s 4 4, OF zero]) simp_all
  have "boot_root s' g"
    using boot(1) pmm_only_sel(1) [OF s'(3)] by (simp add: boot_root_def)
  moreover have "\<not> data_page s' g q" for q
    by (auto simp: data_page_def page_usable_def s'(4))
  ultimately have "aspace x s' g"
    using s'(2,4) boot(2) by (intro boot_root_aspace) (auto simp: roomy_def)
  with s'(1) show thesis
    by (rule that)
qed

lemma alloc_gpt_ok:
  fixes s :: "'z ksched_scheme"
  assumes inv: "bf_inv s" "free_pages_of s \<noteq> {}" "low_blocks 1 s"
    and boot: "g_bpt s = page_va b" "boot_root s b" "b \<notin> free_pages_of s"
  shows "\<exists>r s'. alloc_gpt v s = ret (0, s') \<and> r \<in> free_pages_of s \<and> vmm_gpt (vmms s' v) = page_va r \<and> boot_root s' r \<and>
    free_pages_of s' = free_pages_of s - {r} \<and> bf_inv s' \<and> page_usable s' = page_usable s \<and>
    (\<forall>i. page_ref (pages s' i) = page_ref (pages s i)) \<and> (\<forall>p. p \<noteq> r \<longrightarrow> ents (mem s') p = ents (mem s) p)"
proof -
  obtain r s1 where r: "alloc_page s = ret (Some r, s1)" "r \<in> free_pages_of s" "free_pages_of s1 = free_pages_of s - {r}"
      "bf_inv s1" "0x82000 \<le> r" "r < 0x88000" "pmm_only s s1" "\<And>i. page_ref (pages s1 i) = page_ref (pages s i)"
      "page_usable s1 = page_usable s"
    using alloc_page_ok [of s 0] inv by auto
  have d: "dram_page r" "dram_page b" "r \<noteq> b"
    using r(2,5,6) boot(2,3) by (auto simp: dram_page_def boot_root_def)
  have m1: "mem s1 = mem s" "g_bpt s1 = page_va b"
    using pmm_only_sel(1) [OF r(7)] pmm_only_kern [OF r(7)] boot(1) by simp_all
  define s' where "s' = upd_vmm v (\<lambda>v. v\<lparr>vmm_gpt := page_va r\<rparr>) (s1\<lparr>mem := memcpy (mem s) (page_va r) (page_va b) PAGE_SIZE\<rparr>)"
  have run: "alloc_gpt v s = ret (0, s')"
    using r(1) page2va_ok(3) [OF r(5,6)] by (simp add: alloc_gpt_def s'_def m1 Let_def)
  have E: "ents (mem s') r = ents (mem s) b" "p \<noteq> r \<Longrightarrow> ents (mem s') p = ents (mem s) p" for p
    using ents_memcpy [OF d] ents_memcpy_other [OF d] by (simp_all add: s'_def upd_vmm_def)
  have sf: "same_free s1 s'"
    by (simp add: s'_def same_free_def upd_vmm_def)
  note SF = same_free_inv [OF sf]
  have "boot_root s' r"
    using boot(2) d(1) by (simp add: boot_root_def E(1))
  moreover have "vmm_gpt (vmms s' v) = page_va r" "\<And>i. page_ref (pages s' i) = page_ref (pages s i)"
    using r(8) by (simp_all add: s'_def upd_vmm_def)
  ultimately show ?thesis
    using run r(2-4,9) SF E(2) by (intro exI [of _ r] exI [of _ s']) simp
qed

text \<open>C37: the page table of a new process. With a free page, \<open>alloc_gpt\<close> succeeds: the page becomes a root table
  with the kernel's two gigapages and no user page, for which the invariant of address spaces holds, so that every
  property of mapping, unmapping, faults and swapping applies to it. Every other address space keeps its
  user pages, its tables and its invariant; the new root is none of its tables. Without a free page
  and without swapping the result is \<open>-E_NO_MEM\<close> and nothing changes.\<close>

theorem alloc_gpt_new_space:
  fixes s :: "'z ksched_scheme"
  assumes "bf_inv s" and "low_blocks 1 s" and "g_bpt s = page_va b" and "boot_root s b" and "b \<notin> free_pages_of s"
  shows "if free_pages_of s \<noteq> {} then
      \<exists>r s'. alloc_gpt v s = ret (0, s') \<and> r \<in> free_pages_of s \<and> free_pages_of s' = free_pages_of s - {r} \<and>
        vmm_gpt (vmms s' v) = page_va r \<and> boot_root s' r \<and> aspace (\<lambda>q. unat (page_ref (pages s q))) s' r \<and>
        (\<forall>t\<in>vpages. pmap (ents (mem s')) r t = 0) \<and>
        (\<forall>x g. aspace x s g \<longrightarrow> r \<notin> tables (ents (mem s')) g \<and> tables (ents (mem s')) g = tables (ents (mem s)) g \<and>
           aspace (x(r := unat (page_ref (pages s r)))) s' g \<and>
           (\<forall>t\<in>vpages. pmap (ents (mem s')) g t = pmap (ents (mem s)) g t))
    else \<not> swap_init_flag s \<longrightarrow> alloc_gpt v s = ret (- E_NO_MEM, s)"
proof (cases "free_pages_of s = {}")
  case True
  then show ?thesis
    using alloc_pages_none [OF assms(1), of 1] spec_alloc_one [OF assms(1)] by (simp add: alloc_gpt_def alloc_page_def)
next
  case False
  obtain r s' where r: "alloc_gpt v s = ret (0, s')" "r \<in> free_pages_of s" "vmm_gpt (vmms s' v) = page_va r" "boot_root s' r"
      "free_pages_of s' = free_pages_of s - {r}" "bf_inv s'" "page_usable s' = page_usable s"
      "\<And>i. page_ref (pages s' i) = page_ref (pages s i)" "\<And>p. p \<noteq> r \<Longrightarrow> ents (mem s') p = ents (mem s) p"
    using alloc_gpt_ok [OF assms(1) False assms(2-5)] by blast
  have new: "aspace (\<lambda>q. unat (page_ref (pages s q))) s' r"
    using r(4-6,8) by (intro boot_root_aspace) simp_all
  have old: "r \<notin> tables (ents (mem s')) g \<and> tables (ents (mem s')) g = tables (ents (mem s)) g \<and>
      aspace (x(r := unat (page_ref (pages s r)))) s' g \<and> (\<forall>t\<in>vpages. pmap (ents (mem s')) g t = pmap (ents (mem s)) g t)"
    if a: "aspace x s g" for x g
  proof -
    have rt: "r \<notin> tables (ents (mem s)) g"
      using tabs_okD(6) [OF aspaceD(1) [OF a]] r(2) by blast
    then have E: "ents (mem s') p = ents (mem s) p" if "p \<in> tables (ents (mem s)) g" for p
      using that rt by (intro r(9)) auto
    note A = aspace_alloc [OF a r(2,5,6) E r(8,7)]
    show ?thesis
      using A(1,3) rt tables_frame(2) [of "ents (mem s)" g "ents (mem s')"] E by simp
  qed
  show ?thesis
    using False r(1-5) new old boot_root_tables(3) [OF r(4)] by (simp only: if_True not_False_eq_True simp_thms) blast
qed

text \<open>The boot table at page \<open>0x80210\<close>.\<close>

definition sample_roots :: ksched where
  "sample_roots = sample_boot\<lparr>mem := with_gigapages 0x80210 (\<lambda>_. 0), g_bpt := page_va 0x80210\<rparr>"

theorem alloc_gpt_new_space_witness:
  "\<exists>r s'. alloc_gpt 500 sample_roots = ret (0, s') \<and> vmm_gpt (vmms s' 500) = page_va r \<and>
    ents (mem s') r 510 = GIGAPAGE \<and> (\<exists>x. aspace x s' r)"
proof -
  have sf: "same_free sample_boot sample_roots"
    by (simp add: same_free_def sample_roots_def)
  have room: "roomy 4 4 sample_roots"
    using sample_boot_roomy roomy_cong [OF sf] by simp
  then have inv: "bf_inv sample_roots" "low_blocks 1 sample_roots"
    by (auto simp: roomy_def low_blocks_def)
  have "same_free sample_pmm sample_roots"
    by (simp add: same_free_def sample_roots_def sample_boot_def)
  then have f: "free_pages_of sample_roots = {0x82000..<0x82005} \<union> {0x82010..<0x82013}"
    by (simp add: free_pages_of_def same_free_inv(2) blocks_of_abs [OF sample_pmm_abs])
  have "ents (\<lambda>_. 0) p i = 0" for p i
    by (simp add: ents_def load64_zero)
  then have boot: "boot_root sample_roots 0x80210"
    by (simp add: boot_root_def sample_roots_def ents_with_gigapages dram_page_def boot_page_table_sv39_def)
  have b: "g_bpt sample_roots = page_va 0x80210" "0x80210 \<notin> free_pages_of sample_roots"
    using f by (simp_all add: sample_roots_def)
  have "free_pages_of sample_roots \<noteq> {}"
    using f by auto
  then obtain r s' where "alloc_gpt 500 sample_roots = ret (0, s')" "vmm_gpt (vmms s' 500) = page_va r" "boot_root s' r"
      "aspace (\<lambda>q. unat (page_ref (pages sample_roots q))) s' r"
    using alloc_gpt_new_space [OF inv b(1) boot b(2), of 500] by (simp only: if_True not_False_eq_True) blast
  then show ?thesis
    by (intro exI [of _ r] exI [of _ s']) (auto simp: boot_root_def boot_page_table_sv39_def)
qed

end
