(* ===== verification/Load_Props.thy ===== *)
theory Load_Props
  imports Space_Props
begin

text \<open>
  What the loader of \<open>kernel/proc/proc.c\<close> does with the permissions of segments: the areas that
  \<open>load_segments\<close> makes have the permissions of all the segments before them.
\<close>

unbundle bit_operations_syntax

section \<open>Everything but memory and pages\<close>

text \<open>With no manager under test, which is how the kernel runs programs, no page is swapped out.\<close>

lemma best_fit_alloc_more: "best_fit_alloc_pages n s = ret (r, s') \<Longrightarrow> pmm.more s' = pmm.more s"
  by (auto simp: best_fit_alloc_pages_def exec_elims take_more split: if_splits option.splits)

lemma alloc_pages_only:
  assumes "test_vmm s = None" "0 < n" and run: "alloc_pages n s = ret (r, s')"
  shows "mem_only s s'"
proof -
  obtain flag s1 where s1: "local_intr_save s = (flag, s1)"
    by fastforce
  obtain p s2 where s2: "best_fit_alloc_pages n s1 = ret (p, s2)"
    using run by (subst (asm) alloc_pages.simps) (auto simp: s1 exec_elims)
  have only: "pmm_only s (local_intr_restore flag s2)"
    using intr_pmm_only [OF s1 best_fit_alloc_more [OF s2]] .
  then have "test_vmm (local_intr_restore flag s2) = None"
    using pmm_only_sel(3) assms(1) by metis
  then have "s' = local_intr_restore flag s2"
    using run by (subst (asm) alloc_pages.simps) (use assms(2) in \<open>auto simp: s1 s2 swap_out_def Let_def split: if_splits\<close>)
  with only show ?thesis
    by (simp add: pmm_mem_only)
qed

lemma free_page_only: "free_page p s = ret s' \<Longrightarrow> mem_only s s'"
proof -
  assume run: "free_page p s = ret s'"
  obtain flag s1 where s1: "local_intr_save s = (flag, s1)"
    by fastforce
  then obtain s2 where "best_fit_free_pages p 1 s1 = ret s2" "s' = local_intr_restore flag s2"
    using run by (auto simp: free_page_def free_pages_def exec_elims)
  then show ?thesis
    using intr_pmm_only [OF s1 free_frame(1)] pmm_mem_only by blast
qed

text \<open>\<open>mem_only\<close> composed with the absence of a manager under test.\<close>

definition calm :: "'z sched_scheme \<Rightarrow> 'z sched_scheme \<Rightarrow> bool" where
  "calm s s' \<longleftrightarrow> (test_vmm s = None \<longrightarrow> mem_only s s')"

lemma calm_trans: "calm s t \<Longrightarrow> calm t u \<Longrightarrow> calm s u"
  unfolding calm_def using mem_only_sel(2) mem_only_trans by metis

lemma calm_refl [simp]: "calm s s"
  by (simp add: calm_def)

lemma calm_steps [simp]: "calm s (s\<lparr>mem := m\<rparr>)" "calm s (store_pte a v s)" "calm s (upd_page p f s)"
  by (simp_all add: calm_def)

lemma alloc_page_calm: "alloc_page s = ret (r, s') \<Longrightarrow> calm s s'"
  using alloc_pages_only [of s 1 r s'] by (simp add: calm_def alloc_page_def)

lemma get_table_calm: "get_table alloc_page need e s = ret (r, s') \<Longrightarrow> calm s s'"
  by (auto simp: get_table_def exec_elims Let_def split: if_splits option.splits dest!: alloc_page_calm
      intro: calm_trans [OF _ calm_trans [OF calm_steps(3) calm_steps(1)]])

lemma get_pte_calm: "get_pte gpt va need s = ret (r, s') \<Longrightarrow> calm s s'"
  by (auto simp: get_pte_def get_pte_by_def exec_elims Let_def split: if_splits dest!: get_table_calm intro: calm_trans)

lemma del_page_calm:
  assumes "del_page gpt va s = ret s'"
  shows "calm s s'"
proof -
  from assms obtain p s1 where s1: "get_pte gpt va False s = ret (p, s1)"
    by (auto simp: del_page_def exec_elims)
  have "calm s1 s'"
    using assms s1
    by (auto simp: del_page_def exec_elims Let_def calm_def split: option.splits if_splits
        intro: mem_only_trans mem_only_mem mem_only_trans [OF mem_only_mem(3) mem_only_trans [OF free_page_only mem_only_mem(2)]])
  then show ?thesis
    by (rule calm_trans [OF get_pte_calm [OF s1]])
qed

lemma drop_old_calm: "drop_old gpt q va a s = ret s' \<Longrightarrow> calm s s'"
  by (auto simp: drop_old_def exec_elims split: if_splits dest: del_page_calm)

lemma add_page_calm:
  assumes "add_page gpt q va flags s = ret (r, s')"
  shows "calm s s'"
proof -
  from assms obtain p s1 where s1: "get_pte gpt va True s = ret (p, s1)"
    by (auto simp: add_page_def exec_elims)
  have "calm s1 s'"
  proof (cases p)
    case None
    then show ?thesis
      using assms s1 by (simp add: add_page_def)
  next
    case (Some a)
    let ?s2 = "upd_page q (\<lambda>q. q\<lparr>page_ref := page_ref q + 1\<rparr>) s1"
    obtain s3 v where s3: "drop_old gpt q va a ?s2 = ret s3" "s' = store_pte a v s3"
      using assms s1 Some unfolding add_page_def drop_old_def [symmetric] Let_def
      by (auto simp: exec_elims)
    show ?thesis
      unfolding s3(2) by (rule calm_trans [OF calm_steps(3) calm_trans [OF drop_old_calm [OF s3(1)] calm_steps(2)]])
  qed
  then show ?thesis
    by (rule calm_trans [OF get_pte_calm [OF s1]])
qed

lemma alloc_page_gpte_calm:
  assumes "test_vmm s = None" "alloc_page_gpte gpt va flags s = ret (r, s')"
  shows "mem_only s s'"
proof -
  from assms(2) obtain p s1 where s1: "alloc_page s = ret (p, s1)"
    by (auto simp: alloc_page_gpte_def exec_elims)
  have m1: "mem_only s s1"
    using alloc_page_calm [OF s1] assms(1) by (simp add: calm_def)
  show ?thesis
  proof (cases p)
    case None
    then show ?thesis
      using assms(2) s1 m1 by (simp add: alloc_page_gpte_def)
  next
    case (Some q)
    obtain e s2 where s2: "add_page gpt q va flags s1 = ret (e, s2)"
      using assms(2) s1 Some by (auto simp: alloc_page_gpte_def exec_elims)
    have m2: "mem_only s s2"
      using add_page_calm [OF s2] m1 mem_only_sel(2) [OF m1] mem_only_trans assms(1) by (auto simp: calm_def)
    then have "test_vmm s2 = None"
      using mem_only_sel(2) assms(1) by metis
    then show ?thesis
      using assms(2) s1 s2 Some m2 mem_only_trans [OF m2 free_page_only]
      by (auto simp: alloc_page_gpte_def exec_elims split: if_splits)
  qed
qed

section \<open>The loops over a segment\<close>

lemma copy_text_calm:
  assumes "copy_text_loop gpt fl fb tb te pv pg s = ret (r, s')"
  shows "calm s s'"
proof -
  have "\<forall>r s'. z = Inr (r, s') \<longrightarrow> calm s s'" if "copy_text_loop gpt fl fb tb te pv pg s = Some z" for z
  proof (rule copy_text_loop.raw_induct [where P = "\<lambda>gpt fl fb tb te pv pg s z. \<forall>r s'. z = Inr (r, s') \<longrightarrow> calm s s'", OF _ that])
    fix f gpt fl fb tb te pv pg z
    fix s :: "'a ksched_scheme"
    assume IH: "\<And>gpt fl fb tb te pv pg s z. f gpt fl fb tb te pv pg s = Some z \<Longrightarrow> \<forall>r s'. z = Inr (r, s') \<longrightarrow> calm s s'"
      and run: "(if tb < te then
          bind_exec (alloc_page_gpte gpt pv fl s) (\<lambda>(page, s1).
            case page of None \<Rightarrow> ret (None, s1)
            | Some q \<Rightarrow> let size = chunk_size tb te pv in
                bind_exec (page2va q) (\<lambda>va.
                  if in_dram fb size then f gpt fl (fb + size) (tb + size) te (pv + PAGE_SIZE) (Some q)
                      (s1\<lparr>mem := memcpy (mem s1) (va + (tb - pv)) fb size\<rparr>)
                  else panic))
        else ret (Some (tb, pv, pg), s)) = Some z"
    show "\<forall>r s'. z = Inr (r, s') \<longrightarrow> calm s s'"
    proof (intro allI impI)
      fix r s'
      assume z: "z = Inr (r, s')"
      show "calm s s'"
      proof (cases "tb < te")
        case True
        then obtain p s1 where s1: "alloc_page_gpte gpt pv fl s = ret (p, s1)"
          using run z by (auto simp: exec_elims)
        have c: "calm s s1"
          using alloc_page_gpte_calm [OF _ s1] by (simp add: calm_def)
        then show ?thesis
          using run z True s1 c by (auto simp: exec_elims Let_def split: option.splits if_splits
            dest!: IH [rule_format, OF _ refl] intro: calm_trans [OF c calm_trans [OF calm_steps(1)]])
      qed (use run z in auto)
    qed
  qed
  with assms show ?thesis
    by blast
qed

lemma clear_bss_calm:
  assumes "clear_bss_loop gpt fl tb te pv s = ret (r, s')"
  shows "calm s s'"
proof -
  have "\<forall>r s'. z = Inr (r, s') \<longrightarrow> calm s s'" if "clear_bss_loop gpt fl tb te pv s = Some z" for z
  proof (rule clear_bss_loop.raw_induct [where P = "\<lambda>gpt fl tb te pv s z. \<forall>r s'. z = Inr (r, s') \<longrightarrow> calm s s'", OF _ that])
    fix f gpt fl tb te pv z
    fix s :: "'a ksched_scheme"
    assume IH: "\<And>gpt fl tb te pv s z. f gpt fl tb te pv s = Some z \<Longrightarrow> \<forall>r s'. z = Inr (r, s') \<longrightarrow> calm s s'"
      and run: "(if tb < te then
          bind_exec (alloc_page_gpte gpt pv fl s) (\<lambda>(page, s1).
            case page of None \<Rightarrow> ret (False, s1)
            | Some q \<Rightarrow> let size = chunk_size tb te pv in
                bind_exec (page2va q) (\<lambda>va.
                  f gpt fl (tb + size) te (pv + PAGE_SIZE) (s1\<lparr>mem := memset (mem s1) (va + (tb - pv)) 0 size\<rparr>)))
        else ret (True, s)) = Some z"
    show "\<forall>r s'. z = Inr (r, s') \<longrightarrow> calm s s'"
    proof (intro allI impI)
      fix r s'
      assume z: "z = Inr (r, s')"
      show "calm s s'"
      proof (cases "tb < te")
        case True
        then obtain p s1 where s1: "alloc_page_gpte gpt pv fl s = ret (p, s1)"
          using run z by (auto simp: exec_elims)
        have c: "calm s s1"
          using alloc_page_gpte_calm [OF _ s1] by (simp add: calm_def)
        then show ?thesis
          using run z True s1 c by (auto simp: exec_elims Let_def split: option.splits
            dest!: IH [rule_format, OF _ refl] intro: calm_trans [OF c calm_trans [OF calm_steps(1)]])
      qed (use run z in auto)
    qed
  qed
  with assms show ?thesis
    by blast
qed

lemma load_bss_calm: "load_bss gpt fl tb te pv pg s = ret (r, s') \<Longrightarrow> calm s s'"
  by (auto simp: load_bss_def clear_tail_def exec_elims Let_def split: if_splits option.splits
      dest!: clear_bss_calm intro: calm_trans [OF calm_steps(1)])

section \<open>The permissions of areas\<close>

text \<open>The kernel state differs at most in memory, pages and areas, and every area has its old flags or all of \<open>acc\<close>.\<close>

definition areas_get :: "u32 \<Rightarrow> 'z sched_scheme \<Rightarrow> 'z sched_scheme \<Rightarrow> bool" where
  "areas_get acc s s' \<longleftrightarrow> (test_vmm s = None \<longrightarrow> test_vmm s' = None \<and>
     (\<forall>a. vm_flags (vmas s' a) = vm_flags (vmas s a) \<or> vm_flags (vmas s' a) AND acc = acc))"

lemma areas_get_trans: "areas_get acc s t \<Longrightarrow> areas_get acc t u \<Longrightarrow> areas_get acc s u"
  unfolding areas_get_def by metis

lemma areas_get_calm: "calm s s' \<Longrightarrow> areas_get acc s s'"
  using mem_only_sel(2,4) [of s s'] by (auto simp: calm_def areas_get_def)

lemma areas_get_mono:
  assumes "areas_get acc' s s'" "acc' AND acc = acc"
  shows "areas_get acc s s'"
proof -
  have "f AND acc' = acc' \<Longrightarrow> f AND acc = acc" for f
    using assms(2) by (metis and.assoc and.commute)
  then show ?thesis
    using assms(1) by (auto simp: areas_get_def)
qed

lemma seg_vm_flags_acc: "seg_vm_flags acc ph AND acc = acc"
proof -
  have k: "(x OR v) AND acc = acc" if "x AND acc = acc" for x v :: u32
  proof (rule bit_word_eqI)
    fix n
    have "bit (x AND acc) n = bit acc n"
      by (simp add: that)
    then show "bit ((x OR v) AND acc) n = bit acc n"
      by (auto simp: bit_and_iff bit_or_iff)
  qed
  show ?thesis
    by (simp add: seg_vm_flags_def Let_def k)
qed

lemma find_vma_areas: "find_vma (Some v) x s = ret (r, s') \<Longrightarrow> areas_get acc s s'"
  by (auto simp: find_vma_def areas_get_def upd_vmm_def split: option.splits if_splits)

lemma add_vma_areas: "add_vma v a s = ret s' \<Longrightarrow> areas_get acc s s'"
  by (auto simp: add_vma_def exec_elims Let_def areas_get_def upd_vma_def upd_vmm_def split: option.splits)

lemma init_vma_areas:
  assumes "init_vma b e fl s = ret (r, s')"
  shows "areas_get fl s s'"
proof -
  obtain va s1 where s1: "malloc VM_AREA_SIZE s = ret (va, s1)"
    using assms by (auto simp: init_vma_def exec_elims)
  then have "calm s s1"
    by (auto simp: malloc_def exec_elims Let_def calm_def alloc_pages_only split: option.splits)
  then have "areas_get fl s s1"
    by (rule areas_get_calm)
  moreover have "areas_get fl s1 s'"
    using assms s1 by (auto simp: init_vma_def areas_get_def upd_vma_def split: if_splits)
  ultimately show ?thesis
    by (rule areas_get_trans)
qed

lemma areas_get_refl [simp]: "areas_get acc s s"
  by (simp add: areas_get_def)

lemma vm_map_areas:
  assumes "vm_map (Some v) addr len fl s = ret (e, r, s')"
  shows "areas_get fl s s'"
proof (cases "user_access (rounddown addr PAGE_SIZE) (roundup (addr + len) PAGE_SIZE)")
  case False
  then show ?thesis
    using assms by (simp add: vm_map_def)
next
  case True
  let ?b = "rounddown addr PAGE_SIZE" and ?e = "roundup (addr + len) PAGE_SIZE"
  obtain f s1 where s1: "find_vma (Some v) ?b s = ret (f, s1)"
    using assms True by (auto simp: vm_map_def exec_elims Let_def)
  note g1 = find_vma_areas [OF s1, of fl]
  show ?thesis
  proof (cases "case f of None \<Rightarrow> False | Some a \<Rightarrow> ?e > vm_start (vmas s1 a)")
    case True
    with \<open>user_access ?b ?e\<close> show ?thesis
      using assms s1 g1 by (simp add: vm_map_def)
  next
    case False
    then obtain n s2 where s2: "init_vma ?b ?e fl s1 = ret (n, s2)"
        "(case n of None \<Rightarrow> s' = s2 | Some a \<Rightarrow> add_vma v a s2 = ret s')"
      using assms True s1 by (auto simp: vm_map_def exec_elims Let_def split: option.splits)
    have "areas_get fl s2 s'"
      using s2(2) add_vma_areas by (auto split: option.splits)
    then show ?thesis
      using areas_get_trans [OF g1 areas_get_trans [OF init_vma_areas [OF s2(1)]]] by blast
  qed
qed

lemma load_segment_areas:
  assumes "load_segment v bin ph acc s = ret (e, s')"
  shows "areas_get acc s s'"
proof -
  obtain e1 r s1 where s1: "vm_map (Some v) (ph_va ph) (ph_mem_size ph) acc s = ret (e1, r, s1)"
    using assms by (auto simp: load_segment_def exec_elims)
  have "calm s1 s'"
    using assms s1
    by (auto simp: load_segment_def exec_elims Let_def split: if_splits option.splits
        dest!: copy_text_calm load_bss_calm intro: calm_trans)
  then show ?thesis
    using areas_get_trans [OF vm_map_areas [OF s1] areas_get_calm] by blast
qed

lemma load_segments_areas: "load_segments v bin n prog acc s = ret (e, s') \<Longrightarrow> areas_get acc s s'"
proof (induction n arbitrary: prog acc s)
  case (Suc n)
  let ?ph = "read_prog_header (mem s) prog"
  consider "ph_type ?ph \<noteq> ELF_PT_LOAD" "load_segments v bin n (prog + PROG_HEADER_SIZE) acc s = ret (e, s')"
    | "s' = s"
    | e1 s1 where "load_segment v bin ?ph (seg_vm_flags acc ?ph) s = ret (e1, s1)" "s' = s1 \<or>
        load_segments v bin n (prog + PROG_HEADER_SIZE) (seg_vm_flags acc ?ph) s1 = ret (e, s')"
    using Suc.prems by (auto simp: exec_elims Let_def split: if_splits)
  then show ?case
  proof cases
    case 3
    have g: "areas_get acc s s1"
      using areas_get_mono [OF load_segment_areas [OF 3(1)] seg_vm_flags_acc] .
    show ?thesis
      using 3(2) g areas_get_trans [OF g areas_get_mono [OF Suc.IH seg_vm_flags_acc]] by blast
  qed (use Suc.IH in \<open>auto simp: areas_get_def\<close>)
qed (simp add: areas_get_def)

section \<open>Mapping an area\<close>

lemma area_page: "drop_bit PAGE_SHIFT (roundup VM_AREA_SIZE PAGE_SIZE) = 1"
  by (simp add: PAGE_SHIFT_def roundup_def VM_AREA_SIZE_def PAGE_SIZE_def)

lemma init_vma_ok:
  assumes "roomy (Suc k) (Suc m) s" "0 < m"
  obtains p s' where "init_vma b e fl s = ret (Some (page_va p), s')" "roomy k m s'" "mem s' = mem s"
    "vmas s' = (vmas s)(page_va p := (vmas s (page_va p))\<lparr>vm_start := b, vm_end := e, vm_flags := fl\<rparr>)"
    "vmms s' = vmms s" "vma_links s' = vma_links s" "0x82000 \<le> p" "p < 0x88000" "p \<in> free_pages_of s"
    "p \<notin> free_pages_of s'"
proof -
  obtain p s1 where s1: "malloc VM_AREA_SIZE s = ret (page_va p, s1)" "roomy k m s1" "pmm_only s s1"
      "0x82000 \<le> p" "p < 0x88000" "p \<in> free_pages_of s" "p \<notin> free_pages_of s1" "free_pages_of s1 \<subseteq> free_pages_of s"
    by (rule malloc_page [OF assms area_page])
  let ?s = "upd_vma (page_va p) (\<lambda>x. x\<lparr>vm_start := b, vm_end := e, vm_flags := fl\<rparr>) s1"
  have sf: "same_free s1 ?s"
    by (simp add: same_free_def upd_vma_def)
  have "mem ?s = mem s1"
    by (simp add: upd_vma_def)
  then show thesis
    using that [of p ?s] s1 page_va_ne_0 [of p] pmm_only_sel [OF s1(3)] roomy_cong [OF sf] same_free_inv(4) [OF sf]
    by (simp add: init_vma_def)
qed

text \<open>\<open>vm_map\<close> of a range that meets no area.\<close>

lemma vm_map_fresh:
  assumes rep: "vma_rep s v as" and room: "roomy (Suc k) (Suc m) s" "0 < m"
    and r: "rounddown addr PAGE_SIZE = b" "roundup (addr + len) PAGE_SIZE = e" "user_access b e"
    and apart: "\<forall>a\<in>set as. vm_end (vmas s a) \<le> b" and old: "\<forall>p\<in>free_pages_of s. page_va p \<notin> set as"
  obtains p s' where "vm_map (Some v) addr len fl s = ret (0, Some (page_va p), s')" "vma_rep s' v (as @ [page_va p])"
    "roomy k m s'" "mem s' = mem s" "vm_flags (vmas s' (page_va p)) = fl" "vm_end (vmas s' (page_va p)) = e"
    "\<forall>a. a \<noteq> page_va p \<longrightarrow> vmas s' a = vmas s a" "page_va p \<notin> set as"
    "0x82000 \<le> p" "p < 0x88000" "p \<notin> free_pages_of s'"
proof -
  have be: "b < e"
    using r(3) by (simp add: user_access_def)
  have none: "area_of s as b = None"
    using apart unfolding area_of_def find_None_iff in_vma_def by (auto simp: not_less)
  obtain s1 where s1: "find_vma (Some v) b s = ret (None, s1)" "vma_rep s1 v as" "vmas s1 = vmas s"
      "s1 = s \<or> (\<exists>a. s1 = upd_vmm v (\<lambda>x. x\<lparr>vma_curr := Some a\<rparr>) s)"
    using find_vma_ok [OF rep, of b] none by auto
  have sf1: "same_free s s1" "mem s1 = mem s"
    using s1(4) by (auto simp: same_free_def upd_vmm_def)
  have room1: "roomy (Suc k) (Suc m) s1"
    using room(1) roomy_cong [OF sf1(1)] by simp
  obtain p s2 where s2: "init_vma b e fl s1 = ret (Some (page_va p), s2)" "roomy k m s2" "mem s2 = mem s1"
      "vmas s2 = (vmas s1)(page_va p := (vmas s1 (page_va p))\<lparr>vm_start := b, vm_end := e, vm_flags := fl\<rparr>)"
      "vmms s2 = vmms s1" "vma_links s2 = vma_links s1" "0x82000 \<le> p" "p < 0x88000" "p \<in> free_pages_of s1"
      "p \<notin> free_pages_of s2"
    by (rule init_vma_ok [OF room1 room(2)])
  let ?a = "page_va p"
  have new: "?a \<notin> set as"
    using old s2(9) same_free_inv(4) [OF sf1(1)] by simp
  have same: "vmas s2 c = vmas s c" if "c \<noteq> ?a" for c
    using that by (simp add: s2(4) s1(3))
  have m: "map (vmas s2) as = map (vmas s) as"
  proof (rule map_cong [OF refl])
    show "vmas s2 c = vmas s c" if "c \<in> set as" for c
      using that new by (intro same) auto
  qed
  have old2: "vmas s2 c = vmas s c" if "c \<in> set as" for c
    using that new by (intro same) auto
  have rep2: "vma_rep s2 v as"
    using s1(2) old2 unfolding vma_rep_def m s2(5,6) s1(3) by auto
  have ends: "vm_end (vmas s2 c) \<le> b" "vm_start (vmas s2 c) < b" if c: "c \<in> set as" for c
  proof -
    have e: "vmas s2 c = vmas s c" "vm_start (vmas s c) < vm_end (vmas s c)"
      using old2 [OF c] c rep by (auto simp: vma_rep_def)
    show "vm_end (vmas s2 c) \<le> b" "vm_start (vmas s2 c) < b"
      using e apart c by (auto intro: order.strict_trans2)
  qed
  have a: "vm_start (vmas s2 ?a) = b" "vm_end (vmas s2 ?a) = e" "vm_flags (vmas s2 ?a) = fl"
    by (simp_all add: s2(4))
  have ins: "insert_area s2 ?a as = as @ [?a]"
    using ends(2) by (simp add: insert_area_def a takeWhile_eq_all_conv dropWhile_eq_Nil_conv)
  have "\<forall>c\<in>set as. vma_apart (vmas s2 ?a) (vmas s2 c)"
    using ends(1) by (simp add: vma_apart_def vma_before_def a)
  then obtain s3 where s3: "add_vma v ?a s2 = ret s3" "vma_rep s3 v (as @ [?a])"
      "vmas s3 = (vmas s2)(?a := (vmas s2 ?a)\<lparr>vma_vmm := Some v\<rparr>)"
    using add_vma_ok [OF rep2 new] be ins a by auto
  have fr: "same_free s2 s3" "mem s3 = mem s2"
    using s3(1) by (auto simp: add_vma_def exec_elims Let_def same_free_def upd_vma_def upd_vmm_def split: option.splits)
  have "vm_map (Some v) addr len fl s = ret (0, Some ?a, s3)"
    using r s1(1) s2(1) s3(1) by (simp add: vm_map_def)
  then show thesis
    using that [of p s3] s3(2,3) s2(2,3,7,8,10) new same roomy_cong [OF fr(1)] fr(2) sf1(2) same_free_inv(4) [OF fr(1)] a
    by simp
qed

section \<open>Properties\<close>

text \<open>A segment that occupies no byte of the file and of memory, and starts inside a page, gets an area and nothing else.\<close>

lemma load_empty_segment:
  assumes "vm_map (Some v) (ph_va ph) 0 acc s = ret (0, r, s')" and "ph_file_size ph = 0" "ph_mem_size ph = 0"
    and "rounddown (ph_va ph) PAGE_SIZE \<le> ph_va ph"
  shows "load_segment v bin ph acc s = ret (0, s')"
  using assms
  by (simp add: load_segment_def Let_def load_bss_def not_less [symmetric])
    (simp add: copy_text_loop.simps clear_bss_loop.simps load_bss_def Let_def)

text \<open>Two program headers at the start of the kernel's memory: an empty writable segment at \<open>0x800001\<close> and an
  empty read-only one at \<open>0x802001\<close>; and a manager without areas.\<close>

definition sample_headers :: bytes where
  "sample_headers = (\<lambda>a.
     if a \<in> {0xFFFFFFFF80201000, 0xFFFFFFFF80201038, 0xFFFFFFFF80201010, 0xFFFFFFFF80201048} then 1
     else if a = 0xFFFFFFFF80201004 then 6 else if a = 0xFFFFFFFF8020103C then 4
     else if a = 0xFFFFFFFF80201049 then 0x20 else if a \<in> {0xFFFFFFFF80201012, 0xFFFFFFFF8020104A} then 0x80 else 0)"

lemma load_le_numeral:
  "load_le m a (numeral k) = push_bit 8 (load_le m (a + 1) (pred_numeral k)) OR ucast (m a)"
  by (simp add: numeral_eq_Suc)

lemma sample_headers_read:
  "read_prog_header sample_headers 0xFFFFFFFF80201000 =
     \<lparr>ph_type = 1, ph_flags = 6, ph_offset = 0, ph_va = 0x800001, ph_file_size = 0, ph_mem_size = 0\<rparr>"
  "read_prog_header sample_headers 0xFFFFFFFF80201038 =
     \<lparr>ph_type = 1, ph_flags = 4, ph_offset = 0, ph_va = 0x802001, ph_file_size = 0, ph_mem_size = 0\<rparr>"
  by (simp_all add: read_prog_header_def load_le_numeral sample_headers_def)

definition sample_load :: ksched where
  "sample_load = sample_boot\<lparr>mem := sample_headers, vma_links := init_list (LHead 500) (vma_links sample_boot),
     vmas := (\<lambda>_. \<lparr>vma_vmm = None, vm_start = 0, vm_end = 0, vm_flags = 0\<rparr>),
     vmms := (\<lambda>_. \<lparr>vma_curr = None, vmm_gpt = page_va 0x82008, vma_count = 0, pra_list = None, use_count = 0, owner_pid = 0\<rparr>),
     test_vmm := None\<rparr>"

lemma sample_load_sel:
  "mem sample_load = sample_headers" "vma_rep sample_load 500 []" "roomy (Suc 3) (Suc 3) sample_load"
  "vm_flags (vmas sample_load a) = 0" "test_vmm sample_load = None"
proof -
  have "same_free sample_boot sample_load"
    by (simp add: same_free_def sample_load_def)
  then show "roomy (Suc 3) (Suc 3) sample_load"
    using sample_boot_roomy by (simp add: roomy_cong)
qed (simp_all add: sample_load_def vma_rep_def dlist_def init_list_def)

lemma load_segments_load:
  assumes "in_dram prog PROG_HEADER_SIZE" "read_prog_header (mem s) prog = ph" "ph_type ph = ELF_PT_LOAD"
    "ph_file_size ph \<le> ph_mem_size ph"
  shows "load_segments v bin (Suc n) prog acc s = bind_exec (load_segment v bin ph (seg_vm_flags acc ph) s) (\<lambda>(err, s1).
    if err \<noteq> 0 then ret (err, s1) else load_segments v bin n (prog + PROG_HEADER_SIZE) (seg_vm_flags acc ph) s1)"
  using assms by (simp add: Let_def linorder_not_le [symmetric])

lemma load_segment_step:
  assumes "in_dram prog PROG_HEADER_SIZE" "read_prog_header (mem s) prog = ph" "ph_type ph = ELF_PT_LOAD"
    "ph_file_size ph \<le> ph_mem_size ph" "load_segment v bin ph (seg_vm_flags acc ph) s = ret (0, s1)"
  shows "load_segments v bin (Suc n) prog acc s = load_segments v bin n (prog + PROG_HEADER_SIZE) (seg_vm_flags acc ph) s1"
  by (simp only: load_segments_load [OF assms(1-4)] assms(5)) simp

lemma sample_load_run:
  obtains a s' where "load_segments 500 bin 2 0xFFFFFFFF80201000 0 sample_load = ret (0, s')" "vm_end (vmas s' a) = 0x803000"
    "vm_flags (vmas s' a) \<noteq> 0"
proof -
  let ?h1 = "\<lparr>ph_type = 1, ph_flags = 6, ph_offset = 0, ph_va = 0x800001, ph_file_size = 0, ph_mem_size = 0\<rparr> :: prog_header"
  let ?h2 = "\<lparr>ph_type = 1, ph_flags = 4, ph_offset = 0, ph_va = 0x802001, ph_file_size = 0, ph_mem_size = 0\<rparr> :: prog_header"
  have d: "in_dram 0xFFFFFFFF80201000 PROG_HEADER_SIZE" "in_dram 0xFFFFFFFF80201038 PROG_HEADER_SIZE"
    by (simp_all add: in_dram_def const_defs)
  have r: "rounddown 0x800001 PAGE_SIZE = 0x800000" "roundup (0x800001 + 0) PAGE_SIZE = 0x801000" "user_access 0x800000 0x801000"
      "rounddown 0x802001 PAGE_SIZE = 0x802000" "roundup (0x802001 + 0) PAGE_SIZE = 0x803000" "user_access 0x802000 0x803000"
    by (simp_all add: rounddown_def roundup_def user_access_def const_defs)
  have three: "roomy (Suc 3) (Suc 3) sample_load" "0 < (3 :: nat)"
    using sample_load_sel(3) by simp_all
  obtain p s1 where s1: "vm_map (Some 500) 0x800001 0 (seg_vm_flags 0 ?h1) sample_load = ret (0, Some (page_va p), s1)"
      "vma_rep s1 500 ([] @ [page_va p])" "roomy 3 3 s1" "mem s1 = mem sample_load" "vm_end (vmas s1 (page_va p)) = 0x801000"
      "0x82000 \<le> p" "p < 0x88000" "p \<notin> free_pages_of s1"
    by (rule vm_map_fresh [OF sample_load_sel(2) three r(1-3)]) auto
  have l1: "load_segment 500 bin ?h1 (seg_vm_flags 0 ?h1) sample_load = ret (0, s1)"
    by (rule load_empty_segment) (use s1(1) in \<open>simp_all add: r\<close>)
  have room2: "roomy (Suc 2) (Suc 2) s1" "0 < (2 :: nat)"
    using s1(3) by (simp_all add: eval_nat_numeral)
  have "page_va q \<noteq> page_va p" if "q \<in> free_pages_of s1" for q
  proof
    assume eq: "page_va q = page_va p"
    have "q < 2 ^ 52" "p < 2 ^ 52"
      using bf_inv_free_usable [of s1 q] that s1(3,7) by (simp_all add: roomy_def page_usable_def)
    moreover have "push_bit 12 (of_nat q :: u64) = push_bit 12 (of_nat p)"
      using eq unfolding page_va_def PAGE_SHIFT_def by (rule add_right_imp_eq)
    ultimately have "q * 4096 = p * 4096"
      using push_page [of q] push_page [of p] by (simp only:)
    then have "q = p"
      by simp
    with that s1(8) show False
      by simp
  qed
  then have old: "\<forall>q\<in>free_pages_of s1. page_va q \<notin> set ([] @ [page_va p])"
    by simp
  have apart: "\<forall>a\<in>set ([] @ [page_va p]). vm_end (vmas s1 a) \<le> 0x802000"
    using s1(5) by simp
  obtain q s2 where s2: "vm_map (Some 500) 0x802001 0 (seg_vm_flags (seg_vm_flags 0 ?h1) ?h2) s1 = ret (0, Some (page_va q), s2)"
      "vm_flags (vmas s2 (page_va q)) = seg_vm_flags (seg_vm_flags 0 ?h1) ?h2" "vm_end (vmas s2 (page_va q)) = 0x803000"
    by (rule vm_map_fresh [OF s1(2) room2 r(4-6) apart old])
  have l2: "load_segment 500 bin ?h2 (seg_vm_flags (seg_vm_flags 0 ?h1) ?h2) s1 = ret (0, s2)"
    by (rule load_empty_segment) (use s2(1) in \<open>simp_all add: r\<close>)
  have n: "(0xFFFFFFFF80201000 :: u64) + PROG_HEADER_SIZE = 0xFFFFFFFF80201038"
    by (simp add: const_defs)
  have "load_segments 500 bin 2 0xFFFFFFFF80201000 0 sample_load = ret (0, s2)"
    unfolding numeral_2_eq_2
    using load_segment_step [OF d(1) _ _ _ l1, of 1] load_segment_step [OF d(2) _ _ _ l2, of 0]
    by (simp add: sample_load_sel(1) s1(4) sample_headers_read n ELF_PT_LOAD_def del: load_segments.simps(2))
  moreover have "vm_flags (vmas s2 (page_va q)) \<noteq> 0"
    unfolding s2(2) by (simp add: seg_vm_flags_def const_defs Let_def)
  ultimately show thesis
    using that s2(3) by blast
qed

text \<open>C35: \<open>load_bin\<close> never resets the permissions it collects, so what one segment of a program permits every
  later segment permits too. Whatever the headers after a loadable segment say, and whether or not loading succeeds, each area that
  \<open>load_segments\<close> makes from there on allows writing if that segment did, and likewise reading and execution. A
  read-only segment after a writable one is therefore writable.\<close>

theorem later_segments_writable:
  fixes s :: "'z ksched_scheme"
  assumes "test_vmm s = None" and "in_dram prog PROG_HEADER_SIZE" and "read_prog_header (mem s) prog = ph"
    and "ph_type ph = ELF_PT_LOAD" and "ph_file_size ph \<le> ph_mem_size ph"
    and "load_segments v bin (Suc n) prog acc s = ret (err, s')"
  shows "\<forall>a. vm_flags (vmas s' a) = vm_flags (vmas s a) \<or>
    (ph_flags ph AND ELF_PF_W \<noteq> 0 \<longrightarrow> vm_flags (vmas s' a) AND VMA_WRITE \<noteq> 0) \<and>
    (ph_flags ph AND ELF_PF_R \<noteq> 0 \<longrightarrow> vm_flags (vmas s' a) AND VMA_READ \<noteq> 0) \<and>
    (ph_flags ph AND ELF_PF_X \<noteq> 0 \<longrightarrow> vm_flags (vmas s' a) AND VMA_EXEC \<noteq> 0)"
proof
  fix a
  let ?acc = "seg_vm_flags acc ph"
  obtain e1 s1 where s1: "load_segment v bin ph ?acc s = ret (e1, s1)"
      "s' = s1 \<or> load_segments v bin n (prog + PROG_HEADER_SIZE) ?acc s1 = ret (err, s')"
    using assms(6) unfolding load_segments_load [OF assms(2-5)] by (auto simp: exec_elims split: if_splits)
  have "areas_get ?acc s s'"
    using s1(2) load_segment_areas [OF s1(1)] areas_get_trans load_segments_areas by blast
  then have "vm_flags (vmas s' a) = vm_flags (vmas s a) \<or> vm_flags (vmas s' a) AND ?acc = ?acc"
    using assms(1) by (simp add: areas_get_def)
  moreover have "f AND v \<noteq> 0" if "f AND ?acc = ?acc" "?acc AND v \<noteq> 0" for f v
  proof
    assume z: "f AND v = 0"
    have "(f AND ?acc) AND v = ?acc AND (f AND v)"
      by (simp only: ac_simps)
    also have "\<dots> = 0"
      by (simp add: z)
    finally show False
      unfolding that(1) using that(2) by simp
  qed
  moreover have "ph_flags ph AND ELF_PF_W \<noteq> 0 \<longrightarrow> ?acc AND VMA_WRITE \<noteq> 0"
      "ph_flags ph AND ELF_PF_R \<noteq> 0 \<longrightarrow> ?acc AND VMA_READ \<noteq> 0" "ph_flags ph AND ELF_PF_X \<noteq> 0 \<longrightarrow> ?acc AND VMA_EXEC \<noteq> 0"
    by (auto simp: seg_vm_flags_def Let_def const_defs bit.conj_disj_distrib2)
  ultimately show "vm_flags (vmas s' a) = vm_flags (vmas s a) \<or>
    (ph_flags ph AND ELF_PF_W \<noteq> 0 \<longrightarrow> vm_flags (vmas s' a) AND VMA_WRITE \<noteq> 0) \<and>
    (ph_flags ph AND ELF_PF_R \<noteq> 0 \<longrightarrow> vm_flags (vmas s' a) AND VMA_READ \<noteq> 0) \<and>
    (ph_flags ph AND ELF_PF_X \<noteq> 0 \<longrightarrow> vm_flags (vmas s' a) AND VMA_EXEC \<noteq> 0)"
    by blast
qed

theorem later_segments_writable_witness:
  "\<exists>a s'. load_segments 500 0 2 0xFFFFFFFF80201000 0 sample_load = ret (0, s') \<and> vm_end (vmas s' a) = 0x803000 \<and>
    ph_flags (read_prog_header (mem sample_load) 0xFFFFFFFF80201038) AND ELF_PF_W = 0 \<and> vm_flags (vmas s' a) AND VMA_WRITE \<noteq> 0"
proof -
  obtain a s' where s': "load_segments 500 0 2 0xFFFFFFFF80201000 0 sample_load = ret (0, s')" "vm_end (vmas s' a) = 0x803000"
      "vm_flags (vmas s' a) \<noteq> 0"
    by (rule sample_load_run)
  have run: "load_segments 500 0 (Suc 1) 0xFFFFFFFF80201000 0 sample_load = ret (0, s')"
    using s'(1) by (simp add: numeral_2_eq_2)
  have d: "in_dram 0xFFFFFFFF80201000 PROG_HEADER_SIZE"
    by (simp add: in_dram_def const_defs)
  note h = sample_headers_read [folded sample_load_sel(1)]
  have "vm_flags (vmas s' a) AND VMA_WRITE \<noteq> 0"
    using later_segments_writable [OF sample_load_sel(5) d h(1) _ _ run, THEN spec, of a] s'(3) sample_load_sel(4) [of a]
    by (auto simp: ELF_PT_LOAD_def ELF_PF_W_def)
  then show ?thesis
    using s' h(2) by (intro exI [of _ a] exI [of _ s']) (simp add: ELF_PF_W_def)
qed

end
