(* ===== verification/Reap_Props.thy ===== *)
theory Reap_Props
  imports Boot_Props
begin

text \<open>
  Waiting for a child on every outcome, with the reaping of a zombie followed to the end: its links, its kernel
  stack and the page of its control block.
\<close>

unbundle bit_operations_syntax

section \<open>What reaping changes\<close>

lemma remove_links_frame:
  fixes s :: "'z ksched_scheme"
  assumes "remove_links p s = ret s'"
  shows "same_free s s'" "same_rq s s'" "curr_proc s' = curr_proc s" "init_proc_ptr s' = init_proc_ptr s"
    "hash_links s' = hash_links s" "p_state (procs s' q) = p_state (procs s q)" "p_gpt (procs s' q) = p_gpt (procs s q)"
    "p_kernel_stack (procs s' q) = p_kernel_stack (procs s q)" "p_pid (procs s' q) = p_pid (procs s q)"
    "next_pid s' = next_pid s" "prev_pid s' = prev_pid s"
  using assms by (auto simp: remove_links_def upd_proc_def Let_def same_free_def same_rq_def split: option.splits)

lemma free_pages_ok:
  assumes inv: "bf_inv s" and n: "0 < n"
    and p: "\<And>i. i \<in> {p..<p + unat n} \<Longrightarrow> page_usable s i \<and> i \<notin> free_pages_of s"
  shows "\<exists>s'. free_pages p n s = ret s' \<and> bf_inv s' \<and> free_pages_of s' = free_pages_of s \<union> {p..<p + unat n} \<and>
    pmm_only s s' \<and> page_usable s' = page_usable s"
proof -
  obtain flag s1 where s1: "local_intr_save s = (flag, s1)"
    by fastforce
  note sf = same_free_inv [OF intr_save_free [OF s1]]
  obtain s2 where s2: "best_fit_free_pages p n s1 = ret s2" "bf_inv s2" "free_pages_of s2 = free_pages_of s \<union> {p..<p + unat n}"
      "page_usable s2 = page_usable s"
    using bf.dealloc_ok [of s1 n p] inv n p unfolding sf by auto
  then show ?thesis
    using same_free_inv [OF same_free_intr(2), of flag s2] intr_pmm_only [OF s1 free_frame(1) [OF s2(1)]]
    by (simp add: free_pages_def s1)
qed

text \<open>A process that is neither runnable nor running can leave the table.\<close>

lemma sched_inv_leave:
  assumes "sched_inv P s" "z \<notin> run_set P s" "z \<noteq> curr_proc s"
  shows "sched_inv (P - {z}) s" "run_set (P - {z}) s = run_set P s"
proof -
  show rs: "run_set (P - {z}) s = run_set P s"
    using assms(2) by (auto simp: run_set_def)
  have "card (P - {z}) \<le> card P"
    using assms(1) by (intro card_mono) (auto simp: sched_inv_def)
  then show "sched_inv (P - {z}) s"
    using assms by (auto simp: sched_inv_def rs)
qed

text \<open>The control block of \<open>z\<close> is page \<open>q\<close> and its kernel stack are the pages \<open>k\<close> and \<open>k + 1\<close>.\<close>

definition proc_pages :: "'z sched_scheme \<Rightarrow> pcb_ptr \<Rightarrow> nat \<Rightarrow> nat \<Rightarrow> bool" where
  "proc_pages s z q k \<longleftrightarrow> z = page_va q \<and> p_kernel_stack (procs s z) = page_va k \<and> q \<notin> {k, k + 1} \<and>
     (\<forall>i\<in>{q, k, k + 1}. table_page i \<and> page_usable s i \<and> i \<notin> free_pages_of s)"

lemma reap_pages:
  fixes s :: "'z ksched_scheme"
  assumes inv: "bf_inv s" and pp: "proc_pages s z q k"
  shows "\<exists>s1 s2. free_kernel_stack z s = ret s1 \<and> free z PCB_SIZE s1 = ret s2 \<and> bf_inv s2 \<and> pmm_only s s2 \<and>
    free_pages_of s2 = free_pages_of s \<union> {q, k, k + 1}"
proof -
  note P = pp [unfolded proc_pages_def]
  have n: "unat KERNEL_STACK_PAGE = 2" "0 < KERNEL_STACK_PAGE" "{k..<k + 2} = {k, k + 1}"
    by (auto simp: KERNEL_STACK_PAGE_def)
  have va: "va2page (p_kernel_stack (procs s z)) = ret k" "va2page z = ret q"
    using P va2page_ok by auto
  obtain s1 where s1: "free_pages k KERNEL_STACK_PAGE s = ret s1" "bf_inv s1" "free_pages_of s1 = free_pages_of s \<union> {k, k + 1}"
      "pmm_only s s1" "page_usable s1 = page_usable s"
    using free_pages_ok [OF inv n(2), of k] P unfolding n(1,3) by auto
  have "{q..<q + unat (1 :: u64)} = {q}"
    by auto
  then obtain s2 where s2: "free_pages q 1 s1 = ret s2" "bf_inv s2" "free_pages_of s2 = insert q (free_pages_of s1)" "pmm_only s1 s2"
    using free_pages_ok [OF s1(2), of 1 q] P by (auto simp: s1(3,5))
  have "(1 :: u64) < g_num_free_pages"
    by (simp add: const_defs g_num_free_pages_def)
  then have "free z PCB_SIZE s1 = ret s2"
    using s2(1) va(2) by (simp add: free_def pcb_page)
  moreover have "free_kernel_stack z s = ret s1"
    using s1(1) va(1) by (simp add: free_kernel_stack_def)
  moreover have "free_pages_of s2 = free_pages_of s \<union> {q, k, k + 1}"
    using s2(3) s1(3) by auto
  ultimately show ?thesis
    using s2(2) pmm_only_trans [OF s1(4) s2(4)] by blast
qed

lemma pmm_only_procs:
  fixes s s' :: "'z ksched_scheme"
  assumes "pmm_only s s'"
  shows "same_family s s'" "same_rq s s'" "hash_links s' = hash_links s"
  using assms unfolding pmm_only_def by (cases s; cases s'; simp add: same_family_def same_rq_def)+

lemma reap_ok:
  fixes s :: "'z ksched_scheme"
  assumes fam: "family s ps K" and inv: "sched_inv (set ps) s" and z: "z \<in> set ps" "K z = []" "p_state (procs s z) = PROC_ZOMBIE"
    and par: "p_parent (procs s z) = Some par" and ne: "init_proc_ptr s \<noteq> Some z" "z \<noteq> curr_proc s"
    and bf: "bf_inv s" and pp: "proc_pages s z q k"
  shows "\<exists>s'. reap z 0 s = ret s' \<and> family s' (remove1 z ps) (K(par := remove1 z (K par))) \<and> num_proc s' = num_proc s - 1 \<and>
    hash_links s' = del_list (LNode z) (hash_links s) \<and>
    sched_inv (set ps - {z}) s' \<and> run_set (set ps - {z}) s' = run_set (set ps) s \<and> curr_proc s' = curr_proc s \<and>
    bf_inv s' \<and> free_pages_of s' = free_pages_of s \<union> {q, k, k + 1} \<and> (\<forall>x. p_state (procs s' x) = p_state (procs s x))"
proof -
  obtain flag s1 where s1: "local_intr_save s = (flag, s1)"
    by fastforce
  define s2 where "s2 = unhash_proc z s1"
  have i1: "procs s1 = procs s" "curr_proc s1 = curr_proc s" "idle_proc s1 = idle_proc s" "num_proc s1 = num_proc s"
      "proc_links s1 = proc_links s" "hash_links s1 = hash_links s" "same_rq s s1" "same_free s s1"
    using s1 by (auto simp: local_intr_save_def intr_disable_def same_rq_def same_free_def split: if_splits)
  have i2: "procs s2 = procs s" "curr_proc s2 = curr_proc s" "idle_proc s2 = idle_proc s" "num_proc s2 = num_proc s"
      "proc_links s2 = proc_links s" "hash_links s2 = del_list (LNode z) (hash_links s)" "same_rq s s2" "same_free s s2"
    using i1 by (simp_all add: s2_def unhash_proc_def same_rq_def same_free_def)
  have fam2: "family s2 ps K"
    using fam by (simp add: family_def proc_rep_def i2)
  obtain s3 where s3: "remove_links z s2 = ret s3" "num_proc s3 = num_proc s - 1" "idle_proc s3 = idle_proc s"
      "family s3 (remove1 z ps) (K(par := remove1 z (K par)))"
    using remove_links_family_ok [OF fam2 z(1,2)] par i2 by auto
  note f3 = remove_links_frame [OF s3(1)]
  define s4 where "s4 = local_intr_restore flag s3"
  have i4: "procs s4 = procs s3" "curr_proc s4 = curr_proc s3" "num_proc s4 = num_proc s3" "hash_links s4 = hash_links s3"
      "same_family s3 s4" "same_rq s3 s4" "same_free s3 s4" "idle_proc s4 = idle_proc s3"
    using restore_family [of s3 flag] same_free_intr(2) [of s3 flag]
    by (simp_all add: s4_def same_rq_def local_intr_restore_def intr_enable_def)
  have free4: "same_free s s4"
    using i2(8) f3(1) i4(7) by (simp add: same_free_def)
  note SF = same_free_inv [OF free4]
  have "p_kernel_stack (procs s4 x) = p_kernel_stack (procs s x)" for x
    by (simp add: i4(1) f3(8) i2(1))
  then have "proc_pages s4 z q k = proc_pages s z q k"
    by (simp only: proc_pages_def SF(4,5))
  then obtain s5 s6 where s5: "free_kernel_stack z s4 = ret s5" "free z PCB_SIZE s5 = ret s6" "bf_inv s6" "pmm_only s4 s6"
      "free_pages_of s6 = free_pages_of s \<union> {q, k, k + 1}"
    using reap_pages [of s4 z q k] bf pp by (auto simp: SF)
  note k6 = pmm_only_kern [OF s5(4)] and p6 = pmm_only_procs [OF s5(4)]
  have "z \<noteq> idle_proc s"
    using familyD(2) [OF fam] z(1) by auto
  then have "reap z 0 s = ret s6"
    using s3(1) s5(1,2) ne(1) by (simp add: reap_def s1 flip: s2_def s4_def)
  moreover have "family s6 (remove1 z ps) (K(par := remove1 z (K par)))"
    using s3(4) by (simp add: same_family_family [OF p6(1)] same_family_family [OF i4(5)])
  moreover have rq: "same_rq s s6"
    using i2(7) f3(2) i4(6) p6(2) by (simp add: same_rq_def)
  have st: "p_state (procs s6 x) = p_state (procs s x)" "p_gpt (procs s6 x) = p_gpt (procs s x)" for x
    by (simp_all add: k6 i4 f3 i2)
  have "z \<notin> run_set (set ps) s"
    using z(3) by (simp add: run_set_def const_defs)
  note leave = sched_inv_leave [OF inv this ne(2)]
  have "sched_inv (set ps - {z}) s6"
    by (rule sched_inv_cong [OF leave(1) rq _ _ st]) (simp_all add: k6 i4 f3 i2 s3(3))
  moreover have "run_set (set ps - {z}) s6 = run_set (set ps) s"
    using leave(2) by (simp add: run_set_def st)
  ultimately show ?thesis
    using s5(3,5) st by (simp add: k6 i4 f3 i2 s3(2) p6(3))
qed

section \<open>The children that are waited for\<close>

definition wait_children :: "int \<Rightarrow> 'z sched_scheme \<Rightarrow> pcb_ptr list \<Rightarrow> pcb_ptr list" where
  "wait_children n s xs = (if n = 0 then xs else filter (\<lambda>p. p_pid (procs s p) = n) xs)"

lemma filter_eq_one: "distinct xs \<Longrightarrow> filter (\<lambda>x. x = p) xs = (if p \<in> set xs then [p] else [])"
  by (induction xs) auto

lemma find_child_ok:
  assumes fam: "family s ps K" and inj: "inj_on (\<lambda>p. p_pid (procs s p)) (set ps)" and c: "curr_proc s \<in> set ps"
    and range: "\<forall>p\<in>set ps. 0 < p_pid (procs s p) \<and> p_pid (procs s p) < MAX_PID"
  shows "find_child n s = ret (wait_children n s (K (curr_proc s)) \<noteq> [],
    find (\<lambda>p. p_state (procs s p) = PROC_ZOMBIE) (wait_children n s (K (curr_proc s))))"
proof (cases "n = 0")
  case True
  then show ?thesis
    using find_child_any [OF familyD(3) [OF fam]] c by (simp add: wait_children_def)
next
  case False
  let ?k = "K (curr_proc s)"
  have sub: "set ?k \<subseteq> set ps" and d: "distinct ?k"
    using familyD(4) [OF fam] kidsD(2) [OF familyD(3) [OF fam]] c by auto
  show ?thesis
  proof (cases "n \<in> pids s ps")
    case True
    then obtain p where p: "p \<in> set ps" "n = p_pid (procs s p)"
      by (auto simp: pids_def)
    have "(\<lambda>x. p_pid (procs s x) = n) x \<longleftrightarrow> x = p" if "x \<in> set ?k" for x
      using that sub p inj by (auto dest: inj_onD)
    then have "filter (\<lambda>x. p_pid (procs s x) = n) ?k = filter (\<lambda>x. x = p) ?k"
      by (intro filter_cong) auto
    also have "\<dots> = (if p \<in> set ?k then [p] else [])"
      using d by (rule filter_eq_one)
    finally show ?thesis
      using find_child_one [OF fam inj _ p(1)] c bspec [OF range p(1)] False by (simp add: wait_children_def flip: p(2))
  next
    case nope: False
    then have "get_proc n s = ret None"
      using get_proc_ok [OF familyD(1) [OF fam], of n] by (auto simp: find_None_iff pids_def)
    moreover have "filter (\<lambda>x. p_pid (procs s x) = n) ?k = []"
      using nope sub by (auto simp: pids_def filter_empty_conv)
    ultimately show ?thesis
      using False by (simp add: find_child_def wait_children_def)
  qed
qed

text \<open>C22: \<open>do_wait\<close> with a null status address, for any child or for the one with a given number. A process
  without such a child gets \<open>E_BAD_PROC\<close>. With such a child but no zombie among them it falls asleep waiting
  for a child, leaves the run queue and another process runs; the process table stays. Otherwise the youngest such
  zombie is reaped: it leaves the process list, the numbers' hash lists and its parent's children, the pages of its
  kernel stack and of its control block are free again, the caller goes on and nobody else changes state.\<close>

theorem do_wait_outcomes:
  fixes s :: "'z ksched_scheme"
  assumes "family s ps K" and "sched_inv (set ps) s" and "curr_proc s \<in> set ps"
    and "inj_on (\<lambda>p. p_pid (procs s p)) (set ps)" and "\<forall>p\<in>set ps. 0 < p_pid (procs s p) \<and> p_pid (procs s p) < MAX_PID"
  shows "case find (\<lambda>p. p_state (procs s p) = PROC_ZOMBIE) (wait_children n s (K (curr_proc s))) of
      Some z \<Rightarrow> K z = [] \<and> init_proc_ptr s \<noteq> Some z \<and> bf_inv s \<and> proc_pages s z q k \<longrightarrow>
        (\<exists>s'. do_wait n 0 s = ret (Inl 0, s') \<and>
          family s' (remove1 z ps) (K(curr_proc s := remove1 z (K (curr_proc s)))) \<and> num_proc s' = num_proc s - 1 \<and>
          hash_links s' = del_list (LNode z) (hash_links s) \<and>
          sched_inv (set ps - {z}) s' \<and> run_set (set ps - {z}) s' = run_set (set ps) s \<and> curr_proc s' = curr_proc s \<and>
          bf_inv s' \<and> free_pages_of s' = free_pages_of s \<union> {q, k, k + 1} \<and>
          (\<forall>x. p_state (procs s' x) = p_state (procs s x)))
    | None \<Rightarrow>
        if wait_children n s (K (curr_proc s)) = [] then do_wait n 0 s = ret (Inl (- E_BAD_PROC), s)
        else \<exists>s'. do_wait n 0 s = ret (Inr (InWait n 0), s') \<and> family s' ps K \<and> sched_inv (set ps) s' \<and>
          p_state (procs s' (curr_proc s)) = PROC_SLEEPING \<and> p_wait_state (procs s' (curr_proc s)) = WAIT_CHILD \<and>
          run_set (set ps) s' = run_set (set ps) s - {curr_proc s} \<and> curr_proc s' \<noteq> curr_proc s"
proof -
  let ?w = "wait_children n s (K (curr_proc s))" and ?zombie = "\<lambda>p. p_state (procs s p) = PROC_ZOMBIE"
  note f = find_child_ok [OF assms(1,4,3,5), of n]
  have w: "do_wait n 0 s = do_wait_loop n 0 s"
    by (simp add: do_wait_def)
  show ?thesis
  proof (cases "find ?zombie ?w")
    case None
    then show ?thesis
      using f do_wait_sleep [OF assms(1-3), of n 0] by (cases "?w = []") (simp_all add: w, simp add: do_wait_loop_def)
  next
    case (Some z)
    have "z \<in> set ?w" "p_state (procs s z) = PROC_ZOMBIE"
      using Some by (auto simp: find_Some_iff)
    then have z: "z \<in> set (K (curr_proc s))" "p_state (procs s z) = PROC_ZOMBIE"
      by (auto simp: wait_children_def split: if_splits)
    have c: "curr_proc s \<in> insert (idle_proc s) (set ps)"
      using assms(3) by simp
    have zp: "z \<in> set ps" "p_parent (procs s z) = Some (curr_proc s)"
      using familyD(4) [OF assms(1) c] kidsD(4) [OF familyD(3) [OF assms(1) c]] z(1) by auto
    have "do_wait n 0 s = bind_exec (reap z 0 s) (\<lambda>s'. ret (Inl 0, s'))"
      using f Some by (simp add: w do_wait_loop_def)
    note run = this
    have ne: "z \<noteq> curr_proc s" if "K z = []"
      using z(1) that by auto
    show ?thesis
      unfolding Some option.case run
      by (rule impI, elim conjE, frule (2) reap_ok [OF assms(1,2) zp(1) _ z(2) zp(2) _ ne]) auto
  qed
qed

text \<open>Process 1 runs, is \<open>init\<close>, and has a zombie child with the number 2 whose control block is page \<open>0x82005\<close>
  and whose kernel stack are the two pages after it.\<close>

definition sample_zombie :: pcb where
  "sample_zombie = sample_pcb\<lparr>p_state := PROC_ZOMBIE, p_pid := 2, p_kernel_stack := page_va 0x82006, p_parent := Some 1,
     p_run_queue := None\<rparr>"

definition sample_reap :: ksched where
  "sample_reap = sample_boot\<lparr>procs := (\<lambda>p. if p = page_va 0x82005 then sample_zombie
       else if p = 1 then sample_pcb\<lparr>p_parent := Some 9, p_child := Some (page_va 0x82005)\<rparr>
       else sample_pcb\<lparr>p_pid := 0, p_child := Some 1\<rparr>),
     proc_links := \<lparr>prv = (\<lambda>x. if x = LHead () then LNode 1 else if x = LNode 1 then LNode (page_va 0x82005) else LHead ()),
       nxt = (\<lambda>x. if x = LHead () then LNode (page_va 0x82005) else if x = LNode 1 then LHead () else LNode 1)\<rparr>,
     num_proc := 3, curr_proc := 1, rq_num_proc := 0, rq_run_pool := None\<rparr>"

definition sample_reap_kids :: "pcb_ptr \<Rightarrow> pcb_ptr list" where
  "sample_reap_kids p = (if p = 9 then [1] else if p = 1 then [page_va 0x82005] else [])"

lemma sample_page_va: "page_va 0x82005 = 0xFFFFFFFF82005000"
  by (simp add: page_va_def const_defs)

lemma sample_reap_sel:
  "procs sample_reap p = (if p = page_va 0x82005 then sample_zombie
     else if p = 1 then sample_pcb\<lparr>p_parent := Some 9, p_child := Some (page_va 0x82005)\<rparr>
     else sample_pcb\<lparr>p_pid := 0, p_child := Some 1\<rparr>)"
  "idle_proc sample_reap = 9" "curr_proc sample_reap = 1" "init_proc_ptr sample_reap = Some 1"
  by (simp_all add: sample_reap_def sample_boot_def sample_kern_sel)

lemma sample_reap_family: "family sample_reap [page_va 0x82005, 1] sample_reap_kids"
proof -
  have "proc_rep sample_reap [page_va 0x82005, 1]"
    by (simp add: proc_rep_def sample_reap_def dlist_def sample_page_va)
  then show ?thesis
    by (simp add: family_def sample_reap_sel kids_def sample_reap_kids_def sample_page_va sample_pcb_def sample_zombie_def)
qed

lemma sample_reap_inv: "sched_inv {page_va 0x82005, 1} sample_reap"
proof -
  have rs: "run_set {page_va 0x82005, 1} sample_reap = {1}"
    by (auto simp: run_set_def sample_reap_sel sample_page_va sample_pcb_def sample_zombie_def const_defs)
  have none: "rq_run_pool sample_reap = None" "rq_num_proc sample_reap = 0" "rq_max_time_slice sample_reap = 5"
    by (simp_all add: sample_reap_def sample_boot_def sample_kern_sel sample_sleeper_def sample_sched_def)
  have w: "stride_window (Suc (unat BIG_STRIDE)) 0 sample_reap A" if "A \<subseteq> {1}" for A
    using that by (auto simp: stride_window_def sample_reap_sel sample_page_va sample_pcb_def ahead_def BIG_STRIDE_def)
  have "rq_rep sample_reap Leaf"
    using w [of "{}"] by (auto simp: rq_rep_def none sh_heap_def)
  then have "stride_inv sample_reap" "stride_queue sample_reap = {}"
    using rq_rep_queue [of sample_reap Leaf] by (auto simp: stride_inv_def)
  moreover have "proc_ok sample_reap p" for p
    by (simp add: proc_ok_def sample_reap_sel sample_pcb_def sample_zombie_def const_defs)
  ultimately show ?thesis
    using w [of "{1}"] unfolding sched_inv_def rs by (auto simp: sample_reap_sel sample_page_va sample_pcb_def)
qed

theorem do_wait_outcomes_witness:
  "\<exists>s'. do_wait 2 0 sample_reap = ret (Inl 0, s') \<and> family s' [1] (sample_reap_kids(1 := [])) \<and> sched_inv {1} s' \<and>
    {0x82005, 0x82006, 0x82007} \<subseteq> free_pages_of s' \<and> curr_proc s' = 1"
proof -
  have sf: "same_free sample_pmm sample_reap"
    by (simp add: same_free_def sample_reap_def sample_boot_def)
  note SF = same_free_inv [OF sf]
  have f: "free_pages_of sample_reap = {0x82000..<0x82005} \<union> {0x82010..<0x82013}"
    by (simp add: free_pages_of_def SF(2) blocks_of_abs [OF sample_pmm_abs])
  have bf: "bf_inv sample_reap"
    by (simp add: SF(3) bf_invI [OF sample_pmm_abs])
  have "page_usable sample_reap i" if "i \<in> {0x82005, 0x82006, 0x82007}" for i
    using that by (auto simp: SF(5) page_usable_def sample_pmm_def)
  then have pp: "proc_pages sample_reap (page_va 0x82005) 0x82005 0x82006"
    by (simp add: proc_pages_def f table_page_def sample_reap_sel sample_zombie_def)
  have P: "set [page_va 0x82005, 1] = {page_va 0x82005, 1}"
    by simp
  have c: "curr_proc sample_reap \<in> {page_va 0x82005, 1}" "inj_on (\<lambda>p. p_pid (procs sample_reap p)) {page_va 0x82005, 1}"
      "\<forall>p\<in>{page_va 0x82005, 1}. 0 < p_pid (procs sample_reap p) \<and> p_pid (procs sample_reap p) < MAX_PID"
    by (simp_all add: inj_on_def sample_reap_sel sample_page_va sample_pcb_def sample_zombie_def MAX_PID_def MAX_PROCESS_def)
  have k: "sample_reap_kids 1 = [page_va 0x82005]" "sample_reap_kids (page_va 0x82005) = []" "page_va 0x82005 \<noteq> 1"
    by (simp_all add: sample_reap_kids_def sample_page_va)
  have w: "find (\<lambda>p. p_state (procs sample_reap p) = PROC_ZOMBIE) (wait_children 2 sample_reap [page_va 0x82005]) =
      Some (page_va 0x82005)"
    by (simp add: wait_children_def sample_reap_sel sample_zombie_def)
  show ?thesis
    using do_wait_outcomes [OF sample_reap_family, unfolded P, OF sample_reap_inv c, of 2 "0x82005" "0x82006"]
    unfolding sample_reap_sel(3) k(1) w option.case
    by (auto simp: k bf pp sample_reap_sel(4) insert_Diff_if)
qed

end
