(* ===== verification/Spec2Isabelle.thy ===== *)
theory Spec2Isabelle
  imports Best_Fit Philosophers_Cond Page_Table Syscall_Trap Monitor Trap_Props Range_Props Fault_Props Boot_Props User_Props
    Space_Props Load_Props Reap_Props
begin

text \<open>
  A verification library for Garret-OS, a small RISC-V (Sv39) teaching kernel in C. The kernel sits
  above 0xFFFFFFFF80200000, runs on one hart, is not preempted while it runs in supervisor mode, and
  serves user processes by traps. Its parts call each other in layers, from the bottom up: the C
  library of \<open>src/lib\<close>; the physical page allocator and the page tables of \<open>src/kernel/mm\<close>, with
  virtual memory areas and swapping; processes, the scheduler and timers in \<open>src/kernel/proc\<close>;
  semaphores, wait queues and monitors in \<open>src/kernel/sync\<close>; traps and system calls.

  Conventions. A kernel computation is an \<open>'a exec\<close>: \<open>ret x\<close> returns \<open>x\<close>; \<open>panic\<close> stops the machine
  (\<open>PANIC\<close>, a failed \<open>ASSERT\<close>, or a fault the kernel does not survive); \<open>null_deref\<close> is the use of a null
  pointer; \<open>overflow\<close> is a write behind a buffer; \<open>None\<close> is a computation that never returns.
  Machine integers are words of their width and wrap as in C. A pointer to an object is the address
  (or, for \<open>struct page\<close>, the index) of the object, a null pointer is \<open>None\<close>; the objects of one C type
  live in one map of the state. A loop over a linked structure is a \<open>partial_function (option)\<close>: it has
  no fuel, and that it ends is part of what is proved of it. A loop with a counter recurs on the number of
  iterations left. The state is one record that grows from layer to layer: \<open>pmm\<close> (pages and free
  list), \<open>kmem\<close> (bytes, areas, disk), \<open>sched\<close> (control blocks and run queue), \<open>tsched\<close> (timers), \<open>wsched\<close>
  (wait queues), \<open>ssched\<close> (semaphores), \<open>ksched\<close> (process table, trap frames, console), and on top of it
  \<open>machine\<close> (control registers and firmware requests), beside \<open>msched\<close> (monitors); an operation of one layer is polymorphic in the layers above, so it is called as it is.
  A call that gives up the processor is cut at \<open>schedule\<close>: it returns a value of \<open>blocked\<close> (or \<open>False\<close>)
  that says how to go on, and the function ending in \<open>_resume\<close> is the rest of the C function. Turning
  interrupts off and on is modelled by the bit \<open>SIE\<close> of \<open>sstatus\<close>.

  Theories and sources.
  \<^item> \<open>Kprelude\<close>: the types of \<open>lib/defs.h\<close>, \<open>lib/errno.h\<close>, \<open>ASSERT\<close> and \<open>PANIC\<close>, the outcome type with its
    sequencing and simplification rules, collections of hints.
  \<^item> \<open>Klist\<close>: \<open>kernel/lib/list.h\<close>; \<open>dlist\<close> relates the pointers to the sequence of nodes.
  \<^item> \<open>Kstring\<close>, \<open>Knumber\<close>, \<open>Kstdio\<close>: \<open>lib/string.c\<close>, \<open>lib/stdlib.c\<close>, \<open>lib/rand.c\<close>, \<open>kernel/lib/hash.c\<close>,
    \<open>atomic.h\<close>, \<open>ctype.h\<close>, \<open>kernel/lib/stdio.c\<close>: termination and results of the string functions, number to
    text and back, line input.
  \<^item> \<open>Page_Layout\<close>: \<open>memlayout.h\<close>, \<open>page.h\<close> and the conversions of \<open>pmm.h\<close>.
  \<^item> \<open>Best_Fit\<close>: \<open>best_fit_pmm.c\<close>. A state represents a sorted list of disjoint maximal blocks; allocation and
    freeing refine operations on that list. \<open>Pm_Manager\<close> is the interface \<open>struct pm_manager\<close>, a locale that
    \<open>Best_Fit\<close> interprets.
  \<^item> \<open>Kmem\<close>, \<open>Swap\<close>, \<open>Phys_Mem\<close>, \<open>Vmm\<close>: the byte memory, \<open>ide.c\<close>, \<open>swap.h\<close>, \<open>swap.c\<close>, \<open>fifo_swap.c\<close>, \<open>pmm.c\<close> and
    \<open>vmm.c\<close>; \<open>Vmm\<close> relates the cached, sorted list of areas to the set of intervals it stands for.
  \<^item> \<open>Page_Map\<close> is the abstract three-level page table, a partial map from user pages to entries with
    reference counts, and the boot page table of \<open>entry.S\<close>, which every process table is a copy of: its entries 2 and 510
    are gigapages and not tables. The invariant \<open>aspace\<close> therefore speaks of the tables below the entries 0 and 1, which
    hold all addresses below \<open>USER_END\<close>; \<open>Space_Props\<close> shows that it holds of the boot table after \<open>init_page\<close> and that
    \<open>alloc_gpt\<close> establishes it for a new process. \<open>Page_Table\<close> shows that \<open>get_pte\<close>, \<open>add_page\<close>, \<open>del_page\<close> and \<open>va2pa_mmu\<close> on the bytes
    implement its operations. \<open>Swap_Props\<close> follows a page to the disk and back,
    \<open>Range_Props\<close> clears a range, \<open>Fault_Props\<close> has the page faults on addresses without an entry.
  \<^item> \<open>Skew_Heap_Ptr\<close>: \<open>lib/skew_heap.h\<close>, refined to trees for any order that is good on the nodes (locale
    \<open>skew_order\<close>). \<open>Stride\<close>: \<open>stride_scheduler.c\<close>; the wrapping comparison is an order as long as the strides
    lie in a window of \<open>BIG_STRIDE\<close>. \<open>Scheduler_Class\<close> is the interface \<open>struct scheduler\<close>, interpreted by
    \<open>Stride\<close>; the lemmas of the core scheduler are proved from it.
  \<^item> \<open>Proc_State\<close>, \<open>Schedule\<close>, \<open>Timer_List\<close>: \<open>proc.h\<close>, \<open>schedule.c\<close> and \<open>run_proc\<close>. \<open>sched_inv\<close> says that the queue
    holds exactly the runnable processes that do not run. Timers are stored as differences and refine
    a map from timers to absolute deadlines.
  \<^item> \<open>Wait_Queue\<close>, \<open>Semaphore\<close>, \<open>Monitor\<close>: \<open>wait.c\<close>, \<open>sem.c\<close>, \<open>monitor.c\<close>. \<open>Philosophers\<close> and
    \<open>Philosophers_Cond\<close>: the two versions of \<open>test_phi.c\<close> as step relations over all interleavings, the
    second with the queues as the wait queues of the kernel really behave.
  \<^item> \<open>Proc_Table\<close>, \<open>Proc_Life\<close>, \<open>Exec_Load\<close>: \<open>proc.c\<close>: process numbers, family links, hash lists; fork, exit, wait,
    kill, sleep; \<open>load_bin\<close> and \<open>do_execve\<close>, with what it does to the permissions of segments in \<open>Load_Props\<close>. \<open>family\<close> relates the links to the tree of children, \<open>pid_inv\<close> the
    static variables of \<open>alloc_pid\<close> to the numbers in use. \<open>Proc_Inv\<close> has the lemmas, \<open>Proc_Props\<close>
    the properties, \<open>Reap_Props\<close> waiting for children and the end of a zombie.
  \<^item> \<open>User_Access\<close>, \<open>Syscall_Trap\<close>, \<open>Trap_Props\<close>: \<open>trap.c\<close>, \<open>syscall.c\<close> and the stubs of \<open>user/lib/syscall.c\<close>. A
    dereferenced user pointer goes through \<open>mmu\<close>, the walk of the hardware with its leaves at the root and its check of
    the permissions; what it faults on runs the page fault path. \<open>Trap_Props\<close> states the dispatch of a user's call over
    the numbers of \<open>syscall.h\<close> written out; reading the table of handlers outside its bounds is a case of its own.

  \<^item> \<open>Best_Fit_Test\<close>, \<open>Self_Test\<close>: the self tests that run at the start, in \<open>best_fit_pmm.c\<close>, \<open>pmm.c\<close>, \<open>vmm.c\<close>,
    \<open>swap.c\<close> and \<open>fifo_swap.c\<close>; the test of the allocator is proved to pass on every memory with a block of
    five pages, although it hides the free list from the allocator while it runs.
  \<^item> \<open>Boot\<close>, \<open>Boot_Props\<close>: \<open>init.c\<close>, \<open>init_pmm\<close>, \<open>init_swap\<close>, \<open>trap.c\<close> and \<open>timer.c\<close> at the start, \<open>sbi.c\<close>,
    \<open>debug.c\<close>, \<open>assert.c\<close>, \<open>kernel_execve\<close> and \<open>init_main\<close>; the memory that \<open>init_page\<close> hands out suffices for
    \<open>init_proc\<close>, which establishes the invariants that the properties of the process table and of the scheduler assume.
  \<^item> \<open>User_Prog\<close>, \<open>User_Props\<close>: the programs of \<open>src/user\<close> and their library as trees of system calls, a codatatype
    because some of them never end. They only issue calls that the kernel defines; \<open>forktree\<close> and \<open>matrix\<close> are
    followed through, and \<open>sleep\<close> is shown to depend on a variable without a value.

  What the properties assume. An invariant of a component (\<open>bf_inv\<close>, \<open>aspace\<close>, \<open>sched_inv\<close>, \<open>family\<close>, \<open>pid_inv\<close>,
  \<open>vma_rep\<close>, \<open>fifo_rep\<close>) is a hypothesis about the state before a call and part of the conclusion about the
  state after it. Bounds: \<open>low_blocks k\<close> and \<open>roomy k m\<close> say that free blocks lie below the end of DRAM, which
  the code does not check (\<open>pmm.c:27\<close>); \<open>k\<close> counts the pages a call can take: two for the tables of an address, three
  for a page fault, four for \<open>init_proc\<close>. Strides are compared within a window of \<open>BIG_STRIDE\<close>.

  Parameters. Addresses the linker chooses (\<open>end\<close>, \<open>__alltraps\<close>, \<open>fork_ret\<close>, ...) are arguments or the field
  \<open>sym\<close>; the firmware console is a stream of keys and a list of characters; what the firmware answers to a request is the
  field \<open>sbi_result\<close>; registers a variadic call reads beyond its arguments are the argument \<open>junk\<close>; \<open>__FILE__\<close> is
  the argument \<open>file\<close> of a user program.

  Left out: the console messages of \<open>init_scheduler\<close>, \<open>wakeup_proc\<close>, \<open>run_timers\<close>, \<open>handle_page_fault\<close> (its warning
  too), \<open>va2pa_mmu\<close> and of swapping, whose layers of the state have no console. In the philosopher systems a sleep may end at any
  time and any runnable process may run next, so they have more runs than the program and only what holds of all reachable
  states, or of all runs, is claimed. What the user program theorems say of several processes is about an idealised kernel
  (\<open>family_run\<close>: fork never fails and gives consecutive numbers; \<open>one_child\<close>: one child and a store of four bytes), and not
  about \<open>do_fork\<close> and \<open>do_wait\<close>; the rounds of \<open>matrix.c\<close> are one step of a program and a computation of their own, in
  which the overflow of an \<open>i32\<close>, undefined in C, wraps.

  Not modelled: assembler (the instructions of \<open>entry.S\<close>, \<open>switch.S\<close>, \<open>trap_entry.S\<close>, \<open>proc_entry.S\<close>, \<open>user_entry.S\<close>) and the linker
  scripts, since the model has no instruction level: \<open>switch_proc\<close> is the change of \<open>curr_proc\<close>, and saving the registers
  is \<open>kernel_trap_entry\<close> or the frame that a trap gets. The endless loop of \<open>run_idle\<close> is cut into rounds, and so is the
  loop of \<open>init_main\<close> around its tests; the dining philosophers that \<open>init_main\<close> starts are the step relations above
  and not part of its definition. Page descriptors, control blocks and areas are kept in maps of their own, apart
  from the byte memory that holds page tables, user pages and strings. A page fault inside a copying
  loop of the kernel is resolved access by access, not re-executed as an instruction. In the user programs only variables
  whose address is given to the kernel are in memory.
\<close>

end
